(* ===== verification/Prelude.thy ===== *)
theory Prelude
  imports Main "HOL-Library.Word" "HOL-Library.List_Lexorder" "HOL-Library.Sublist"
    "HOL-Library.Monad_Syntax"
begin

text \<open>
  Shared vocabulary of the development: bytes and byte strings, the 32-bit unsigned
  arithmetic of Go's \<^verbatim>\<open>uint32\<close> written out on natural numbers, Go panics as
  \<^term>\<open>None\<close> in the option monad, and the generic facts on lists that the component
  theories share (longest common prefixes, the lexicographic order, sorted association
  lists).
\<close>

unbundle bit_operations_syntax

named_theorems u32_simps \<open>32-bit arithmetic that does not wrap under the stated bounds\<close>
named_theorems panic_free \<open>operations that return (do not panic) on well-formed arguments\<close>

type_synonym byte = "8 word"
type_synonym bytes = "byte list"

subsection \<open>Unsigned 32-bit arithmetic\<close>

text \<open>Go's \<^verbatim>\<open>uint32\<close> sums and differences wrap modulo \<open>2 ^ 32\<close>.\<close>

definition u32 :: "nat \<Rightarrow> nat" where
  "u32 n = n mod 2 ^ 32"

definition u32_add :: "nat \<Rightarrow> nat \<Rightarrow> nat" where
  "u32_add a b = u32 (a + b)"

definition u32_sub :: "nat \<Rightarrow> nat \<Rightarrow> nat" where
  "u32_sub a b = u32 (a + 2 ^ 32 - b)"

lemma u32_id [u32_simps]: "n < 2 ^ 32 \<Longrightarrow> u32 n = n"
  by (simp add: u32_def)

lemma u32_less: "u32 n < 2 ^ 32"
  by (simp add: u32_def)

lemma u32_add_id [u32_simps]: "a + b < 2 ^ 32 \<Longrightarrow> u32_add a b = a + b"
  by (simp add: u32_add_def u32_id)

lemma u32_sub_id [u32_simps]:
  assumes "b \<le> a" and "a < 2 ^ 32"
  shows "u32_sub a b = a - b"
proof -
  have "a + 2 ^ 32 - b = (a - b) + 2 ^ 32" using assms by simp
  then show ?thesis using assms unfolding u32_sub_def u32_def
    by (metis less_imp_diff_less mod_add_self2 mod_less)
qed

subsection \<open>Slices\<close>

text \<open>
  Reading \<open>s[i]\<close> and taking \<open>s[lo:]\<close> or \<open>s[:hi]\<close> of a Go slice panics outside the
  slice; here the panic is \<^term>\<open>None\<close>.
\<close>

definition slice_at :: "'a list \<Rightarrow> nat \<Rightarrow> 'a option" where
  "slice_at s i = (if i < length s then Some (s ! i) else None)"

definition slice_from :: "'a list \<Rightarrow> nat \<Rightarrow> 'a list option" where
  "slice_from s lo = (if lo \<le> length s then Some (drop lo s) else None)"

definition slice_to :: "'a list \<Rightarrow> nat \<Rightarrow> 'a list option" where
  "slice_to s hi = (if hi \<le> length s then Some (take hi s) else None)"

lemma slice_at_Some [panic_free]: "i < length s \<Longrightarrow> slice_at s i = Some (s ! i)"
  by (simp add: slice_at_def)

lemma slice_from_Some [panic_free]: "lo \<le> length s \<Longrightarrow> slice_from s lo = Some (drop lo s)"
  by (simp add: slice_from_def)

lemma slice_to_Some [panic_free]: "hi \<le> length s \<Longrightarrow> slice_to s hi = Some (take hi s)"
  by (simp add: slice_to_def)

subsection \<open>Longest common prefix\<close>

fun lcp_len :: "'a list \<Rightarrow> 'a list \<Rightarrow> nat" where
  "lcp_len (x # xs) (y # ys) = (if x = y then Suc (lcp_len xs ys) else 0)"
| "lcp_len _ _ = 0"

lemma lcp_len_le: "lcp_len xs ys \<le> length xs" "lcp_len xs ys \<le> length ys"
  by (induction xs ys rule: lcp_len.induct) auto

lemma lcp_len_take: "take (lcp_len xs ys) xs = take (lcp_len xs ys) ys"
  by (induction xs ys rule: lcp_len.induct) auto

lemma lcp_len_differ:
  "lcp_len xs ys < length xs \<Longrightarrow> lcp_len xs ys < length ys \<Longrightarrow>
   xs ! lcp_len xs ys \<noteq> ys ! lcp_len xs ys"
  by (induction xs ys rule: lcp_len.induct) (auto split: if_splits)

text \<open>The three facts above characterise the length.\<close>

lemma lcp_lenI:
  assumes "n \<le> length xs" and "n \<le> length ys" and "\<And>i. i < n \<Longrightarrow> xs ! i = ys ! i"
    and "n = length xs \<or> n = length ys \<or> xs ! n \<noteq> ys ! n"
  shows "lcp_len xs ys = n"
  using assms
proof (induction xs ys arbitrary: n rule: lcp_len.induct)
  case (1 x xs y ys)
  show ?case
  proof (cases n)
    case 0
    with "1.prems"(4) show ?thesis by auto
  next
    case (Suc m)
    have eq: "x = y" using "1.prems"(3)[of 0] Suc by simp
    have "\<And>i. i < m \<Longrightarrow> xs ! i = ys ! i" using "1.prems"(3)[of "Suc i" for i] Suc by auto
    moreover have "m = length xs \<or> m = length ys \<or> xs ! m \<noteq> ys ! m"
      using "1.prems"(4) Suc by auto
    ultimately have "lcp_len xs ys = m"
      using "1.IH"[OF eq, of m] "1.prems"(1,2) Suc by simp
    with eq Suc show ?thesis by simp
  qed
qed auto

lemma lcp_len_full_iff: "lcp_len xs ys = length xs \<longleftrightarrow> prefix xs ys"
  by (induction xs ys rule: lcp_len.induct) auto

lemma lcp_len_commute: "lcp_len xs ys = lcp_len ys xs"
  by (induction xs ys rule: lcp_len.induct) auto

lemma lcp_len_take_min: "lcp_len (take n xs) ys = min n (lcp_len xs ys)"
  by (induction xs ys arbitrary: n rule: lcp_len.induct) (auto simp: take_Cons split: nat.splits)

subsection \<open>Unsigned 64-bit counters\<close>

lemma word_inc_unat:
  fixes q :: "64 word"
  assumes "q \<noteq> - 1"
  shows "unat (q + 1) = Suc (unat q)"
proof -
  have "unat q \<noteq> 2 ^ 64 - 1"
  proof
    assume "unat q = 2 ^ 64 - 1"
    then have "word_of_nat (unat q) = (word_of_nat (2 ^ 64 - 1) :: 64 word)" by simp
    with assms show False by simp
  qed
  moreover have "unat q < 2 ^ 64" using unsigned_less[of q] by simp
  ultimately show ?thesis by (simp add: unat_word_ariths)
qed

lemma word_less_Suc: "(q :: 64 word) \<noteq> - 1 \<Longrightarrow> s \<le> q \<Longrightarrow> s < q + 1"
  by (simp add: word_less_nat_alt word_le_nat_alt word_inc_unat)

subsection \<open>Loops whose body may panic\<close>

fun iter_opt :: "('s \<Rightarrow> 'a \<Rightarrow> 's option) \<Rightarrow> 's \<Rightarrow> 'a list \<Rightarrow> 's option" where
  "iter_opt f s [] = Some s"
| "iter_opt f s (x # xs) = do { s' \<leftarrow> f s x; iter_opt f s' xs }"

end
