(* ===== verification/Bits.thy ===== *)
theory Bits
  imports Prelude
begin

text \<open>
  The byte and bit helpers of \<^verbatim>\<open>src/services/syncbase/store/ptrie/util.go\<close>. A byte
  string is read as a bit string, most significant bit first (\<open>bits_of\<close>); a bit is a
  \<^typ>\<open>bool\<close> (\<^term>\<open>True\<close> is 1). The lemmas relate each helper to \<open>bits_of\<close>: \<open>getBit\<close> reads
  one bit, \<open>sliceBitLCP\<close> computes a longest common prefix, \<open>appendBits\<close> concatenates, and
  the byte order \<^verbatim>\<open>bytes.Compare\<close> is the order of the bit strings.
\<close>

subsection \<open>Bit strings of byte strings\<close>

definition byte_bits :: "byte \<Rightarrow> bool list" where
  "byte_bits w = map (\<lambda>i. bit w (7 - i)) [0..<8]"

definition bits_of :: "bytes \<Rightarrow> bool list" where
  "bits_of bs = concat (map byte_bits bs)"

lemma length_byte_bits [simp]: "length (byte_bits w) = 8"
  by (simp add: byte_bits_def)

lemma bits_of_simps [simp]:
  "bits_of [] = []" "bits_of (w # bs) = byte_bits w @ bits_of bs"
  "bits_of (xs @ ys) = bits_of xs @ bits_of ys"
  by (simp_all add: bits_of_def)

lemma length_bits_of [simp]: "length (bits_of bs) = 8 * length bs"
  by (induction bs) auto

lemma nth_byte_bits: "i < 8 \<Longrightarrow> byte_bits w ! i = bit w (7 - i)"
  by (simp add: byte_bits_def)

lemma nth_bits_of:
  "i < 8 * length bs \<Longrightarrow> bits_of bs ! i = bit (bs ! (i div 8)) (7 - i mod 8)"
proof (induction bs arbitrary: i)
  case Nil
  then show ?case by simp
next
  case (Cons w bs)
  show ?case
  proof (cases "i < 8")
    case True
    then show ?thesis by (simp add: nth_append nth_byte_bits)
  next
    case False
    with Cons.prems have "bits_of bs ! (i - 8) = bit (bs ! ((i - 8) div 8)) (7 - (i - 8) mod 8)"
      by (intro Cons.IH) simp
    with False show ?thesis by (simp add: nth_append le_div_geq le_mod_geq)
  qed
qed

lemma bits_of_take: "bits_of (take n bs) = take (8 * n) (bits_of bs)"
  by (induction bs arbitrary: n) (auto simp: take_Cons split: nat.splits)

lemma bits_of_drop: "bits_of (drop n bs) = drop (8 * n) (bits_of bs)"
  by (induction bs arbitrary: n) (auto simp: drop_Cons split: nat.splits)

lemma byte_bits_inject: "byte_bits v = byte_bits w \<longleftrightarrow> v = w"
proof
  assume eq: "byte_bits v = byte_bits w"
  have "bit v n = bit w n" if "n < 8" for n
    using arg_cong[OF eq, of "\<lambda>l. l ! (7 - n)"] that by (simp add: nth_byte_bits)
  then show "v = w" by (intro bit_word_eqI) simp
qed simp

lemma bits_of_inject [simp]: "bits_of xs = bits_of ys \<longleftrightarrow> xs = ys"
proof (induction xs arbitrary: ys)
  case Nil
  show ?case by (cases ys) (auto dest: arg_cong[of _ _ length])
next
  case (Cons x xs)
  show ?case
    by (cases ys) (auto simp: Cons.IH byte_bits_inject dest: arg_cong[of _ _ length])
qed

subsection \<open>mostSignificantBit, bitlen and getBit\<close>

text \<open>The table that \<^verbatim>\<open>init\<close> fills: \<open>0\<close> at 0 and 1, else one more than at \<open>i >> 1\<close>.\<close>

fun mostSignificantBit :: "nat \<Rightarrow> nat" where
  "mostSignificantBit i = (if i < 2 then 0 else mostSignificantBit (i div 2) + 1)"

declare mostSignificantBit.simps [simp del]

definition bitlen :: "bytes \<Rightarrow> nat" where
  "bitlen s = u32 (u32 (length s) * 8)"

definition getBit :: "bytes \<Rightarrow> nat \<Rightarrow> bool option" where
  "getBit s i = do {
     w \<leftarrow> slice_at s (i div 8);
     Some ((drop_bit (7 - i mod 8) w) AND 1 = 1)
   }"

lemma bitlen_id: "length bs < 2 ^ 29 \<Longrightarrow> bitlen bs = 8 * length bs"
  by (simp add: bitlen_def u32_id)

lemma drop_bit_and_1: "((drop_bit n w :: byte) AND 1 = 1) = bit w n"
  by (simp add: bit_iff_odd_drop_bit and_one_eq odd_iff_mod_2_eq_one)

lemma getBit_Some: "i < 8 * length bs \<Longrightarrow> getBit bs i = Some (bits_of bs ! i)"
  by (simp add: getBit_def slice_at_def drop_bit_and_1 nth_bits_of less_mult_imp_div_less
      mult.commute)

lemma mostSignificantBit_nat:
  "0 < x \<Longrightarrow> bit x (mostSignificantBit x) \<and> (\<forall>j > mostSignificantBit x. \<not> bit x j)"
proof (induction x rule: mostSignificantBit.induct)
  case (1 x)
  show ?case
  proof (cases "x < 2")
    case True
    with "1.prems" have "x = 1" by simp
    then show ?thesis by (simp add: mostSignificantBit.simps[of "Suc 0"] bit_Suc_0_iff)
  next
    case False
    with "1.IH" have IH: "bit (x div 2) (mostSignificantBit (x div 2))"
        "\<forall>j > mostSignificantBit (x div 2). \<not> bit (x div 2) j" by auto
    have "\<not> bit x j" if "Suc (mostSignificantBit (x div 2)) < j" for j
      using that IH(2) by (cases j) (auto simp: bit_Suc)
    with False IH(1) show ?thesis
      by (simp add: mostSignificantBit.simps[of x] bit_Suc)
  qed
qed

lemma mostSignificantBit_byte:
  fixes w :: byte
  assumes "w \<noteq> 0"
  shows "bit w (mostSignificantBit (unat w))"
    and "mostSignificantBit (unat w) < 8"
    and "\<And>j. mostSignificantBit (unat w) < j \<Longrightarrow> \<not> bit w j"
proof -
  have "0 < unat w" using assms by (simp add: unat_gt_0)
  note m = mostSignificantBit_nat[OF this]
  from m show b: "bit w (mostSignificantBit (unat w))" by (simp add: bit_unsigned_iff)
  from m show "\<And>j. mostSignificantBit (unat w) < j \<Longrightarrow> \<not> bit w j" by (simp add: bit_unsigned_iff)
  from b show "mostSignificantBit (unat w) < 8"
    using bit_imp_le_length[of w] by fastforce
qed


subsection \<open>sliceBitLCP\<close>

text \<open>
  The loop over the bytes after the first (\<^verbatim>\<open>for i := 1; i < minlen; i++\<close>): \<open>8 * i - skipbits\<close>
  bits are already known to be equal.
\<close>

function sliceBitLCP_loop :: "bytes \<Rightarrow> bytes \<Rightarrow> nat \<Rightarrow> nat \<Rightarrow> nat \<Rightarrow> nat option" where
  "sliceBitLCP_loop a b skipbits minlen i =
     (if i < minlen then do {
        ai \<leftarrow> slice_at a i;
        bi \<leftarrow> slice_at b i;
        (if ai XOR bi \<noteq> 0
         then Some (u32_add (u32_sub (u32 (i * 8)) skipbits)
                            (u32_sub 7 (mostSignificantBit (unat (ai XOR bi)))))
         else sliceBitLCP_loop a b skipbits minlen (Suc i))
      }
      else Some (u32_sub (u32 (minlen * 8)) skipbits))"
  by pat_completeness auto
termination
  by (relation "measure (\<lambda>(a, b, skipbits, minlen, i). minlen - i)") auto

declare sliceBitLCP_loop.simps [simp del]

definition sliceBitLCP :: "bytes \<Rightarrow> bytes \<Rightarrow> nat \<Rightarrow> nat option" where
  "sliceBitLCP a b skipbits = do {
     a0 \<leftarrow> slice_at a 0;
     b0 \<leftarrow> slice_at b 0;
     let x = push_bit skipbits (a0 XOR b0);
     if x \<noteq> 0 then Some (u32_sub 7 (mostSignificantBit (unat x)))
     else sliceBitLCP_loop a b skipbits (min (length a) (length b)) 1
   }"

text \<open>The bits of two bytes agree up to the most significant bit of their difference.\<close>

lemma byte_difference:
  fixes v w :: byte
  defines "m \<equiv> mostSignificantBit (unat (v XOR w))"
  assumes "v \<noteq> w"
  shows "m < 8" "bit v m \<noteq> bit w m" "\<And>j. m < j \<Longrightarrow> bit v j = bit w j"
proof -
  have "v = w" if "v XOR w = 0"
    using that by (intro bit_word_eqI) (metis bit_xor_iff bit_0_eq bot_apply bot_bool_def)
  then have nz: "v XOR w \<noteq> 0" using assms(2) by blast
  note msb = mostSignificantBit_byte[OF nz, folded m_def]
  from msb show "m < 8" "bit v m \<noteq> bit w m" "\<And>j. m < j \<Longrightarrow> bit v j = bit w j"
    by (auto simp: bit_xor_iff)
qed

lemma sliceBitLCP_loop_correct:
  assumes "skipbits < 8" "1 \<le> i" "i \<le> minlen" "minlen = min (length a) (length b)"
    and "8 * length a < 2 ^ 32" "8 * length b < 2 ^ 32"
    and "\<And>j. skipbits \<le> j \<Longrightarrow> j < 8 * i \<Longrightarrow> bits_of a ! j = bits_of b ! j"
  shows "sliceBitLCP_loop a b skipbits minlen i =
         Some (lcp_len (drop skipbits (bits_of a)) (drop skipbits (bits_of b)))"
  using assms
proof (induction a b skipbits minlen i rule: sliceBitLCP_loop.induct)
  case (1 a b skipbits minlen i)
  let ?xs = "drop skipbits (bits_of a)" and ?ys = "drop skipbits (bits_of b)"
  have len: "8 * minlen \<le> 8 * length a" "8 * minlen \<le> 8 * length b" using "1.prems"(4) by auto
  have sk: "skipbits \<le> 8 * length a" "skipbits \<le> 8 * length b" using "1.prems" by auto
  have agree: "?xs ! j = ?ys ! j" if "j < 8 * i - skipbits" for j
    using "1.prems"(7)[of "skipbits + j"] that sk by (simp add: nth_drop)
  show ?case
  proof (cases "i < minlen")
    case False
    with "1.prems"(3) have i: "i = minlen" by linarith
    have "lcp_len ?xs ?ys = 8 * minlen - skipbits"
      using len agree i "1.prems"(4) by (intro lcp_lenI) (auto simp: min_def)
    moreover have "u32_sub (u32 (minlen * 8)) skipbits = 8 * minlen - skipbits"
      using len "1.prems" by (subst u32_sub_id) (auto simp: u32_id)
    ultimately show ?thesis using False by (simp add: sliceBitLCP_loop.simps)
  next
    case True
    then have ia: "i < length a" and ib: "i < length b" using "1.prems"(4) by auto
    show ?thesis
    proof (cases "a ! i = b ! i")
      case True
      have "bits_of a ! j = bits_of b ! j" if "skipbits \<le> j" "j < 8 * Suc i" for j
      proof (cases "j < 8 * i")
        case False
        with that have "j div 8 = i" by simp
        then show ?thesis using that ia ib True by (simp add: nth_bits_of)
      qed (use "1.prems"(7) that in auto)
      then have "sliceBitLCP_loop a b skipbits minlen (Suc i) =
          Some (lcp_len ?xs ?ys)"
        using "1.IH"[OF \<open>i < minlen\<close> slice_at_Some[OF ia] slice_at_Some[OF ib]] True "1.prems" \<open>i < minlen\<close>
        by auto
      then show ?thesis using True \<open>i < minlen\<close> ia ib
        by (simp add: sliceBitLCP_loop.simps[of a b skipbits minlen i] slice_at_Some)
    next
      case False
      define m where "m = mostSignificantBit (unat (a ! i XOR b ! i))"
      note d = byte_difference[OF False, folded m_def]
      have nz: "a ! i XOR b ! i \<noteq> 0" using d(2) by (metis bit_xor_iff bit_0_eq bot_apply bot_bool_def)
      let ?n = "8 * i - skipbits + (7 - m)"
      have at: "bits_of a ! (8 * i + k) = bit (a ! i) (7 - k)"
               "bits_of b ! (8 * i + k) = bit (b ! i) (7 - k)" if "k < 8" for k
        using that ia ib by (auto simp: nth_bits_of)
      have eq: "?xs ! j = ?ys ! j" if "j < ?n" for j
      proof (cases "j < 8 * i - skipbits")
        case False
        then have j: "skipbits + j = 8 * i + (skipbits + j - 8 * i)" "skipbits + j - 8 * i < 7 - m"
          using that "1.prems" by auto
        then show ?thesis using at[of "skipbits + j - 8 * i"] d(3)[of "7 - (skipbits + j - 8 * i)"] ia ib
          by (simp add: nth_drop)
      qed (rule agree)
      have n: "skipbits + ?n = 8 * i + (7 - m)" using "1.prems" d(1) by auto
      have "?xs ! ?n \<noteq> ?ys ! ?n"
        using at[of "7 - m"] d(1,2) n ia ib by (simp add: nth_drop)
      then have "lcp_len ?xs ?ys = ?n"
        using eq n ia ib d(1) by (intro lcp_lenI) auto
      moreover have "u32_add (u32_sub (u32 (i * 8)) skipbits) (u32_sub 7 m) = ?n"
        using ia "1.prems" d(1) by (simp add: u32_simps mult.commute)
      ultimately show ?thesis using True ia ib nz
        by (simp add: sliceBitLCP_loop.simps[of a b skipbits minlen i] slice_at_Some m_def)
    qed
  qed
qed


theorem sliceBitLCP_correct:
  assumes "a \<noteq> []" "b \<noteq> []" "skipbits < 8" "8 * length a < 2 ^ 32" "8 * length b < 2 ^ 32"
  shows "sliceBitLCP a b skipbits =
         Some (lcp_len (drop skipbits (bits_of a)) (drop skipbits (bits_of b)))"
proof -
  obtain v a' where a: "a = v # a'" using assms(1) by (cases a) auto
  obtain w b' where b: "b = w # b'" using assms(2) by (cases b) auto
  let ?x = "push_bit skipbits (v XOR w)"
  have bx: "bit ?x j = (skipbits \<le> j \<and> j < 8 \<and> bit v (j - skipbits) \<noteq> bit w (j - skipbits))" for j
    by (auto simp: bit_push_bit_iff bit_xor_iff possible_bit_def)
  have nth: "drop skipbits (bits_of (u # c)) ! j = bit u (7 - (skipbits + j))"
    if "skipbits + j < 8" for u c j
    using that by (simp add: nth_drop nth_bits_of del: bits_of_simps)
  show ?thesis
  proof (cases "?x = 0")
    case True
    have "bit v j = bit w j" if "j < 8 - skipbits" for j
      using bx[of "j + skipbits"] True that by auto
    then have "\<And>j. skipbits \<le> j \<Longrightarrow> j < 8 * 1 \<Longrightarrow> bits_of a ! j = bits_of b ! j"
      by (simp add: a b nth_append nth_byte_bits)
    then have "sliceBitLCP_loop a b skipbits (min (length a) (length b)) 1 =
        Some (lcp_len (drop skipbits (bits_of a)) (drop skipbits (bits_of b)))"
      using assms a b by (intro sliceBitLCP_loop_correct) auto
    with True show ?thesis by (simp add: sliceBitLCP_def a b slice_at_def)
  next
    case False
    define m where "m = mostSignificantBit (unat ?x)"
    note msb = mostSignificantBit_byte[OF False, folded m_def]
    have m: "skipbits \<le> m" "m < 8" using msb(1) bx by auto
    have "lcp_len (drop skipbits (bits_of a)) (drop skipbits (bits_of b)) = 7 - m"
    proof (rule lcp_lenI)
      fix j assume j: "j < 7 - m"
      then have "bit v (7 - (skipbits + j)) = bit w (7 - (skipbits + j))"
        using msb(3)[of "7 - j"] bx[of "7 - j"] m by (auto simp: add.commute)
      then show "drop skipbits (bits_of a) ! j = drop skipbits (bits_of b) ! j"
        using nth[of j v a'] nth[of j w b'] j m unfolding a b by linarith
    next
      have "drop skipbits (bits_of a) ! (7 - m) \<noteq> drop skipbits (bits_of b) ! (7 - m)"
        using msb(1) bx[of m] m nth[of "7 - m" v a'] nth[of "7 - m" w b'] unfolding a b by auto
      then show "7 - m = length (drop skipbits (bits_of a)) \<or> 7 - m = length (drop skipbits (bits_of b)) \<or>
          drop skipbits (bits_of a) ! (7 - m) \<noteq> drop skipbits (bits_of b) ! (7 - m)" by blast
    qed (use m a b in auto)
    with False m show ?thesis by (simp add: sliceBitLCP_def a b slice_at_def m_def u32_sub_id)
  qed
qed

subsection \<open>appendBits\<close>

text \<open>
  The bytes of \<open>a\<close> past its length are zero: \<^verbatim>\<open>make\<close> zeroes a fresh buffer. When the old
  buffer has the capacity its spare bytes are kept instead, but they are never part of the
  result: everything from \<open>bitlen div 8\<close> on is overwritten by \<open>b\<close>, and the one old byte that
  is merged lies below \<open>length a\<close> whenever some of its bits are kept.
\<close>

definition appendBits :: "bytes \<Rightarrow> nat \<Rightarrow> bytes \<Rightarrow> bytes option" where
  "appendBits a bl b = do {
     let newlen = bl div 8 + length b;
     let a1 = take newlen (a @ replicate (newlen - length a) 0);
     oldByte \<leftarrow> slice_at a1 (bl div 8);
     let a2 = take (bl div 8) a1 @ b;
     let bitmask = (push_bit (8 - bl mod 8) 1 - 1 :: byte);
     w \<leftarrow> slice_at a2 (bl div 8);
     Some (a2[bl div 8 := (bitmask AND w) OR (NOT bitmask AND oldByte)])
   }"

lemma byte_bits_merge:
  fixes v w :: byte
  assumes "r < 8"
  defines "m \<equiv> (push_bit (8 - r) 1 - 1 :: byte)"
  shows "byte_bits ((m AND w) OR (NOT m AND v)) = take r (byte_bits v) @ drop r (byte_bits w)"
proof (rule nth_equalityI)
  have m: "m = mask (8 - r)"
    by (simp add: m_def mask_eq_exp_minus_1 push_bit_eq_mult)
  fix i assume "i < length (byte_bits ((m AND w) OR (NOT m AND v)))"
  then show "byte_bits ((m AND w) OR (NOT m AND v)) ! i =
      (take r (byte_bits v) @ drop r (byte_bits w)) ! i"
    using assms(1) by (auto simp: m nth_append nth_byte_bits nth_drop bit_or_iff bit_and_iff bit_not_iff
        bit_mask_iff possible_bit_def)
qed (use assms(1) in simp)

theorem appendBits_correct:
  assumes "bl \<le> 8 * length a" "b \<noteq> []"
  obtains c where "appendBits a bl b = Some c"
    and "bits_of c = take bl (bits_of a) @ drop (bl mod 8) (bits_of b)"
    and "length c = bl div 8 + length b"
proof -
  let ?k = "bl div 8" and ?r = "bl mod 8"
  obtain w b' where b: "b = w # b'" using assms(2) by (cases b) auto
  let ?new = "?k + length b"
  let ?a1 = "take ?new (a @ replicate (?new - length a) 0)"
  have k: "?k \<le> length a" using assms(1) by simp
  have tk: "take ?k ?a1 = take ?k a" using k by (simp add: min_def)
  let ?m = "(push_bit (8 - ?r) 1 - 1 :: byte)"
  let ?mix = "(?m AND w) OR (NOT ?m AND ?a1 ! ?k)"
  let ?c = "take ?k a @ ?mix # b'"
  have "appendBits a bl b = Some ?c"
    using k by (simp add: appendBits_def Let_def tk slice_at_def b nth_append min_def list_update_append)
  moreover have "bits_of ?c = take bl (bits_of a) @ drop ?r (bits_of b)"
  proof -
    have mix: "byte_bits ?mix = take ?r (byte_bits (?a1 ! ?k)) @ drop ?r (byte_bits w)"
      by (rule byte_bits_merge) simp
    have "take bl (bits_of a) = take (8 * ?k) (bits_of a) @ take ?r (byte_bits (?a1 ! ?k))"
    proof (cases "?r = 0")
      case True
      then show ?thesis using mult_div_mod_eq[of 8 bl] by simp
    next
      case False
      then have lt: "?k < length a" using assms(1) mult_div_mod_eq[of 8 bl] by linarith
      then have "a = take ?k a @ a ! ?k # drop (Suc ?k) a" by (rule id_take_nth_drop)
      then have "bits_of a = bits_of (take ?k a) @ byte_bits (a ! ?k) @ bits_of (drop (Suc ?k) a)"
        by (metis bits_of_simps(2,3))
      moreover have "length (bits_of (take ?k a)) = 8 * ?k" using lt by simp
      moreover have "?r \<le> 8" by simp
      ultimately have "take (8 * ?k + ?r) (bits_of a) = bits_of (take ?k a) @ take ?r (byte_bits (a ! ?k))"
        by (simp add: minus_mult_div_eq_mod)
      moreover have "?a1 ! ?k = a ! ?k" using lt b by (simp add: nth_append)
      ultimately show ?thesis by (simp add: bits_of_take)
    qed
    moreover have "drop ?r (bits_of b) = drop ?r (byte_bits w) @ bits_of b'" by (simp add: b)
    ultimately show ?thesis by (simp only: bits_of_simps mix append_assoc bits_of_take)
  qed
  moreover have "length ?c = ?k + length b" using k b by (simp add: min_def)
  ultimately show ?thesis using that by blast
qed


subsection \<open>The order of byte strings\<close>

text \<open>
  \<^verbatim>\<open>bytes.Compare\<close> orders byte strings lexicographically, which is the order of their bit
  strings (\<^term>\<open>False < True\<close>, a proper prefix first).
\<close>

fun bits_val :: "bool list \<Rightarrow> nat" where
  "bits_val [] = 0"
| "bits_val (b # bs) = of_bool b * 2 ^ length bs + bits_val bs"

lemma bits_val_less: "bits_val bs < 2 ^ length bs"
  by (induction bs) auto

lemma bits_val_less_iff: "length xs = length ys \<Longrightarrow> xs < ys \<longleftrightarrow> bits_val xs < bits_val ys"
proof (induction xs ys rule: list_induct2)
  case (Cons x xs y ys)
  then show ?case using bits_val_less[of xs] bits_val_less[of ys] by (cases x; cases y) auto
qed simp

lemma bits_val_horner: "bits_val bs = horner_sum of_bool 2 (rev bs)"
  by (induction bs) (simp_all add: horner_sum_append)

lemma bits_val_byte_bits: "bits_val (byte_bits w) = unat w"
proof -
  have "rev (byte_bits w) = map (bit (unat w)) [0..<8]"
    by (intro nth_equalityI) (auto simp: rev_nth nth_byte_bits bit_unsigned_iff)
  then have "bits_val (byte_bits w) = take_bit 8 (unat w)"
    by (simp only: bits_val_horner horner_sum_bit_eq_take_bit)
  also have "\<dots> = unat w" using unsigned_less[of w] by (intro take_bit_nat_eq_self) simp
  finally show ?thesis .
qed

lemma byte_bits_less_iff: "byte_bits v < byte_bits w \<longleftrightarrow> v < w"
  by (simp add: bits_val_less_iff bits_val_byte_bits word_less_nat_alt)

lemma append_less_append_iff:
  "length xs = length ys \<Longrightarrow> xs @ us < ys @ vs \<longleftrightarrow> xs < ys \<or> xs = ys \<and> us < (vs :: 'a::linorder list)"
  by (induction xs ys rule: list_induct2) auto

theorem bits_of_less_iff: "bits_of xs < bits_of ys \<longleftrightarrow> xs < ys"
proof (induction xs arbitrary: ys)
  case Nil
  have "[] < byte_bits y @ l" for y l using length_byte_bits[of y] by (cases "byte_bits y") auto
  then show ?case by (cases ys) auto
next
  case (Cons x xs)
  show ?case
    by (cases ys) (auto simp: Cons.IH append_less_append_iff byte_bits_less_iff byte_bits_inject)
qed

corollary bits_of_le_iff: "bits_of xs \<le> bits_of ys \<longleftrightarrow> xs \<le> ys"
  by (simp add: bits_of_less_iff linorder_not_less [symmetric])


subsection \<open>From bits back to bytes\<close>

definition byte_of :: "bool list \<Rightarrow> byte" where
  "byte_of bs = of_nat (bits_val bs)"

fun bytes_of_bits :: "bool list \<Rightarrow> bytes" where
  "bytes_of_bits bs = (if length bs < 8 then [] else byte_of (take 8 bs) # bytes_of_bits (drop 8 bs))"

declare bytes_of_bits.simps [simp del]

lemma bits_val_inject: "length xs = length ys \<Longrightarrow> bits_val xs = bits_val ys \<Longrightarrow> xs = ys"
  using bits_val_less_iff[of xs ys] bits_val_less_iff[of ys xs] by (metis less_irrefl linorder_cases)

lemma byte_bits_byte_of: "length bs = 8 \<Longrightarrow> byte_bits (byte_of bs) = bs"
proof (rule bits_val_inject)
  assume "length bs = 8"
  then have "bits_val bs < 256" using bits_val_less[of bs] by simp
  then show "bits_val (byte_bits (byte_of bs)) = bits_val bs"
    by (simp add: bits_val_byte_bits byte_of_def unat_of_nat)
qed simp

theorem bits_of_bytes_of_bits: "8 dvd length bs \<Longrightarrow> bits_of (bytes_of_bits bs) = bs"
proof (induction bs rule: bytes_of_bits.induct)
  case (1 bs)
  show ?case
  proof (cases "length bs < 8")
    case True
    with "1.prems" have "bs = []" by (metis dvd_imp_le length_greater_0_conv not_less)
    then show ?thesis by (simp add: bytes_of_bits.simps)
  next
    case False
    with "1.prems" have "8 dvd length (drop 8 bs)" by (simp add: dvd_diff_nat)
    with False "1.IH" show ?thesis by (simp add: bytes_of_bits.simps[of bs] byte_bits_byte_of)
  qed
qed

end
