(* ===== verification/Patricia.thy ===== *)
theory Patricia
  imports Bits
begin

text \<open>
  The abstract view of the ptrie: a path-contracted binary trie whose arcs carry bit
  strings (\<open>bool list\<close>), without the byte alignment of the implementation. Its operations
  follow \<^verbatim>\<open>getInternal\<close>, \<^verbatim>\<open>putInternal\<close> and \<^verbatim>\<open>deleteInternal\<close> step by step; the
  lemmas show that it is a finite map from bit strings to values whose in-order listing
  \<open>bentries\<close> is strictly increasing. The byte-level trie of theory \<open>Ptrie\<close> refines it.
\<close>

datatype 'v bnode = BNode (bvalue: "'v option") (bchild0: "'v bchild option") (bchild1: "'v bchild option")
  and 'v bchild = BChild (blabel: "bool list") (bsub: "'v bnode")

fun bsel :: "bool \<Rightarrow> 'v bnode \<Rightarrow> 'v bchild option" where
  "bsel b (BNode v c0 c1) = (if b then c1 else c0)"

fun bupd :: "bool \<Rightarrow> 'v bchild option \<Rightarrow> 'v bnode \<Rightarrow> 'v bnode" where
  "bupd b c (BNode v c0 c1) = (if b then BNode v c0 c else BNode v c c1)"

abbreviation bleaf :: "'v \<Rightarrow> 'v bnode" where
  "bleaf x \<equiv> BNode (Some x) None None"

abbreviation bsetval :: "'v option \<Rightarrow> 'v bnode \<Rightarrow> 'v bnode" where
  "bsetval v n \<equiv> BNode v (bchild0 n) (bchild1 n)"

lemma bsel_size [termination_simp]: "bsel b n = Some (BChild l t) \<Longrightarrow> size t < size n"
  by (cases n) (auto split: if_splits)

lemma bsel_bupd [simp]: "bsel b' (bupd b c n) = (if b = b' then c else bsel b' n)"
  by (cases n) auto

lemma bvalue_bupd [simp]: "bvalue (bupd b c n) = bvalue n"
  by (cases n) auto

lemma bsel_bsetval [simp]: "bsel b (bsetval v n) = bsel b n"
  by (cases n) auto

lemma bchild_bsel: "bchild0 n = bsel False n" "bchild1 n = bsel True n"
  by (cases n; simp)+

lemma bchild_opt_cases:
  obtains (None) "c = None" | (Some) l t where "c = Some (BChild l t)"
proof (cases c)
  case (Some d)
  then show ?thesis using that by (cases d) simp
qed (rule that)

lemma bnode_induct [case_names Node]:
  assumes "\<And>n. (\<And>b l t. bsel b n = Some (BChild l t) \<Longrightarrow> P t) \<Longrightarrow> P n"
  shows "P n"
  by (induction n rule: measure_induct_rule[of size]) (blast intro: assms bsel_size)

subsection \<open>Invariant\<close>

text \<open>
  Every arc's label is non-empty and starts with the bit of its side, and every node below
  the root has a value or two children (otherwise its path would be contracted).
\<close>

definition bfull :: "'v bnode \<Rightarrow> bool" where
  "bfull n \<longleftrightarrow> bvalue n \<noteq> None \<or> (bchild0 n \<noteq> None \<and> bchild1 n \<noteq> None)"

definition bempty :: "'v bnode \<Rightarrow> bool" where
  "bempty n \<longleftrightarrow> bvalue n = None \<and> bchild0 n = None \<and> bchild1 n = None"

fun bok :: "'v bnode \<Rightarrow> bool" and bokc :: "bool \<Rightarrow> 'v bchild option \<Rightarrow> bool" where
  "bok (BNode v c0 c1) \<longleftrightarrow> bokc False c0 \<and> bokc True c1"
| "bokc b None \<longleftrightarrow> True"
| "bokc b (Some (BChild l t)) \<longleftrightarrow> l \<noteq> [] \<and> hd l = b \<and> bfull t \<and> bok t"

lemma bok_iff: "bok n \<longleftrightarrow> (\<forall>b. bokc b (bsel b n))"
  by (cases n) (auto simp: all_bool_eq)

lemma bokD: "bok n \<Longrightarrow> bsel b n = Some (BChild l t) \<Longrightarrow> l \<noteq> [] \<and> hd l = b \<and> bfull t \<and> bok t"
  by (cases n) (auto split: if_splits)

lemma bok_bupd: "bok n \<Longrightarrow> bokc b c \<Longrightarrow> bok (bupd b c n)"
  by (auto simp: bok_iff)

lemma bok_bsetval [simp]: "bok (bsetval v n) = bok n"
  by (cases n) simp

lemma bfull_bupd: "bfull n \<Longrightarrow> c \<noteq> None \<Longrightarrow> bfull (bupd b c n)"
  by (cases n) (auto simp: bfull_def)

subsection \<open>Lookup\<close>

fun bget :: "'v bnode \<Rightarrow> bool list \<Rightarrow> 'v option" where
  "bget n [] = bvalue n"
| "bget n (b # ks) =
     (case bsel b n of
        None \<Rightarrow> None
      | Some (BChild l t) \<Rightarrow>
          if prefix l (b # ks) then bget t (drop (length l) (b # ks)) else None)"

fun bcget :: "'v bchild option \<Rightarrow> bool list \<Rightarrow> 'v option" where
  "bcget None k = None"
| "bcget (Some (BChild l t)) k = (if prefix l k then bget t (drop (length l) k) else None)"

lemma bget_Cons: "bget n (b # ks) = bcget (bsel b n) (b # ks)"
  by (auto split: option.splits bchild.splits)

declare bget.simps(2) [simp del] bget_Cons [simp]

lemma bget_conv: "bget n k = (case k of [] \<Rightarrow> bvalue n | b # ks \<Rightarrow> bcget (bsel b n) k)"
  by (cases k) auto

subsection \<open>Insertion\<close>

text \<open>\<open>bsplit\<close> is the node inserted in the middle of a path \<open>l\<close> that leaves \<open>k\<close> at bit \<open>m\<close>.\<close>

definition bsplit :: "'v \<Rightarrow> bool list \<Rightarrow> 'v bnode \<Rightarrow> bool list \<Rightarrow> nat \<Rightarrow> 'v bnode" where
  "bsplit x l t k m =
     bupd (l ! m) (Some (BChild (drop m l) t))
       (if m < length k then bupd (\<not> l ! m) (Some (BChild (drop m k) (bleaf x))) (BNode None None None)
        else bleaf x)"

fun bput :: "'v \<Rightarrow> 'v bnode \<Rightarrow> bool list \<Rightarrow> 'v bnode" where
  "bput x n [] = bsetval (Some x) n"
| "bput x n (b # ks) =
     (case bsel b n of
        None \<Rightarrow> bupd b (Some (BChild (b # ks) (bleaf x))) n
      | Some (BChild l t) \<Rightarrow>
          let m = lcp_len l (b # ks) in
          if m = length l then bupd b (Some (BChild l (bput x t (drop m (b # ks))))) n
          else bupd b (Some (BChild (take m l) (bsplit x l t (b # ks) m))) n)"

lemma bget_bleaf [simp]: "bget (bleaf x) k = (if k = [] then Some x else None)"
  by (cases k) auto

lemma lcp_split:
  assumes "l \<noteq> []" "k \<noteq> []" "hd l = hd k"
  defines "m \<equiv> lcp_len l k"
  shows "0 < m" and "l = take m k @ drop m l" and "take m l = take m k"
    and "m < length l \<Longrightarrow> m < length k \<Longrightarrow> k ! m = (\<not> l ! m)"
proof -
  from assms(1-3) show "0 < m" unfolding m_def by (cases l; cases k) auto
  show "take m l = take m k" unfolding m_def by (rule lcp_len_take)
  then show "l = take m k @ drop m l" by (metis append_take_drop_id)
  show "k ! m = (\<not> l ! m)" if "m < length l" "m < length k"
    using lcp_len_differ[of l k] that unfolding m_def by auto
qed

lemma bcget_split:
  assumes "l \<noteq> []" "k \<noteq> []" "hd l = hd k" "lcp_len l k < length l"
  shows "bcget (Some (BChild (take (lcp_len l k) l) (bsplit x l t k (lcp_len l k)))) k' =
         (if k' = k then Some x else bcget (Some (BChild l t)) k')"
proof -
  define m where "m = lcp_len l k"
  note s = lcp_split[OF assms(1-3), folded m_def]
  have ml: "m < length l" using assms(4) m_def by simp
  have mk: "m \<le> length k" using lcp_len_le m_def by metis
  obtain p c ls where l: "l = p @ c # ls" and p: "length p = m" and p': "p = take m k"
    using s(3) ml by (metis id_take_nth_drop length_take min.absorb2 mk)
  have lm: "l ! m = c" "drop m l = c # ls" "take m l = p" using l p by auto
  obtain ks where k: "k = p @ ks" using p' by (metis append_take_drop_id)
  have km: "drop m k = ks" using k p by simp
  have hk: "ks \<noteq> [] \<Longrightarrow> hd ks = (\<not> c)"
    using s(4) ml lm k p by (cases ks) (auto simp: nth_append)
  show ?thesis unfolding m_def[symmetric]
  proof (cases "prefix p k'")
    case False
    then show "bcget (Some (BChild (take m l) (bsplit x l t k m))) k' =
        (if k' = k then Some x else bcget (Some (BChild l t)) k')"
      using k l lm by (auto simp: prefix_def)
  next
    case True
    then obtain k'' where k': "k' = p @ k''" by (auto simp: prefix_def)
    have "bget (bsplit x l t k m) k'' = (if k'' = ks then Some x else bcget (Some (BChild (c # ls) t)) k'')"
      using hk mk k p
      by (cases k''; cases ks; cases c) (auto simp: bsplit_def lm km prefix_def)
    then show "bcget (Some (BChild (take m l) (bsplit x l t k m))) k' =
        (if k' = k then Some x else bcget (Some (BChild l t)) k')"
      by (auto simp: k' l k p[symmetric])
  qed
qed


lemma prefix_drop_eq_iff: "prefix l k \<Longrightarrow> prefix l k' \<Longrightarrow> drop (length l) k' = drop (length l) k \<longleftrightarrow> k' = k"
  by (auto simp: prefix_def)

lemma bget_bupd:
  "bget (bupd b c n) k = (case k of [] \<Rightarrow> bvalue n | b' # _ \<Rightarrow> bcget (if b' = b then c else bsel b' n) k)"
  by (cases k) auto

theorem bget_bput: "bok n \<Longrightarrow> bget (bput x n k) = (bget n)(k \<mapsto> x)"
proof (induction x n k rule: bput.induct)
  case (1 x n)
  show ?case by (rule ext) (simp add: bget_conv[of _ k for k] bchild_bsel split: list.split)
next
  case (2 x n b ks)
  let ?k = "b # ks"
  have upd: "bget (bupd b c n) = (bget n)(?k \<mapsto> x)"
    if "\<And>k'. k' \<noteq> [] \<Longrightarrow> hd k' = b \<Longrightarrow> bcget c k' = (if k' = ?k then Some x else bcget (bsel b n) k')" for c
  proof
    fix k' show "bget (bupd b c n) k' = ((bget n)(?k \<mapsto> x)) k'"
      using that[of k'] by (cases k') (auto simp: bget_bupd)
  qed
  show ?case
  proof (cases "bsel b n")
    case None
    then show ?thesis by (simp del: fun_upd_apply, intro upd) (auto simp: prefix_def)
  next
    case (Some c)
    then obtain l t where c: "bsel b n = Some (BChild l t)" by (cases c) auto
    note ok = bokD[OF "2.prems" c]
    show ?thesis
    proof (cases "lcp_len l ?k = length l")
      case True
      then have pre: "prefix l ?k" by (simp add: lcp_len_full_iff)
      have "bget (bput x t (drop (length l) ?k)) = (bget t)(drop (length l) ?k \<mapsto> x)"
        using "2.IH"[OF c refl refl True] True ok by (simp add: fun_upd_def)
      then have "bcget (Some (BChild l (bput x t (drop (length l) ?k)))) k' =
          (if k' = ?k then Some x else bcget (bsel b n) k')" for k'
        using prefix_drop_eq_iff[OF pre] pre c by auto
      then show ?thesis using True c by (simp add: Let_def del: fun_upd_apply, intro upd) simp
    next
      case False
      then have "lcp_len l ?k < length l" using lcp_len_le(1)[of l ?k] by linarith
      with ok have "bcget (Some (BChild (take (lcp_len l ?k) l) (bsplit x l t ?k (lcp_len l ?k)))) k' =
          (if k' = ?k then Some x else bcget (bsel b n) k')" for k'
        unfolding c by (intro bcget_split) auto
      moreover have "bput x n ?k = bupd b (Some (BChild (take (lcp_len l ?k) l) (bsplit x l t ?k (lcp_len l ?k)))) n"
        using False c by (simp add: Let_def)
      ultimately show ?thesis by (metis upd)
    qed
  qed
qed

lemma bfull_bput: "bfull n \<Longrightarrow> bfull (bput x n k)"
proof (cases k)
  case Nil
  then show ?thesis by (simp add: bfull_def)
qed (auto simp: bfull_bupd Let_def split: option.split bchild.split)

lemma bok_bsplit:
  assumes "l \<noteq> []" "k \<noteq> []" "hd l = hd k" "lcp_len l k < length l" "bfull t" "bok t"
  shows "bok (bsplit x l t k (lcp_len l k))" and "bfull (bsplit x l t k (lcp_len l k))"
proof -
  note s = lcp_split[OF assms(1-3)]
  show "bok (bsplit x l t k (lcp_len l k))"
    using s(4) assms(4-6)
    by (auto simp: bsplit_def hd_drop_conv_nth bfull_def intro!: bok_bupd)
  show "bfull (bsplit x l t k (lcp_len l k))"
    by (auto simp: bsplit_def bfull_def)
qed

lemma bok_bput: "bok n \<Longrightarrow> bok (bput x n k)"
proof (induction x n k rule: bput.induct)
  case (2 x n b ks)
  let ?k = "b # ks"
  show ?case
  proof (cases "bsel b n")
    case None
    with "2.prems" show ?thesis by (auto simp: bfull_def intro!: bok_bupd)
  next
    case (Some c)
    then obtain l t where c: "bsel b n = Some (BChild l t)" by (cases c) auto
    note ok = bokD[OF "2.prems" c]
    show ?thesis
    proof (cases "lcp_len l ?k = length l")
      case True
      with "2.IH"[OF c refl refl True] ok c "2.prems" show ?thesis
        by (auto simp: Let_def bfull_bput intro!: bok_bupd)
    next
      case False
      then have lt: "lcp_len l ?k < length l" using lcp_len_le(1)[of l ?k] by linarith
      have "bok (bsplit x l t ?k (lcp_len l ?k))" "bfull (bsplit x l t ?k (lcp_len l ?k))"
        using bok_bsplit[OF _ _ _ lt] ok by auto
      moreover have "0 < lcp_len l ?k" using lcp_split(1)[of l ?k] ok by simp
      ultimately show ?thesis using False c ok "2.prems"
        by (auto simp: Let_def hd_take simp del: lcp_len.simps intro!: bok_bupd)
    qed
  qed
qed (simp add: bok_iff[of n for n] bchild_bsel del: bok.simps)

subsection \<open>Deletion\<close>

text \<open>Path contraction of a node without a value and with a single child.\<close>

definition bcontract :: "bool list \<Rightarrow> 'v bnode \<Rightarrow> 'v bchild" where
  "bcontract l t =
     (if bvalue t = None then
        (case (bchild0 t, bchild1 t) of
           (Some (BChild l' t'), None) \<Rightarrow> BChild (l @ l') t'
         | (None, Some (BChild l' t')) \<Rightarrow> BChild (l @ l') t'
         | _ \<Rightarrow> BChild l t)
      else BChild l t)"

fun bdel :: "'v bnode \<Rightarrow> bool list \<Rightarrow> 'v bnode option \<times> bool" where
  "bdel n [] =
     (if bchild0 n = None \<and> bchild1 n = None then (None, True) else (Some (bsetval None n), True))"
| "bdel n (b # ks) =
     (case bsel b n of
        None \<Rightarrow> (Some n, False)
      | Some (BChild l t) \<Rightarrow>
          if prefix l (b # ks) then
            (case bdel t (drop (length l) (b # ks)) of
               (_, False) \<Rightarrow> (Some n, False)
             | (None, True) \<Rightarrow> (Some (bupd b None n), True)
             | (Some t', True) \<Rightarrow> (Some (bupd b (Some (bcontract l t')) n), True))
          else (Some n, False))"

lemma bcget_append: "bcget (Some (BChild (l @ l') t)) k =
    (if prefix l k then bcget (Some (BChild l' t)) (drop (length l) k) else None)"
  by (auto simp: prefix_def drop_drop[symmetric] add.commute simp del: drop_drop)

lemma bcget_Some_imp_hd: "bokc b c \<Longrightarrow> bcget c k = Some x \<Longrightarrow> k \<noteq> [] \<and> hd k = b"
proof (cases c)
  case (Some d)
  then show "bokc b c \<Longrightarrow> bcget c k = Some x \<Longrightarrow> k \<noteq> [] \<and> hd k = b"
    by (cases d) (auto simp: prefix_def neq_Nil_conv split: if_splits)
qed simp

lemma bcget_wrong_bit: "bokc b c \<Longrightarrow> k = [] \<or> hd k \<noteq> b \<Longrightarrow> bcget c k = None"
  using bcget_Some_imp_hd by (metis not_None_eq)

lemma bget_one_child:
  assumes "bok t" "bvalue t = None" "bsel (\<not> b) t = None"
  shows "bget t k = bcget (bsel b t) k"
proof (cases k)
  case Nil
  with assms bcget_wrong_bit[of b "bsel b t" k] show ?thesis by (simp add: bok_iff)
next
  case (Cons b' ks)
  with assms bcget_wrong_bit[of b "bsel b t" k] show ?thesis
    by (cases "b' = b") (auto simp: bok_iff)
qed

lemma bcontract_cases:
  assumes "\<not> bempty t"
  obtains (same) "bcontract l t = BChild l t" "bfull t"
    | (contract) b l' t' where "bvalue t = None" "bsel (\<not> b) t = None" "bsel b t = Some (BChild l' t')"
        "bcontract l t = BChild (l @ l') t'"
proof (cases t)
  case (BNode v c0 c1)
  show ?thesis
  proof (cases "v = None \<and> (c0 = None \<or> c1 = None)")
    case False
    then show ?thesis using same BNode
      by (auto simp: bcontract_def bfull_def split: option.splits bchild.splits)
  next
    case True
    with assms BNode consider l' t' where "c0 = None" "c1 = Some (BChild l' t')"
      | l' t' where "c1 = None" "c0 = Some (BChild l' t')"
      unfolding bempty_def by (metis bchild.exhaust bnode.sel not_None_eq)
    then show ?thesis
    proof cases
      case 1
      then show ?thesis using contract[of True l' t'] True BNode by (simp add: bcontract_def)
    next
      case 2
      then show ?thesis using contract[of False l' t'] True BNode by (simp add: bcontract_def)
    qed
  qed
qed

lemma bcget_bcontract:
  assumes "bok t" "\<not> bempty t"
  shows "bcget (Some (bcontract l t)) = bcget (Some (BChild l t))"
proof
  fix k show "bcget (Some (bcontract l t)) k = bcget (Some (BChild l t)) k"
    using assms(2)
  proof (cases rule: bcontract_cases[where l = l])
    case (contract b l' t')
    then show ?thesis using bget_one_child[OF assms(1), of b]
      by (simp add: bcget_append del: bcget.simps(2)) simp
  qed simp
qed

lemma bokc_bcontract:
  assumes "bok t" "\<not> bempty t" "l \<noteq> []"
  shows "bokc (hd l) (Some (bcontract l t))"
  using assms(2)
proof (cases rule: bcontract_cases[where l = l])
  case (contract b l' t')
  then show ?thesis using bokD[OF assms(1) contract(3)] assms(3) by simp
qed (use assms in simp)

abbreviation bget_opt :: "'v bnode option \<Rightarrow> bool list \<Rightarrow> 'v option" where
  "bget_opt r k \<equiv> (case r of None \<Rightarrow> None | Some n \<Rightarrow> bget n k)"

text \<open>The result of a deletion: the map without the key, the invariant, and no empty node.\<close>

definition bdel_spec :: "'v bnode \<Rightarrow> bool list \<Rightarrow> 'v bnode option \<Rightarrow> bool" where
  "bdel_spec n k r \<longleftrightarrow>
     (\<forall>k'. bget_opt r k' = (if k' = k then None else bget n k')) \<and>
     (\<forall>n'. r = Some n' \<longrightarrow> bok n' \<and> (bfull n \<longrightarrow> \<not> bempty n'))"

lemma bdel_not_deleted: "bdel n k = (r, False) \<Longrightarrow> r = Some n"
  by (cases k) (auto split: option.splits bchild.splits if_splits prod.splits bool.splits)

lemma bfull_not_bempty: "bfull n \<Longrightarrow> \<not> bempty n"
  by (auto simp: bfull_def bempty_def)


theorem bdel_correct: "bok n \<Longrightarrow> bdel_spec n k (fst (bdel n k))"
proof (induction n k rule: bdel.induct)
  case (1 n)
  have leaf: "bsel b n = None" if "bchild0 n = None" "bchild1 n = None" for b
    using that by (cases n) auto
  show ?case
    using "1.prems" leaf unfolding bdel_spec_def
    by (auto simp: bget_conv[of _ k for k] bempty_def bok_iff bchild_bsel all_bool_eq
        simp del: bok.simps split: list.splits)
next
  case (2 n b ks)
  let ?k = "b # ks"
  have upd: "bdel_spec n ?k (Some (bupd b c n))"
    if c: "\<And>k'. k' \<noteq> [] \<Longrightarrow> hd k' = b \<Longrightarrow> bcget c k' = (if k' = ?k then None else bcget (bsel b n) k')"
      and "bokc b c" and "bfull n \<Longrightarrow> \<not> bempty (bupd b c n)" for c
  proof -
    have "bget (bupd b c n) k' = (if k' = ?k then None else bget n k')" for k'
      using c[of k'] by (cases k') (auto simp: bget_bupd)
    with that(2,3) "2.prems" show ?thesis by (auto simp: bdel_spec_def bok_bupd)
  qed
  have same: "bdel_spec n ?k (Some n)" if "bget n ?k = None"
    using that "2.prems" bfull_not_bempty by (auto simp: bdel_spec_def)
  show ?case
  proof (cases "bsel b n")
    case None
    then show ?thesis using same by simp
  next
    case (Some c)
    then obtain l t where c: "bsel b n = Some (BChild l t)" by (cases c) auto
    note ok = bokD[OF "2.prems" c]
    show ?thesis
    proof (cases "prefix l ?k")
      case False
      then show ?thesis using c same by simp
    next
      case pre: True
      define k' where "k' = drop (length l) ?k"
      have IH: "bdel_spec t k' (fst (bdel t k'))"
        using "2.IH"[OF c refl pre] ok by (simp add: k'_def)
      have kk: "(drop (length l) q = k') = (q = ?k)" if "prefix l q" for q
        using prefix_drop_eq_iff[OF pre that] by (simp add: k'_def)
      obtain r d where rd: "bdel t k' = (r, d)" by fastforce
      have d: "bdel n ?k = (if d then (case r of None \<Rightarrow> (Some (bupd b None n), True)
            | Some t' \<Rightarrow> (Some (bupd b (Some (bcontract l t')) n), True)) else (Some n, False))"
        using c pre rd by (auto simp: k'_def[symmetric] split: option.split)
      show ?thesis
      proof (cases d)
        case False
        then have "r = Some t" using rd bdel_not_deleted[of t k' r] by simp
        then have "bget t k' = None" using IH rd by (auto simp: bdel_spec_def dest: spec[of _ k'])
        then have "bget n ?k = None" using c pre by (simp add: k'_def)
        then show ?thesis using d False same by simp
      next
        case True
        show ?thesis
        proof (cases r)
          case None
          have "bget_opt None q = (if q = k' then None else bget t q)" for q
            using IH rd None by (auto simp: bdel_spec_def)
          then have "bget t q = None" if "q \<noteq> k'" for q using that by (metis option.simps(4))
          then have "bcget (bsel b n) q = None" if "q \<noteq> ?k" for q
            using kk[of q] that c by (simp split: if_splits)
          moreover have "bfull n \<Longrightarrow> \<not> bempty (bupd b None n)"
            by (cases n; cases b) (auto simp: bfull_def bempty_def)
          ultimately show ?thesis using upd[of None] d True None by auto
        next
          case (Some t')
          have t': "bok t'" "\<not> bempty t'" "\<And>q. bget t' q = (if q = k' then None else bget t q)"
            using IH rd Some ok by (auto simp: bdel_spec_def)
          have "bcget (Some (bcontract l t')) q = (if q = ?k then None else bcget (bsel b n) q)" for q
            unfolding bcget_bcontract[OF t'(1,2)] using kk[of q] c pre t'(3) by auto
          moreover have "bokc b (Some (bcontract l t'))"
            using bokc_bcontract[OF t'(1,2)] ok by blast
          moreover have "\<not> bempty (bupd b (Some (bcontract l t')) n)"
            by (cases n; cases b) (auto simp: bempty_def)
          ultimately show ?thesis using upd[of "Some (bcontract l t')"] d True Some by auto
        qed
      qed
    qed
  qed
qed

subsection \<open>In-order listing\<close>

fun bentries :: "'v bnode \<Rightarrow> (bool list \<times> 'v) list"
  and bcentries :: "'v bchild option \<Rightarrow> (bool list \<times> 'v) list" where
  "bentries (BNode v c0 c1) =
     (case v of None \<Rightarrow> [] | Some x \<Rightarrow> [([], x)]) @ bcentries c0 @ bcentries c1"
| "bcentries None = []"
| "bcentries (Some (BChild l t)) = map (apfst ((@) l)) (bentries t)"

lemma bentries_bsel:
  "bentries n = (case bvalue n of None \<Rightarrow> [] | Some x \<Rightarrow> [([], x)]) @
     bcentries (bsel False n) @ bcentries (bsel True n)"
  by (cases n) simp

lemma bcentries_iff_aux:
  assumes "\<And>k x. (k, x) \<in> set (bentries t) \<longleftrightarrow> bget t k = Some x"
  shows "(k, x) \<in> set (bcentries (Some (BChild l t))) \<longleftrightarrow> bcget (Some (BChild l t)) k = Some x"
proof
  assume "bcget (Some (BChild l t)) k = Some x"
  then show "(k, x) \<in> set (bcentries (Some (BChild l t)))"
    using assms by (force simp: prefix_def image_iff split: if_splits)
qed (auto simp: assms)

theorem bentries_iff: "bok n \<Longrightarrow> (k, x) \<in> set (bentries n) \<longleftrightarrow> bget n k = Some x"
proof (induction n arbitrary: k x rule: bnode_induct)
  case (Node n)
  have c: "(k, x) \<in> set (bcentries (bsel b n)) \<longleftrightarrow> bcget (bsel b n) k = Some x" for b k x
  proof (cases "bsel b n")
    case (Some c)
    then obtain l t where "bsel b n = Some (BChild l t)" by (cases c) auto
    then show ?thesis using Node.IH bokD[OF Node.prems] bcentries_iff_aux by metis
  qed simp
  have hd: "bcget (bsel b n) k = Some x \<Longrightarrow> k \<noteq> [] \<and> hd k = b" for b k x
    using bcget_Some_imp_hd Node.prems by (metis bok_iff)
  show ?case
  proof (cases k)
    case Nil
    have "bcget (bsel b n) [] \<noteq> Some x" for b using hd[of b "[]" x] by blast
    then show ?thesis using Nil c by (auto simp: bentries_bsel[of n] split: option.splits)
  next
    case (Cons b ks)
    then show ?thesis using c hd[of _ k x] by (cases b) (auto simp: bentries_bsel[of n] split: option.splits)
  qed
qed

lemma append_less_same: "(l @ xs < l @ ys) = (xs < (ys :: bool list))"
  by (induction l) auto

theorem bentries_sorted: "bok n \<Longrightarrow> sorted_wrt (<) (map fst (bentries n))"
proof (induction n rule: bnode_induct)
  case (Node n)
  have c: "sorted_wrt (<) (map fst (bcentries (bsel b n))) \<and>
      (\<forall>k \<in> set (map fst (bcentries (bsel b n))). k \<noteq> [] \<and> hd k = b)" for b
  proof (cases "bsel b n")
    case (Some c)
    then obtain l t where lt: "bsel b n = Some (BChild l t)" by (cases c) auto
    then show ?thesis using Node.IH[OF lt] bokD[OF Node.prems lt]
      by (auto simp: sorted_wrt_map append_less_same)
  qed simp
  have less: "k < k'" if "k \<in> set (map fst (bcentries (bsel False n)))"
    "k' \<in> set (map fst (bcentries (bsel True n)))" for k k'
  proof -
    from c[of False] c[of True] that have "k \<noteq> [] \<and> hd k = False" "k' \<noteq> [] \<and> hd k' = True" by blast+
    then show ?thesis by (cases k; cases k') auto
  qed
  have nil: "[] < k" if "k \<in> set (map fst (bcentries (bsel b n)))" for k b
  proof -
    from c[of b] that have "k \<noteq> []" by blast
    then show ?thesis by (cases k) auto
  qed
  have "map fst (bentries n) = (case bvalue n of None \<Rightarrow> [] | Some x \<Rightarrow> [[]]) @
      map fst (bcentries (bsel False n)) @ map fst (bcentries (bsel True n))"
    by (simp add: bentries_bsel[of n] split: option.split)
  then show ?case using c[of False] c[of True] less nil
    by (auto simp: sorted_wrt_append simp del: set_map list.set_map split: option.splits)
qed


lemma bdel_None_iff: "fst (bdel n k) = None \<longleftrightarrow> k = [] \<and> bchild0 n = None \<and> bchild1 n = None"
  by (cases k) (auto split: option.splits bchild.splits if_splits prod.splits bool.splits)

text \<open>Every subtree holds a value.\<close>

lemma bentries_nonempty: "bok n \<Longrightarrow> \<not> bempty n \<Longrightarrow> bentries n \<noteq> []"
proof (induction n rule: bnode_induct)
  case (Node n)
  have "bcentries (bsel b n) \<noteq> []" if ne: "bsel b n \<noteq> None" for b
  proof -
    obtain l t where lt: "bsel b n = Some (BChild l t)"
      using ne by (cases "bsel b n" rule: bchild_opt_cases) auto
    then show ?thesis using Node.IH[OF lt] bokD[OF Node.prems(1) lt] bfull_not_bempty by auto
  qed
  then show ?case using Node.prems(2) by (auto simp: bentries_bsel[of n] bempty_def bchild_bsel)
qed

lemma bsel_entry:
  assumes "bok n" "bsel b n = Some c"
  obtains k x where "bget n (b # k) = Some x"
proof -
  obtain l t where c: "bsel b n = Some (BChild l t)" using assms(2) by (cases c) auto
  note ok = bokD[OF assms(1) c]
  then have "bentries t \<noteq> []" using bentries_nonempty[of t] bfull_not_bempty by blast
  then obtain e es where "bentries t = e # es" by (cases "bentries t") auto
  moreover obtain k x where "e = (k, x)" by fastforce
  ultimately have "bentries t = (k, x) # es" by simp
  then have "(k, x) \<in> set (bentries t)" by simp
  then have "bget t k = Some x" using bentries_iff[of t k x] ok by simp
  then have "bget n (b # tl l @ k) = Some x" using c ok by (cases l) auto
  then show ?thesis by (rule that)
qed

end
