(* ===== verification/Interfaces.thy ===== *)
theory Interfaces
  imports Prelude
begin

text \<open>
  The contracts between the layers of the storage engine, as locales. \<open>kv_map\<close> is what a
  client of the ptrie relies on (a finite map from byte strings to values), \<open>kv_stream\<close> what
  a client of a stream relies on (\<^verbatim>\<open>store.Stream\<close> of \<^verbatim>\<open>src/services/syncbase/store/model.go\<close>:
  \<open>Advance\<close> stages the elements of a fixed list one after the other). The lemmas proved
  inside them are the clients' reasoning: running a batch of writes, draining a stream.
\<close>

subsection \<open>Write operations\<close>

text \<open>\<^verbatim>\<open>WriteOp\<close> of \<^verbatim>\<open>transactions/manager.go\<close>: the operation type with its key (and value).\<close>

datatype 'v WriteOp = PutOp (opKey: bytes) 'v | DeleteOp (opKey: bytes)

text \<open>The loop over a batch: the operations in order, a panic ends it.\<close>

fun run_writes :: "('t \<Rightarrow> bytes \<Rightarrow> 'v \<Rightarrow> 't option) \<Rightarrow> ('t \<Rightarrow> bytes \<Rightarrow> 't option) \<Rightarrow>
    't \<Rightarrow> 'v WriteOp list \<Rightarrow> 't option" where
  "run_writes put del t [] = Some t"
| "run_writes put del t (PutOp k v # ws) = do { t' \<leftarrow> put t k v; run_writes put del t' ws }"
| "run_writes put del t (DeleteOp k # ws) = do { t' \<leftarrow> del t k; run_writes put del t' ws }"

text \<open>The effect of a batch on a map.\<close>

fun apply_op :: "'v WriteOp \<Rightarrow> (bytes \<rightharpoonup> 'v) \<Rightarrow> (bytes \<rightharpoonup> 'v)" where
  "apply_op (PutOp k v) m = m(k \<mapsto> v)"
| "apply_op (DeleteOp k) m = m(k := None)"

definition apply_ops :: "'v WriteOp list \<Rightarrow> (bytes \<rightharpoonup> 'v) \<Rightarrow> (bytes \<rightharpoonup> 'v)" where
  "apply_ops ws m = fold apply_op ws m"

lemma apply_ops_simps [simp]:
  "apply_ops [] m = m" "apply_ops (w # ws) m = apply_ops ws (apply_op w m)"
  by (simp_all add: apply_ops_def)

lemma apply_ops_other: "k \<notin> opKey ` set ws \<Longrightarrow> apply_ops ws m k = m k"
proof (induction ws arbitrary: m)
  case (Cons w ws)
  then show ?case by (cases w) auto
qed simp

lemma apply_ops_distinct:
  assumes "distinct (map opKey ws)" "w \<in> set ws"
  shows "apply_ops ws m (opKey w) = (case w of PutOp _ v \<Rightarrow> Some v | DeleteOp _ \<Rightarrow> None)"
  using assms
proof (induction ws arbitrary: m)
  case (Cons x xs)
  show ?case
  proof (cases "w = x")
    case True
    with Cons.prems have "apply_ops xs (apply_op x m) (opKey w) = apply_op x m (opKey w)"
      by (intro apply_ops_other) auto
    with True show ?thesis by (cases x) auto
  next
    case False
    with Cons show ?thesis by auto
  qed
qed simp

subsection \<open>The map contract\<close>

text \<open>
  Keys are shorter than \<open>2 ^ 29\<close> bytes, so that their bit length fits \<^verbatim>\<open>uint32\<close>. Deletion is
  promised for non-empty keys only.
\<close>

abbreviation key_ok :: "bytes \<Rightarrow> bool" where
  "key_ok key \<equiv> length key < 2 ^ 29"

definition op_ok :: "'v WriteOp \<Rightarrow> bool" where
  "op_ok w \<longleftrightarrow> key_ok (opKey w) \<and> (case w of PutOp _ _ \<Rightarrow> True | DeleteOp k \<Rightarrow> k \<noteq> [])"

locale kv_map =
  fixes new :: 't
    and put :: "'t \<Rightarrow> bytes \<Rightarrow> 'v \<Rightarrow> 't option"
    and del :: "'t \<Rightarrow> bytes \<Rightarrow> 't option"
    and get :: "'t \<Rightarrow> bytes \<Rightarrow> 'v option option"
    and inv :: "'t \<Rightarrow> bool"
    and contents :: "'t \<Rightarrow> bytes \<Rightarrow> 'v option"
  assumes inv_new: "inv new"
    and contents_new: "contents new k = None"
    and put_law: "inv t \<Longrightarrow> key_ok k \<Longrightarrow>
      \<exists>t'. put t k v = Some t' \<and> inv t' \<and> contents t' = (contents t)(k \<mapsto> v)"
    and del_law: "inv t \<Longrightarrow> key_ok k \<Longrightarrow> k \<noteq> [] \<Longrightarrow>
      \<exists>t'. del t k = Some t' \<and> inv t' \<and> contents t' = (contents t)(k := None)"
    and get_law: "inv t \<Longrightarrow> key_ok k \<Longrightarrow> get t k = Some (contents t k)"
begin

lemma run_writes_law:
  assumes "inv t" "list_all op_ok ws"
  shows "\<exists>t'. run_writes put del t ws = Some t' \<and> inv t' \<and> contents t' = apply_ops ws (contents t)"
  using assms
proof (induction ws arbitrary: t)
  case (Cons w ws)
  show ?case
  proof (cases w)
    case (PutOp k v)
    with Cons.prems obtain t' where t': "put t k v = Some t'" "inv t'" "contents t' = (contents t)(k \<mapsto> v)"
      using put_law[of t k v] by (auto simp: op_ok_def)
    from Cons.IH[OF t'(2)] Cons.prems(2) obtain t'' where
        "run_writes put del t' ws = Some t''" "inv t''" "contents t'' = apply_ops ws (contents t')"
      by auto
    with t' PutOp show ?thesis by auto
  next
    case (DeleteOp k)
    with Cons.prems obtain t' where t': "del t k = Some t'" "inv t'" "contents t' = (contents t)(k := None)"
      using del_law[of t k] by (auto simp: op_ok_def)
    from Cons.IH[OF t'(2)] Cons.prems(2) obtain t'' where
        "run_writes put del t' ws = Some t''" "inv t''" "contents t'' = apply_ops ws (contents t')"
      by auto
    with t' DeleteOp show ?thesis by auto
  qed
qed simp

lemma get_after_put: "inv t \<Longrightarrow> key_ok k \<Longrightarrow> key_ok k' \<Longrightarrow>
    put t k v = Some t' \<Longrightarrow> get t' k' = (if k' = k then Some (Some v) else get t k')"
  using put_law[of t k v] get_law by fastforce

lemma get_after_del: "inv t \<Longrightarrow> key_ok k \<Longrightarrow> k \<noteq> [] \<Longrightarrow> key_ok k' \<Longrightarrow>
    del t k = Some t' \<Longrightarrow> get t' k' = (if k' = k then Some None else get t k')"
  using del_law[of t k] get_law by fastforce

end

subsection \<open>The stream contract\<close>

text \<open>
  \<open>rest s\<close> is what the stream will still deliver. \<open>advance\<close> returns the new state and whether
  an element was staged; \<^term>\<open>None\<close> is a panic.
\<close>

fun drain :: "('s \<Rightarrow> ('s \<times> bool) option) \<Rightarrow> ('s \<Rightarrow> bytes option) \<Rightarrow> ('s \<Rightarrow> 'v option) \<Rightarrow>
    nat \<Rightarrow> 's \<Rightarrow> (bytes \<times> 'v) list option" where
  "drain advance key value 0 s = None"
| "drain advance key value (Suc fuel) s = do {
     (s', ok) \<leftarrow> advance s;
     if ok then do {
       k \<leftarrow> key s';
       v \<leftarrow> value s';
       r \<leftarrow> drain advance key value fuel s';
       Some ((k, v) # r)
     } else Some []
   }"

locale kv_stream =
  fixes advance :: "'s \<Rightarrow> ('s \<times> bool) option"
    and key :: "'s \<Rightarrow> bytes option"
    and "value" :: "'s \<Rightarrow> 'v option"
    and sinv :: "'s \<Rightarrow> bool"
    and rest :: "'s \<Rightarrow> (bytes \<times> 'v) list"
  assumes advance_end: "sinv s \<Longrightarrow> rest s = [] \<Longrightarrow>
      \<exists>s'. advance s = Some (s', False) \<and> sinv s' \<and> rest s' = []"
    and advance_step: "sinv s \<Longrightarrow> rest s = (k, v) # r \<Longrightarrow>
      \<exists>s'. advance s = Some (s', True) \<and> sinv s' \<and> key s' = Some k \<and> value s' = Some v \<and> rest s' = r"
begin

lemma advance_cases:
  assumes "sinv s"
  obtains (finished) s' where "rest s = []" "advance s = Some (s', False)" "sinv s'"
  | (staged) s' k v where "rest s = (k, v) # rest s'" "advance s = Some (s', True)" "sinv s'"
      "key s' = Some k" "value s' = Some v"
proof (cases "rest s")
  case Nil
  then show ?thesis using advance_end[OF assms] that(1) by blast
next
  case (Cons e r)
  then have "rest s = (fst e, snd e) # r" by simp
  from advance_step[OF assms this] this that(2) show ?thesis by blast
qed

lemma drain_rest: "sinv s \<Longrightarrow> length (rest s) < fuel \<Longrightarrow> drain advance key value fuel s = Some (rest s)"
proof (induction fuel arbitrary: s)
  case (Suc fuel)
  show ?case
  proof (cases "rest s")
    case Nil
    with advance_end[OF Suc.prems(1)] show ?thesis by auto
  next
    case (Cons e r)
    then obtain k v where e: "e = (k, v)" by fastforce
    with Cons advance_step[OF Suc.prems(1), of k v r] obtain s' where
        "advance s = Some (s', True)" "sinv s'" "key s' = Some k" "value s' = Some v" "rest s' = r"
      by auto
    with Suc.IH[of s'] Suc.prems(2) Cons e show ?thesis by auto
  qed
qed simp

end

end
