(* ===== verification/Ptrie.thy ===== *)
theory Ptrie
  imports Patricia Interfaces
begin

text \<open>
  The path-contracted trie of \<^verbatim>\<open>src/services/syncbase/store/ptrie/ptrie.go\<close>: the in-memory map
  from byte strings to values under the memstore and under every transaction's write
  buffer. Nodes are values here: Go updates a node in place, or first copies it when
  \<^verbatim>\<open>makeCopy\<close> is set, and in both cases the tree it returns is the one computed below. The
  functions return \<^term>\<open>None\<close> where Go panics (an index outside a slice, a nil pointer).

  The invariant \<open>pwf\<close> describes how arcs store their bit strings in whole bytes, aligned to
  the depth of the node, and \<open>pabs\<close> forgets the alignment. Under it each operation returns
  and refines its bit-level counterpart of theory \<open>Patricia\<close>; with the
  map laws proved there the trie implements a finite map from byte strings to values
  (locale \<open>kv_map\<close>).
\<close>

subsection \<open>Data\<close>

datatype 'v pnode = PNode (pvalue: "'v option") (pchild0: "'v pchild option") (pchild1: "'v pchild option")
  and 'v pchild = PChild (cnode: "'v pnode") (cbitstr: bytes) (cbitlen: nat)

record 'v ptrie =
  root :: "'v pnode option"
  copyOnWrite :: bool

fun psel :: "bool \<Rightarrow> 'v pnode \<Rightarrow> 'v pchild option" where
  "psel b (PNode v c0 c1) = (if b then c1 else c0)"

fun pupd :: "bool \<Rightarrow> 'v pchild option \<Rightarrow> 'v pnode \<Rightarrow> 'v pnode" where
  "pupd b c (PNode v c0 c1) = (if b then PNode v c0 c else PNode v c c1)"

abbreviation pempty :: "'v pnode" where
  "pempty \<equiv> PNode None None None"

lemma psel_size [termination_simp]: "psel b n = Some c \<Longrightarrow> size (cnode c) < size n"
  by (cases n; cases c) (auto split: if_splits)

lemma psel_size' [termination_simp]: "psel b n = Some (PChild t s l) \<Longrightarrow> size t < size n"
  using psel_size by fastforce

subsection \<open>Internal operations\<close>

definition bitLCP :: "'v pchild option \<Rightarrow> bytes \<Rightarrow> nat \<Rightarrow> nat option" where
  "bitLCP child s skipbits =
     (case child of
        None \<Rightarrow> Some 0
      | Some c \<Rightarrow> do {
          lcp \<leftarrow> sliceBitLCP (cbitstr c) s skipbits;
          Some (if lcp > cbitlen c then cbitlen c else lcp)
        })"

text \<open>The \<^verbatim>\<open>newChild\<close> literal of \<^verbatim>\<open>putInternal\<close>: the rest of the key below the common prefix.\<close>

definition mk_newChild :: "'v \<Rightarrow> nat \<Rightarrow> nat \<Rightarrow> bytes \<Rightarrow> 'v pchild option" where
  "mk_newChild value bitIndex lcp key = do {
     str \<leftarrow> slice_from key (u32_add bitIndex lcp div 8);
     Some (PChild (PNode (Some value) None None) str (u32_sub (u32_sub (bitlen key) bitIndex) lcp))
   }"

fun putInternal :: "'v \<Rightarrow> 'v pnode \<Rightarrow> nat \<Rightarrow> bytes \<Rightarrow> 'v pnode option" where
  "putInternal value nd bitIndex key =
     (if bitlen key = bitIndex then Some (PNode (Some value) (pchild0 nd) (pchild1 nd))
      else do {
        currBit \<leftarrow> getBit key bitIndex;
        kslice \<leftarrow> slice_from key (bitIndex div 8);
        lcp \<leftarrow> bitLCP (psel currBit nd) kslice (bitIndex mod 8);
        (case psel currBit nd of
           None \<Rightarrow> do {
             newChild \<leftarrow> mk_newChild value bitIndex lcp key;
             Some (pupd currBit (Some newChild) nd)
           }
         | Some (PChild cn cs cl) \<Rightarrow>
             if lcp = cl then do {
               n' \<leftarrow> putInternal value cn (u32_add bitIndex lcp) key;
               Some (pupd currBit (Some (PChild n' cs cl)) nd)
             }
             else do {
               newChild \<leftarrow> mk_newChild value bitIndex lcp key;
               a \<leftarrow> slice_to cs (u32_add (u32_add (bitIndex mod 8) lcp) 7 div 8);
               bbit \<leftarrow> getBit cs (u32_add (bitIndex mod 8) lcp);
               let nextBit = (\<not> bbit);
               let middleNode = (if u32_add bitIndex lcp < bitlen key
                                 then pupd nextBit (Some newChild) pempty
                                 else PNode (Some value) None None);
               b \<leftarrow> slice_from cs (u32_add (bitIndex mod 8) lcp div 8);
               Some (pupd currBit
                 (Some (PChild (pupd (\<not> nextBit) (Some (PChild cn b (u32_sub cl lcp))) middleNode) a lcp))
                 nd)
             })
      })"

fun getInternal :: "'v pnode \<Rightarrow> nat \<Rightarrow> bytes \<Rightarrow> 'v option option" where
  "getInternal nd bitIndex key =
     (if bitIndex < bitlen key then do {
        b \<leftarrow> getBit key bitIndex;
        kslice \<leftarrow> slice_from key (bitIndex div 8);
        lcp \<leftarrow> bitLCP (psel b nd) kslice (bitIndex mod 8);
        (case psel b nd of
           None \<Rightarrow> Some None
         | Some (PChild cn cs cl) \<Rightarrow>
             if lcp \<noteq> cl then Some None
             else getInternal cn (u32_add bitIndex lcp) key)
      }
      else Some (pvalue nd))"

fun deleteInternal :: "'v pnode \<Rightarrow> nat \<Rightarrow> bytes \<Rightarrow> ('v pnode option \<times> bool) option" where
  "deleteInternal nd bitIndex key =
     (if bitlen key = bitIndex then
        if pchild0 nd = None \<and> pchild1 nd = None then Some (None, True)
        else Some (Some (PNode None (pchild0 nd) (pchild1 nd)), True)
      else do {
        currBit \<leftarrow> getBit key bitIndex;
        kslice \<leftarrow> slice_from key (bitIndex div 8);
        lcp \<leftarrow> bitLCP (psel currBit nd) kslice (bitIndex mod 8);
        (case psel currBit nd of
           None \<Rightarrow> Some (Some nd, False)
         | Some (PChild cn cs cl) \<Rightarrow>
             if lcp \<noteq> cl then Some (Some nd, False)
             else do {
               (newNode, deleted) \<leftarrow> deleteInternal cn (u32_add bitIndex lcp) key;
               if \<not> deleted then Some (Some nd, False)
               else (case newNode of
                 None \<Rightarrow> Some (Some (pupd currBit None nd), True)
               | Some n' \<Rightarrow>
                   if pvalue n' = None \<and> (pchild0 n' = None \<or> pchild1 n' = None) then do {
                     g \<leftarrow> (if pchild0 n' \<noteq> None then pchild0 n' else pchild1 n');
                     str \<leftarrow> appendBits cs (u32_add (bitIndex mod 8) cl) (cbitstr g);
                     Some (Some (pupd currBit (Some (PChild (cnode g) str (u32_add cl (cbitlen g)))) nd), True)
                   }
                   else Some (Some (pupd currBit (Some (PChild n' cs cl)) nd), True))
             })
      })"

declare putInternal.simps [simp del] getInternal.simps [simp del] deleteInternal.simps [simp del]

subsection \<open>Operations on a root\<close>

definition pnode_get :: "'v pnode option \<Rightarrow> bytes \<Rightarrow> 'v option option" where
  "pnode_get nd key = (case nd of None \<Rightarrow> Some None | Some n \<Rightarrow> getInternal n 0 key)"

definition pnode_delete :: "'v pnode option \<Rightarrow> bytes \<Rightarrow> 'v pnode option option" where
  "pnode_delete nd key =
     (case nd of
        None \<Rightarrow> Some None
      | Some n \<Rightarrow> do {
          (newNode, _) \<leftarrow> deleteInternal n 0 key;
          n' \<leftarrow> newNode;
          Some (if pvalue n' = None \<and> pchild0 n' = None \<and> pchild1 n' = None then None else Some n')
        })"

definition pnode_put :: "'v pnode option \<Rightarrow> bytes \<Rightarrow> 'v option \<Rightarrow> 'v pnode option option" where
  "pnode_put nd key value =
     (case value of
        None \<Rightarrow> pnode_delete nd key
      | Some v \<Rightarrow> map_option Some (putInternal v (case nd of None \<Rightarrow> pempty | Some n \<Rightarrow> n) 0 key))"

subsection \<open>The exported operations\<close>

definition ptrie_New :: "bool \<Rightarrow> 'v ptrie" where
  "ptrie_New cow = \<lparr>root = None, copyOnWrite = cow\<rparr>"

definition ptrie_Put :: "'v ptrie \<Rightarrow> bytes \<Rightarrow> 'v option \<Rightarrow> 'v ptrie option" where
  "ptrie_Put t key value = do { r \<leftarrow> pnode_put (root t) key value; Some (t\<lparr>root := r\<rparr>) }"

definition ptrie_Get :: "'v ptrie \<Rightarrow> bytes \<Rightarrow> 'v option option" where
  "ptrie_Get t key = pnode_get (root t) key"

definition ptrie_Delete :: "'v ptrie \<Rightarrow> bytes \<Rightarrow> 'v ptrie option" where
  "ptrie_Delete t key = do { r \<leftarrow> pnode_delete (root t) key; Some (t\<lparr>root := r\<rparr>) }"

definition ptrie_Copy :: "'v ptrie \<Rightarrow> 'v ptrie option" where
  "ptrie_Copy t = (if copyOnWrite t then Some \<lparr>root = root t, copyOnWrite = True\<rparr> else None)"


subsection \<open>Invariant and abstraction\<close>

text \<open>
  A node at depth \<open>d\<close> (in bits) stores an arc's bit string from bit \<open>d mod 8\<close> of \<open>cbitstr\<close> on;
  the bits before and after it are ignored, and there are no whole spare bytes after it. No
  path is longer than \<open>2 ^ 32\<close> bits.
\<close>

definition label :: "nat \<Rightarrow> bytes \<Rightarrow> nat \<Rightarrow> bool list" where
  "label d s l = take l (drop (d mod 8) (bits_of s))"

fun pwf :: "nat \<Rightarrow> 'v pnode \<Rightarrow> bool" and pwfc :: "nat \<Rightarrow> 'v pchild option \<Rightarrow> bool" where
  "pwf d (PNode v c0 c1) \<longleftrightarrow> pwfc d c0 \<and> pwfc d c1"
| "pwfc d None \<longleftrightarrow> True"
| "pwfc d (Some (PChild n s l)) \<longleftrightarrow>
     0 < l \<and> d mod 8 + l \<le> 8 * length s \<and> 8 * length s < d mod 8 + l + 8 \<and>
     8 * (d div 8 + length s) < 2 ^ 32 \<and> pwf (d + l) n"

fun pabs :: "nat \<Rightarrow> 'v pnode \<Rightarrow> 'v bnode" and pabsc :: "nat \<Rightarrow> 'v pchild option \<Rightarrow> 'v bchild option" where
  "pabs d (PNode v c0 c1) = BNode v (pabsc d c0) (pabsc d c1)"
| "pabsc d None = None"
| "pabsc d (Some (PChild n s l)) = Some (BChild (label d s l) (pabs (d + l) n))"

lemma pabs_simps [simp]:
  "bsel b (pabs d n) = pabsc d (psel b n)"
  "bvalue (pabs d n) = pvalue n"
  "bchild0 (pabs d n) = pabsc d (pchild0 n)"
  "bchild1 (pabs d n) = pabsc d (pchild1 n)"
  "pabs d (pupd b c n) = bupd b (pabsc d c) (pabs d n)"
  by (cases n; simp)+

lemma pabsc_None_iff [simp]: "pabsc d c = None \<longleftrightarrow> c = None"
  by (cases c; cases "the c") auto

lemma pwf_psel: "pwf d n \<Longrightarrow> pwfc d (psel b n)"
  by (cases n) auto

lemma pwf_pupd: "pwf d n \<Longrightarrow> pwfc d c \<Longrightarrow> pwf d (pupd b c n)"
  by (cases n) auto

lemma pwf_pchild: "pwf d n \<Longrightarrow> pwfc d (pchild0 n) \<and> pwfc d (pchild1 n)"
  by (cases n) auto

lemma length_label [simp]: "d mod 8 + l \<le> 8 * length s \<Longrightarrow> length (label d s l) = l"
  by (simp add: label_def)

text \<open>The key's remaining bits at depth \<open>d\<close> are \<open>drop d (bits_of key)\<close>.\<close>

lemma drop_key_slice: "drop (d mod 8) (bits_of (drop (d div 8) key)) = drop d (bits_of key)"
  by (simp add: bits_of_drop)

lemma getBit_key:
  "d < 8 * length key \<Longrightarrow> getBit key d = Some (hd (drop d (bits_of key)))"
  by (simp add: getBit_Some hd_drop_conv_nth)

lemma key_slice: "d < 8 * length key \<Longrightarrow> slice_from key (d div 8) = Some (drop (d div 8) key)"
  by (simp add: slice_from_def)

lemma drop_bits_Cons:
  assumes "d < 8 * length key"
  obtains b ks where "drop d (bits_of key) = b # ks" "getBit key d = Some b"
  using assms getBit_key[OF assms] by (cases "drop d (bits_of key)") auto

lemma bitLCP_None [simp]: "bitLCP None s skip = Some 0"
  by (simp add: bitLCP_def)

lemma bitLCP_correct:
  assumes "pwfc d (Some (PChild n s l))" "d < 8 * length key" "key_ok key"
  shows "bitLCP (Some (PChild n s l)) (drop (d div 8) key) (d mod 8) =
         Some (lcp_len (label d s l) (drop d (bits_of key)))"
proof -
  have "sliceBitLCP s (drop (d div 8) key) (d mod 8) =
      Some (lcp_len (drop (d mod 8) (bits_of s)) (drop d (bits_of key)))"
    using assms by (subst sliceBitLCP_correct) (auto simp: drop_key_slice)
  then show ?thesis by (auto simp: bitLCP_def label_def lcp_len_take_min)
qed

subsection \<open>Lookup refines the bit-level lookup\<close>

theorem getInternal_refines:
  assumes "pwf d n" "d \<le> 8 * length key" "key_ok key"
  shows "getInternal n d key = Some (bget (pabs d n) (drop d (bits_of key)))"
  using assms
proof (induction n d key rule: getInternal.induct)
  case (1 n d key)
  note bl = bitlen_id[OF "1.prems"(3)]
  show ?case
  proof (cases "d < 8 * length key")
    case False
    with "1.prems" bl show ?thesis by (simp add: getInternal.simps)
  next
    case d: True
    obtain b ks where K: "drop d (bits_of key) = b # ks" "getBit key d = Some b"
      using drop_bits_Cons[OF d] .
    show ?thesis
    proof (cases "psel b n")
      case None
      then show ?thesis using K d by (simp add: getInternal.simps bl key_slice)
    next
      case (Some c)
      obtain cn cs cl where c: "psel b n = Some (PChild cn cs cl)" using Some by (cases c) auto
      then have wf: "pwfc d (Some (PChild cn cs cl))" using pwf_psel "1.prems"(1) by metis
      note lcp = bitLCP_correct[OF wf d "1.prems"(3)]
      have len: "length (label d cs cl) = cl" using wf by simp
      let ?lcp = "lcp_len (label d cs cl) (drop d (bits_of key))"
      show ?thesis
      proof (cases "?lcp = cl")
        case False
        then have "\<not> prefix (label d cs cl) (b # ks)" using len K lcp_len_full_iff by metis
        then show ?thesis using False K d c lcp by (simp add: getInternal.simps bl key_slice)
      next
        case True
        then have pre: "prefix (label d cs cl) (b # ks)" using len K lcp_len_full_iff by metis
        then have le: "d + cl \<le> 8 * length key" using len K(1) d
          by (metis add_leD1 length_bits_of length_drop prefix_length_le add.commute le_diff_conv2 less_imp_le)
        have add: "u32_add d cl = d + cl" using le "1.prems"(3) by (simp add: u32_simps)
        have "getInternal cn (u32_add d cl) key = Some (bget (pabs (d + cl) cn) (drop (d + cl) (bits_of key)))"
          using "1.IH"[OF _ K(2) key_slice[OF d] lcp[folded c] c refl] True d bl wf le "1.prems"(3)
          by (simp add: add)
        moreover have "drop cl (b # ks) = drop (d + cl) (bits_of key)"
          by (metis K(1) add.commute drop_drop)
        ultimately show ?thesis using True K d c lcp pre len
          by (subst getInternal.simps) (simp add: bl key_slice)
      qed
    qed
  qed
qed


subsection \<open>Insertion refines the bit-level insertion\<close>

lemma label_take: "m \<le> l \<Longrightarrow> take m (label d s l) = label d s m"
  by (simp add: label_def min_def)

lemma label_slice_to: "d mod 8 + m \<le> 8 * k \<Longrightarrow> label d (take k s) m = label d s m"
  by (simp add: label_def bits_of_take drop_take min_def)

lemma mod_add_depth: "(d + m) mod 8 = (d mod 8 + m) mod (8::nat)"
  by (simp add: mod_add_left_eq)

lemma div_add_depth: "(d + m) div 8 = d div 8 + (d mod 8 + m) div (8::nat)"
proof -
  have "d + m = d mod 8 + m + 8 * (d div 8)" by simp
  then have "(d + m) div 8 = (d mod 8 + m + 8 * (d div 8)) div 8" by (rule arg_cong)
  then show ?thesis by (simp only: div_mult_self2[of 8] zero_neq_numeral not_False_eq_True simp_thms)
qed

lemma depth_split: "8 * ((d mod 8 + m) div 8) + (d + m) mod 8 = d mod 8 + (m::nat)"
  by (subst mod_add_depth) (rule mult_div_mod_eq)

lemma split_bound: "i + cl \<le> 8 * l \<Longrightarrow> 8 * l < i + cl + 8 \<Longrightarrow> m < cl \<Longrightarrow> 8 * j + r = i + m \<Longrightarrow>
    r + (cl - m) \<le> 8 * (l - (j::nat)) \<and> 8 * (l - j) < r + (cl - m) + 8"
  by linarith

lemma label_drop:
  assumes "m \<le> l"
  shows "label (d + m) (drop ((d mod 8 + m) div 8) s) (l - m) = drop m (label d s l)"
proof -
  have "drop ((d + m) mod 8) (bits_of (drop ((d mod 8 + m) div 8) s)) = drop (d mod 8 + m) (bits_of s)"
    unfolding bits_of_drop drop_drop add.commute[of "(d + m) mod 8"] depth_split by (rule refl)
  then show ?thesis by (simp add: label_def drop_take add.commute)
qed

lemma label_key: "label e (drop (e div 8) key) (8 * length key - e) = drop e (bits_of key)"
  by (simp add: label_def drop_key_slice)

lemma getBit_label:
  assumes "m < l" "d mod 8 + l \<le> 8 * length s"
  shows "getBit s (d mod 8 + m) = Some (label d s l ! m)"
  using assms by (simp add: getBit_Some label_def)

lemma mk_newChild_correct:
  assumes "d + m \<le> 8 * length key" "key_ok key"
  obtains c where "mk_newChild v d m key = Some c"
    and "pabsc (d + m) (Some c) = Some (BChild (drop (d + m) (bits_of key)) (bleaf v))"
    and "d + m < 8 * length key \<Longrightarrow> pwfc (d + m) (Some c)"
proof -
  let ?c = "PChild (PNode (Some v) None None) (drop ((d + m) div 8) key) (8 * length key - (d + m))"
  have "(d + m) div 8 \<le> length key" using assms(1) by linarith
  moreover have "u32_add d m = d + m" using assms by (simp add: u32_simps)
  ultimately have "mk_newChild v d m key = Some ?c"
    using assms by (simp add: mk_newChild_def slice_from_def bitlen_id u32_simps)
  moreover have "pabsc (d + m) (Some ?c) = Some (BChild (drop (d + m) (bits_of key)) (bleaf v))"
    by (simp add: label_key)
  moreover have "pwfc (d + m) (Some ?c)" if "d + m < 8 * length key"
  proof -
    have "(d + m) mod 8 + (8 * length key - (d + m)) = 8 * (length key - (d + m) div 8)"
      using that by (simp add: minus_mult_div_eq_mod[symmetric] algebra_simps)
    then show ?thesis using that assms(2) by simp
  qed
  ultimately show ?thesis using that by blast
qed

text \<open>What the first step of every descent establishes about the chosen child.\<close>

lemma child_step:
  assumes "pwf d n" "d < 8 * length key" "key_ok key"
    and K: "drop d (bits_of key) = b # ks" and c: "psel b n = Some (PChild cn cs cl)"
  defines "m \<equiv> lcp_len (label d cs cl) (b # ks)"
  shows "bitLCP (psel b n) (drop (d div 8) key) (d mod 8) = Some m"
    and "m \<le> cl" and "d + m \<le> 8 * length key" and "u32_add d m = d + m"
    and "pwfc d (Some (PChild cn cs cl))"
    and "drop m (b # ks) = drop (d + m) (bits_of key)"
    and "length (label d cs cl) = cl"
proof -
  show wf: "pwfc d (Some (PChild cn cs cl))" using pwf_psel assms(1) c by metis
  show "bitLCP (psel b n) (drop (d div 8) key) (d mod 8) = Some m"
    using bitLCP_correct[OF wf assms(2,3)] by (simp add: m_def K c)
  show len: "length (label d cs cl) = cl" using wf by simp
  then show "m \<le> cl" unfolding m_def using lcp_len_le(1) by metis
  have "m \<le> length (b # ks)" unfolding m_def by (rule lcp_len_le)
  also have "\<dots> = 8 * length key - d" by (metis K length_drop length_bits_of)
  finally show le: "d + m \<le> 8 * length key" using assms(2) by simp
  show "u32_add d m = d + m" using le assms(3) by (simp add: u32_simps)
  show "drop m (b # ks) = drop (d + m) (bits_of key)" by (metis K add.commute drop_drop)
qed

theorem putInternal_refines:
  assumes "pwf d n" "d \<le> 8 * length key" "key_ok key" "bok (pabs d n)"
  shows "\<exists>n'. putInternal v n d key = Some n' \<and> pwf d n' \<and>
           pabs d n' = bput v (pabs d n) (drop d (bits_of key))"
  using assms
proof (induction v n d key rule: putInternal.induct)
  case (1 v n d key)
  note bl = bitlen_id[OF "1.prems"(3)]
  show ?case
  proof (cases "d < 8 * length key")
    case False
    with "1.prems" bl show ?thesis by (simp add: putInternal.simps pwf_pchild)
  next
    case d: True
    obtain b ks where K: "drop d (bits_of key) = b # ks" "getBit key d = Some b"
      using drop_bits_Cons[OF d] .
    show ?thesis
    proof (cases "psel b n")
      case None
      obtain c where c: "mk_newChild v d 0 key = Some c"
          "pabsc (d + 0) (Some c) = Some (BChild (drop (d + 0) (bits_of key)) (bleaf v))"
          "d + 0 < 8 * length key \<Longrightarrow> pwfc (d + 0) (Some c)"
        by (rule mk_newChild_correct[of d 0 key v]) (use d "1.prems" in auto)
      show ?thesis using None K d c "1.prems"(1)
        by (simp add: putInternal.simps bl key_slice pwf_pupd)
    next
      case (Some c)
      obtain cn cs cl where c: "psel b n = Some (PChild cn cs cl)" using Some by (cases c) auto
      note st = child_step[OF "1.prems"(1) d "1.prems"(3) K(1) c]
      define m where "m = lcp_len (label d cs cl) (b # ks)"
      note st = st[folded m_def]
      show ?thesis
      proof (cases "m = cl")
        case True
        obtain n' where n': "putInternal v cn (d + m) key = Some n'" "pwf (d + m) n'"
            "pabs (d + m) n' = bput v (pabs (d + m) cn) (drop (d + m) (bits_of key))"
          using "1.IH"[OF _ K(2) key_slice[OF d] st(1) c refl] True d bl st "1.prems"(3) bokD[OF "1.prems"(4), of b] c
          by auto
        have put: "putInternal v n d key = Some (pupd b (Some (PChild n' cs cl)) n)"
          using True K d c st n'(1) by (subst putInternal.simps) (simp add: bl key_slice)
        then show ?thesis using True K(1) c st n' "1.prems"(1)
          by (auto simp: pwf_pupd Let_def m_def[symmetric])
      next
        case False
        then have lt: "m < cl" using st(2) by simp
        have wf: "d mod 8 + cl \<le> 8 * length cs" "8 * (d div 8 + length cs) < 2 ^ 32" "pwf (d + cl) cn"
            "8 * length cs < d mod 8 + cl + 8"
          using st(5) by auto
        obtain nc where nc: "mk_newChild v d m key = Some nc"
            "pabsc (d + m) (Some nc) = Some (BChild (drop (d + m) (bits_of key)) (bleaf v))"
            "d + m < 8 * length key \<Longrightarrow> pwfc (d + m) (Some nc)"
          using mk_newChild_correct[OF st(3) "1.prems"(3)] by metis
        define k where "k = (d mod 8 + m + 7) div 8"
        define bb where "bb = label d cs cl ! m"
        define j where "j = (d mod 8 + m) div 8"
        define mid where "mid = pupd bb (Some (PChild cn (drop j cs) (cl - m)))
          (if d + m < 8 * length key then pupd (\<not> bb) (Some nc) pempty else PNode (Some v) None None)"
        have k: "k \<le> length cs" "d mod 8 + m \<le> 8 * k" "8 * k < d mod 8 + m + 8" and j: "j \<le> length cs"
          using wf(1) lt unfolding k_def j_def by linarith+
        have u: "u32_add (d mod 8) m = d mod 8 + m" "u32_add (d mod 8 + m) 7 = d mod 8 + m + 7"
            "u32_sub cl m = cl - m"
          using lt wf(1,2) st(3) "1.prems"(3) by (auto intro!: u32_add_id u32_sub_id)
        have "putInternal v n d key = Some (pupd b (Some (PChild mid (take k cs) m)) n)"
          using False K d c st(1,4) nc(1) k j u getBit_label[OF lt wf(1)]
          by (subst putInternal.simps)
             (simp add: bl key_slice slice_to_def slice_from_def k_def[symmetric] j_def[symmetric]
               bb_def[symmetric] mid_def)
        moreover have "pabsc d (Some (PChild mid (take k cs) m)) =
            Some (BChild (take m (label d cs cl)) (bsplit v (label d cs cl) (pabs (d + cl) cn) (b # ks) m))"
        proof -
          have "pabs (d + m) mid = bsplit v (label d cs cl) (pabs (d + cl) cn) (b # ks) m"
            using nc(2) lt st(3,6) label_drop[of m cl d cs] arg_cong[OF K(1), of length]
            by (auto simp: mid_def bsplit_def bb_def j_def)
          then show ?thesis using k(2) lt by (simp add: label_slice_to label_take)
        qed
        moreover have "pwfc d (Some (PChild mid (take k cs) m))"
        proof -
          have "label d cs cl \<noteq> [] \<and> hd (label d cs cl) = b"
            using bokD[OF "1.prems"(4), of b "label d cs cl"] c by simp
          then have "0 < m" using lcp_split(1)[of "label d cs cl" "b # ks"] by (simp add: m_def)
          moreover have "(d + m) mod 8 + (cl - m) \<le> 8 * length (drop j cs) \<and>
              8 * length (drop j cs) < (d + m) mod 8 + (cl - m) + 8"
            unfolding length_drop by (rule split_bound[OF wf(1,4) lt]) (simp only: j_def depth_split)
          moreover have "8 * ((d + m) div 8 + length (drop j cs)) < 2 ^ 32"
            using wf(2) j div_add_depth[of d m] by (simp add: j_def)
          ultimately have "pwf (d + m) mid"
            using nc(3) wf(3) lt by (auto simp: mid_def intro!: pwf_pupd)
          then show ?thesis using k wf \<open>0 < m\<close> by simp
        qed
        ultimately show ?thesis using False c K(1) "1.prems"(1) st(7)
          by (auto simp: pwf_pupd Let_def m_def[symmetric])
      qed
    qed
  qed
qed


subsection \<open>Deletion refines the bit-level deletion\<close>

text \<open>Contracting two arcs: \<^verbatim>\<open>appendBits\<close> concatenates their labels.\<close>

lemma contract_arcs:
  assumes "pwfc d (Some (PChild cn cs cl))" "pwfc (d + cl) (Some (PChild gn gs gl))"
  obtains str where "appendBits cs (u32_add (d mod 8) cl) gs = Some str"
    and "label d str (u32_add cl gl) = label d cs cl @ label (d + cl) gs gl"
    and "pwfc d (Some (PChild gn str (u32_add cl gl)))" and "u32_add cl gl = cl + gl"
proof -
  have w: "0 < cl" "d mod 8 + cl \<le> 8 * length cs" "8 * (d div 8 + length cs) < 2 ^ 32"
    "0 < gl" "(d + cl) mod 8 + gl \<le> 8 * length gs" "8 * ((d + cl) div 8 + length gs) < 2 ^ 32"
    "pwf (d + cl + gl) gn" "8 * length gs < (d + cl) mod 8 + gl + 8"
    using assms by auto
  have u: "u32_add (d mod 8) cl = d mod 8 + cl" using w(2,3) by (intro u32_add_id) simp
  have "gs \<noteq> []" using w(4,5) by auto
  with w(2) obtain str where str: "appendBits cs (d mod 8 + cl) gs = Some str"
      "bits_of str = take (d mod 8 + cl) (bits_of cs) @ drop ((d mod 8 + cl) mod 8) (bits_of gs)"
      "length str = (d mod 8 + cl) div 8 + length gs"
    using appendBits_correct by metis
  have len: "d mod 8 + (cl + gl) \<le> 8 * length str" "8 * length str < d mod 8 + (cl + gl) + 8"
    using w(5,8) depth_split[of d cl] str(3) by linarith+
  have bnd: "8 * (d div 8 + length str) < 2 ^ 32"
    using w(6) div_add_depth[of d cl] str(3) by simp
  have u2: "u32_add cl gl = cl + gl" using len bnd by (intro u32_add_id) simp
  have "label d str (cl + gl) = label d cs cl @ label (d + cl) gs gl"
  proof -
    define x where "x = take (d mod 8 + cl) (bits_of cs)"
    have "length x = d mod 8 + cl" "drop (d mod 8) x = label d cs cl"
      using w(2) by (simp_all add: x_def drop_take label_def)
    then show ?thesis using w(2) str(2) mod_add_depth[of d cl] length_label[of d cl cs]
      by (simp add: label_def[of d str] label_def[of "d + cl"] x_def[symmetric])
  qed
  with str(1) u u2 len bnd w(4,7) show ?thesis by (intro that[of str]) (auto simp: add.assoc)
qed

theorem deleteInternal_refines:
  assumes "pwf d n" "d \<le> 8 * length key" "key_ok key" "bok (pabs d n)"
  shows "\<exists>r del. deleteInternal n d key = Some (r, del) \<and>
           bdel (pabs d n) (drop d (bits_of key)) = (map_option (pabs d) r, del) \<and>
           (\<forall>n'. r = Some n' \<longrightarrow> pwf d n')"
  using assms
proof (induction n d key rule: deleteInternal.induct)
  case (1 n d key)
  note bl = bitlen_id[OF "1.prems"(3)]
  show ?case
  proof (cases "d < 8 * length key")
    case False
    with "1.prems" bl show ?thesis by (auto simp: deleteInternal.simps pwf_pchild)
  next
    case d: True
    obtain b ks where K: "drop d (bits_of key) = b # ks" "getBit key d = Some b"
      using drop_bits_Cons[OF d] .
    show ?thesis
    proof (cases "psel b n")
      case None
      then show ?thesis using K d "1.prems"(1) by (auto simp: deleteInternal.simps bl key_slice)
    next
      case (Some c)
      obtain cn cs cl where c: "psel b n = Some (PChild cn cs cl)" using Some by (cases c) auto
      define m where "m = lcp_len (label d cs cl) (b # ks)"
      note st = child_step[OF "1.prems"(1) d "1.prems"(3) K(1) c, folded m_def]
      note ok = bokD[OF "1.prems"(4), of b "label d cs cl" "pabs (d + cl) cn"]
      show ?thesis
      proof (cases "m = cl")
        case False
        then have "\<not> prefix (label d cs cl) (b # ks)" using st(7) lcp_len_full_iff m_def by metis
        with False show ?thesis using K d c st "1.prems"(1)
          by (auto simp: deleteInternal.simps bl key_slice)
      next
        case True
        then have pre: "prefix (label d cs cl) (b # ks)" using st(7) lcp_len_full_iff m_def by metis
        obtain r del where IH: "deleteInternal cn (d + m) key = Some (r, del)"
            "bdel (pabs (d + m) cn) (drop (d + m) (bits_of key)) = (map_option (pabs (d + m)) r, del)"
            "\<And>n'. r = Some n' \<Longrightarrow> pwf (d + m) n'"
          using "1.IH"[OF _ K(2) key_slice[OF d] st(1) c refl] True d bl st "1.prems"(3) ok c
          by auto
        show ?thesis
        proof (cases "del \<and> r \<noteq> None")
          case False
          then show ?thesis using True K d c st IH pre "1.prems"(1)
            by (subst deleteInternal.simps)
               (cases del; auto simp: bl key_slice pwf_pupd split: option.split)
        next
          case del: True
          then obtain n' where n': "r = Some n'" by auto
          have spec: "bok (pabs (d + m) n')" "\<not> bempty (pabs (d + m) n')"
            using bdel_correct[of "pabs (d + m) cn" "drop (d + m) (bits_of key)"] IH(2) n' True ok c
            by (auto simp: bdel_spec_def)
          have bd: "bdel (pabs d n) (b # ks) =
              (Some (bupd b (Some (bcontract (label d cs cl) (pabs (d + m) n'))) (pabs d n)), True)"
            using c pre st(6,7) IH(2) del n' True by simp
          have rec: "deleteInternal n d key =
              (if pvalue n' = None \<and> (pchild0 n' = None \<or> pchild1 n' = None) then do {
                 g \<leftarrow> (if pchild0 n' \<noteq> None then pchild0 n' else pchild1 n');
                 str \<leftarrow> appendBits cs (u32_add (d mod 8) cl) (cbitstr g);
                 Some (Some (pupd b (Some (PChild (cnode g) str (u32_add cl (cbitlen g)))) n), True)
               }
               else Some (Some (pupd b (Some (PChild n' cs cl)) n), True))"
            using True K d c st(1,4) IH(1) del n'
            by (subst deleteInternal.simps) (simp add: bl key_slice)
          show ?thesis
            using spec(2)
          proof (cases rule: bcontract_cases[where l = "label d cs cl"])
            case same
            then have "\<not> (pvalue n' = None \<and> (pchild0 n' = None \<or> pchild1 n' = None))"
              by (auto simp: bfull_def)
            then show ?thesis using rec bd same(1) K(1) IH(3)[OF n'] st(5) True "1.prems"(1)
              by (auto simp: pwf_pupd)
          next
            case (contract g l' t')
            then obtain gn gs gl where g: "psel g n' = Some (PChild gn gs gl)"
                "l' = label (d + m) gs gl" "t' = pabs (d + m + gl) gn"
              by (cases "psel g n'"; cases "the (psel g n')") auto
            have sel: "(if pchild0 n' \<noteq> None then pchild0 n' else pchild1 n') = Some (PChild gn gs gl)"
              "pvalue n' = None" "pchild0 n' = None \<or> pchild1 n' = None"
              using contract(1,2) g(1) by (cases n'; cases g; auto)+
            have "pwfc (d + cl) (Some (PChild gn gs gl))"
              using pwf_psel[OF IH(3)[OF n'], of g] g(1) True by simp
            from contract_arcs[OF st(5) this] obtain str where
                "appendBits cs (u32_add (d mod 8) cl) gs = Some str"
                "label d str (u32_add cl gl) = label d cs cl @ label (d + cl) gs gl"
                "pwfc d (Some (PChild gn str (u32_add cl gl)))" "u32_add cl gl = cl + gl" .
            then show ?thesis using rec sel bd contract(4) g K(1) True "1.prems"(1)
              by (auto simp: pwf_pupd add.assoc)
          qed
        qed
      qed
    qed
  qed
qed


subsection \<open>The trie as a map\<close>

text \<open>
  The invariant of a whole trie: the layout is well formed, the root is not an empty node,
  and every key is a whole number of bytes. \<open>ptrie_contents\<close> is the map it represents.
\<close>

definition bit_key :: "bool list \<Rightarrow> bool" where
  "bit_key k \<longleftrightarrow> 8 dvd length k \<and> length k < 2 ^ 32"

definition ptrie_inv :: "'v ptrie \<Rightarrow> bool" where
  "ptrie_inv t \<longleftrightarrow>
     (case root t of
        None \<Rightarrow> True
      | Some n \<Rightarrow> pwf 0 n \<and> bok (pabs 0 n) \<and> \<not> bempty (pabs 0 n) \<and>
          list_all (\<lambda>(k, _). bit_key k) (bentries (pabs 0 n)))"

definition ptrie_contents :: "'v ptrie \<Rightarrow> bytes \<Rightarrow> 'v option" where
  "ptrie_contents t key = (case root t of None \<Rightarrow> None | Some n \<Rightarrow> bget (pabs 0 n) (bits_of key))"

lemma keys_ok_iff:
  "bok n \<Longrightarrow> list_all (\<lambda>(k, _). bit_key k) (bentries n) \<longleftrightarrow> (\<forall>k x. bget n k = Some x \<longrightarrow> bit_key k)"
  by (auto simp: list_all_iff bentries_iff)

lemma bit_key_bits_of: "key_ok key \<Longrightarrow> bit_key (bits_of key)"
  by (simp add: bit_key_def)

lemma ptrie_inv_New: "ptrie_inv (ptrie_New c)" and ptrie_contents_New: "ptrie_contents (ptrie_New c) k = None"
  by (simp_all add: ptrie_inv_def ptrie_New_def ptrie_contents_def)

theorem ptrie_Get_correct:
  "ptrie_inv t \<Longrightarrow> key_ok key \<Longrightarrow> ptrie_Get t key = Some (ptrie_contents t key)"
  by (auto simp: ptrie_Get_def pnode_get_def ptrie_inv_def ptrie_contents_def getInternal_refines
      split: option.splits)

lemma ptrie_Put_correct:
  assumes "ptrie_inv t" "key_ok key"
  shows "\<exists>t'. ptrie_Put t key (Some v) = Some t' \<and> ptrie_inv t' \<and>
    ptrie_contents t' = (ptrie_contents t)(key \<mapsto> v) \<and> copyOnWrite t' = copyOnWrite t"
proof -
  define n where "n = (case root t of None \<Rightarrow> pempty | Some n \<Rightarrow> n)"
  have n: "pwf 0 n" "bok (pabs 0 n)" "\<forall>k x. bget (pabs 0 n) k = Some x \<longrightarrow> bit_key k"
      "\<And>k. ptrie_contents t k = bget (pabs 0 n) (bits_of k)"
    using assms(1) keys_ok_iff
    by (auto simp: n_def ptrie_inv_def ptrie_contents_def bget_conv[of "BNode None None None"]
        split: option.splits list.splits)
  obtain n' where n': "putInternal v n 0 key = Some n'" "pwf 0 n'"
      "pabs 0 n' = bput v (pabs 0 n) (bits_of key)"
    using putInternal_refines[of 0 n key v] n assms(2) by auto
  have get: "bget (pabs 0 n') = (bget (pabs 0 n))(bits_of key \<mapsto> v)"
    using bget_bput[OF n(2)] n'(3) by metis
  have "\<not> bempty (pabs 0 n')"
  proof
    assume "bempty (pabs 0 n')"
    then have "bget (pabs 0 n') (bits_of key) = None"
      by (cases "pabs 0 n'") (auto simp: bempty_def bget_conv split: list.splits)
    then show False by (simp add: get)
  qed
  moreover have "bok (pabs 0 n')" using n'(3) n(2) bok_bput by metis
  moreover have "list_all (\<lambda>(k, _). bit_key k) (bentries (pabs 0 n'))"
    using n(3) bit_key_bits_of[OF assms(2)] by (auto simp: keys_ok_iff[OF \<open>bok (pabs 0 n')\<close>] get)
  ultimately have "ptrie_inv (t\<lparr>root := Some n'\<rparr>)" using n'(2) by (simp add: ptrie_inv_def)
  moreover have "ptrie_contents (t\<lparr>root := Some n'\<rparr>) = (ptrie_contents t)(key \<mapsto> v)"
    by (rule ext) (simp add: n(4) ptrie_contents_def[of "t\<lparr>root := Some n'\<rparr>"] get)
  moreover have "ptrie_Put t key (Some v) = Some (t\<lparr>root := Some n'\<rparr>)"
    using n'(1) by (simp add: ptrie_Put_def pnode_put_def n_def)
  ultimately show ?thesis by auto
qed


text \<open>
  Deletion. When the key is empty and the trie holds nothing else, \<^verbatim>\<open>deleteInternal\<close> returns a
  nil node that \<^verbatim>\<open>delete\<close> dereferences; in every other case deletion returns.
\<close>

lemma pnode_delete_root:
  assumes "pwf 0 n" "key_ok key" "bok (pabs 0 n)"
  obtains r del where "deleteInternal n 0 key = Some (r, del)"
    and "\<And>k. bget_opt (map_option (pabs 0) r) k = (if k = bits_of key then None else bget (pabs 0 n) k)"
    and "\<And>n'. r = Some n' \<Longrightarrow> pwf 0 n' \<and> bok (pabs 0 n')"
    and "r = None \<longleftrightarrow> key = [] \<and> pchild0 n = None \<and> pchild1 n = None"
proof -
  obtain r del where d: "deleteInternal n 0 key = Some (r, del)"
      "bdel (pabs 0 n) (bits_of key) = (map_option (pabs 0) r, del)" "\<And>n'. r = Some n' \<Longrightarrow> pwf 0 n'"
    using deleteInternal_refines[of 0 n key] assms by auto
  have spec: "bdel_spec (pabs 0 n) (bits_of key) (map_option (pabs 0) r)"
    using bdel_correct[OF assms(3), of "bits_of key"] d(2) by simp
  have "r = None \<longleftrightarrow> key = [] \<and> pchild0 n = None \<and> pchild1 n = None"
    using bdel_None_iff[of "pabs 0 n" "bits_of key"] d(2) bits_of_inject[of key "[]"]
    by (simp del: bits_of_inject)
  with d spec show ?thesis by (intro that) (auto simp: bdel_spec_def)
qed

lemma ptrie_root_only_empty_key:
  assumes "ptrie_inv t" "root t = Some n"
  shows "pchild0 n = None \<and> pchild1 n = None \<longleftrightarrow> dom (ptrie_contents t) = {[]}"
proof
  assume leaf: "pchild0 n = None \<and> pchild1 n = None"
  then obtain x where "pvalue n = Some x" using assms by (auto simp: ptrie_inv_def bempty_def)
  with leaf have "pabs 0 n = bleaf x" by (cases n) auto
  then have "ptrie_contents t k = (if k = [] then Some x else None)" for k
    using assms(2) bits_of_inject[of k "[]"] by (simp add: ptrie_contents_def del: bits_of_inject)
  then show "dom (ptrie_contents t) = {[]}" by (auto simp: dom_def)
next
  assume dom: "dom (ptrie_contents t) = {[]}"
  have inv: "bok (pabs 0 n)" "\<forall>k x. bget (pabs 0 n) k = Some x \<longrightarrow> bit_key k"
    using assms keys_ok_iff[of "pabs 0 n"] by (auto simp: ptrie_inv_def)
  have "psel b n = None" for b
  proof (rule ccontr)
    assume "psel b n \<noteq> None"
    then have "bsel b (pabs 0 n) \<noteq> None" by simp
    then obtain c where "bsel b (pabs 0 n) = Some c" by blast
    from bsel_entry[OF inv(1) this] obtain k x where kx: "bget (pabs 0 n) (b # k) = Some x" .
    then have "bits_of (bytes_of_bits (b # k)) = b # k"
      using inv(2) by (intro bits_of_bytes_of_bits) (metis bit_key_def)
    moreover from this have "bytes_of_bits (b # k) \<in> dom (ptrie_contents t)"
      using kx assms(2) by (simp add: ptrie_contents_def dom_def)
    ultimately show False using dom by simp
  qed
  then show "pchild0 n = None \<and> pchild1 n = None" by (metis (full_types) psel.simps pnode.exhaust_sel)
qed

lemma ptrie_Delete_panics_iff:
  assumes "ptrie_inv t" "key_ok key"
  shows "ptrie_Delete t key = None \<longleftrightarrow> key = [] \<and> dom (ptrie_contents t) = {[]}"
proof (cases "root t")
  case None
  then show ?thesis by (auto simp: ptrie_Delete_def pnode_delete_def ptrie_contents_def)
next
  case (Some n)
  then have inv: "pwf 0 n" "bok (pabs 0 n)" using assms(1) by (auto simp: ptrie_inv_def)
  obtain r del where "deleteInternal n 0 key = Some (r, del)"
      "r = None \<longleftrightarrow> key = [] \<and> pchild0 n = None \<and> pchild1 n = None"
    using pnode_delete_root[OF inv(1) assms(2) inv(2)] by metis
  then show ?thesis using ptrie_root_only_empty_key[OF assms(1) Some] Some
    by (cases r) (auto simp: ptrie_Delete_def pnode_delete_def)
qed

lemma ptrie_Delete_correct:
  assumes "ptrie_inv t" "key_ok key" "\<not> (key = [] \<and> dom (ptrie_contents t) = {[]})"
  shows "\<exists>t'. ptrie_Delete t key = Some t' \<and> ptrie_inv t' \<and>
    ptrie_contents t' = (ptrie_contents t)(key := None) \<and> copyOnWrite t' = copyOnWrite t"
proof (cases "root t")
  case None
  then show ?thesis using assms(1)
    by (auto simp: ptrie_Delete_def pnode_delete_def ptrie_contents_def ptrie_inv_def)
next
  case (Some n)
  then have inv: "pwf 0 n" "bok (pabs 0 n)" "\<forall>k x. bget (pabs 0 n) k = Some x \<longrightarrow> bit_key k"
    using assms(1) keys_ok_iff[of "pabs 0 n"] by (auto simp: ptrie_inv_def)
  obtain r del where r: "deleteInternal n 0 key = Some (r, del)"
      "\<And>k. bget_opt (map_option (pabs 0) r) k = (if k = bits_of key then None else bget (pabs 0 n) k)"
      "\<And>n'. r = Some n' \<Longrightarrow> pwf 0 n' \<and> bok (pabs 0 n')"
      "r = None \<longleftrightarrow> key = [] \<and> pchild0 n = None \<and> pchild1 n = None"
    using pnode_delete_root[OF inv(1) assms(2) inv(2)] by metis
  from r(4) assms(3) ptrie_root_only_empty_key[OF assms(1) Some] obtain n' where n': "r = Some n'" by auto
  have get: "bget (pabs 0 n') k = (if k = bits_of key then None else bget (pabs 0 n) k)" for k
    using r(2) n' by simp
  have keys: "list_all (\<lambda>(k, _). bit_key k) (bentries (pabs 0 n'))"
    using inv(3) r(3)[OF n'] by (auto simp: keys_ok_iff get)
  have empty: "bget (pabs 0 n') k = None" if "bempty (pabs 0 n')" for k
    using that by (cases "pabs 0 n'") (auto simp: bempty_def bget_conv split: list.splits)
  define t' where "t' = t\<lparr>root := if bempty (pabs 0 n') then None else Some n'\<rparr>"
  have "ptrie_Delete t key = Some t'"
    using r(1) n' Some by (simp add: ptrie_Delete_def pnode_delete_def t'_def bempty_def)
  moreover have "ptrie_inv t'" using keys r(3)[OF n'] by (simp add: ptrie_inv_def t'_def)
  moreover have "ptrie_contents t' = (ptrie_contents t)(key := None)"
  proof
    fix k
    have "ptrie_contents t' k = bget (pabs 0 n') (bits_of k)"
      using empty by (simp add: ptrie_contents_def t'_def)
    then show "ptrie_contents t' k = ((ptrie_contents t)(key := None)) k"
      using get Some by (simp add: ptrie_contents_def)
  qed
  ultimately show ?thesis by (auto simp: t'_def)
qed

interpretation pt: kv_map "ptrie_New c" "\<lambda>t k v. ptrie_Put t k (Some v)" ptrie_Delete ptrie_Get
    ptrie_inv ptrie_contents
proof
  show "\<And>t k v. ptrie_inv t \<Longrightarrow> key_ok k \<Longrightarrow> \<exists>t'. ptrie_Put t k (Some v) = Some t' \<and> ptrie_inv t' \<and>
      ptrie_contents t' = (ptrie_contents t)(k \<mapsto> v)"
    by (metis ptrie_Put_correct)
  fix t :: "'a ptrie" and k
  assume "ptrie_inv t" "key_ok k" "k \<noteq> []"
  then show "\<exists>t'. ptrie_Delete t k = Some t' \<and> ptrie_inv t' \<and> ptrie_contents t' = (ptrie_contents t)(k := None)"
    using ptrie_Delete_correct[of t k] by metis
qed (simp_all add: ptrie_inv_New ptrie_contents_New ptrie_Get_correct)

subsection \<open>Properties\<close>

text \<open>C13: storing a value under a key never panics, and afterwards a lookup of that key finds the
  value while a lookup of any other key answers as before.\<close>

theorem ptrie_Put_then_Get:
  assumes "ptrie_inv t" "key_ok k"
  shows "\<exists>t'. ptrie_Put t k (Some v) = Some t' \<and> ptrie_inv t' \<and>
    (\<forall>k'. length k' < 2 ^ 29 \<longrightarrow> ptrie_Get t' k' = (if k' = k then Some (Some v) else ptrie_Get t k'))"
proof -
  obtain t' where "ptrie_Put t k (Some v) = Some t'" "ptrie_inv t'" "ptrie_contents t' = (ptrie_contents t)(k \<mapsto> v)"
    using ptrie_Put_correct[OF assms] by blast
  with assms show ?thesis by (simp add: ptrie_Get_correct)
qed

lemma ptrie_Put_then_Get_witness:
  "\<exists>t'. ptrie_Put (ptrie_New True) [1, 128] (Some (7::nat)) = Some t' \<and> ptrie_Get t' [1, 128] = Some (Some 7) \<and>
     ptrie_Get t' [1] = Some None"
proof -
  have g: "ptrie_Get (ptrie_New True :: nat ptrie) [1] = Some None"
    by (simp add: ptrie_New_def ptrie_Get_def pnode_get_def)
  have inv: "ptrie_inv (ptrie_New True :: nat ptrie)" by (rule ptrie_inv_New)
  have k: "key_ok [1, 128]" by simp
  from ptrie_Put_then_Get[OF inv k, of 7] obtain t' where t': "ptrie_Put (ptrie_New True) [1, 128] (Some (7::nat)) = Some t'"
      "\<forall>k'. length k' < 2 ^ 29 \<longrightarrow>
        ptrie_Get t' k' = (if k' = [1, 128] then Some (Some 7) else ptrie_Get (ptrie_New True) k')"
    by blast
  from t'(2)[rule_format, of "[1, 128]"] t'(2)[rule_format, of "[1]"] t'(1) g show ?thesis by simp
qed

text \<open>\<^verbatim>\<open>Delete\<close> panics exactly when the empty key is deleted while it is the only key of the
  trie: \<^verbatim>\<open>deleteInternal\<close> then returns a nil node, which \<^verbatim>\<open>delete\<close> dereferences.\<close>

theorem ptrie_Delete_panics_exactly:
  assumes "ptrie_inv t" "key_ok key"
  shows "ptrie_Delete t key = None \<longleftrightarrow> key = [] \<and> dom (ptrie_contents t) = {[]}"
  by (rule ptrie_Delete_panics_iff[OF assms])

lemma ptrie_Delete_panics_witness:
  "\<exists>t. ptrie_Put (ptrie_New True) [] (Some (7::nat)) = Some t \<and> ptrie_Delete t [] = None"
proof -
  have inv: "ptrie_inv (ptrie_New True :: nat ptrie)" by (rule ptrie_inv_New)
  obtain t where t: "ptrie_Put (ptrie_New True) [] (Some (7::nat)) = Some t" "ptrie_inv t"
      "ptrie_contents t = (ptrie_contents (ptrie_New True))([] \<mapsto> 7)"
    using ptrie_Put_correct[OF inv, of "[]" 7] by auto
  then have "dom (ptrie_contents t) = {[]}" by (auto simp: ptrie_contents_New)
  with ptrie_Delete_panics_exactly[OF t(2), of "[]"] t(1) show ?thesis by simp
qed

text \<open>otherwise \<^verbatim>\<open>Delete\<close> returns, and afterwards the key is absent and every other key answers
  as before, whether or not the key was present.\<close>

theorem ptrie_Delete_then_Get:
  assumes "ptrie_inv t" "key_ok k" "k \<noteq> [] \<or> dom (ptrie_contents t) \<noteq> {[]}"
  shows "\<exists>t'. ptrie_Delete t k = Some t' \<and> ptrie_inv t' \<and>
    (\<forall>k'. length k' < 2 ^ 29 \<longrightarrow> ptrie_Get t' k' = (if k' = k then Some None else ptrie_Get t k'))"
proof -
  obtain t' where "ptrie_Delete t k = Some t'" "ptrie_inv t'" "ptrie_contents t' = (ptrie_contents t)(k := None)"
    using ptrie_Delete_correct[OF assms(1,2)] assms(3) by blast
  with assms show ?thesis by (simp add: ptrie_Get_correct)
qed

lemma ptrie_Delete_then_Get_witness:
  "\<exists>t t'. ptrie_Put (ptrie_New True) [3] (Some (7::nat)) = Some t \<and> ptrie_Delete t [3] = Some t' \<and>
     ptrie_Get t [3] = Some (Some 7) \<and> ptrie_Get t' [3] = Some None"
proof -
  have inv: "ptrie_inv (ptrie_New True :: nat ptrie)" by (rule ptrie_inv_New)
  obtain t where t: "ptrie_Put (ptrie_New True) [3] (Some (7::nat)) = Some t" "ptrie_inv t"
      "ptrie_contents t = (ptrie_contents (ptrie_New True))([3] \<mapsto> 7)"
    using ptrie_Put_correct[OF inv, of "[3]" 7] by auto
  then have g: "ptrie_Get t [3] = Some (Some 7)" by (simp add: ptrie_Get_correct)
  from ptrie_Delete_then_Get[OF t(2), of "[3]"] obtain t' where t': "ptrie_Delete t [3] = Some t'"
      "\<forall>k'. length k' < 2 ^ 29 \<longrightarrow> ptrie_Get t' k' = (if k' = [3] then Some None else ptrie_Get t k')"
    by auto
  from t'(2)[rule_format, of "[3]"] t'(1) t(1) g show ?thesis by simp
qed

text \<open>insertion on the byte-level nodes, whose arcs are byte slices read from a bit offset,
  implements insertion into a path-compressed tree over bit strings, and keeps the arcs
  well-formed.\<close>

theorem putInternal_implements_bput:
  assumes "pwf d n" "d \<le> 8 * length key" "key_ok key" "bok (pabs d n)"
  shows "\<exists>n'. putInternal v n d key = Some n' \<and> pwf d n' \<and> bok (pabs d n') \<and>
    pabs d n' = bput v (pabs d n) (drop d (bits_of key))"
  using putInternal_refines[OF assms] bok_bput[OF assms(4)] by metis

lemma putInternal_implements_witness:
  "\<exists>n'. putInternal (7::nat) (PNode None None None) 0 [5] = Some n' \<and>
    pabs 0 n' = bput 7 (BNode None None None) (bits_of [5])"
  using putInternal_implements_bput[of 0 "PNode None None None" "[5]" "7::nat"] by auto

text \<open>deletion on the byte-level nodes implements deletion from the path-compressed tree,
  contracting the arcs of a node left with one child.\<close>

theorem deleteInternal_implements_bdel:
  assumes "pwf d n" "d \<le> 8 * length key" "key_ok key" "bok (pabs d n)"
  shows "\<exists>r del. deleteInternal n d key = Some (r, del) \<and> pred_option (pwf d) r \<and>
    bdel (pabs d n) (drop d (bits_of key)) = (map_option (pabs d) r, del)"
  using deleteInternal_refines[OF assms] by (metis option.pred_inject option.exhaust)

lemma deleteInternal_implements_witness:
  "\<exists>r del. deleteInternal (PNode (Some (7::nat)) None None) 0 [5] = Some (r, del) \<and>
    bdel (BNode (Some 7) None None) (bits_of [5]) = (map_option (pabs 0) r, del)"
  using deleteInternal_implements_bdel[of 0 "PNode (Some (7::nat)) None None" "[5]"] by auto

text \<open>Any sequence of writes (with no deletion of the empty key) on a new trie runs to its
  end, and the trie then answers every lookup as the map that the writes build.\<close>

theorem ptrie_history:
  assumes "list_all op_ok ws" "key_ok k"
  shows "\<exists>t. run_writes (\<lambda>t k v. ptrie_Put t k (Some v)) ptrie_Delete (ptrie_New c) ws = Some t \<and>
    ptrie_inv t \<and> ptrie_Get t k = Some (apply_ops ws Map.empty k)"
proof -
  obtain t where t: "run_writes (\<lambda>t k v. ptrie_Put t k (Some v)) ptrie_Delete (ptrie_New c) ws = Some t"
      "ptrie_inv t" "ptrie_contents t = apply_ops ws (ptrie_contents (ptrie_New c))"
    using pt.run_writes_law[OF ptrie_inv_New assms(1), of c] by blast
  have e: "ptrie_contents (ptrie_New c) = Map.empty" by (rule ext) (simp add: ptrie_contents_New)
  from t(3)[unfolded e] t(1,2) assms(2) show ?thesis by (simp add: ptrie_Get_correct)
qed

lemma ptrie_history_witness:
  "\<exists>t. run_writes (\<lambda>t k v. ptrie_Put t k (Some v)) ptrie_Delete (ptrie_New True)
      [PutOp [1] (5::nat), PutOp [1, 2] 6, DeleteOp [1]] = Some t \<and>
    ptrie_Get t [1, 2] = Some (Some 6)"
proof -
  have "list_all op_ok [PutOp [1] (5::nat), PutOp [1, 2] 6, DeleteOp [1]]" by (simp add: op_ok_def)
  from ptrie_history[OF this, of "[1, 2]" True] show ?thesis by (auto simp del: run_writes.simps)
qed

end
