(* ===== verification/Ptrie_Stream.thy ===== *)
theory Ptrie_Stream
  imports Ptrie
begin

text \<open>
  Range scans of the ptrie, \<^verbatim>\<open>src/services/syncbase/store/ptrie/stream.go\<close>: a stream keeps the stack
  of a depth-first traversal, captured between two calls of \<^verbatim>\<open>Advance\<close>. The stack is a list
  with its top first; an element is a node and the number (\<open>-1\<close>, \<open>0\<close> or \<open>1\<close>) of the child
  being visited. \<^term>\<open>None\<close> is a panic.

  The lemmas show that a stream delivers exactly the entries with \<open>start \<le> key < limit\<close>, in
  increasing key order, and that it never panics (locale \<open>kv_stream\<close>).
\<close>

subsection \<open>Data\<close>

type_synonym 'v dfsStack = "('v pnode \<times> int) list"

record 'v pstream =
  dfsStack :: "'v dfsStack"
  limit :: bytes
  hasAdvanced :: bool
  hasValue :: bool
  skey :: bytes

definition empty_stream :: "'v pstream" where
  "empty_stream = \<lparr>dfsStack = [], limit = [], hasAdvanced = False, hasValue = False, skey = []\<rparr>"

subsection \<open>Positioning\<close>

fun findFirst :: "'v pnode \<Rightarrow> 'v dfsStack \<Rightarrow> 'v dfsStack option" where
  "findFirst nd st =
     (if pvalue nd \<noteq> None then Some ((nd, -1) # st)
      else (case psel False nd of
              Some (PChild cn _ _) \<Rightarrow> findFirst cn ((nd, 0) # st)
            | None \<Rightarrow>
                (case psel True nd of
                   Some (PChild cn _ _) \<Rightarrow> findFirst cn ((nd, 1) # st)
                 | None \<Rightarrow> None)))"

declare findFirst.simps [simp del]

text \<open>
  \<open>lowerBound\<close> returns whether it found a node, and the stack. When the visit of the child
  fails, that call has popped its own element, so the element of \<open>nd\<close> is on top again, and
  \<open>lower_tail\<close> moves on to child 1 or pops it. \<open>child_after\<close> is the test that a child whose label
  leaves the start key at bit \<open>pos\<close> lies after it.
\<close>

definition child_after :: "bytes \<Rightarrow> nat \<Rightarrow> bool option" where
  "child_after start pos =
     (if pos = bitlen start then Some True
      else if pos < bitlen start then map_option Not (getBit start pos)
      else Some False)"

definition lower_tail :: "'v pnode \<Rightarrow> bool \<Rightarrow> bool \<Rightarrow> 'v dfsStack \<Rightarrow> (bool \<times> 'v dfsStack) option" where
  "lower_tail nd currBit found st2 =
     (if found then Some (True, st2)
      else (case psel True nd of
              Some (PChild cn _ _) \<Rightarrow>
                if \<not> currBit then do { st' \<leftarrow> findFirst cn ((nd, 1) # tl st2); Some (True, st') }
                else Some (False, tl st2)
            | None \<Rightarrow> Some (False, tl st2)))"

fun lowerBound :: "'v pnode \<Rightarrow> nat \<Rightarrow> bytes \<Rightarrow> 'v dfsStack \<Rightarrow> (bool \<times> 'v dfsStack) option" where
  "lowerBound nd bitIndex start st =
     (if bitIndex \<ge> bitlen start then do { st' \<leftarrow> findFirst nd st; Some (True, st') }
      else do {
        currBit \<leftarrow> getBit start bitIndex;
        let st1 = (nd, of_bool currBit) # st;
        (found, st2) \<leftarrow>
          (case psel currBit nd of
             None \<Rightarrow> Some (False, st1)
           | Some (PChild cn cs cl) \<Rightarrow> do {
               s \<leftarrow> slice_from start (bitIndex div 8);
               lcp \<leftarrow> bitLCP (psel currBit nd) s (bitIndex mod 8);
               if lcp < cl then do {
                 greater \<leftarrow> child_after start (u32_add bitIndex lcp);
                 (if greater then do { st' \<leftarrow> findFirst cn st1; Some (True, st') }
                  else Some (False, st1))
               }
               else lowerBound cn (u32_add bitIndex lcp) start st1
             });
        lower_tail nd currBit found st2
      })"

declare lowerBound.simps [simp del]

definition pnode_Scan :: "'v pnode option \<Rightarrow> bytes \<Rightarrow> bytes \<Rightarrow> 'v pstream option" where
  "pnode_Scan nd start lim =
     (case nd of
        None \<Rightarrow> Some empty_stream
      | Some n \<Rightarrow> do {
          (_, st) \<leftarrow> lowerBound n 0 start [];
          Some (empty_stream\<lparr>dfsStack := st, limit := lim\<rparr>)
        })"

definition ptrie_Scan :: "'v ptrie \<Rightarrow> bytes \<Rightarrow> bytes \<Rightarrow> 'v pstream option" where
  "ptrie_Scan t start lim = pnode_Scan (root t) start lim"

subsection \<open>Advancing\<close>

text \<open>The next child after \<open>i\<close>: the inner loop of \<^verbatim>\<open>advanceInternal\<close>, which skips nil children.\<close>

definition next_child :: "'v pnode \<Rightarrow> int \<Rightarrow> (int \<times> 'v pnode) option" where
  "next_child nd i =
     (case (if i < 0 then psel False nd else None) of
        Some (PChild cn _ _) \<Rightarrow> Some (0, cn)
      | None \<Rightarrow>
          (case (if i < 1 then psel True nd else None) of
             Some (PChild cn _ _) \<Rightarrow> Some (1, cn)
           | None \<Rightarrow> None))"

fun work :: "'v pnode \<Rightarrow> nat" and workc :: "'v pchild option \<Rightarrow> nat" where
  "work (PNode v c0 c1) = 1 + workc c0 + workc c1"
| "workc None = 0"
| "workc (Some (PChild n _ _)) = 1 + work n"

definition work_left :: "'v pnode \<Rightarrow> int \<Rightarrow> nat" where
  "work_left nd i = 1 + (if i < 0 then workc (psel False nd) else 0) + (if i < 1 then workc (psel True nd) else 0)"

lemma work_left_new: "work_left nd (-1) = work nd"
  by (cases nd) (simp add: work_left_def)

lemma work_left_pos [simp]: "0 < work_left nd i"
  by (simp add: work_left_def)

lemma next_child_work: "next_child nd i = Some (j, cn) \<Longrightarrow> work cn + work_left nd j < work_left nd i"
  by (auto simp: next_child_def work_left_def split: option.splits pchild.splits if_splits)

function advanceInternal :: "'v dfsStack \<Rightarrow> 'v dfsStack" where
  "advanceInternal [] = []"
| "advanceInternal ((nd, i) # st) =
     (case next_child nd i of
        None \<Rightarrow> advanceInternal st
      | Some (j, cn) \<Rightarrow>
          let st' = (cn, -1) # (nd, j) # st in
          if pvalue cn \<noteq> None then st' else advanceInternal st')"
  by pat_completeness auto
termination
  by (relation "measure (\<lambda>st. sum_list (map (\<lambda>(nd, i). work_left nd i) st))")
     (auto simp: work_left_new work_left_pos dest: next_child_work)

text \<open>The arcs on the path to the top of the stack, from the root down.\<close>

fun stack_arcs :: "'v dfsStack \<Rightarrow> 'v pchild list option" where
  "stack_arcs [] = Some []"
| "stack_arcs ((nd, i) # st) = do {
     arcs \<leftarrow> stack_arcs st;
     c \<leftarrow> (if i = 0 then psel False nd else if i = 1 then psel True nd else None);
     Some (arcs @ [c])
   }"

fun append_arcs :: "bytes \<Rightarrow> nat \<Rightarrow> 'v pchild list \<Rightarrow> bytes option" where
  "append_arcs buf bl [] = Some buf"
| "append_arcs buf bl (c # cs) = do {
     buf' \<leftarrow> appendBits buf bl (cbitstr c);
     append_arcs buf' (u32_add bl (cbitlen c)) cs
   }"

definition keyFromDFSStack :: "'v dfsStack \<Rightarrow> bytes option" where
  "keyFromDFSStack st = do {
     arcs \<leftarrow> stack_arcs (tl st);
     let bl = fold (\<lambda>c n. u32_add n (cbitlen c)) arcs 0;
     (if bl mod 8 \<noteq> 0 then None else append_arcs (replicate (bl div 8) 0) 0 arcs)
   }"

definition pstream_Advance :: "'v pstream \<Rightarrow> ('v pstream \<times> bool) option" where
  "pstream_Advance s = (let s = s\<lparr>hasValue := False\<rparr> in
     if dfsStack s = [] then Some (s, False)
     else do {
       let s = (if \<not> hasAdvanced s then s\<lparr>hasAdvanced := True\<rparr>
                else s\<lparr>dfsStack := advanceInternal (dfsStack s)\<rparr>);
       k \<leftarrow> keyFromDFSStack (dfsStack s);
       let s = s\<lparr>skey := k\<rparr>;
       (if dfsStack s = [] \<or> (limit s \<noteq> [] \<and> skey s \<ge> limit s) then Some (s\<lparr>dfsStack := []\<rparr>, False)
        else Some (s\<lparr>hasValue := True\<rparr>, True))
     })"

definition pstream_Key :: "'v pstream \<Rightarrow> bytes option" where
  "pstream_Key s = (if hasValue s then Some (skey s) else None)"

definition pstream_Value :: "'v pstream \<Rightarrow> 'v option" where
  "pstream_Value s = (if hasValue s then (case dfsStack s of [] \<Rightarrow> None | (nd, _) # _ \<Rightarrow> pvalue nd) else None)"


subsection \<open>What a stack stands for\<close>

text \<open>
  \<open>spath st\<close> is the bit string on the path through all elements of \<open>st\<close>, that is, to the node
  pushed on top of it; \<open>cur\<close> is the entry at the top node and \<open>after\<close> lists the entries that
  the traversal still has ahead.
\<close>

definition arc :: "'v pnode \<Rightarrow> int \<Rightarrow> 'v pchild option" where
  "arc nd i = (if i = 0 then psel False nd else if i = 1 then psel True nd else None)"

fun spath :: "'v dfsStack \<Rightarrow> bool list" where
  "spath [] = []"
| "spath ((nd, i) # st) =
     spath st @ (case arc nd i of None \<Rightarrow> [] | Some (PChild _ s l) \<Rightarrow> label (length (spath st)) s l)"

abbreviation sdepth :: "'v dfsStack \<Rightarrow> nat" where
  "sdepth st \<equiv> length (spath st)"

abbreviation node_ok :: "'v dfsStack \<Rightarrow> 'v pnode \<Rightarrow> bool" where
  "node_ok st nd \<equiv> pwf (sdepth st) nd \<and> bok (pabs (sdepth st) nd)"

fun sok :: "'v dfsStack \<Rightarrow> bool" where
  "sok [] \<longleftrightarrow> True"
| "sok ((nd, i) # st) \<longleftrightarrow> arc nd i \<noteq> None \<and> node_ok st nd \<and> sok st"

fun swf :: "'v dfsStack \<Rightarrow> bool" where
  "swf [] \<longleftrightarrow> True"
| "swf ((nd, i) # st) \<longleftrightarrow> node_ok st nd \<and> sok st"

definition side_entries :: "'v dfsStack \<Rightarrow> 'v pnode \<Rightarrow> bool \<Rightarrow> (bool list \<times> 'v) list" where
  "side_entries st nd b = map (apfst ((@) (spath st))) (bcentries (pabsc (sdepth st) (psel b nd)))"

definition node_entries :: "'v dfsStack \<Rightarrow> 'v pnode \<Rightarrow> (bool list \<times> 'v) list" where
  "node_entries st nd = map (apfst ((@) (spath st))) (bentries (pabs (sdepth st) nd))"

fun cur :: "'v dfsStack \<Rightarrow> (bool list \<times> 'v) list" where
  "cur [] = []"
| "cur ((nd, i) # st) = (case pvalue nd of None \<Rightarrow> [] | Some x \<Rightarrow> [(spath st, x)])"

fun after :: "'v dfsStack \<Rightarrow> (bool list \<times> 'v) list" where
  "after [] = []"
| "after ((nd, i) # st) =
     (if i < 0 then side_entries st nd False else []) @ (if i < 1 then side_entries st nd True else []) @ after st"

text \<open>A stack that stands on an entry.\<close>

fun valued :: "'v dfsStack \<Rightarrow> bool" where
  "valued [] \<longleftrightarrow> False"
| "valued ((nd, i) # st) \<longleftrightarrow> i = -1 \<and> pvalue nd \<noteq> None"

lemma sok_imp_swf: "sok st \<Longrightarrow> swf st"
  by (cases st rule: swf.cases) auto

lemma arc_side: "arc nd (of_bool b) = psel b nd" "arc nd 0 = psel False nd" "arc nd 1 = psel True nd"
  by (auto simp: arc_def)

text \<open>Pushing the child \<open>i\<close> of a well-formed node keeps the stack well formed.\<close>

lemma push_child:
  assumes "node_ok st nd" "sok st" "arc nd i = Some (PChild cn cs cl)" "psel b nd = arc nd i"
  shows "sok ((nd, i) # st)" and "node_ok ((nd, i) # st) cn"
    and "sdepth ((nd, i) # st) = sdepth st + cl"
    and "bfull (pabs (sdepth st + cl) cn)"
    and "node_entries ((nd, i) # st) cn = side_entries st nd b"
proof -
  let ?d = "sdepth st"
  have wf: "pwfc ?d (Some (PChild cn cs cl))" using pwf_psel[of ?d nd b] assms by simp
  have bs: "bsel b (pabs ?d nd) = Some (BChild (label ?d cs cl) (pabs (?d + cl) cn))"
    using assms(3,4) by simp
  note ok = bokD[OF _ bs]
  show "sok ((nd, i) # st)" using assms by simp
  show d: "sdepth ((nd, i) # st) = ?d + cl" using wf assms(3) by simp
  show "node_ok ((nd, i) # st) cn" unfolding d using wf ok assms(1) by simp
  show "bfull (pabs (?d + cl) cn)" using ok assms(1) by simp
  show "node_entries ((nd, i) # st) cn = side_entries st nd b"
    using assms(3,4) d by (simp add: node_entries_def side_entries_def apfst_def map_prod_def comp_def case_prod_beta)
qed

lemma node_entries_split:
  "node_entries st nd = cur ((nd, i) # st) @ side_entries st nd False @ side_entries st nd True"
  by (cases nd) (simp add: node_entries_def side_entries_def split: option.split)

lemma cur_after_push: "cur ((nd, -1) # st) @ after ((nd, -1) # st) = node_entries st nd @ after st"
  using node_entries_split[of st nd "-1"] by simp

lemma side_entries_None: "psel b nd = None \<Longrightarrow> side_entries st nd b = []"
  by (simp add: side_entries_def)

subsection \<open>advanceInternal moves to the next entry\<close>

lemma next_child_None:
  "next_child nd i = None \<Longrightarrow> after ((nd, i) # st) = after st"
  by (auto simp: next_child_def side_entries_None split: option.splits pchild.splits if_splits)

lemma next_child_Some:
  assumes "next_child nd i = Some (j, cn)" "node_ok st nd" "sok st"
  shows "swf ((cn, -1) # (nd, j) # st)"
    and "cur ((cn, -1) # (nd, j) # st) @ after ((cn, -1) # (nd, j) # st) = after ((nd, i) # st)"
proof -
  consider cs cl where "i < 0" "j = 0" "psel False nd = Some (PChild cn cs cl)"
    | cs cl where "i < 1" "j = 1" "psel True nd = Some (PChild cn cs cl)" "i < 0 \<Longrightarrow> psel False nd = None"
    using assms(1) by (auto simp: next_child_def split: option.splits pchild.splits if_splits)
  then have "swf ((cn, -1) # (nd, j) # st) \<and>
      cur ((cn, -1) # (nd, j) # st) @ after ((cn, -1) # (nd, j) # st) = after ((nd, i) # st)"
  proof cases
    case 1
    then have a: "arc nd j = Some (PChild cn cs cl)" "psel False nd = arc nd j" by (simp_all add: arc_def)
    note p = push_child[OF assms(2,3) a]
    show ?thesis unfolding cur_after_push p(5) using p(1,2) 1 by simp
  next
    case 2
    then have a: "arc nd j = Some (PChild cn cs cl)" "psel True nd = arc nd j" by (simp_all add: arc_def)
    note p = push_child[OF assms(2,3) a]
    show ?thesis unfolding cur_after_push p(5) using p(1,2) 2 by (simp add: side_entries_None)
  qed
  then show "swf ((cn, -1) # (nd, j) # st)"
    "cur ((cn, -1) # (nd, j) # st) @ after ((cn, -1) # (nd, j) # st) = after ((nd, i) # st)" by blast+
qed

theorem advanceInternal_correct:
  assumes "swf st"
  shows "swf (advanceInternal st)" and "cur (advanceInternal st) @ after (advanceInternal st) = after st"
    and "advanceInternal st = [] \<or> valued (advanceInternal st)"
proof -
  have "swf (advanceInternal st) \<and> cur (advanceInternal st) @ after (advanceInternal st) = after st \<and>
      (advanceInternal st = [] \<or> valued (advanceInternal st))"
    using assms
  proof (induction st rule: advanceInternal.induct)
    case (2 nd i st)
    have ok: "node_ok st nd" "sok st" using "2.prems" by auto
    show ?case
    proof (cases "next_child nd i")
      case None
      then show ?thesis using "2.IH"(1) sok_imp_swf[OF ok(2)] next_child_None[OF None, of st] by simp
    next
      case (Some p)
      then obtain j cn where c: "next_child nd i = Some (j, cn)" by (cases p) auto
      note n = next_child_Some[OF c ok]
      show ?thesis
      proof (cases "pvalue cn")
        case None
        then have "advanceInternal ((nd, i) # st) = advanceInternal ((cn, -1) # (nd, j) # st)"
          using c by simp
        moreover have "after ((cn, -1) # (nd, j) # st) = after ((nd, i) # st)" using n(2) None by simp
        ultimately show ?thesis using "2.IH"(2)[OF c refl refl] None n(1) by simp
      next
        case (Some x)
        then have "advanceInternal ((nd, i) # st) = (cn, -1) # (nd, j) # st" using c by simp
        then show ?thesis using n Some by (simp only: valued.simps) simp
      qed
    qed
  qed simp
  then show "swf (advanceInternal st)" "cur (advanceInternal st) @ after (advanceInternal st) = after st"
    "advanceInternal st = [] \<or> valued (advanceInternal st)" by blast+
qed


subsection \<open>findFirst and lowerBound\<close>

lemma pchild_opt_cases:
  obtains (None) "c = None" | (Some) cn cs cl where "c = Some (PChild cn cs cl)"
proof (cases c)
  case (Some d)
  then show ?thesis using that by (cases d) simp
qed (rule that)

theorem findFirst_correct:
  assumes "node_ok st nd" "sok st" "\<not> bempty (pabs (sdepth st) nd)"
  shows "\<exists>st'. findFirst nd st = Some st' \<and> swf st' \<and> valued st' \<and>
           cur st' @ after st' = node_entries st nd @ after st"
  using assms
proof (induction nd st rule: findFirst.induct)
  case (1 nd st)
  show ?case
  proof (cases "pvalue nd = None")
    case False
    then have "findFirst nd st = Some ((nd, -1) # st)" by (simp add: findFirst.simps)
    then show ?thesis using cur_after_push[of nd st] "1.prems" False by auto
  next
    case noval: True
    have descend: ?thesis
      if c: "psel b nd = Some (PChild cn cs cl)" and rec: "findFirst nd st = findFirst cn ((nd, of_bool b) # st)"
        and IH: "node_ok ((nd, of_bool b) # st) cn \<Longrightarrow> sok ((nd, of_bool b) # st) \<Longrightarrow>
          \<not> bempty (pabs (sdepth ((nd, of_bool b) # st)) cn) \<Longrightarrow>
          \<exists>st'. findFirst cn ((nd, of_bool b) # st) = Some st' \<and> swf st' \<and> valued st' \<and>
            cur st' @ after st' = node_entries ((nd, of_bool b) # st) cn @ after ((nd, of_bool b) # st)"
        and first: "b \<Longrightarrow> psel False nd = None" for b cn cs cl
    proof -
      have a: "arc nd (of_bool b) = Some (PChild cn cs cl)" "psel b nd = arc nd (of_bool b)"
        using c by (simp_all add: arc_side)
      note p = push_child[OF "1.prems"(1,2) a]
      have "node_entries ((nd, of_bool b) # st) cn @ after ((nd, of_bool b) # st) = node_entries st nd @ after st"
        unfolding p(5) using noval first
        by (cases b) (auto simp: node_entries_split[of st nd 0] side_entries_None)
      then show ?thesis using IH[OF p(2,1)] rec p(3,4) bfull_not_bempty by metis
    qed
    show ?thesis
    proof (cases "psel False nd" rule: pchild_opt_cases)
      case (Some cn cs cl)
      show ?thesis
        using "1.IH"(2)[OF _ Some refl] noval Some by (intro descend[OF Some]) (simp_all add: findFirst.simps[of nd st])
    next
      case None
      with noval "1.prems"(3) obtain cn cs cl where c: "psel True nd = Some (PChild cn cs cl)"
        by (cases "psel True nd" rule: pchild_opt_cases) (auto simp: bempty_def bchild_bsel simp del: pabs_simps(3,4))
      show ?thesis
        using "1.IH"(1)[OF _ None c refl] noval None c
        by (intro descend[OF c]) (simp_all add: findFirst.simps[of nd st])
    qed
  qed
qed

text \<open>The entries of one side at or after the remaining bits of the start key.\<close>

lemma filter_all: "(\<And>x. x \<in> set xs \<Longrightarrow> P x) \<Longrightarrow> filter P xs = xs"
  by (simp add: filter_id_conv)

lemma bcentries_hd: "bok n \<Longrightarrow> (k, x) \<in> set (bcentries (bsel b n)) \<Longrightarrow> k \<noteq> [] \<and> hd k = b"
proof -
  assume ok: "bok n" and k: "(k, x) \<in> set (bcentries (bsel b n))"
  show ?thesis
  proof (cases "bsel b n" rule: bchild_opt_cases)
    case (Some l t)
    then show ?thesis using bokD[OF ok Some] k by auto
  qed (use k in simp)
qed

abbreviation geq :: "bool list \<Rightarrow> (bool list \<times> 'v) list \<Rightarrow> (bool list \<times> 'v) list" where
  "geq q \<equiv> filter (\<lambda>(k, _). q \<le> k)"

lemma geq_bentries:
  assumes "bok n"
  shows "geq (b # ks) (bentries n) =
    (if b then geq (b # ks) (bcentries (bsel True n))
     else geq (b # ks) (bcentries (bsel False n)) @ bcentries (bsel True n))"
proof -
  have hd: "k \<noteq> [] \<and> hd k = c" if "(k, x) \<in> set (bcentries (bsel c n))" for c k x
    using bcentries_hd[OF assms that] .
  have "geq (b # ks) (bcentries (bsel False n)) = []" if b
    using that hd[of _ _ False] by (force simp: filter_empty_conv neq_Nil_conv)
  moreover have "geq (b # ks) (bcentries (bsel True n)) = bcentries (bsel True n)" if "\<not> b"
    using that hd[of _ _ True] by (intro filter_all) (force simp: neq_Nil_conv)
  ultimately show ?thesis by (auto simp: bentries_bsel[of n] split: option.split)
qed

lemma geq_append: "geq (l @ q) (map (apfst ((@) l)) es) = map (apfst ((@) l)) (geq q es)"
proof -
  have "(l @ q \<le> l @ k) = (q \<le> k)" for k by (induction l) auto
  then show ?thesis by (simp add: filter_map comp_def case_prod_beta')
qed

lemma append_less_differ: "xs ! i < (ys ! i :: bool) \<Longrightarrow> i < length xs \<Longrightarrow> i < length ys \<Longrightarrow>
    take i xs = take i ys \<Longrightarrow> xs < ys"
proof (induction xs arbitrary: i ys)
  case (Cons x xs)
  then show ?case by (cases i; cases ys) auto
qed simp

text \<open>A label that leaves the start key at bit \<open>m\<close>: all of its entries are after the key or none.\<close>

lemma geq_label:
  fixes es :: "(bool list \<times> 'v) list" and l q :: "bool list"
  defines "m \<equiv> lcp_len l q"
  assumes "m < length l"
  shows "geq q (map (apfst ((@) l)) es) =
    (if m = length q \<or> (m < length q \<and> \<not> q ! m) then map (apfst ((@) l)) es else [])"
proof -
  note t = lcp_len_take[of l q, folded m_def]
  have mq: "m \<le> length q" unfolding m_def by (rule lcp_len_le)
  consider "m = length q" | "m < length q" "\<not> q ! m" "l ! m" | "m < length q" "q ! m" "\<not> l ! m"
    using mq lcp_len_differ[of l q, folded m_def] assms(2) by fastforce
  then show ?thesis
  proof cases
    case 1
    then have "q = take m l" using t by simp
    then have "q \<le> l @ k" for k
      by (metis append_take_drop_id append_assoc append_Nil2 append_less_same linorder_not_le not_less_Nil)
    then have "geq q (map (apfst ((@) l)) es) = map (apfst ((@) l)) es" by (intro filter_all) auto
    then show ?thesis using 1 by simp
  next
    case 2
    then have "q < l @ k" for k
      using append_less_differ[of q m "l @ k"] t assms(2) by (simp add: nth_append)
    then have "geq q (map (apfst ((@) l)) es) = map (apfst ((@) l)) es"
      by (intro filter_all) (auto intro: less_imp_le)
    then show ?thesis using 2 by simp
  next
    case 3
    then have "l @ k < q" for k
      using append_less_differ[of "l @ k" m q] t assms(2) by (simp add: nth_append)
    then show ?thesis using 3 by (fastforce simp: filter_empty_conv dest: leD)
  qed
qed


text \<open>
  \<open>lower_post\<close>: the search found the first entry of \<open>es\<close>, or there is none. \<open>lower_tail\<close> turns the
  outcome for the child on the key's side into the outcome for the node.
\<close>

definition lower_post ::
  "(bool list \<times> 'v) list \<Rightarrow> 'v dfsStack \<Rightarrow> (bool \<times> 'v dfsStack) option \<Rightarrow> bool" where
  "lower_post es st r \<longleftrightarrow> (\<exists>found st'. r = Some (found, st') \<and>
     (if found then swf st' \<and> valued st' \<and> cur st' @ after st' = es @ after st
      else es = [] \<and> st' = st))"

lemma lower_post_Some [simp]:
  "lower_post es st (Some (found, st')) \<longleftrightarrow>
     (if found then swf st' \<and> valued st' \<and> cur st' @ after st' = es @ after st else es = [] \<and> st' = st)"
  by (auto simp: lower_post_def)

lemma lower_postE:
  assumes "lower_post es st r"
  obtains found st' where "r = Some (found, st')" "lower_post es st (Some (found, st'))"
  using assms by (auto simp: lower_post_def)

abbreviation pre :: "'v dfsStack \<Rightarrow> (bool list \<times> 'v) list \<Rightarrow> (bool list \<times> 'v) list" where
  "pre st \<equiv> map (apfst ((@) (spath st)))"

lemma findFirst_post:
  assumes "node_ok st nd" "sok st" "\<not> bempty (pabs (sdepth st) nd)"
  shows "lower_post (node_entries st nd) st (do { st' \<leftarrow> findFirst nd st; Some (True, st') })"
proof -
  obtain st' where "findFirst nd st = Some st'" "swf st'" "valued st'"
      "cur st' @ after st' = node_entries st nd @ after st"
    using findFirst_correct[OF assms] by blast
  then show ?thesis by simp
qed

lemma lower_tail_post:
  assumes "node_ok st nd" "sok st"
    and "lower_post (pre st (geq (b # ks) (bcentries (pabsc (sdepth st) (psel b nd))))) ((nd, of_bool b) # st)
      (Some (found, st2))"
  shows "lower_post (pre st (geq (b # ks) (bentries (pabs (sdepth st) nd)))) st (lower_tail nd b found st2)"
proof -
  have E: "pre st (geq (b # ks) (bentries (pabs (sdepth st) nd))) =
      pre st (geq (b # ks) (bcentries (pabsc (sdepth st) (psel b nd)))) @
      (if b then [] else side_entries st nd True)"
    using geq_bentries[of "pabs (sdepth st) nd" b ks] assms(1) by (cases b) (simp_all add: side_entries_def)
  have A: "after ((nd, of_bool b) # st) = (if b then [] else side_entries st nd True) @ after st" by simp
  show ?thesis
  proof (cases "found \<or> b \<or> psel True nd = None")
    case True
    then consider found | "\<not> found" b | "\<not> found" "\<not> b" "psel True nd = None" by auto
    then show ?thesis
    proof cases
      case 1
      then show ?thesis using assms(3) unfolding E by (simp add: lower_tail_def A del: after.simps)
    next
      case 2
      then show ?thesis using assms(3) unfolding E
        by (auto simp: lower_tail_def split: option.splits pchild.splits)
    next
      case 3
      then show ?thesis using assms(3) unfolding E by (simp add: lower_tail_def side_entries_None)
    qed
  next
    case False
    then obtain cn cs cl where c: "psel True nd = Some (PChild cn cs cl)"
      by (cases "psel True nd" rule: pchild_opt_cases) auto
    then have a: "arc nd 1 = Some (PChild cn cs cl)" "psel True nd = arc nd 1" by (simp_all add: arc_side)
    note p = push_child[OF assms(1,2) a]
    obtain st' where st': "findFirst cn ((nd, 1) # st) = Some st'" "swf st'" "valued st'"
        "cur st' @ after st' = node_entries ((nd, 1) # st) cn @ after ((nd, 1) # st)"
      using findFirst_correct[OF p(2,1)] p(3,4) bfull_not_bempty by auto
    have s2: "st2 = (nd, of_bool b) # st" and E': "pre st (geq (b # ks) (bentries (pabs (sdepth st) nd))) =
        node_entries ((nd, 1) # st) cn"
      using assms(3) False unfolding E p(5) by simp_all
    have "lower_tail nd b found st2 = Some (True, st')"
      using False c s2 st'(1) by (simp add: lower_tail_def)
    then show ?thesis using st'(2-4) E' by simp
  qed
qed

theorem lowerBound_correct:
  assumes "node_ok st nd" "sok st" "\<not> bempty (pabs (sdepth st) nd)"
    and "bitIndex = sdepth st" "bitIndex \<le> 8 * length start" "key_ok start"
  shows "lower_post (pre st (geq (drop (sdepth st) (bits_of start)) (bentries (pabs (sdepth st) nd)))) st
           (lowerBound nd bitIndex start st)"
  using assms
proof (induction nd bitIndex start st rule: lowerBound.induct)
  case (1 nd bitIndex start st)
  let ?d = "sdepth st" and ?S = "bits_of start"
  note bl = bitlen_id[OF "1.prems"(6)]
  show ?case
  proof (cases "?d < 8 * length start")
    case False
    then have "drop ?d ?S = []" by simp
    then have "pre st (geq (drop ?d ?S) (bentries (pabs ?d nd))) = node_entries st nd"
      by (simp add: node_entries_def case_prod_beta)
    moreover have "lowerBound nd bitIndex start st = (do { st' \<leftarrow> findFirst nd st; Some (True, st') })"
      using False "1.prems"(4) by (simp add: lowerBound.simps bl)
    ultimately show ?thesis using findFirst_post[OF "1.prems"(1-3)] by simp
  next
    case d: True
    obtain b ks where K: "drop ?d ?S = b # ks" "getBit start ?d = Some b"
      using drop_bits_Cons[OF d] .
    let ?st1 = "(nd, of_bool b) # st" and ?ces = "pre st (geq (b # ks) (bcentries (pabsc ?d (psel b nd))))"
    have fin: ?thesis
      if "lower_post ?ces ?st1 (Some (found, st2))" "lowerBound nd bitIndex start st = lower_tail nd b found st2"
      for found st2
      using lower_tail_post[OF "1.prems"(1,2) that(1)] that(2) K(1) by simp
    show ?thesis
    proof (cases "psel b nd" rule: pchild_opt_cases)
      case None
      show ?thesis using None d "1.prems"(4) K
        by (intro fin[of False ?st1]) (simp_all add: lowerBound.simps[of nd _ _ st] bl)
    next
      case (Some cn cs cl)
      have a: "arc nd (of_bool b) = Some (PChild cn cs cl)" "psel b nd = arc nd (of_bool b)"
        using Some by (simp_all add: arc_side)
      note p = push_child[OF "1.prems"(1,2) a]
      define m where "m = lcp_len (label ?d cs cl) (b # ks)"
      note c = child_step[OF _ d "1.prems"(6) K(1) Some, folded m_def]
      have wf: "pwf ?d nd" using "1.prems"(1) by simp
      note c = c[OF wf]
      show ?thesis
      proof (cases "m < cl")
        case True
        have len: "length (b # ks) = 8 * length start - ?d" by (metis K(1) length_drop length_bits_of)
        have nth: "getBit start (?d + m) = Some ((b # ks) ! m)" if "?d + m < 8 * length start"
          using that by (simp add: getBit_Some K(1)[symmetric])
        define greater where "greater \<longleftrightarrow> m = length (b # ks) \<or> (m < length (b # ks) \<and> \<not> (b # ks) ! m)"
        have "geq (b # ks) (bcentries (pabsc ?d (psel b nd))) =
            (if greater then bcentries (pabsc ?d (psel b nd)) else [])"
          using geq_label[of "label ?d cs cl" "b # ks" "bentries (pabs (?d + cl) cn)"] True c(7) Some
          unfolding greater_def m_def by simp
        then have ces: "?ces = (if greater then side_entries st nd b else [])"
          by (simp add: side_entries_def)
        have g: "child_after start (u32_add ?d m) = Some greater"
          using nth len c(3) d unfolding greater_def c(4) child_after_def bl by auto
        have ne: "\<not> bempty (pabs (sdepth ?st1) cn)" unfolding p(3) by (rule bfull_not_bempty[OF p(4)])
        have "lower_post ?ces ?st1 (if greater then do { st' \<leftarrow> findFirst cn ?st1; Some (True, st') }
            else Some (False, ?st1))"
          using findFirst_post[OF p(2,1) ne] unfolding ces p(5) by simp
        then obtain found st2 where r: "(if greater then do { st' \<leftarrow> findFirst cn ?st1; Some (True, st') }
            else Some (False, ?st1)) = Some (found, st2)" "lower_post ?ces ?st1 (Some (found, st2))"
          by (rule lower_postE)
        have "lowerBound nd bitIndex start st = lower_tail nd b found st2"
          using d K c(1) Some True r(1) g "1.prems"(4) unfolding lowerBound.simps[of nd bitIndex start st]
          by (simp add: bl key_slice Let_def)
        then show ?thesis by (rule fin[OF r(2)])
      next
        case False
        then have m: "m = cl" using c(2) by simp
        have "prefix (label ?d cs cl) (b # ks)" using m c(7) m_def lcp_len_full_iff by metis
        then have q: "b # ks = label ?d cs cl @ drop (?d + cl) ?S" using c(6,7) m by (metis append_eq_conv_conj prefix_def)
        have "lower_post (pre ?st1 (geq (drop (?d + cl) ?S) (bentries (pabs (?d + cl) cn)))) ?st1
            (lowerBound cn (u32_add bitIndex m) start ?st1)"
          using "1.IH"[OF _ _ refl Some refl, of "drop (?d div 8) start" m] d K c False bl p m
            bfull_not_bempty[OF p(4)] key_slice[OF d] "1.prems"(4,6)
          by (simp del: spath.simps sok.simps)
        moreover have "pre ?st1 (geq (drop (?d + cl) ?S) (bentries (pabs (?d + cl) cn))) = ?ces"
        proof -
          have "?ces = pre st (map (apfst ((@) (label ?d cs cl))) (geq (drop (?d + cl) ?S) (bentries (pabs (?d + cl) cn))))"
            unfolding q Some pabsc.simps bcentries.simps geq_append ..
          then show ?thesis using a(1) by (simp add: comp_def apfst_def map_prod_def case_prod_beta)
        qed
        ultimately have "lower_post ?ces ?st1 (lowerBound cn (u32_add bitIndex m) start ?st1)"
          by (simp only:)
        then obtain found st2 where r: "lowerBound cn (u32_add bitIndex m) start ?st1 = Some (found, st2)"
            "lower_post ?ces ?st1 (Some (found, st2))"
          by (rule lower_postE)
        have "lowerBound nd bitIndex start st = lower_tail nd b found st2"
          using d K c(1) Some False r(1) "1.prems"(4) unfolding lowerBound.simps[of nd bitIndex start st]
          by (simp add: bl key_slice)
        then show ?thesis by (rule fin[OF r(2)])
      qed
    qed
  qed
qed


subsection \<open>The key of the top node\<close>

lemma append_arcs_snoc:
  "append_arcs buf bl (cs @ [c]) = do {
     buf' \<leftarrow> append_arcs buf bl cs;
     appendBits buf' (fold (\<lambda>c n. u32_add n (cbitlen c)) cs bl) (cbitstr c)
   }"
  by (induction cs arbitrary: buf bl) (auto simp: bind_eq_Some_conv split: Option.bind_splits)

lemma bits_bound: "r + l \<le> 8 * n \<Longrightarrow> 8 * (q + n) < m \<Longrightarrow> 8 * q + r + l < (m::nat)"
  by (simp add: add_mult_distrib2)

lemma bytes_needed: "r + l \<le> 8 * n \<Longrightarrow> 8 * n < r + l + 8 \<Longrightarrow> (r + (l + 7)) div 8 = (n::nat)"
  by (rule div_nat_eqI) simp_all

lemma stack_arcs_correct:
  assumes "sok st"
  shows "\<exists>arcs buf. stack_arcs st = Some arcs \<and> fold (\<lambda>c n. u32_add n (cbitlen c)) arcs 0 = sdepth st \<and>
    append_arcs (replicate n 0) 0 arcs = Some buf \<and> take (sdepth st) (bits_of buf) = spath st \<and>
    length buf = (if st = [] then n else (sdepth st + 7) div 8) \<and> (st \<noteq> [] \<longrightarrow> 0 < sdepth st)"
  using assms
proof (induction st rule: sok.induct)
  case (2 nd i st)
  let ?d = "sdepth st"
  obtain c where c: "arc nd i = Some c" using "2.prems" by auto
  obtain cn cs cl where cc: "c = PChild cn cs cl" by (cases c) auto
  have "pwfc ?d (arc nd i)" using "2.prems" pwf_psel by (auto simp: arc_def)
  then have wf: "0 < cl" "?d mod 8 + cl \<le> 8 * length cs" "8 * length cs < ?d mod 8 + cl + 8"
      "8 * (?d div 8 + length cs) < 2 ^ 32"
    using c cc by auto
  obtain arcs buf where IH: "stack_arcs st = Some arcs" "fold (\<lambda>c n. u32_add n (cbitlen c)) arcs 0 = ?d"
      "append_arcs (replicate n 0) 0 arcs = Some buf" "take ?d (bits_of buf) = spath st"
      "length buf = (if st = [] then n else (?d + 7) div 8)"
    using "2.IH" "2.prems" by auto
  have "?d \<le> 8 * length buf" using IH(5) by (cases "st = []") auto
  moreover have "cs \<noteq> []" using wf by auto
  ultimately obtain buf' where b: "appendBits buf ?d cs = Some buf'"
      "bits_of buf' = take ?d (bits_of buf) @ drop (?d mod 8) (bits_of cs)"
      "length buf' = ?d div 8 + length cs"
    using appendBits_correct by metis
  have "u32_add ?d cl = ?d + cl"
    using bits_bound[OF wf(2,4)] unfolding mult_div_mod_eq by (rule u32_add_id)
  moreover have "length buf' = (?d + cl + 7) div 8"
    using b(3) bytes_needed[OF wf(2,3)] div_add_depth[of ?d "cl + 7"] by (simp add: add.assoc)
  moreover have "stack_arcs ((nd, i) # st) = Some (arcs @ [c])"
    using IH(1) c by (simp add: arc_def)
  moreover have "append_arcs (replicate n 0) 0 (arcs @ [c]) = Some buf'"
    using IH(2,3) b(1) cc by (simp add: append_arcs_snoc)
  moreover have "spath ((nd, i) # st) = spath st @ label ?d cs cl" using c cc by simp
  moreover have "take (?d + cl) (bits_of buf') = spath st @ label ?d cs cl"
    using b(2) IH(4) by (simp add: label_def)
  ultimately show ?case using IH(2) c cc wf(1,2) by (auto simp del: stack_arcs.simps)
qed simp

lemma keyFromDFSStack_Nil [simp]: "keyFromDFSStack [] = Some []"
  by (simp add: keyFromDFSStack_def)

lemma keyFromDFSStack_correct:
  assumes "swf st" "8 dvd sdepth (tl st)"
  shows "\<exists>k. keyFromDFSStack st = Some k \<and> bits_of k = spath (tl st)"
proof -
  have "sok (tl st)" using assms(1) by (cases st rule: swf.cases) auto
  from stack_arcs_correct[OF this, of "sdepth (tl st) div 8"]
  obtain arcs buf where a: "stack_arcs (tl st) = Some arcs"
      "fold (\<lambda>c n. u32_add n (cbitlen c)) arcs 0 = sdepth (tl st)"
      "append_arcs (replicate (sdepth (tl st) div 8) 0) 0 arcs = Some buf"
      "take (sdepth (tl st)) (bits_of buf) = spath (tl st)"
      "length buf = (if tl st = [] then sdepth (tl st) div 8 else (sdepth (tl st) + 7) div 8)"
    by blast
  have "8 * length buf = sdepth (tl st)" using a(5) assms(2) by (auto split: if_splits)
  then have "bits_of buf = spath (tl st)" using a(4) by (metis length_bits_of take_all_iff order_refl)
  then show ?thesis using a assms(2) by (auto simp: keyFromDFSStack_def)
qed


subsection \<open>The stream delivers its entries\<close>

definition pending :: "'v pstream \<Rightarrow> (bool list \<times> 'v) list" where
  "pending s = (if hasAdvanced s then after (dfsStack s) else cur (dfsStack s) @ after (dfsStack s))"

definition pstream_rest :: "'v pstream \<Rightarrow> (bytes \<times> 'v) list" where
  "pstream_rest s = takeWhile (\<lambda>(k, _). limit s = [] \<or> k < limit s) (map (apfst bytes_of_bits) (pending s))"

definition pstream_inv :: "'v pstream \<Rightarrow> bool" where
  "pstream_inv s \<longleftrightarrow> swf (dfsStack s) \<and> list_all (\<lambda>(k, _). bit_key k) (pending s) \<and>
     (hasAdvanced s \<or> dfsStack s = [] \<or> valued (dfsStack s))"

text \<open>The stack after the first half of \<^verbatim>\<open>Advance\<close>.\<close>

definition advanced :: "'v pstream \<Rightarrow> 'v dfsStack" where
  "advanced s = (if hasAdvanced s then advanceInternal (dfsStack s) else dfsStack s)"

lemma advanced_correct:
  assumes "pstream_inv s"
  shows "swf (advanced s)" "cur (advanced s) @ after (advanced s) = pending s"
    "advanced s = [] \<or> valued (advanced s)"
  using assms advanceInternal_correct[of "dfsStack s"] by (auto simp: advanced_def pstream_inv_def pending_def)

lemma pstream_Advance_unfold:
  assumes "dfsStack s \<noteq> []"
  shows "pstream_Advance s = do {
     k \<leftarrow> keyFromDFSStack (advanced s);
     Some (if advanced s = [] \<or> (limit s \<noteq> [] \<and> limit s \<le> k)
       then (s\<lparr>dfsStack := [], hasAdvanced := True, hasValue := False, skey := k\<rparr>, False)
       else (s\<lparr>dfsStack := advanced s, hasAdvanced := True, hasValue := True, skey := k\<rparr>, True))
   }"
  using assms by (cases "hasAdvanced s"; cases "keyFromDFSStack (advanced s)")
    (auto simp: pstream_Advance_def advanced_def Let_def)

lemma bytes_of_bits_eq: "bits_of k = p \<Longrightarrow> bytes_of_bits p = k"
  using bits_of_bytes_of_bits[of p] by (metis bits_of_inject dvd_triv_left length_bits_of)

lemma pstream_inv_finished: "pstream_inv s \<Longrightarrow> dfsStack s = [] \<Longrightarrow> pstream_rest s = []"
  by (simp add: pstream_rest_def pending_def)

lemma pstream_Advance_end:
  assumes "pstream_inv s" "pstream_rest s = []"
  shows "\<exists>s'. pstream_Advance s = Some (s', False) \<and> pstream_inv s' \<and> pstream_rest s' = []"
proof (cases "dfsStack s = [] \<or> advanced s = []")
  case True
  show ?thesis
  proof (cases "dfsStack s = []")
    case True
    then have "pstream_Advance s = Some (s\<lparr>hasValue := False\<rparr>, False)" by (simp add: pstream_Advance_def)
    with True show ?thesis by (simp add: pstream_inv_def pending_def pstream_rest_def)
  next
    case False
    with True show ?thesis
      by (simp add: pstream_Advance_unfold pstream_inv_def pending_def pstream_rest_def)
  qed
next
  case False
  note a = advanced_correct[OF assms(1)]
  from a(3) False obtain nd st x where st: "advanced s = (nd, -1) # st" "pvalue nd = Some x"
    by (cases "advanced s" rule: valued.cases) auto
  then have p: "pending s = (spath st, x) # after (advanced s)" using a(2) by simp
  then have "8 dvd sdepth st" using assms(1) by (simp add: pstream_inv_def bit_key_def)
  then obtain k where k: "keyFromDFSStack (advanced s) = Some k" "bits_of k = spath st"
    using keyFromDFSStack_correct[OF a(1)] st(1) by auto
  then have "limit s \<noteq> [] \<and> limit s \<le> k"
    using assms(2) p by (auto simp: pstream_rest_def bytes_of_bits_eq split: if_splits)
  then show ?thesis using k False
    by (auto simp: pstream_Advance_unfold pstream_inv_def pending_def pstream_rest_def)
qed

lemma pstream_Advance_step:
  assumes "pstream_inv s" "pstream_rest s = (k, v) # r"
  shows "\<exists>s'. pstream_Advance s = Some (s', True) \<and> pstream_inv s' \<and> pstream_Key s' = Some k \<and>
    pstream_Value s' = Some v \<and> pstream_rest s' = r"
proof -
  note a = advanced_correct[OF assms(1)]
  have ne: "dfsStack s \<noteq> []" "advanced s \<noteq> []"
    using assms pstream_inv_finished[OF assms(1)] a(2) by (auto simp: pstream_rest_def)
  with a(3) obtain nd st x where st: "advanced s = (nd, -1) # st" "pvalue nd = Some x"
    by (cases "advanced s" rule: valued.cases) auto
  then have p: "pending s = (spath st, x) # after (advanced s)" using a(2) by simp
  then have "8 dvd sdepth st" using assms(1) by (simp add: pstream_inv_def bit_key_def)
  then obtain k' where k': "keyFromDFSStack (advanced s) = Some k'" "bits_of k' = spath st"
    using keyFromDFSStack_correct[OF a(1)] st(1) by auto
  then have "k' = k" "x = v" "\<not> (limit s \<noteq> [] \<and> limit s \<le> k)"
      "r = takeWhile (\<lambda>(k, _). limit s = [] \<or> k < limit s) (map (apfst bytes_of_bits) (after (advanced s)))"
    using assms(2) p by (auto simp: pstream_rest_def bytes_of_bits_eq split: if_splits)
  then show ?thesis using k' ne st p a(1) assms(1)
    by (auto simp: pstream_Advance_unfold pstream_inv_def pending_def pstream_rest_def pstream_Key_def
        pstream_Value_def simp del: after.simps)
qed

interpretation ps: kv_stream pstream_Advance pstream_Key pstream_Value pstream_inv pstream_rest
  by unfold_locales (blast intro: pstream_Advance_end pstream_Advance_step)+

subsection \<open>Scan\<close>

definition ptrie_entries :: "'v ptrie \<Rightarrow> (bytes \<times> 'v) list" where
  "ptrie_entries t = (case root t of None \<Rightarrow> [] | Some n \<Rightarrow> map (apfst bytes_of_bits) (bentries (pabs 0 n)))"

definition in_range :: "bytes \<Rightarrow> bytes \<Rightarrow> bytes \<Rightarrow> bool" where
  "in_range start lim k \<longleftrightarrow> start \<le> k \<and> (lim = [] \<or> k < lim)"

lemma ptrie_entries_sorted:
  assumes "ptrie_inv t"
  shows "sorted_wrt (<) (map fst (ptrie_entries t))"
proof (cases "root t")
  case (Some n)
  then have inv: "bok (pabs 0 n)" "list_all (\<lambda>(k, _). bit_key k) (bentries (pabs 0 n))"
    using assms by (auto simp: ptrie_inv_def)
  have "sorted_wrt (\<lambda>x y. bytes_of_bits x < bytes_of_bits y) (map fst (bentries (pabs 0 n)))"
  proof (rule sorted_wrt_mono_rel[OF _ bentries_sorted[OF inv(1)]])
    fix x y assume xy: "x \<in> set (map fst (bentries (pabs 0 n)))" "y \<in> set (map fst (bentries (pabs 0 n)))" "x < y"
    then have "8 dvd length x" "8 dvd length y" using inv(2) by (auto simp: list_all_iff bit_key_def)
    then show "bytes_of_bits x < bytes_of_bits y"
      using xy(3) bits_of_less_iff[of "bytes_of_bits x" "bytes_of_bits y"] by (simp add: bits_of_bytes_of_bits)
  qed
  then show ?thesis using Some by (simp add: ptrie_entries_def sorted_wrt_map)
qed (simp add: ptrie_entries_def)

lemma ptrie_entries_iff:
  assumes "ptrie_inv t"
  shows "(k, x) \<in> set (ptrie_entries t) \<longleftrightarrow> ptrie_contents t k = Some x"
proof (cases "root t")
  case (Some n)
  then have inv: "bok (pabs 0 n)" "list_all (\<lambda>(k, _). bit_key k) (bentries (pabs 0 n))"
    using assms by (auto simp: ptrie_inv_def)
  have "(k, x) \<in> set (ptrie_entries t) \<longleftrightarrow> (bits_of k, x) \<in> set (bentries (pabs 0 n))"
    using inv(2) Some bits_of_bytes_of_bits bytes_of_bits_eq
    by (force simp: ptrie_entries_def list_all_iff bit_key_def image_iff)
  then show ?thesis using Some inv(1) by (simp add: ptrie_contents_def bentries_iff)
qed (simp add: ptrie_entries_def ptrie_contents_def)


lemma takeWhile_sorted_filter:
  "sorted_wrt (<) (map fst xs) \<Longrightarrow>
   takeWhile (\<lambda>(k, _). lim = [] \<or> k < lim) xs = filter (\<lambda>(k, _). lim = [] \<or> k < (lim :: bytes)) xs"
proof (induction xs)
  case (Cons p xs)
  show ?case
  proof (cases "lim = [] \<or> fst p < lim")
    case False
    then have "\<forall>q \<in> set xs. \<not> (lim = [] \<or> fst q < lim)" using Cons.prems by fastforce
    with False show ?thesis by (auto simp: case_prod_beta' filter_empty_conv)
  qed (use Cons in \<open>auto simp: case_prod_beta'\<close>)
qed simp

theorem ptrie_Scan_correct:
  assumes "ptrie_inv t" "key_ok start"
  shows "\<exists>s. ptrie_Scan t start lim = Some s \<and> pstream_inv s \<and>
    pstream_rest s = filter (\<lambda>(k, _). in_range start lim k) (ptrie_entries t)"
proof (cases "root t")
  case None
  then show ?thesis
    by (simp add: ptrie_Scan_def pnode_Scan_def empty_stream_def pstream_inv_def pending_def pstream_rest_def
        ptrie_entries_def)
next
  case (Some n)
  then have inv: "pwf 0 n" "bok (pabs 0 n)" "\<not> bempty (pabs 0 n)" "list_all (\<lambda>(k, _). bit_key k) (bentries (pabs 0 n))"
    using assms(1) by (auto simp: ptrie_inv_def)
  define es where "es = geq (bits_of start) (bentries (pabs 0 n))"
  have "lower_post (pre [] (geq (drop (sdepth ([] :: 'a dfsStack)) (bits_of start)) (bentries (pabs 0 n)))) []
      (lowerBound n 0 start [])"
    using lowerBound_correct[of "[]" n 0 start] inv assms(2) by simp
  then have "lower_post es [] (lowerBound n 0 start [])" by (simp add: es_def apfst_def map_prod_def case_prod_beta')
  then obtain found st where st: "lowerBound n 0 start [] = Some (found, st)" "lower_post es [] (Some (found, st))"
    by (rule lower_postE)
  let ?s = "empty_stream\<lparr>dfsStack := st, limit := lim\<rparr>"
  have pend: "pending ?s = es" and wf: "swf st" "st = [] \<or> valued st"
    using st(2) by (auto simp: pending_def empty_stream_def split: if_splits)
  have "list_all (\<lambda>(k, _). bit_key k) es" using inv(4) by (auto simp: es_def list_all_iff)
  then have "pstream_inv ?s" using pend wf by (simp add: pstream_inv_def empty_stream_def)
  moreover have "map (apfst bytes_of_bits) es = filter (\<lambda>(k, _). start \<le> k) (ptrie_entries t)"
  proof -
    have "(bits_of start \<le> fst p) = (start \<le> bytes_of_bits (fst p))" if "p \<in> set (bentries (pabs 0 n))" for p
      using that inv(4) bits_of_le_iff[of start "bytes_of_bits (fst p)"]
      by (auto simp: list_all_iff bit_key_def bits_of_bytes_of_bits)
    then show ?thesis using Some
      by (auto simp: es_def ptrie_entries_def filter_map comp_def case_prod_beta' intro!: arg_cong[of _ _ "map f" for f] filter_cong)
  qed
  moreover have "sorted_wrt (<) (map fst (filter (\<lambda>(k, _). start \<le> k) (ptrie_entries t)))"
    using ptrie_entries_sorted[OF assms(1)] by (simp add: sorted_wrt_map sorted_wrt_filter)
  ultimately have "pstream_rest ?s = filter (\<lambda>(k, _). in_range start lim k) (ptrie_entries t)"
    using pend takeWhile_sorted_filter[of "filter (\<lambda>(k, _). start \<le> k) (ptrie_entries t)" lim]
    by (auto simp: pstream_rest_def in_range_def empty_stream_def case_prod_beta' intro: filter_cong)
  with \<open>pstream_inv ?s\<close> st(1) Some show ?thesis by (simp add: ptrie_Scan_def pnode_Scan_def)
qed

subsection \<open>Properties\<close>

text \<open>C23: a scan of \<open>[start, limit)\<close> delivers, through \<^verbatim>\<open>Advance\<close>, \<^verbatim>\<open>Key\<close> and \<^verbatim>\<open>Value\<close>, exactly the pairs
  of the trie whose key is in the range (no limit if \<open>limit\<close> is empty), each once, in increasing
  key order, and then ends without a panic.\<close>

theorem ptrie_Scan_delivers:
  assumes "ptrie_inv t" "key_ok start"
  shows "\<exists>s es. ptrie_Scan t start lim = Some s \<and>
    (\<forall>fuel > length es. drain pstream_Advance pstream_Key pstream_Value fuel s = Some es) \<and>
    sorted_wrt (<) (map fst es) \<and>
    (\<forall>k x. (k, x) \<in> set es \<longleftrightarrow> start \<le> k \<and> (lim = [] \<or> k < lim) \<and> ptrie_contents t k = Some x)"
proof -
  let ?es = "filter (\<lambda>(k, _). in_range start lim k) (ptrie_entries t)"
  obtain s where s: "ptrie_Scan t start lim = Some s" "pstream_inv s" "pstream_rest s = ?es"
    using ptrie_Scan_correct[OF assms, of lim] by blast
  have "sorted_wrt (<) (map fst ?es)"
    using ptrie_entries_sorted[OF assms(1)] by (simp add: sorted_wrt_map sorted_wrt_filter)
  moreover have "\<forall>fuel > length ?es. drain pstream_Advance pstream_Key pstream_Value fuel s = Some ?es"
    using ps.drain_rest[OF s(2)] s(3) by simp
  ultimately show ?thesis using s(1) ptrie_entries_iff[OF assms(1)]
    by (intro exI[of _ s] exI[of _ ?es]) (simp add: in_range_def conj_ac)
qed

lemma ptrie_Scan_delivers_witness:
  "\<exists>s es. ptrie_Scan \<lparr>root = Some (PNode (Some (7::nat)) None None), copyOnWrite = True\<rparr> [] [] = Some s \<and>
    (\<forall>fuel > length es. drain pstream_Advance pstream_Key pstream_Value fuel s = Some es) \<and> ([], 7) \<in> set es"
proof -
  let ?t = "\<lparr>root = Some (PNode (Some (7::nat)) None None), copyOnWrite = True\<rparr>"
  have "ptrie_inv ?t" by (simp add: ptrie_inv_def bempty_def bit_key_def)
  moreover have "ptrie_contents ?t [] = Some 7" by (simp add: ptrie_contents_def)
  ultimately show ?thesis using ptrie_Scan_delivers[of ?t "[]" "[]"] by fastforce
qed

text \<open>\<^verbatim>\<open>advanceInternal\<close>, the in-order walk on an explicit stack, leaves an empty stack or one whose
  top is a node with a value that was just entered, and the entries from there on are those that
  lay ahead: none is skipped and none repeated.\<close>

theorem advanceInternal_next:
  assumes "swf st"
  shows "swf (advanceInternal st) \<and> (advanceInternal st = [] \<or> valued (advanceInternal st)) \<and>
    cur (advanceInternal st) @ after (advanceInternal st) = after st"
  using advanceInternal_correct[OF assms] by blast

lemma advanceInternal_next_witness:
  "cur (advanceInternal [(PNode (Some (7::nat)) None None, -1)]) @
   after (advanceInternal [(PNode (Some (7::nat)) None None, -1)]) = []"
  using advanceInternal_next[of "[(PNode (Some (7::nat)) None None, -1)]"]
  by (simp add: side_entries_None)

end
