(* ===== verification/Merged_Stream.thy ===== *)
theory Merged_Stream
  imports Memstore
begin

text \<open>
  The stream of a scan inside a transaction,
  \<^verbatim>\<open>src/services/syncbase/store/transactions/merged_stream.go\<close>: it merges the snapshot's stream with
  the stream of the transaction's uncommitted writes, where a deleted key hides the
  snapshot's entry.

  \<open>overlay\<close> is the reference definition of the merge on lists; the lemmas show that the stream
  delivers exactly \<open>overlay\<close> of what its two inputs deliver, that its loop returns, and that the
  overlay is the snapshot's map updated by the writes, in key order.
\<close>

subsection \<open>Data\<close>

text \<open>A value in the write buffer: \<^verbatim>\<open>isDeleted\<close> or the bytes that were put.\<close>

datatype wval = IsDeleted | PutBytes bytes

datatype valueSourceType = notInitialized | snapshotStream | ptrieStream

record mergedStream =
  ms_s :: strm
  sHasKey :: bool
  sKey :: bytes
  ms_p :: "wval pstream"
  pHasKey :: bool
  pKey :: bytes
  valueSource :: valueSourceType
  isCanceled :: bool

subsection \<open>Operations\<close>

definition advanceS :: "mergedStream \<Rightarrow> mergedStream option" where
  "advanceS m =
     (if sHasKey m then do {
        (s', ok) \<leftarrow> Stream_Advance (ms_s m);
        let m = m\<lparr>ms_s := s', sHasKey := ok\<rparr>;
        (if sHasKey m then do { k \<leftarrow> Stream_Key (ms_s m); Some (m\<lparr>sKey := k\<rparr>) } else Some m)
      }
      else Some m)"

definition advanceP :: "mergedStream \<Rightarrow> mergedStream option" where
  "advanceP m =
     (if pHasKey m then do {
        (p', ok) \<leftarrow> pstream_Advance (ms_p m);
        let m = m\<lparr>ms_p := p', pHasKey := ok\<rparr>;
        (if pHasKey m then do { k \<leftarrow> pstream_Key (ms_p m); Some (m\<lparr>pKey := k\<rparr>) } else Some m)
      }
      else Some m)"

definition mergeWritesWithStream :: "snapshot \<Rightarrow> wval ptrie \<Rightarrow> bytes \<Rightarrow> bytes \<Rightarrow> mergedStream option" where
  "mergeWritesWithStream sn w start lim = do {
     s \<leftarrow> Snapshot_Scan sn start lim;
     p \<leftarrow> ptrie_Scan w start lim;
     m \<leftarrow> advanceS \<lparr>ms_s = s, sHasKey = True, sKey = [], ms_p = p, pHasKey = True, pKey = [],
                    valueSource = notInitialized, isCanceled = False\<rparr>;
     advanceP m
   }"

definition stage :: "mergedStream \<Rightarrow> (mergedStream \<times> valueSourceType) option" where
  "stage m =
     (if sHasKey m \<and> (\<not> pHasKey m \<or> sKey m < pKey m) then Some (m, snapshotStream)
      else do {
        m \<leftarrow> (if sHasKey m \<and> sKey m = pKey m then advanceS m else Some m);
        v \<leftarrow> pstream_Value (ms_p m);
        (case v of
           IsDeleted \<Rightarrow> do { m \<leftarrow> advanceP m; Some (m, notInitialized) }
         | PutBytes _ \<Rightarrow> Some (m, ptrieStream))
      })"

text \<open>The loop of \<^verbatim>\<open>Advance\<close>; \<^term>\<open>None\<close> would be a panic or a loop that does not return.\<close>

partial_function (option) merged_loop :: "mergedStream \<Rightarrow> (mergedStream \<times> bool) option" where
  "merged_loop m =
     (if isCanceled m \<or> (\<not> sHasKey m \<and> \<not> pHasKey m) then Some (m, False)
      else do {
        (m', src) \<leftarrow> stage m;
        (if src \<noteq> notInitialized then Some (m'\<lparr>valueSource := src\<rparr>, True)
         else merged_loop (m'\<lparr>valueSource := src\<rparr>))
      })"

definition merged_Advance :: "mergedStream \<Rightarrow> (mergedStream \<times> bool) option" where
  "merged_Advance m = do {
     m \<leftarrow> (case valueSource m of
            snapshotStream \<Rightarrow> advanceS m
          | ptrieStream \<Rightarrow> advanceP m
          | notInitialized \<Rightarrow> Some m);
     merged_loop (m\<lparr>valueSource := notInitialized\<rparr>)
   }"

definition merged_Key :: "mergedStream \<Rightarrow> bytes option" where
  "merged_Key m =
     (case valueSource m of
        snapshotStream \<Rightarrow> CopyBytes [] (sKey m)
      | ptrieStream \<Rightarrow> CopyBytes [] (pKey m)
      | notInitialized \<Rightarrow> None)"

definition merged_Value :: "mergedStream \<Rightarrow> bytes option" where
  "merged_Value m =
     (case valueSource m of
        snapshotStream \<Rightarrow> Stream_Value (ms_s m)
      | ptrieStream \<Rightarrow> do {
          v \<leftarrow> pstream_Value (ms_p m);
          (case v of PutBytes b \<Rightarrow> CopyBytes [] b | IsDeleted \<Rightarrow> None)
        }
      | notInitialized \<Rightarrow> None)"

definition merged_Err :: "mergedStream \<Rightarrow> verror option" where
  "merged_Err m = Stream_Err (ms_s m)"

definition merged_Cancel :: "mergedStream \<Rightarrow> mergedStream" where
  "merged_Cancel m = (if \<not> isCanceled m then m\<lparr>isCanceled := True, ms_s := Stream_Cancel (ms_s m)\<rparr> else m)"

subsection \<open>The reference merge\<close>

definition emit :: "bytes \<Rightarrow> wval \<Rightarrow> (bytes \<times> bytes) list \<Rightarrow> (bytes \<times> bytes) list" where
  "emit k w r = (case w of IsDeleted \<Rightarrow> r | PutBytes v \<Rightarrow> (k, v) # r)"

fun overlay :: "(bytes \<times> bytes) list \<Rightarrow> (bytes \<times> wval) list \<Rightarrow> (bytes \<times> bytes) list" where
  "overlay ss [] = ss"
| "overlay [] ((k, w) # ps) = emit k w (overlay [] ps)"
| "overlay ((k', v') # ss) ((k, w) # ps) =
     (if k' < k then (k', v') # overlay ss ((k, w) # ps)
      else if k' = k then emit k w (overlay ss ps)
      else emit k w (overlay ((k', v') # ss) ps))"

text \<open>The map a transaction sees: its writes over the snapshot.\<close>

definition overlay_map :: "(bytes \<rightharpoonup> bytes) \<Rightarrow> (bytes \<rightharpoonup> wval) \<Rightarrow> bytes \<rightharpoonup> bytes" where
  "overlay_map m w k = (case w k of None \<Rightarrow> m k | Some IsDeleted \<Rightarrow> None | Some (PutBytes v) \<Rightarrow> Some v)"

abbreviation strict_keys :: "('k::linorder \<times> 'v) list \<Rightarrow> bool" where
  "strict_keys xs \<equiv> sorted_wrt (<) (map fst xs)"

lemma overlay_keys: "(k, v) \<in> set (overlay ss ps) \<Longrightarrow> k \<in> fst ` set ss \<or> k \<in> fst ` set ps"
proof (induction ss ps rule: overlay.induct)
  case (1 ss)
  then show ?case by force
qed (auto simp: emit_def split: if_splits wval.splits)

lemma overlay_above:
  assumes "\<forall>x\<in>set (map fst ss). k < x" "\<forall>x\<in>set (map fst ps). k < x"
  shows "\<forall>x\<in>set (map fst (overlay ss ps)). k < x"
  using assms overlay_keys by fastforce

lemma map_of_below:
  fixes k :: "'k::linorder"
  assumes "\<forall>x\<in>set (map fst xs). k < x"
  shows "map_of xs k = None"
proof -
  have "k \<notin> fst ` set xs" using assms by auto
  then show ?thesis by (simp add: map_of_eq_None_iff)
qed

lemma strict_keys_below:
  fixes k :: "'k::linorder"
  shows "k < k' \<Longrightarrow> strict_keys ((k', v) # xs) \<Longrightarrow> \<forall>x\<in>set (map fst ((k', v) # xs)). k < x"
  by (auto intro: less_trans)

lemma strict_keys_emit:
  "\<forall>x\<in>set (map fst r). k < x \<Longrightarrow> strict_keys r \<Longrightarrow> strict_keys (emit k w r)"
  by (simp add: emit_def split: wval.split)

lemma map_of_emit:
  assumes "map_of r k = None"
  shows "map_of (emit k w r) = (map_of r)(k := (case w of IsDeleted \<Rightarrow> None | PutBytes v \<Rightarrow> Some v))"
  using assms by (auto simp: emit_def fun_eq_iff split: wval.split)

lemma overlay_sorted: "strict_keys ss \<Longrightarrow> strict_keys ps \<Longrightarrow> strict_keys (overlay ss ps)"
proof (induction ss ps rule: overlay.induct)
  case (2 k w ps)
  then have "\<forall>x\<in>set (map fst (overlay [] ps)). k < x" by (intro overlay_above) simp_all
  moreover have "strict_keys (overlay [] ps)" using 2 by simp
  ultimately show ?case by (simp add: strict_keys_emit)
next
  case (3 k' v' ss k w ps)
  consider (lt) "k' < k" | (eq) "k' = k" | (gt) "k < k'" by fastforce
  then show ?case
  proof cases
    case lt
    have "\<forall>x\<in>set (map fst (overlay ss ((k, w) # ps))). k' < x"
      using "3.prems" strict_keys_below[OF lt "3.prems"(2)] by (intro overlay_above) simp_all
    moreover have "strict_keys (overlay ss ((k, w) # ps))" using 3 lt by simp
    ultimately show ?thesis using lt by simp
  next
    case eq
    have "\<forall>x\<in>set (map fst (overlay ss ps)). k < x"
      using "3.prems" eq by (intro overlay_above) simp_all
    moreover have "strict_keys (overlay ss ps)" using 3 eq by simp
    ultimately show ?thesis using eq by (simp add: strict_keys_emit)
  next
    case gt
    have "\<forall>x\<in>set (map fst (overlay ((k', v') # ss) ps)). k < x"
      using "3.prems" strict_keys_below[OF gt "3.prems"(1)] by (intro overlay_above) simp_all
    moreover have "strict_keys (overlay ((k', v') # ss) ps)" using 3 gt by simp
    ultimately show ?thesis using gt less_not_sym[OF gt] by (simp add: strict_keys_emit)
  qed
qed simp

lemma overlay_map_upd:
  "overlay_map m (w(k \<mapsto> x)) = (overlay_map m w)(k := (case x of IsDeleted \<Rightarrow> None | PutBytes v \<Rightarrow> Some v))"
  by (auto simp: overlay_map_def fun_eq_iff split: wval.split)

lemma overlay_map_base:
  "w k = None \<Longrightarrow> overlay_map (m(k := x)) w = (overlay_map m w)(k := x)"
  by (auto simp: overlay_map_def fun_eq_iff split: option.split wval.split)

lemma overlay_map_none: "m k = None \<Longrightarrow> w k = None \<Longrightarrow> overlay_map m w k = None"
  by (simp add: overlay_map_def)

lemma overlay_map_empty: "overlay_map m Map.empty = m"
  by (auto simp: overlay_map_def fun_eq_iff)

lemma overlay_map_of:
  "strict_keys ss \<Longrightarrow> strict_keys ps \<Longrightarrow> map_of (overlay ss ps) = overlay_map (map_of ss) (map_of ps)"
proof (induction ss ps rule: overlay.induct)
  case (1 ss)
  show ?case by (simp add: overlay_map_empty)
next
  case (2 k w ps)
  have "map_of ps k = None" using "2.prems"(2) by (intro map_of_below) simp
  then have "map_of (overlay [] ps) k = None" using 2 by (simp add: overlay_map_none)
  then show ?case using 2 by (simp add: map_of_emit overlay_map_upd del: fun_upd_apply)
next
  case (3 k' v' ss k w ps)
  have np: "map_of ps k = None" using "3.prems"(2) by (intro map_of_below) simp
  consider (lt) "k' < k" | (eq) "k' = k" | (gt) "k < k'" by fastforce
  then show ?case
  proof cases
    case lt
    have none: "map_of ((k, w) # ps) k' = None"
      using strict_keys_below[OF lt "3.prems"(2)] by (rule map_of_below)
    have "strict_keys ss" using "3.prems"(1) by simp
    note "3.IH"(1)[OF lt this "3.prems"(2)]
    moreover have "overlay_map (map_of ((k', v') # ss)) (map_of ((k, w) # ps)) =
        (overlay_map (map_of ss) (map_of ((k, w) # ps)))(k' \<mapsto> v')"
      unfolding map_of.simps(2)[of _ ss] using none by (simp only: overlay_map_base fst_conv snd_conv)
    ultimately show ?thesis using lt by (simp del: fun_upd_apply)
  next
    case eq
    have ih: "map_of (overlay ss ps) = overlay_map (map_of ss) (map_of ps)" using 3 eq by simp
    have "map_of ss k = None" using "3.prems"(1) eq by (intro map_of_below) simp
    then have "map_of (overlay ss ps) k = None" using np ih by (simp add: overlay_map_none)
    then have "map_of (overlay ((k', v') # ss) ((k, w) # ps)) =
        (overlay_map (map_of ss) (map_of ps))(k := (case w of IsDeleted \<Rightarrow> None | PutBytes v \<Rightarrow> Some v))"
      using eq ih by (simp add: map_of_emit del: fun_upd_apply)
    then show ?thesis unfolding map_of.simps(2)[of _ ps] map_of.simps(2)[of _ ss] fst_conv snd_conv eq
      by (simp only: overlay_map_upd overlay_map_base[of "map_of ps", OF np] fun_upd_upd)
  next
    case gt
    have ih: "map_of (overlay ((k', v') # ss) ps) = overlay_map (map_of ((k', v') # ss)) (map_of ps)"
      using "3.IH"(3)[OF _ _ "3.prems"(1)] "3.prems"(2) less_not_sym[OF gt] less_imp_neq[OF gt]
      by (simp del: map_of.simps)
    have "map_of ((k', v') # ss) k = None"
      using strict_keys_below[OF gt "3.prems"(1)] by (rule map_of_below)
    then have "map_of (overlay ((k', v') # ss) ps) k = None" using np ih by (simp add: overlay_map_none)
    then have "map_of (overlay ((k', v') # ss) ((k, w) # ps)) =
        (overlay_map (map_of ((k', v') # ss)) (map_of ps))(k := (case w of IsDeleted \<Rightarrow> None | PutBytes v \<Rightarrow> Some v))"
      using gt less_not_sym[OF gt] less_imp_neq[OF gt, symmetric] ih by (simp add: map_of_emit del: fun_upd_apply map_of.simps)
    then show ?thesis unfolding map_of.simps(2)[of _ ps] by (simp only: overlay_map_upd fst_conv snd_conv)
  qed
qed

subsection \<open>The stream delivers the reference merge\<close>

text \<open>What each input still holds, the staged pair first.\<close>

definition srem :: "mergedStream \<Rightarrow> (bytes \<times> bytes) list" where
  "srem m = (if sHasKey m then (sKey m, the (Stream_Value (ms_s m))) # strm_rest (ms_s m) else [])"

definition prem :: "mergedStream \<Rightarrow> (bytes \<times> wval) list" where
  "prem m = (if pHasKey m then (pKey m, the (pstream_Value (ms_p m))) # pstream_rest (ms_p m) else [])"

definition inputs_ok :: "mergedStream \<Rightarrow> bool" where
  "inputs_ok m \<longleftrightarrow> strm_inv (ms_s m) \<and> pstream_inv (ms_p m) \<and>
     (sHasKey m \<longrightarrow> Stream_Value (ms_s m) \<noteq> None) \<and> (pHasKey m \<longrightarrow> pstream_Value (ms_p m) \<noteq> None) \<and>
     strict_keys (srem m) \<and> strict_keys (prem m)"

lemma advanceS_general:
  assumes "strm_inv (ms_s m)"
  shows "\<exists>s' k' ok. advanceS m = Some (m\<lparr>ms_s := s', sHasKey := ok, sKey := k'\<rparr>) \<and> strm_inv s' \<and>
    (ok \<longrightarrow> Stream_Value s' \<noteq> None) \<and>
    (if ok then (k', the (Stream_Value s')) # strm_rest s' else []) = (if sHasKey m then strm_rest (ms_s m) else [])"
proof (cases "sHasKey m")
  case True
  show ?thesis
  using assms
  proof (cases rule: ss.advance_cases)
    case (finished s')
    then have "advanceS m = Some (m\<lparr>ms_s := s', sHasKey := False, sKey := sKey m\<rparr>)"
      using True by (simp add: advanceS_def)
    then show ?thesis using True finished by (intro exI[of _ s'] exI[of _ "sKey m"] exI[of _ False]) simp
  next
    case (staged s' k v)
    then have "advanceS m = Some (m\<lparr>ms_s := s', sHasKey := True, sKey := k\<rparr>)"
      using True by (simp add: advanceS_def)
    then show ?thesis using True staged by (intro exI[of _ s'] exI[of _ k] exI[of _ True]) simp
  qed
next
  case False
  then have "advanceS m = Some (m\<lparr>ms_s := ms_s m, sHasKey := False, sKey := sKey m\<rparr>)"
    by (simp add: advanceS_def)
  then show ?thesis using assms False
    by (intro exI[of _ "ms_s m"] exI[of _ "sKey m"] exI[of _ False]) simp
qed

lemma advanceP_general:
  assumes "pstream_inv (ms_p m)"
  shows "\<exists>s' k' ok. advanceP m = Some (m\<lparr>ms_p := s', pHasKey := ok, pKey := k'\<rparr>) \<and> pstream_inv s' \<and>
    (ok \<longrightarrow> pstream_Value s' \<noteq> None) \<and>
    (if ok then (k', the (pstream_Value s')) # pstream_rest s' else []) = (if pHasKey m then pstream_rest (ms_p m) else [])"
proof (cases "pHasKey m")
  case True
  show ?thesis
  using assms
  proof (cases rule: ps.advance_cases)
    case (finished s')
    then have "advanceP m = Some (m\<lparr>ms_p := s', pHasKey := False, pKey := pKey m\<rparr>)"
      using True by (simp add: advanceP_def)
    then show ?thesis using True finished by (intro exI[of _ s'] exI[of _ "pKey m"] exI[of _ False]) simp
  next
    case (staged s' k v)
    then have "advanceP m = Some (m\<lparr>ms_p := s', pHasKey := True, pKey := k\<rparr>)"
      using True by (simp add: advanceP_def)
    then show ?thesis using True staged by (intro exI[of _ s'] exI[of _ k] exI[of _ True]) simp
  qed
next
  case False
  then have "advanceP m = Some (m\<lparr>ms_p := ms_p m, pHasKey := False, pKey := pKey m\<rparr>)"
    by (simp add: advanceP_def)
  then show ?thesis using assms False
    by (intro exI[of _ "ms_p m"] exI[of _ "pKey m"] exI[of _ False]) simp
qed

lemma strict_keys_tl: "strict_keys xs \<Longrightarrow> strict_keys (tl xs)"
  by (cases xs) simp_all

lemma advanceS_ok:
  assumes "inputs_ok m"
  obtains m' where "advanceS m = Some m'" "inputs_ok m'" "srem m' = tl (srem m)" "prem m' = prem m"
    "valueSource m' = valueSource m" "isCanceled m' = isCanceled m"
proof -
  have "strm_inv (ms_s m)" using assms by (simp add: inputs_ok_def)
  from advanceS_general[OF this] obtain s' k' ok where a:
      "advanceS m = Some (m\<lparr>ms_s := s', sHasKey := ok, sKey := k'\<rparr>)" "strm_inv s'"
      "ok \<longrightarrow> Stream_Value s' \<noteq> None"
      "(if ok then (k', the (Stream_Value s')) # strm_rest s' else []) = (if sHasKey m then strm_rest (ms_s m) else [])"
    by blast
  let ?m = "m\<lparr>ms_s := s', sHasKey := ok, sKey := k'\<rparr>"
  have "srem ?m = tl (srem m)" using a(4) by (simp add: srem_def split: if_splits)
  moreover have "prem ?m = prem m" by (simp add: prem_def)
  moreover have "inputs_ok ?m"
    using assms a(2,3) calculation strict_keys_tl[of "srem m"] by (simp add: inputs_ok_def)
  ultimately show ?thesis using that[OF a(1)] by simp
qed

lemma advanceP_ok:
  assumes "inputs_ok m"
  obtains m' where "advanceP m = Some m'" "inputs_ok m'" "srem m' = srem m" "prem m' = tl (prem m)"
    "valueSource m' = valueSource m" "isCanceled m' = isCanceled m"
proof -
  have "pstream_inv (ms_p m)" using assms by (simp add: inputs_ok_def)
  from advanceP_general[OF this] obtain s' k' ok where a:
      "advanceP m = Some (m\<lparr>ms_p := s', pHasKey := ok, pKey := k'\<rparr>)" "pstream_inv s'"
      "ok \<longrightarrow> pstream_Value s' \<noteq> None"
      "(if ok then (k', the (pstream_Value s')) # pstream_rest s' else []) = (if pHasKey m then pstream_rest (ms_p m) else [])"
    by blast
  let ?m = "m\<lparr>ms_p := s', pHasKey := ok, pKey := k'\<rparr>"
  have "prem ?m = tl (prem m)" using a(4) by (simp add: prem_def split: if_splits)
  moreover have "srem ?m = srem m" by (simp add: srem_def)
  moreover have "inputs_ok ?m"
    using assms a(2,3) calculation strict_keys_tl[of "prem m"] by (simp add: inputs_ok_def)
  ultimately show ?thesis using that[OF a(1)] by simp
qed

definition merged_rest :: "mergedStream \<Rightarrow> (bytes \<times> bytes) list" where
  "merged_rest m =
     (if isCanceled m then []
      else case valueSource m of
        notInitialized \<Rightarrow> overlay (srem m) (prem m)
      | snapshotStream \<Rightarrow> overlay (tl (srem m)) (prem m)
      | ptrieStream \<Rightarrow> overlay (srem m) (tl (prem m)))"

lemma inputs_valueSource [simp]:
  "srem (m\<lparr>valueSource := x\<rparr>) = srem m" "prem (m\<lparr>valueSource := x\<rparr>) = prem m"
  "inputs_ok (m\<lparr>valueSource := x\<rparr>) = inputs_ok m"
  by (simp_all add: srem_def prem_def inputs_ok_def)

lemma srem_Cons: "inputs_ok m \<Longrightarrow> sHasKey m \<Longrightarrow>
    \<exists>v. Stream_Value (ms_s m) = Some v \<and> srem m = (sKey m, v) # strm_rest (ms_s m)"
  by (auto simp: srem_def inputs_ok_def)

lemma prem_Cons: "inputs_ok m \<Longrightarrow> pHasKey m \<Longrightarrow>
    \<exists>v. pstream_Value (ms_p m) = Some v \<and> prem m = (pKey m, v) # pstream_rest (ms_p m)"
  by (auto simp: prem_def inputs_ok_def)

lemma rem_Nil [simp]: "\<not> sHasKey m \<Longrightarrow> srem m = []" "\<not> pHasKey m \<Longrightarrow> prem m = []"
  by (simp_all add: srem_def prem_def)

lemma overlay_smaller: "ps = [] \<or> k < fst (hd ps) \<Longrightarrow> overlay ((k, v) # ss) ps = (k, v) # overlay ss ps"
  by (cases ps) auto

text \<open>The part of \<^verbatim>\<open>stage\<close> that drops a snapshot entry hidden by the write at the same key.\<close>

lemma stage_skip:
  assumes "inputs_ok m" "pHasKey m" "\<not> (sHasKey m \<and> (\<not> pHasKey m \<or> sKey m < pKey m))"
  obtains m' where "(if sHasKey m \<and> sKey m = pKey m then advanceS m else Some m) = Some m'" "inputs_ok m'"
    "prem m' = prem m" "pHasKey m'" "isCanceled m' = isCanceled m" "ms_p m' = ms_p m" "pKey m' = pKey m"
    "\<And>k w ps. prem m = (k, w) # ps \<Longrightarrow> overlay (srem m) (prem m) = emit k w (overlay (srem m') ps)"
proof (cases "sHasKey m \<and> sKey m = pKey m")
  case True
  obtain m' where m': "advanceS m = Some m'" "inputs_ok m'" "srem m' = tl (srem m)" "prem m' = prem m"
      "isCanceled m' = isCanceled m"
    using advanceS_ok[OF assms(1)] by metis
  have "strm_inv (ms_s m)" using assms by (simp add: inputs_ok_def)
  then obtain s' k' ok where "m' = m\<lparr>ms_s := s', sHasKey := ok, sKey := k'\<rparr>"
    using advanceS_general[of m] m'(1) by auto
  then have p: "pHasKey m'" "ms_p m' = ms_p m" "pKey m' = pKey m" using assms(2) by simp_all
  have "overlay (srem m) (prem m) = emit k w (overlay (srem m') ps)" if "prem m = (k, w) # ps" for k w ps
    using srem_Cons[OF assms(1)] prem_Cons[OF assms(1,2)] True m'(3) that by auto
  with True m' p that show ?thesis by simp
next
  case False
  have "overlay (srem m) (prem m) = emit k w (overlay (srem m) ps)" if "prem m = (k, w) # ps" for k w ps
  proof (cases "sHasKey m")
    case True
    then have "\<not> sKey m < pKey m" "sKey m \<noteq> pKey m" using assms False by auto
    then show ?thesis using srem_Cons[OF assms(1) True] prem_Cons[OF assms(1,2)] that by auto
  qed (use that in simp)
  with False assms show ?thesis by (intro that[of m]) auto
qed

lemma stage_cases:
  assumes "inputs_ok m" "sHasKey m \<or> pHasKey m"
  obtains (snap) v where "stage m = Some (m, snapshotStream)" "Stream_Value (ms_s m) = Some v"
      "overlay (srem m) (prem m) = (sKey m, v) # overlay (tl (srem m)) (prem m)"
  | (put) m' v where "stage m = Some (m', ptrieStream)" "inputs_ok m'" "isCanceled m' = isCanceled m"
      "pstream_Value (ms_p m') = Some (PutBytes v)"
      "overlay (srem m) (prem m) = (pKey m', v) # overlay (srem m') (tl (prem m'))"
  | (hidden) m' where "stage m = Some (m', notInitialized)" "inputs_ok m'" "isCanceled m' = isCanceled m"
      "length (prem m') < length (prem m)" "overlay (srem m) (prem m) = overlay (srem m') (prem m')"
proof (cases "sHasKey m \<and> (\<not> pHasKey m \<or> sKey m < pKey m)")
  case True
  obtain v where v: "Stream_Value (ms_s m) = Some v" "srem m = (sKey m, v) # strm_rest (ms_s m)"
    using srem_Cons[OF assms(1)] True by blast
  have "prem m = [] \<or> sKey m < fst (hd (prem m))" using True by (auto simp: prem_def)
  with v True show ?thesis by (intro snap) (auto simp: stage_def overlay_smaller)
next
  case False
  with assms(2) have pk: "pHasKey m" by blast
  obtain m1 where m1: "(if sHasKey m \<and> sKey m = pKey m then advanceS m else Some m) = Some m1" "inputs_ok m1"
      "prem m1 = prem m" "pHasKey m1" "isCanceled m1 = isCanceled m" "ms_p m1 = ms_p m" "pKey m1 = pKey m"
      "\<And>k w ps. prem m = (k, w) # ps \<Longrightarrow> overlay (srem m) (prem m) = emit k w (overlay (srem m1) ps)"
    using stage_skip[OF assms(1) pk False] by blast
  obtain w where w: "pstream_Value (ms_p m) = Some w" "prem m = (pKey m, w) # pstream_rest (ms_p m)"
    using prem_Cons[OF assms(1) pk] by blast
  note ov = m1(8)[OF w(2)]
  show ?thesis
  proof (cases w)
    case IsDeleted
    obtain m2 where m2: "advanceP m1 = Some m2" "inputs_ok m2" "srem m2 = srem m1" "prem m2 = tl (prem m1)"
        "isCanceled m2 = isCanceled m1"
      using advanceP_ok[OF m1(2)] by metis
    have "stage m = Some (m2, notInitialized)"
      unfolding stage_def if_not_P[OF False] m1(1) using m1(6) m2(1) w(1) IsDeleted by simp
    moreover have "overlay (srem m) (prem m) = overlay (srem m2) (prem m2)"
      using ov IsDeleted m2(3,4) m1(3) w(2) by (simp add: emit_def)
    ultimately show ?thesis using m2 m1(3,5) w(2) by (intro hidden[of m2]) simp_all
  next
    case (PutBytes v)
    have "stage m = Some (m1, ptrieStream)"
      unfolding stage_def if_not_P[OF False] m1(1) using m1(6) w(1) PutBytes by simp
    moreover have "overlay (srem m) (prem m) = (pKey m1, v) # overlay (srem m1) (tl (prem m1))"
      using ov PutBytes m1(3,7) w(2) by (simp add: emit_def)
    ultimately show ?thesis using m1 w(1) PutBytes by (intro put[of m1 v]) simp_all
  qed
qed

text \<open>The loop returns: a hidden entry shortens what is left of the writes.\<close>

lemma merged_loop_correct:
  assumes "inputs_ok m" "\<not> isCanceled m" "valueSource m = notInitialized"
  shows "case overlay (srem m) (prem m) of
      [] \<Rightarrow> \<exists>m'. merged_loop m = Some (m', False) \<and> inputs_ok m' \<and> merged_rest m' = []
    | (k, v) # r \<Rightarrow> \<exists>m'. merged_loop m = Some (m', True) \<and> inputs_ok m' \<and> merged_Key m' = Some k \<and>
        merged_Value m' = Some v \<and> merged_rest m' = r"
  using assms
proof (induction "length (prem m)" arbitrary: m rule: less_induct)
  case less
  note unfold_loop = merged_loop.simps[of m]
  show ?case
  proof (cases "sHasKey m \<or> pHasKey m")
    case False
    then show ?thesis using less.prems by (simp add: unfold_loop merged_rest_def)
  next
    case True
    from less.prems(1) True show ?thesis
    proof (cases rule: stage_cases)
      case (snap v)
      then have "merged_loop m = Some (m\<lparr>valueSource := snapshotStream\<rparr>, True)"
        using less.prems True by (simp add: unfold_loop)
      then show ?thesis using less.prems snap by (simp add: merged_Key_def merged_Value_def merged_rest_def)
    next
      case (put m' v)
      then have "merged_loop m = Some (m'\<lparr>valueSource := ptrieStream\<rparr>, True)"
        using less.prems True by (simp add: unfold_loop)
      then show ?thesis using less.prems put by (simp add: merged_Key_def merged_Value_def merged_rest_def)
    next
      case (hidden m')
      have ne: "\<not> (isCanceled m \<or> (\<not> sHasKey m \<and> \<not> pHasKey m))" using less.prems True by blast
      have lp: "merged_loop m = merged_loop (m'\<lparr>valueSource := notInitialized\<rparr>)"
        unfolding unfold_loop if_not_P[OF ne] using hidden(1) by simp
      show ?thesis unfolding lp
        using less.hyps[of "m'\<lparr>valueSource := notInitialized\<rparr>"] less.prems hidden by simp
    qed
  qed
qed

lemma merged_Advance_correct:
  assumes "inputs_ok m"
  shows "case merged_rest m of
      [] \<Rightarrow> \<exists>m'. merged_Advance m = Some (m', False) \<and> inputs_ok m' \<and> merged_rest m' = []
    | (k, v) # r \<Rightarrow> \<exists>m'. merged_Advance m = Some (m', True) \<and> inputs_ok m' \<and> merged_Key m' = Some k \<and>
        merged_Value m' = Some v \<and> merged_rest m' = r"
proof -
  obtain m1 where m1: "(case valueSource m of snapshotStream \<Rightarrow> advanceS m | ptrieStream \<Rightarrow> advanceP m
        | notInitialized \<Rightarrow> Some m) = Some m1" "inputs_ok m1" "isCanceled m1 = isCanceled m"
      "\<not> isCanceled m \<Longrightarrow> overlay (srem m1) (prem m1) = merged_rest m"
  proof (cases "valueSource m")
    case notInitialized
    with that[of m] assms show ?thesis by (simp add: merged_rest_def)
  next
    case snapshotStream
    obtain m1 where "advanceS m = Some m1" "inputs_ok m1" "srem m1 = tl (srem m)" "prem m1 = prem m"
        "isCanceled m1 = isCanceled m"
      using advanceS_ok[OF assms] by metis
    with that[of m1] snapshotStream show ?thesis by (simp add: merged_rest_def)
  next
    case ptrieStream
    obtain m1 where "advanceP m = Some m1" "inputs_ok m1" "srem m1 = srem m" "prem m1 = tl (prem m)"
        "isCanceled m1 = isCanceled m"
      using advanceP_ok[OF assms] by metis
    with that[of m1] ptrieStream show ?thesis by (simp add: merged_rest_def)
  qed
  let ?m = "m1\<lparr>valueSource := notInitialized\<rparr>"
  have adv: "merged_Advance m = merged_loop ?m" unfolding merged_Advance_def m1(1) by simp
  show ?thesis
  proof (cases "isCanceled m")
    case True
    then have "merged_loop ?m = Some (?m, False)" using m1(3) by (simp add: merged_loop.simps)
    then show ?thesis using adv True m1 by (simp add: merged_rest_def)
  next
    case False
    then show ?thesis unfolding adv using merged_loop_correct[of ?m] m1 by simp
  qed
qed

interpretation mg: kv_stream merged_Advance merged_Key merged_Value inputs_ok merged_rest
proof
  fix m assume "inputs_ok m" "merged_rest m = []"
  then show "\<exists>m'. merged_Advance m = Some (m', False) \<and> inputs_ok m' \<and> merged_rest m' = []"
    using merged_Advance_correct[of m] by simp
next
  fix m k v r assume "inputs_ok m" "merged_rest m = (k, v) # r"
  then show "\<exists>m'. merged_Advance m = Some (m', True) \<and> inputs_ok m' \<and> merged_Key m' = Some k \<and>
      merged_Value m' = Some v \<and> merged_rest m' = r"
    using merged_Advance_correct[of m] by simp
qed

lemma Stream_Cancel_Value: "Stream_Value (Stream_Cancel s) = Stream_Value s"
  by (cases s) (auto simp: mstream_Cancel_def mstream_Value_def)

lemma merged_Cancel_ok:
  assumes "inputs_ok m"
  shows "inputs_ok (merged_Cancel m)" "merged_rest (merged_Cancel m) = []"
proof -
  have "strm_inv (ms_s m)" using assms by (simp add: inputs_ok_def)
  note c = Stream_Cancel_rest[OF this]
  show "inputs_ok (merged_Cancel m)" using assms c
    by (cases "pHasKey m") (simp_all add: merged_Cancel_def inputs_ok_def srem_def prem_def Stream_Cancel_Value)
  show "merged_rest (merged_Cancel m) = []"
    by (simp add: merged_Cancel_def merged_rest_def)
qed

subsection \<open>A scan over writes\<close>

lemma mergeWritesWithStream_ok:
  assumes "Snapshot_Scan sn start lim = Some s" "strm_inv s" "strict_keys (strm_rest s)"
    and "ptrie_Scan w start lim = Some p" "pstream_inv p" "strict_keys (pstream_rest p)"
  shows "\<exists>m. mergeWritesWithStream sn w start lim = Some m \<and> inputs_ok m \<and> \<not> isCanceled m \<and>
    merged_rest m = overlay (strm_rest s) (pstream_rest p)"
proof -
  let ?m0 = "\<lparr>ms_s = s, sHasKey = True, sKey = [], ms_p = p, pHasKey = True, pKey = [],
              valueSource = notInitialized, isCanceled = False\<rparr>"
  obtain s' k ok where 1: "advanceS ?m0 = Some (?m0\<lparr>ms_s := s', sHasKey := ok, sKey := k\<rparr>)" "strm_inv s'"
      "ok \<longrightarrow> Stream_Value s' \<noteq> None" "(if ok then (k, the (Stream_Value s')) # strm_rest s' else []) = strm_rest s"
    using advanceS_general[of ?m0] assms(2) by auto
  let ?m1 = "?m0\<lparr>ms_s := s', sHasKey := ok, sKey := k\<rparr>"
  obtain p' kp okp where 2: "advanceP ?m1 = Some (?m1\<lparr>ms_p := p', pHasKey := okp, pKey := kp\<rparr>)" "pstream_inv p'"
      "okp \<longrightarrow> pstream_Value p' \<noteq> None" "(if okp then (kp, the (pstream_Value p')) # pstream_rest p' else []) = pstream_rest p"
    using advanceP_general[of ?m1] assms(5) by auto
  let ?m2 = "?m1\<lparr>ms_p := p', pHasKey := okp, pKey := kp\<rparr>"
  have "srem ?m2 = strm_rest s" "prem ?m2 = pstream_rest p" using 1(4) 2(4) by (simp_all add: srem_def prem_def split: if_splits)
  moreover have "inputs_ok ?m2" using calculation assms(3,6) 1(2,3) 2(2,3) by (simp add: inputs_ok_def)
  moreover have "mergeWritesWithStream sn w start lim = Some ?m2"
    using assms(1,4) 1(1) 2(1) by (simp add: mergeWritesWithStream_def)
  ultimately show ?thesis by (simp add: merged_rest_def)
qed

lemma filter_range_sorted:
  assumes "ptrie_inv t"
  shows "strict_keys (filter (\<lambda>(k, _). in_range start lim k) (ptrie_entries t))"
  using ptrie_entries_sorted[OF assms] by (simp add: sorted_wrt_map sorted_wrt_filter)

lemma map_of_range:
  assumes "ptrie_inv t"
  shows "map_of (filter (\<lambda>(k, _). in_range start lim k) (ptrie_entries t)) =
    (\<lambda>k. if in_range start lim k then ptrie_contents t k else None)"
proof
  fix k
  let ?f = "filter (\<lambda>(k, _). in_range start lim k) (ptrie_entries t)"
  have d: "distinct (map fst ?f)" using filter_range_sorted[OF assms] by (simp add: strict_sorted_iff)
  show "map_of ?f k = (if in_range start lim k then ptrie_contents t k else None)"
  proof (cases "in_range start lim k \<and> ptrie_contents t k \<noteq> None")
    case True
    then obtain x where "ptrie_contents t k = Some x" by blast
    then have "(k, x) \<in> set ?f" using True ptrie_entries_iff[OF assms] by simp
    then show ?thesis using d True \<open>ptrie_contents t k = Some x\<close> by simp
  next
    case False
    then have "k \<notin> fst ` set ?f" using ptrie_entries_iff[OF assms] by auto
    then show ?thesis using False by (auto simp: map_of_eq_None_iff)
  qed
qed

text \<open>A transaction's scan of an open snapshot: it delivers the map the transaction sees, in key order.\<close>

lemma mergeWritesWithStream_correct:
  assumes "ptrie_inv (sndata sn)" "snerr sn = None" "ptrie_inv w" "key_ok start"
  shows "\<exists>m. mergeWritesWithStream (Snapshot sn) w start lim = Some m \<and> inputs_ok m \<and> \<not> isCanceled m \<and>
    strict_keys (merged_rest m) \<and>
    (\<forall>k. map_of (merged_rest m) k = (if in_range start lim k
        then overlay_map (ptrie_contents (sndata sn)) (ptrie_contents w) k else None))"
proof -
  let ?f = "\<lambda>t. filter (\<lambda>(k, _). in_range start lim k) (ptrie_entries t)"
  obtain s where s: "Snapshot_Scan (Snapshot sn) start lim = Some s" "strm_inv s" "strm_rest s = ?f (sndata sn)"
    using msnapshot_Scan_open[OF assms(1,2,4), of lim] by auto
  obtain p where p: "ptrie_Scan w start lim = Some p" "pstream_inv p" "pstream_rest p = filter (\<lambda>(k, _). in_range start lim k) (ptrie_entries w)"
    using ptrie_Scan_correct[OF assms(3,4), of lim] by auto
  have srt: "strict_keys (strm_rest s)" "strict_keys (pstream_rest p)"
    unfolding s(3) p(3) using assms(1,3) by (simp_all add: filter_range_sorted)
  obtain m where m: "mergeWritesWithStream (Snapshot sn) w start lim = Some m" "inputs_ok m" "\<not> isCanceled m"
      "merged_rest m = overlay (strm_rest s) (pstream_rest p)"
    using mergeWritesWithStream_ok[OF s(1,2) srt(1) p(1,2) srt(2)] by blast
  have "map_of (merged_rest m) k = (if in_range start lim k
        then overlay_map (ptrie_contents (sndata sn)) (ptrie_contents w) k else None)" for k
    unfolding m(4) overlay_map_of[OF srt] unfolding s(3) p(3) map_of_range[OF assms(1)] map_of_range[OF assms(3)]
    by (simp add: overlay_map_def)
  then show ?thesis using m overlay_sorted[OF srt] by auto
qed

subsection \<open>Properties\<close>

text \<open>C6: the scan of a transaction delivers, in increasing key order and each once, exactly the pairs
  of the snapshot overlaid with the transaction's writes that lie in the range: a put hides the
  snapshot's value, a delete hides the key. It never panics and its inner loop always returns.\<close>

theorem merged_scan_delivers:
  assumes "ptrie_inv (sndata sn)" "snerr sn = None" "ptrie_inv w" "key_ok start"
  shows "\<exists>m es. mergeWritesWithStream (Snapshot sn) w start lim = Some m \<and>
    (\<forall>fuel > length es. drain merged_Advance merged_Key merged_Value fuel m = Some es) \<and>
    sorted_wrt (<) (map fst es) \<and>
    (\<forall>k v. (k, v) \<in> set es \<longleftrightarrow> in_range start lim k \<and>
       overlay_map (ptrie_contents (sndata sn)) (ptrie_contents w) k = Some v)"
proof -
  obtain m where m: "mergeWritesWithStream (Snapshot sn) w start lim = Some m" "inputs_ok m" "strict_keys (merged_rest m)"
      "\<And>k. map_of (merged_rest m) k = (if in_range start lim k
        then overlay_map (ptrie_contents (sndata sn)) (ptrie_contents w) k else None)"
    using mergeWritesWithStream_correct[OF assms, of lim] by blast
  have "distinct (map fst (merged_rest m))" using m(3) by (simp add: strict_sorted_iff)
  then have "(k, v) \<in> set (merged_rest m) \<longleftrightarrow> map_of (merged_rest m) k = Some v" for k v by simp
  then show ?thesis using m mg.drain_rest[OF m(2)]
    by (intro exI[of _ m] exI[of _ "merged_rest m"]) simp
qed

lemma merged_scan_delivers_witness:
  "\<exists>m es. mergeWritesWithStream (Snapshot \<lparr>sndata = \<lparr>root = Some (PNode (Some [9]) None None), copyOnWrite = True\<rparr>, snerr = None\<rparr>)
      \<lparr>root = Some (PNode (Some (PutBytes [4])) None None), copyOnWrite = True\<rparr> [] [] = Some m \<and>
    (\<forall>fuel > length es. drain merged_Advance merged_Key merged_Value fuel m = Some es) \<and> ([], [4]) \<in> set es"
proof -
  let ?s = "\<lparr>sndata = \<lparr>root = Some (PNode (Some [9]) None None), copyOnWrite = True\<rparr>, snerr = None\<rparr> :: msnapshot"
  let ?w = "\<lparr>root = Some (PNode (Some (PutBytes [4])) None None), copyOnWrite = True\<rparr> :: wval ptrie"
  have i: "ptrie_inv (sndata ?s)" "ptrie_inv ?w" by (simp_all add: ptrie_inv_def bempty_def bit_key_def)
  have "in_range [] [] [] \<and> overlay_map (ptrie_contents (sndata ?s)) (ptrie_contents ?w) [] = Some [4]"
    by (simp add: in_range_def overlay_map_def ptrie_contents_def)
  with merged_scan_delivers[OF i(1) _ i(2), of "[]" "[]"] show ?thesis by fastforce
qed

text \<open>one \<^verbatim>\<open>Advance\<close> of the merged stream returns, even over a run of deleted keys, and stages the next
  pair of the reference merge of what its two inputs still hold.\<close>

theorem merged_Advance_implements_overlay:
  assumes "inputs_ok m" "\<not> isCanceled m" "valueSource m = notInitialized"
  shows "\<exists>m' ok. merged_Advance m = Some (m', ok) \<and> inputs_ok m' \<and> (ok \<longleftrightarrow> overlay (srem m) (prem m) \<noteq> []) \<and>
    (ok \<longrightarrow> merged_Key m' = Some (fst (hd (overlay (srem m) (prem m)))) \<and>
             merged_Value m' = Some (snd (hd (overlay (srem m) (prem m)))) \<and>
             merged_rest m' = tl (overlay (srem m) (prem m)))"
proof -
  have r: "merged_rest m = overlay (srem m) (prem m)" using assms(2,3) by (simp add: merged_rest_def)
  from assms(1) show ?thesis
  proof (cases rule: mg.advance_cases)
    case (finished m')
    then show ?thesis using r by (intro exI[of _ m'] exI[of _ False]) simp
  next
    case (staged m' k v)
    then show ?thesis unfolding r[symmetric] by (intro exI[of _ m'] exI[of _ True]) simp
  qed
qed

lemma merged_Advance_implements_witness:
  "\<exists>m m'. mergeWritesWithStream (InvalidSnapshot ErrConcurrentTransaction) (ptrie_New True) [] [] = Some m \<and>
     merged_Advance m = Some (m', False)"
proof -
  obtain p where p: "ptrie_Scan (ptrie_New True :: wval ptrie) [] [] = Some p" "pstream_inv p"
      "pstream_rest p = filter (\<lambda>(k, _). in_range [] [] k) (ptrie_entries (ptrie_New True))"
    using ptrie_Scan_correct[OF ptrie_inv_New, of "[]"] by auto
  then have e: "pstream_rest p = []" by (simp add: ptrie_entries_def ptrie_New_def)
  obtain m where m: "mergeWritesWithStream (InvalidSnapshot ErrConcurrentTransaction) (ptrie_New True) [] [] = Some m"
      "inputs_ok m" "\<not> isCanceled m" "valueSource m = notInitialized" "srem m = []" "prem m = []"
  proof -
    let ?m0 = "\<lparr>ms_s = InvalidStream ErrConcurrentTransaction, sHasKey = False, sKey = [], ms_p = p, pHasKey = True, pKey = [],
              valueSource = notInitialized, isCanceled = False\<rparr>"
    obtain p' where p': "pstream_Advance p = Some (p', False)" "pstream_inv p'" using ps.advance_end[OF p(2) e] by blast
    let ?m = "?m0\<lparr>ms_p := p', pHasKey := False\<rparr>"
    have "mergeWritesWithStream (InvalidSnapshot ErrConcurrentTransaction) (ptrie_New True) [] [] = Some ?m"
      using p(1) p'(1) by (simp add: mergeWritesWithStream_def advanceS_def advanceP_def)
    with that[of ?m] p'(2) show ?thesis by (simp add: inputs_ok_def srem_def prem_def)
  qed
  from merged_Advance_implements_overlay[OF m(2-4)] m(1,5,6) show ?thesis by auto
qed

end
