(* ===== verification/Conflict_Table.thy ===== *)
theory Conflict_Table
  imports Ptrie_Stream "HOL-Library.AList"
begin

text \<open>
  The table of recently written keys, \<^verbatim>\<open>src/services/syncbase/store/transactions/trie.go\<close>: a Go map from
  keys to the sequence number of their last write. The map is an association list here; the
  lemmas show that no answer depends on its order.

  \<open>conflict_table\<close> is what the transaction manager relies on. Inside it: the loops that record
  and forget a batch, and what the validation of a read set decides.
\<close>

subsection \<open>The table\<close>

record trie =
  seqs :: "(bytes \<times> 64 word) list"

definition newTrie :: trie where
  "newTrie = \<lparr>seqs = []\<rparr>"

definition trie_add :: "trie \<Rightarrow> bytes \<Rightarrow> 64 word \<Rightarrow> trie option" where
  "trie_add t key seq =
     (case map_of (seqs t) key of
        Some oldSeq \<Rightarrow> if seq < oldSeq then None else Some (t\<lparr>seqs := AList.update key seq (seqs t)\<rparr>)
      | None \<Rightarrow> Some (t\<lparr>seqs := AList.update key seq (seqs t)\<rparr>))"

definition trie_remove :: "trie \<Rightarrow> bytes \<Rightarrow> 64 word \<Rightarrow> trie option" where
  "trie_remove t key seq =
     (case map_of (seqs t) key of
        None \<Rightarrow> None
      | Some oldSeq \<Rightarrow>
          if oldSeq > seq then Some t
          else if oldSeq = seq then Some (t\<lparr>seqs := AList.delete key (seqs t)\<rparr>)
          else None)"

definition trie_get :: "trie \<Rightarrow> bytes \<Rightarrow> 64 word" where
  "trie_get t key = (case map_of (seqs t) key of Some seq \<Rightarrow> seq | None \<Rightarrow> 0)"

definition trie_rangeMax :: "trie \<Rightarrow> bytes \<Rightarrow> bytes \<Rightarrow> 64 word" where
  "trie_rangeMax t start lim =
     fold (\<lambda>(key, seq) result. if start \<le> key \<and> (lim = [] \<or> key < lim) \<and> result < seq then seq else result)
       (seqs t) 0"

definition trie_inv :: "trie \<Rightarrow> bool" where
  "trie_inv t \<longleftrightarrow> distinct (map fst (seqs t))"

subsection \<open>The contract\<close>

locale conflict_table =
  fixes new :: 't
    and add :: "'t \<Rightarrow> bytes \<Rightarrow> 64 word \<Rightarrow> 't option"
    and remove :: "'t \<Rightarrow> bytes \<Rightarrow> 64 word \<Rightarrow> 't option"
    and get :: "'t \<Rightarrow> bytes \<Rightarrow> 64 word"
    and rangeMax :: "'t \<Rightarrow> bytes \<Rightarrow> bytes \<Rightarrow> 64 word"
    and tinv :: "'t \<Rightarrow> bool"
    and tseqs :: "'t \<Rightarrow> bytes \<Rightarrow> 64 word option"
  assumes new_law: "tinv new" "tseqs new = Map.empty"
    and add_law: "tinv t \<Longrightarrow> pred_option (\<lambda>old. old \<le> s) (tseqs t k) \<Longrightarrow>
      \<exists>t'. add t k s = Some t' \<and> tinv t' \<and> tseqs t' = (tseqs t)(k \<mapsto> s)"
    and remove_law: "tinv t \<Longrightarrow> tseqs t k = Some old \<Longrightarrow> s \<le> old \<Longrightarrow>
      \<exists>t'. remove t k s = Some t' \<and> tinv t' \<and> tseqs t' = (if old = s then (tseqs t)(k := None) else tseqs t)"
    and get_law: "tinv t \<Longrightarrow> get t k = (case tseqs t k of None \<Rightarrow> 0 | Some s \<Rightarrow> s)"
    and rangeMax_law: "tinv t \<Longrightarrow>
      q < rangeMax t start lim \<longleftrightarrow> (\<exists>k s. in_range start lim k \<and> tseqs t k = Some s \<and> q < s)"
begin

lemma add_all:
  assumes "tinv t" "\<And>k old. tseqs t k = Some old \<Longrightarrow> old \<le> s"
  shows "\<exists>t'. iter_opt (\<lambda>t k. add t k s) t ks = Some t' \<and> tinv t' \<and>
    tseqs t' = (\<lambda>k. if k \<in> set ks then Some s else tseqs t k)"
  using assms
proof (induction ks arbitrary: t)
  case (Cons k ks)
  obtain t1 where t1: "add t k s = Some t1" "tinv t1" "tseqs t1 = (tseqs t)(k \<mapsto> s)"
    using add_law[of t s k] Cons.prems by (cases "tseqs t k") auto
  have le: "old \<le> s" if "tseqs t1 k' = Some old" for k' old
    using that t1(3) Cons.prems(2)[of k' old] by (auto split: if_splits)
  obtain t' where "iter_opt (\<lambda>t k. add t k s) t1 ks = Some t'" "tinv t'"
      "tseqs t' = (\<lambda>k. if k \<in> set ks then Some s else tseqs t1 k)"
    using Cons.IH[OF t1(2)] le by blast
  with t1 show ?case by (auto simp: fun_eq_iff)
qed simp

lemma remove_all:
  assumes "tinv t" "distinct ks" "\<And>k. k \<in> set ks \<Longrightarrow> \<exists>old. tseqs t k = Some old \<and> s \<le> old"
  shows "\<exists>t'. iter_opt (\<lambda>t k. remove t k s) t ks = Some t' \<and> tinv t' \<and>
    tseqs t' = (\<lambda>k. if k \<in> set ks \<and> tseqs t k = Some s then None else tseqs t k)"
  using assms
proof (induction ks arbitrary: t)
  case (Cons k ks)
  obtain old where old: "tseqs t k = Some old" "s \<le> old" using Cons.prems(3) by force
  obtain t1 where t1: "remove t k s = Some t1" "tinv t1"
      "tseqs t1 = (if old = s then (tseqs t)(k := None) else tseqs t)"
    using remove_law[OF Cons.prems(1) old] by blast
  have "tseqs t1 k' = tseqs t k'" if "k' \<in> set ks" for k' using that t1(3) Cons.prems(2) by auto
  then have "\<And>k'. k' \<in> set ks \<Longrightarrow> \<exists>old. tseqs t1 k' = Some old \<and> s \<le> old" using Cons.prems(3) by simp
  then obtain t' where t': "iter_opt (\<lambda>t k. remove t k s) t1 ks = Some t'" "tinv t'"
      "tseqs t' = (\<lambda>k. if k \<in> set ks \<and> tseqs t1 k = Some s then None else tseqs t1 k)"
    using Cons.IH[OF t1(2)] Cons.prems(2) by auto
  have "tseqs t' = (\<lambda>k'. if k' \<in> set (k # ks) \<and> tseqs t k' = Some s then None else tseqs t k')"
    unfolding t'(3) t1(3) using Cons.prems(2) old(1) by (auto simp: fun_eq_iff)
  then show ?case using t' t1 by simp
qed simp

lemma get_exceeds: "tinv t \<Longrightarrow> q < get t k \<longleftrightarrow> (\<exists>s. tseqs t k = Some s \<and> q < s)"
  by (simp add: get_law split: option.split)

end

subsection \<open>The table fulfils the contract\<close>

lemma rangeMax_fold:
  fixes q :: "64 word"
  shows "q < fold (\<lambda>(key, seq) result. if P key \<and> result < seq then seq else result) xs r \<longleftrightarrow>
    q < r \<or> (\<exists>k s. (k, s) \<in> set xs \<and> P k \<and> q < s)"
proof (induction xs arbitrary: r)
  case (Cons x xs)
  obtain k s where x: "x = (k, s)" by fastforce
  let ?r = "if P k \<and> r < s then s else r"
  have "q < ?r \<longleftrightarrow> q < r \<or> P k \<and> q < s" by auto
  then show ?case using Cons.IH[of ?r] x by auto
qed simp

interpretation tt: conflict_table newTrie trie_add trie_remove trie_get trie_rangeMax trie_inv "\<lambda>t. map_of (seqs t)"
proof
  show "trie_inv newTrie" "map_of (seqs newTrie) = Map.empty" by (simp_all add: trie_inv_def newTrie_def)
next
  fix t s k assume "trie_inv t" "pred_option (\<lambda>old. old \<le> s) (map_of (seqs t) k)"
  then show "\<exists>t'. trie_add t k s = Some t' \<and> trie_inv t' \<and> map_of (seqs t') = (map_of (seqs t))(k \<mapsto> s)"
    by (auto simp: trie_add_def trie_inv_def update_conv' distinct_update split: option.split)
next
  fix t k old s assume "trie_inv t" "map_of (seqs t) k = Some old" "s \<le> old"
  then show "\<exists>t'. trie_remove t k s = Some t' \<and> trie_inv t' \<and>
      map_of (seqs t') = (if old = s then (map_of (seqs t))(k := None) else map_of (seqs t))"
    by (auto simp: trie_remove_def trie_inv_def delete_conv' distinct_delete)
next
  fix t k assume "trie_inv t"
  show "trie_get t k = (case map_of (seqs t) k of None \<Rightarrow> 0 | Some s \<Rightarrow> s)"
    by (simp add: trie_get_def split: option.split)
next
  fix t q start lim assume "trie_inv t"
  then have "\<And>k s. (k, s) \<in> set (seqs t) \<longleftrightarrow> map_of (seqs t) k = Some s"
    by (simp add: trie_inv_def)
  then show "q < trie_rangeMax t start lim \<longleftrightarrow> (\<exists>k s. in_range start lim k \<and> map_of (seqs t) k = Some s \<and> q < s)"
    using rangeMax_fold[of q "in_range start lim" "seqs t" 0]
    by (auto simp: trie_rangeMax_def in_range_def conj_assoc)
qed

subsection \<open>Properties\<close>

text \<open>\<^verbatim>\<open>rangeMax\<close>, a loop over a Go map in unspecified order, returns the same number for every order
  of the entries; it exceeds a given number exactly when some key of the range was written with
  a number that does.\<close>

theorem rangeMax_any_order:
  assumes "set es' = set es"
  shows "trie_rangeMax \<lparr>seqs = es'\<rparr> start lim = trie_rangeMax \<lparr>seqs = es\<rparr> start lim \<and>
    (q < trie_rangeMax \<lparr>seqs = es\<rparr> start lim \<longleftrightarrow> (\<exists>k s. in_range start lim k \<and> (k, s) \<in> set es \<and> q < s))"
proof -
  have q: "q < trie_rangeMax \<lparr>seqs = xs\<rparr> start lim \<longleftrightarrow> (\<exists>k s. in_range start lim k \<and> (k, s) \<in> set xs \<and> q < s)" for q xs
    using rangeMax_fold[of q "in_range start lim" xs 0] by (auto simp: trie_rangeMax_def in_range_def conj_assoc)
  have "\<not> trie_rangeMax \<lparr>seqs = es'\<rparr> start lim < trie_rangeMax \<lparr>seqs = es\<rparr> start lim"
    "\<not> trie_rangeMax \<lparr>seqs = es\<rparr> start lim < trie_rangeMax \<lparr>seqs = es'\<rparr> start lim"
    using q[of _ es] q[of _ es'] assms by (metis order.irrefl)+
  then have "trie_rangeMax \<lparr>seqs = es'\<rparr> start lim = trie_rangeMax \<lparr>seqs = es\<rparr> start lim" by (meson linorder_neqE)
  then show ?thesis using q[of q es] by simp
qed

lemma rangeMax_any_order_witness:
  "trie_rangeMax \<lparr>seqs = [([2], 7), ([1], 5)]\<rparr> [1] [] = trie_rangeMax \<lparr>seqs = [([1], 5), ([2], 7)]\<rparr> [1] []"
  using rangeMax_any_order[of "[([2], 7), ([1], 5)]" "[([1], 5), ([2], 7)]" "[1]" "[]"] by (simp add: insert_commute)

end
