(* ===== verification/Transactions.thy ===== *)
theory Transactions
  imports Merged_Stream Conflict_Table
begin

text \<open>
  Optimistic transactions over a batch store,
  \<^verbatim>\<open>src/services/syncbase/store/transactions/manager.go\<close> and \<^verbatim>\<open>transaction.go\<close>, wrapped around the
  memstore as \<^verbatim>\<open>memstore.New\<close> does.

  The record \<open>manager\<close> has the fields of the Go struct and, as the heap, the transaction
  objects handed out so far by number. An operation is one step under the mutexes it holds;
  it returns \<^term>\<open>None\<close> if it panics. A transaction's element of the event queue is
  \<open>TxEvent id\<close>, and \<open>tx_event\<close> says whether its pointer to that element is not nil.
\<close>

subsection \<open>Data\<close>

datatype event = TxEvent nat | CommittedEvent "64 word" "bytes list"

record transaction =
  tx_seq :: "64 word"
  tx_event :: bool
  tx_snapshot :: snapshot
  readKeys :: "bytes list"
  readRanges :: "(bytes \<times> bytes) list"
  tx_writes :: "wval ptrie"
  tx_err :: "verror option"

record manager =
  bstore :: memstore
  events :: "event list option"
  mg_seq :: "64 word"
  txTable :: "trie option"
  txs :: "nat \<rightharpoonup> transaction"
  nextTx :: nat

datatype txref = TxRef nat | InvalidTransaction verror

datatype txstream = MergedTx mergedStream | InvalidTxStream verror

definition errClosedStore :: verror where
  "errClosedStore = ErrCanceled ErrMsgClosedStore"

subsection \<open>The manager\<close>

definition Wrap :: "memstore \<Rightarrow> manager" where
  "Wrap bs = \<lparr>bstore = bs, events = Some [], mg_seq = 0, txTable = Some newTrie, txs = Map.empty, nextTx = 0\<rparr>"

definition newTransaction :: "manager \<Rightarrow> event list \<Rightarrow> (manager \<times> txref) option" where
  "newTransaction mg es = do {
     sn \<leftarrow> memstore_NewSnapshot (bstore mg);
     let tx = \<lparr>tx_seq = mg_seq mg, tx_event = True, tx_snapshot = sn, readKeys = [], readRanges = [],
               tx_writes = ptrie_New True, tx_err = None\<rparr>;
     Some (mg\<lparr>events := Some (es @ [TxEvent (nextTx mg)]), txs := (txs mg)(nextTx mg \<mapsto> tx),
              nextTx := Suc (nextTx mg)\<rparr>, TxRef (nextTx mg))
   }"

definition NewTransaction :: "manager \<Rightarrow> (manager \<times> txref) option" where
  "NewTransaction mg =
     (case txTable mg of
        None \<Rightarrow> Some (mg, InvalidTransaction errClosedStore)
      | Some _ \<Rightarrow> do { es \<leftarrow> events mg; newTransaction mg es })"

definition trackBatch :: "manager \<Rightarrow> bytes WriteOp list \<Rightarrow> manager option" where
  "trackBatch mg batch = do {
     es \<leftarrow> events mg;
     (if es = [] then Some mg
      else do {
        let seq = mg_seq mg + 1;
        t \<leftarrow> txTable mg;
        t' \<leftarrow> iter_opt (\<lambda>t w. trie_add t (opKey w) seq) t batch;
        Some (mg\<lparr>mg_seq := seq, txTable := Some t', events := Some (es @ [CommittedEvent seq (map opKey batch)])\<rparr>)
      })
   }"

text \<open>\<^verbatim>\<open>Put\<close> and \<^verbatim>\<open>Delete\<close> of the store itself differ in the operation only.\<close>

definition mg_write :: "manager \<Rightarrow> bytes WriteOp \<Rightarrow> (manager \<times> verror option) option" where
  "mg_write mg w =
     (case txTable mg of
        None \<Rightarrow> Some (mg, Some errClosedStore)
      | Some _ \<Rightarrow> do {
          (bs, e) \<leftarrow> memstore_WriteBatch (bstore mg) [w];
          (case e of
             Some e \<Rightarrow> Some (mg\<lparr>bstore := bs\<rparr>, Some e)
           | None \<Rightarrow> do { mg' \<leftarrow> trackBatch (mg\<lparr>bstore := bs\<rparr>) [w]; Some (mg', None) })
        })"

definition mg_Put :: "manager \<Rightarrow> bytes \<Rightarrow> bytes \<Rightarrow> (manager \<times> verror option) option" where
  "mg_Put mg key val = mg_write mg (PutOp key val)"

definition mg_Delete :: "manager \<Rightarrow> bytes \<Rightarrow> (manager \<times> verror option) option" where
  "mg_Delete mg key = mg_write mg (DeleteOp key)"

fun gc_loop :: "trie \<Rightarrow> event list \<Rightarrow> (trie \<times> event list) option" where
  "gc_loop t [] = Some (t, [])"
| "gc_loop t (TxEvent i # es) = Some (t, TxEvent i # es)"
| "gc_loop t (CommittedEvent seq batch # es) = do {
     t' \<leftarrow> iter_opt (\<lambda>t k. trie_remove t k seq) t batch;
     gc_loop t' es
   }"

definition gcTransactions :: "manager \<Rightarrow> manager option" where
  "gcTransactions mg =
     (case events mg of
        None \<Rightarrow> Some mg
      | Some es \<Rightarrow> do {
          t \<leftarrow> txTable mg;
          (t', es') \<leftarrow> gc_loop t es;
          Some (mg\<lparr>txTable := Some t', events := Some es'\<rparr>)
        })"

subsection \<open>Transactions\<close>

definition upd_tx :: "manager \<Rightarrow> nat \<Rightarrow> transaction \<Rightarrow> manager" where
  "upd_tx mg i tx = mg\<lparr>txs := (txs mg)(i \<mapsto> tx)\<rparr>"

text \<open>Removing an element from a nil queue, or from another queue, has no effect in Go.\<close>

definition removeEvent :: "manager \<Rightarrow> nat \<Rightarrow> transaction \<Rightarrow> manager \<times> transaction" where
  "removeEvent mg i tx =
     (if tx_event tx
      then (mg\<lparr>events := map_option (remove1 (TxEvent i)) (events mg)\<rparr>, tx\<lparr>tx_event := False\<rparr>)
      else (mg, tx))"

definition tx_Get :: "manager \<Rightarrow> nat \<Rightarrow> bytes \<Rightarrow> bytes \<Rightarrow> (manager \<times> bytes \<times> verror option) option" where
  "tx_Get mg i key valbuf = do {
     tx \<leftarrow> txs mg i;
     (case tx_err tx of
        Some e \<Rightarrow> Some (mg, valbuf, Some e)
      | None \<Rightarrow> do {
          key \<leftarrow> CopyBytes [] key;
          let mg' = upd_tx mg i (tx\<lparr>readKeys := readKeys tx @ [key]\<rparr>);
          v \<leftarrow> ptrie_Get (tx_writes tx) key;
          (case v of
             Some (PutBytes b) \<Rightarrow> do { r \<leftarrow> CopyBytes valbuf b; Some (mg', r, None) }
           | Some IsDeleted \<Rightarrow> Some (mg', valbuf, Some (ErrUnknownKey key))
           | None \<Rightarrow> do { (r, e) \<leftarrow> Snapshot_Get (tx_snapshot tx) key valbuf; Some (mg', r, e) })
        })
   }"

definition tx_Scan :: "manager \<Rightarrow> nat \<Rightarrow> bytes \<Rightarrow> bytes \<Rightarrow> (manager \<times> txstream) option" where
  "tx_Scan mg i start lim = do {
     tx \<leftarrow> txs mg i;
     (case tx_err tx of
        Some e \<Rightarrow> Some (mg, InvalidTxStream e)
      | None \<Rightarrow> do {
          start \<leftarrow> CopyBytes [] start;
          lim \<leftarrow> CopyBytes [] lim;
          w \<leftarrow> ptrie_Copy (tx_writes tx);
          m \<leftarrow> mergeWritesWithStream (tx_snapshot tx) w start lim;
          Some (upd_tx mg i (tx\<lparr>readRanges := readRanges tx @ [(start, lim)]\<rparr>), MergedTx m)
        })
   }"

definition tx_write :: "manager \<Rightarrow> nat \<Rightarrow> bytes \<Rightarrow> wval \<Rightarrow> (manager \<times> verror option) option" where
  "tx_write mg i key w = do {
     tx \<leftarrow> txs mg i;
     (case tx_err tx of
        Some e \<Rightarrow> Some (mg, Some e)
      | None \<Rightarrow> do {
          ws \<leftarrow> ptrie_Put (tx_writes tx) key (Some w);
          Some (upd_tx mg i (tx\<lparr>tx_writes := ws\<rparr>), None)
        })
   }"

definition tx_Put :: "manager \<Rightarrow> nat \<Rightarrow> bytes \<Rightarrow> bytes \<Rightarrow> (manager \<times> verror option) option" where
  "tx_Put mg i key val = tx_write mg i key (PutBytes val)"

definition tx_Delete :: "manager \<Rightarrow> nat \<Rightarrow> bytes \<Rightarrow> (manager \<times> verror option) option" where
  "tx_Delete mg i key = tx_write mg i key IsDeleted"

definition validateReadSet :: "trie \<Rightarrow> transaction \<Rightarrow> bool" where
  "validateReadSet t tx \<longleftrightarrow>
     list_all (\<lambda>key. \<not> trie_get t key > tx_seq tx) (readKeys tx) \<and>
     list_all (\<lambda>(start, lim). \<not> trie_rangeMax t start lim > tx_seq tx) (readRanges tx)"

text \<open>The loop of \<^verbatim>\<open>Commit\<close> over its write buffer.\<close>

fun write_op :: "bytes \<Rightarrow> wval \<Rightarrow> bytes WriteOp" where
  "write_op k (PutBytes b) = PutOp k b"
| "write_op k IsDeleted = DeleteOp k"

partial_function (option) batch_loop :: "wval pstream \<Rightarrow> bytes WriteOp list \<Rightarrow> bytes WriteOp list option" where
  "batch_loop s batch = do {
     (s', ok) \<leftarrow> pstream_Advance s;
     (if ok then do {
        v \<leftarrow> pstream_Value s';
        k \<leftarrow> pstream_Key s';
        batch_loop s' (batch @ [write_op k v])
      }
      else Some batch)
   }"

definition tx_Commit :: "manager \<Rightarrow> nat \<Rightarrow> (manager \<times> verror option) option" where
  "tx_Commit mg i = do {
     tx \<leftarrow> txs mg i;
     (case tx_err tx of
        Some e \<Rightarrow> Some (mg, Some e)
      | None \<Rightarrow> do {
          let tx = tx\<lparr>tx_err := Some (ErrBadState ErrMsgCommittedTxn),
                      tx_snapshot := fst (Snapshot_Abort (tx_snapshot tx))\<rparr>;
          (case txTable mg of
             None \<Rightarrow> Some (upd_tx mg i tx, Some errClosedStore)
           | Some tbl \<Rightarrow> do {
               let (mg, tx) = removeEvent mg i tx;
               let mg = upd_tx mg i tx;
               (if \<not> validateReadSet tbl tx then Some (mg, Some ErrConcurrentTransaction)
                else do {
                  s \<leftarrow> ptrie_Scan (tx_writes tx) [] [];
                  batch \<leftarrow> batch_loop s [];
                  (bs, e) \<leftarrow> memstore_WriteBatch (bstore mg) batch;
                  (case e of
                     Some e \<Rightarrow> Some (mg\<lparr>bstore := bs\<rparr>, Some e)
                   | None \<Rightarrow> do { mg' \<leftarrow> trackBatch (mg\<lparr>bstore := bs\<rparr>) batch; Some (mg', None) })
                })
             })
        })
   }"

definition tx_Abort :: "manager \<Rightarrow> nat \<Rightarrow> (manager \<times> verror option) option" where
  "tx_Abort mg i = do {
     tx \<leftarrow> txs mg i;
     (case tx_err tx of
        Some e \<Rightarrow> Some (mg, Some e)
      | None \<Rightarrow>
          let tx = tx\<lparr>tx_err := Some (ErrCanceled ErrMsgAbortedTxn),
                      tx_snapshot := fst (Snapshot_Abort (tx_snapshot tx))\<rparr>;
              (mg, tx) = removeEvent mg i tx
          in Some (upd_tx mg i tx, None))
   }"

subsection \<open>Closing\<close>

text \<open>
  \<^verbatim>\<open>Close\<close> under \<^verbatim>\<open>mg.mu\<close>: closing the memstore aborts the snapshots taken from it. It returns the
  events, whose transactions are then aborted one by one without the lock.
\<close>

definition abort_snapshots :: "(nat \<rightharpoonup> transaction) \<Rightarrow> nat \<rightharpoonup> transaction" where
  "abort_snapshots ts i = map_option (\<lambda>tx. tx\<lparr>tx_snapshot := fst (Snapshot_Abort (tx_snapshot tx))\<rparr>) (ts i)"

definition mg_Close_locked :: "manager \<Rightarrow> (manager \<times> event list) + verror" where
  "mg_Close_locked mg =
     (case txTable mg of
        None \<Rightarrow> Inr errClosedStore
      | Some _ \<Rightarrow>
          Inl (mg\<lparr>bstore := fst (memstore_Close (bstore mg)), txs := abort_snapshots (txs mg),
                  events := None, txTable := None\<rparr>, case events mg of None \<Rightarrow> [] | Some es \<Rightarrow> es))"

fun abort_event :: "manager \<Rightarrow> event \<Rightarrow> manager option" where
  "abort_event mg (TxEvent i) = do { (mg', _) \<leftarrow> tx_Abort mg i; Some mg' }"
| "abort_event mg (CommittedEvent _ _) = Some mg"

definition mg_Close :: "manager \<Rightarrow> (manager \<times> verror option) option" where
  "mg_Close mg =
     (case mg_Close_locked mg of
        Inr e \<Rightarrow> Some (mg, Some e)
      | Inl (mg', es) \<Rightarrow> do { mg'' \<leftarrow> iter_opt abort_event mg' es; Some (mg'', None) })"

end
