(* ===== verification/Tx_Invariant.thy ===== *)
theory Tx_Invariant
  imports Transactions
begin

text \<open>
  The invariant of the transaction manager and the effect of every operation on it. While a
  transaction lives its element is in the event queue, and every key whose stored value no
  longer is the one of its snapshot was written by a commit that stands after the element;
  the conflict table holds, for every key, the number of the last commit in the queue that
  wrote it. Hence the validation of a read set accepts exactly when no key it covers was
  written since the transaction began.
\<close>

subsection \<open>The event queue\<close>

text \<open>The numbers of the commits in the queue, the keys they wrote, and the last writer of a key.\<close>

fun commits :: "event list \<Rightarrow> 64 word list" where
  "commits [] = []"
| "commits (TxEvent i # es) = commits es"
| "commits (CommittedEvent s ks # es) = s # commits es"

fun written :: "event list \<Rightarrow> bytes set" where
  "written [] = {}"
| "written (TxEvent i # es) = written es"
| "written (CommittedEvent s ks # es) = set ks \<union> written es"

fun last_write :: "event list \<Rightarrow> bytes \<Rightarrow> 64 word option" where
  "last_write [] k = None"
| "last_write (TxEvent i # es) k = last_write es k"
| "last_write (CommittedEvent s ks # es) k =
     (case last_write es k of Some s' \<Rightarrow> Some s' | None \<Rightarrow> if k \<in> set ks then Some s else None)"

definition ev_before :: "nat \<Rightarrow> event list \<Rightarrow> event list" where
  "ev_before i es = takeWhile (\<lambda>e. e \<noteq> TxEvent i) es"

definition ev_after :: "nat \<Rightarrow> event list \<Rightarrow> event list" where
  "ev_after i es = tl (dropWhile (\<lambda>e. e \<noteq> TxEvent i) es)"

fun batch_distinct :: "event \<Rightarrow> bool" where
  "batch_distinct (TxEvent i) \<longleftrightarrow> True"
| "batch_distinct (CommittedEvent s ks) \<longleftrightarrow> distinct ks"

lemma commits_append [simp]: "commits (xs @ ys) = commits xs @ commits ys"
  by (induction xs rule: commits.induct) auto

lemma written_append [simp]: "written (xs @ ys) = written xs \<union> written ys"
  by (induction xs rule: written.induct) auto

lemma last_write_append:
  "last_write (xs @ ys) k = (case last_write ys k of Some s \<Rightarrow> Some s | None \<Rightarrow> last_write xs k)"
  by (induction xs k rule: last_write.induct) (auto split: option.splits)

lemma last_write_None_iff: "last_write es k = None \<longleftrightarrow> k \<notin> written es"
  by (induction es k rule: last_write.induct) (auto split: option.splits)

lemma last_write_in_commits: "last_write es k = Some s \<Longrightarrow> s \<in> set (commits es)"
  by (induction es k rule: last_write.induct) (auto split: option.splits if_splits)

lemma commits_tx [simp]: "commits (remove1 (TxEvent i) es) = commits es"
  by (induction es rule: commits.induct) auto

lemma last_write_remove1 [simp]: "last_write (remove1 (TxEvent i) es) k = last_write es k"
  by (induction es k rule: last_write.induct) auto

lemma written_remove1 [simp]: "written (remove1 (TxEvent i) es) = written es"
  by (induction es rule: written.induct) auto

lemma queue_split: "TxEvent i \<in> set es \<Longrightarrow> es = ev_before i es @ TxEvent i # ev_after i es"
  by (induction es) (auto simp: ev_before_def ev_after_def)

lemma before_after_snoc [simp]:
  assumes "TxEvent i \<in> set es"
  shows "ev_before i (es @ xs) = ev_before i es" "ev_after i (es @ xs) = ev_after i es @ xs"
  using assms by (induction es) (auto simp: ev_before_def ev_after_def)

lemma after_fresh: "TxEvent i \<notin> set es \<Longrightarrow> ev_before i (es @ [TxEvent i]) = es \<and> ev_after i (es @ [TxEvent i]) = []"
  by (induction es) (auto simp: ev_before_def ev_after_def)

lemma before_after_remove1:
  assumes "i \<noteq> j"
  shows "ev_before j (remove1 (TxEvent i) es) = remove1 (TxEvent i) (ev_before j es) \<or> TxEvent j \<notin> set es"
    and "commits (ev_before j (remove1 (TxEvent i) es)) = commits (ev_before j es)"
    and "commits (ev_after j (remove1 (TxEvent i) es)) = commits (ev_after j es)"
    and "written (ev_after j (remove1 (TxEvent i) es)) = written (ev_after j es)"
  using assms by (induction es rule: commits.induct) (auto simp: ev_before_def ev_after_def)

subsection \<open>The invariant\<close>

definition tx_wf :: "transaction \<Rightarrow> bool" where
  "tx_wf tx \<longleftrightarrow> ptrie_inv (tx_writes tx) \<and> copyOnWrite (tx_writes tx) \<and>
     ptrie_contents (tx_writes tx) [] \<noteq> Some IsDeleted \<and>
     (case tx_snapshot tx of Snapshot sn \<Rightarrow> ptrie_inv (sndata sn) | InvalidSnapshot _ \<Rightarrow> False)"

text \<open>The map a transaction's snapshot holds.\<close>

definition tx_base :: "transaction \<Rightarrow> bytes \<rightharpoonup> bytes" where
  "tx_base tx = (case tx_snapshot tx of Snapshot sn \<Rightarrow> ptrie_contents (sndata sn) | InvalidSnapshot _ \<Rightarrow> Map.empty)"

definition tx_open :: "transaction \<Rightarrow> bool" where
  "tx_open tx \<longleftrightarrow> (case tx_snapshot tx of Snapshot sn \<Rightarrow> snerr sn = None | InvalidSnapshot _ \<Rightarrow> False)"

definition live_ok :: "memstore \<Rightarrow> event list \<Rightarrow> nat \<Rightarrow> transaction \<Rightarrow> bool" where
  "live_ok bs es i tx \<longleftrightarrow> tx_open tx \<and> TxEvent i \<in> set es \<and> tx_event tx \<and>
     (\<forall>s\<in>set (commits (ev_before i es)). s \<le> tx_seq tx) \<and>
     (\<forall>s\<in>set (commits (ev_after i es)). tx_seq tx < s) \<and>
     (\<forall>k. tx_base tx k \<noteq> memstore_contents bs k \<longrightarrow> k \<in> written (ev_after i es))"

definition queue_ok :: "manager \<Rightarrow> event list \<Rightarrow> trie \<Rightarrow> bool" where
  "queue_ok mg es t \<longleftrightarrow> merr (bstore mg) = None \<and> trie_inv t \<and> map_of (seqs t) = last_write es \<and>
     sorted_wrt (<) (commits es) \<and> (\<forall>s\<in>set (commits es). s \<le> mg_seq mg) \<and> list_all batch_distinct es \<and>
     (\<forall>i. TxEvent i \<in> set es \<longrightarrow> i < nextTx mg \<and> (\<exists>tx. txs mg i = Some tx \<and> tx_err tx = None)) \<and>
     (\<forall>i tx. txs mg i = Some tx \<longrightarrow> tx_err tx = None \<longrightarrow> live_ok (bstore mg) es i tx \<and> tx_seq tx \<le> mg_seq mg) \<and>
     distinct (filter (\<lambda>e. \<exists>i. e = TxEvent i) es)"

definition mg_inv :: "manager \<Rightarrow> bool" where
  "mg_inv mg \<longleftrightarrow> memstore_inv (bstore mg) \<and> (\<forall>i tx. txs mg i = Some tx \<longrightarrow> i < nextTx mg \<and> tx_wf tx) \<and>
     (case (events mg, txTable mg) of
        (Some es, Some t) \<Rightarrow> queue_ok mg es t
      | (None, None) \<Rightarrow> merr (bstore mg) \<noteq> None
      | _ \<Rightarrow> False)"

lemma mg_inv_Wrap: "mg_inv (Wrap memstore_New)"
  using memstore_inv_New tt.new_law
  by (auto simp: mg_inv_def Wrap_def queue_ok_def memstore_New_def fun_eq_iff)

subsection \<open>Validation of a read set\<close>

definition read_cover :: "transaction \<Rightarrow> bytes set" where
  "read_cover tx = set (readKeys tx) \<union> {k. \<exists>(start, lim)\<in>set (readRanges tx). in_range start lim k}"

lemma exceeds_iff:
  assumes "live_ok bs es i tx"
  shows "(\<exists>s. last_write es k = Some s \<and> tx_seq tx < s) \<longleftrightarrow> k \<in> written (ev_after i es)"
proof -
  have es: "es = ev_before i es @ TxEvent i # ev_after i es" using assms queue_split by (simp add: live_ok_def)
  show ?thesis
  proof (cases "last_write (ev_after i es) k")
    case None
    then have k: "k \<notin> written (ev_after i es)" by (simp add: last_write_None_iff)
    from None have "last_write es k = last_write (ev_before i es) k"
      using last_write_append[of "ev_before i es" "TxEvent i # ev_after i es"] es by simp
    then have "s \<le> tx_seq tx" if "last_write es k = Some s" for s
      using that last_write_in_commits[of "ev_before i es"] assms by (simp add: live_ok_def)
    with k show ?thesis by (auto simp: not_less[symmetric])
  next
    case (Some s)
    then have "k \<in> written (ev_after i es)" using last_write_None_iff[of "ev_after i es" k] by simp
    moreover have "last_write es k = Some s"
      using Some last_write_append[of "ev_before i es" "TxEvent i # ev_after i es"] es by simp
    moreover have "tx_seq tx < s" using last_write_in_commits[OF Some] assms by (simp add: live_ok_def)
    ultimately show ?thesis by blast
  qed
qed

lemma validateReadSet_iff:
  assumes "queue_ok mg es t" "live_ok bs es i tx" "tx_seq tx' = tx_seq tx"
  shows "validateReadSet t tx' \<longleftrightarrow> read_cover tx' \<inter> written (ev_after i es) = {}"
proof -
  have t: "trie_inv t" "map_of (seqs t) = last_write es" using assms(1) by (simp_all add: queue_ok_def)
  have key: "tx_seq tx' < trie_get t k \<longleftrightarrow> k \<in> written (ev_after i es)" for k
    using tt.get_exceeds[OF t(1), of "tx_seq tx'" k] exceeds_iff[OF assms(2), of k] assms(3) t(2) by simp
  have range: "tx_seq tx' < trie_rangeMax t a b \<longleftrightarrow> (\<exists>k. in_range a b k \<and> k \<in> written (ev_after i es))" for a b
    using tt.rangeMax_law[OF t(1), of "tx_seq tx'" a b] exceeds_iff[OF assms(2)] assms(3) t(2) by auto
  show ?thesis
    by (auto simp: validateReadSet_def list_all_iff key range read_cover_def)
qed

subsection \<open>The batch of a commit\<close>

lemma batch_loop_correct:
  assumes "pstream_inv s"
  shows "batch_loop s batch = Some (batch @ map (\<lambda>(k, v). write_op k v) (pstream_rest s))"
  using assms
proof (induction "pstream_rest s" arbitrary: s batch)
  case Nil
  with ps.advance_end[of s] show ?case by (auto simp: batch_loop.simps[of s])
next
  case (Cons e r)
  obtain k v where e: "e = (k, v)" by fastforce
  obtain s' where s': "pstream_Advance s = Some (s', True)" "pstream_inv s'" "pstream_Key s' = Some k"
      "pstream_Value s' = Some v" "pstream_rest s' = r"
    using ps.advance_step[of s k v r] Cons e by auto
  with Cons.hyps(1)[of s' "batch @ [write_op k v]"] Cons.hyps(2)[symmetric] e
  show ?case by (simp add: batch_loop.simps[of s])
qed

lemma opKey_write_op [simp]: "opKey (write_op k v) = k"
  by (cases v) auto

lemma map_opKey_write_op [simp]: "opKey \<circ> (\<lambda>(k, v). write_op k v) = fst"
  by (auto simp: fun_eq_iff)

lemma apply_write_ops:
  assumes "distinct (map fst es)"
  shows "apply_ops (map (\<lambda>(k, v). write_op k v) es) m = overlay_map m (map_of es)"
proof
  fix k
  let ?ops = "map (\<lambda>(k, v). write_op k v) es"
  have d: "distinct (map opKey ?ops)" using assms by simp
  show "apply_ops ?ops m k = overlay_map m (map_of es) k"
  proof (cases "map_of es k")
    case None
    then have "k \<notin> opKey ` set ?ops" by (simp add: map_of_eq_None_iff image_comp)
    with None show ?thesis using apply_ops_other[of k ?ops m] by (simp add: overlay_map_def)
  next
    case (Some v)
    then have "write_op k v \<in> set ?ops" using map_of_SomeD[OF Some] by force
    from apply_ops_distinct[OF d this, of m] Some show ?thesis by (cases v) (simp_all add: overlay_map_def)
  qed
qed

lemma map_of_ptrie_entries:
  assumes "ptrie_inv t"
  shows "map_of (ptrie_entries t) = ptrie_contents t"
  using map_of_range[OF assms, of "[]" "[]"] by (simp add: in_range_def fun_eq_iff case_prod_beta')

lemma ptrie_contents_key_ok:
  assumes "ptrie_inv t" "ptrie_contents t k = Some x"
  shows "key_ok k"
proof -
  obtain n where n: "root t = Some n" "bget (pabs 0 n) (bits_of k) = Some x"
    using assms(2) by (auto simp: ptrie_contents_def split: option.splits)
  then have "bit_key (bits_of k)" using assms(1) keys_ok_iff[of "pabs 0 n"] by (auto simp: ptrie_inv_def)
  then show ?thesis by (simp add: bit_key_def)
qed

lemma commit_batch:
  assumes "tx_wf tx"
  obtains s batch where "ptrie_Scan (tx_writes tx) [] [] = Some s" "batch_loop s [] = Some batch"
    "list_all op_ok batch" "distinct (map opKey batch)"
    "opKey ` set batch = dom (ptrie_contents (tx_writes tx))"
    "\<And>m. apply_ops batch m = overlay_map m (ptrie_contents (tx_writes tx))"
proof -
  let ?es = "ptrie_entries (tx_writes tx)"
  have inv: "ptrie_inv (tx_writes tx)" using assms by (simp add: tx_wf_def)
  obtain s where s: "ptrie_Scan (tx_writes tx) [] [] = Some s" "pstream_inv s" "pstream_rest s = ?es"
    using ptrie_Scan_correct[OF inv, of "[]" "[]"] by (auto simp: in_range_def case_prod_beta')
  let ?b = "map (\<lambda>(k, v). write_op k v) ?es"
  have "op_ok (write_op k v)" if "(k, v) \<in> set ?es" for k v
  proof -
    have c: "ptrie_contents (tx_writes tx) k = Some v" using that ptrie_entries_iff[OF inv] by blast
    from ptrie_contents_key_ok[OF inv c] c assms show ?thesis by (cases v) (auto simp: op_ok_def tx_wf_def)
  qed
  then have "list_all op_ok ?b" by (auto simp: list_all_iff)
  moreover have d: "distinct (map fst ?es)" using ptrie_entries_sorted[OF inv] by (simp add: strict_sorted_iff)
  moreover have "opKey ` set ?b = dom (ptrie_contents (tx_writes tx))"
    using dom_map_of_conv_image_fst[of ?es] map_of_ptrie_entries[OF inv] by (simp add: image_comp)
  ultimately show ?thesis
    using that[OF s(1) batch_loop_correct[OF s(2), of "[]"]] apply_write_ops[OF d] map_of_ptrie_entries[OF inv] s(3)
    by simp
qed

subsection \<open>How the queue changes\<close>

text \<open>A transaction object replaced by one that still lives, with the same snapshot and number.\<close>

lemma queue_ok_upd_live:
  assumes "queue_ok mg es t" "txs mg i = Some tx" "tx_err tx = None"
    and "tx_err tx' = None" "tx_seq tx' = tx_seq tx" "tx_snapshot tx' = tx_snapshot tx" "tx_event tx' = tx_event tx"
  shows "queue_ok (upd_tx mg i tx') es t"
proof -
  have "live_ok (bstore mg) es i tx" using assms(1-3) by (simp add: queue_ok_def)
  then have "live_ok (bstore mg) es i tx'"
    using assms(5-7) by (simp add: live_ok_def tx_base_def tx_open_def)
  then show ?thesis using assms(1-5) by (auto simp: queue_ok_def upd_tx_def)
qed

text \<open>A transaction that ends: its element leaves the queue.\<close>

lemma live_ok_remove1:
  assumes "live_ok bs es j tx" "j \<noteq> i"
  shows "live_ok bs (remove1 (TxEvent i) es) j tx"
  using assms before_after_remove1[of i j es] by (simp add: live_ok_def)

lemma remove1_tx_notin:
  assumes "distinct (filter (\<lambda>e. \<exists>i. e = TxEvent i) es)"
  shows "TxEvent i \<notin> set (remove1 (TxEvent i) es)"
  using assms by (induction es) (auto split: if_splits)

lemma distinct_filter_remove1:
  "distinct (filter P es) \<Longrightarrow> distinct (filter P (remove1 x es))"
  by (induction es) (auto dest: notin_set_remove1)

lemma queue_ok_end:
  assumes "queue_ok mg es t" "txs mg i = Some tx" "tx_err tx' \<noteq> None"
  shows "queue_ok (mg\<lparr>events := ev, txs := (txs mg)(i \<mapsto> tx')\<rparr>) (remove1 (TxEvent i) es) t"
proof -
  have *: "TxEvent i \<notin> set (remove1 (TxEvent i) es)" "list_all batch_distinct (remove1 (TxEvent i) es)"
      "distinct (filter (\<lambda>e. \<exists>i. e = TxEvent i) (remove1 (TxEvent i) es))"
    using assms(1) remove1_tx_notin distinct_filter_remove1
    by (auto simp: queue_ok_def list_all_iff dest: notin_set_remove1)
  have evs: "j < nextTx mg \<and> (\<exists>tx. ((txs mg)(i \<mapsto> tx')) j = Some tx \<and> tx_err tx = None)"
    if "TxEvent j \<in> set (remove1 (TxEvent i) es)" for j
  proof -
    have "j \<noteq> i" using that *(1) by blast
    moreover have "TxEvent j \<in> set es" using that by (meson notin_set_remove1)
    ultimately show ?thesis using assms(1) by (auto simp: queue_ok_def)
  qed
  have lv: "live_ok (bstore mg) (remove1 (TxEvent i) es) j tx0 \<and> tx_seq tx0 \<le> mg_seq mg"
    if "((txs mg)(i \<mapsto> tx')) j = Some tx0" "tx_err tx0 = None" for j tx0
  proof -
    have "j \<noteq> i" using that assms(3) by auto
    then show ?thesis using that assms(1) live_ok_remove1[of "bstore mg" es j tx0 i] by (simp add: queue_ok_def)
  qed
  show ?thesis using assms(1) * evs lv by (simp add: queue_ok_def fun_eq_iff)
qed

text \<open>A batch written to the store and tracked.\<close>

lemma last_write_snoc:
  "last_write (es @ [CommittedEvent s ks]) = (\<lambda>k. if k \<in> set ks then Some s else last_write es k)"
  by (rule ext) (simp add: last_write_append)

lemma queue_ok_commit:
  assumes q: "queue_ok mg es t" and ne: "mg_seq mg \<noteq> - 1"
    and bs: "merr bs = None" "\<And>k. k \<notin> set ks \<Longrightarrow> memstore_contents bs k = memstore_contents (bstore mg) k"
    and t': "trie_inv t'" "map_of (seqs t') = (\<lambda>k. if k \<in> set ks then Some (mg_seq mg + 1) else map_of (seqs t) k)"
    and d: "distinct ks"
    and mg': "bstore mg' = bs" "mg_seq mg' = mg_seq mg + 1" "txs mg' = txs mg" "nextTx mg' = nextTx mg"
  shows "queue_ok mg' (es @ [CommittedEvent (mg_seq mg + 1) ks]) t'"
proof -
  let ?e = "CommittedEvent (mg_seq mg + 1) ks"
  have lt: "s < mg_seq mg + 1" if "s \<in> set (commits es)" for s
    using that q word_less_Suc[OF ne] by (simp add: queue_ok_def)
  have lv: "live_ok bs (es @ [?e]) i tx \<and> tx_seq tx \<le> mg_seq mg + 1"
    if tx: "txs mg i = Some tx" "tx_err tx = None" for i tx
  proof -
    have l: "live_ok (bstore mg) es i tx" using q tx by (simp add: queue_ok_def)
    then have i: "TxEvent i \<in> set es" by (simp add: live_ok_def)
    have "tx_seq tx < mg_seq mg + 1" using q tx word_less_Suc[OF ne] by (simp add: queue_ok_def)
    then show ?thesis using l bs(2) before_after_snoc[OF i, of "[?e]"] by (auto simp: live_ok_def)
  qed
  have lw: "map_of (seqs t) = last_write es" using q by (simp add: queue_ok_def)
  have "map_of (seqs t') = last_write (es @ [?e])" unfolding t'(2) lw last_write_snoc ..
  then show ?thesis unfolding queue_ok_def mg' using q bs(1) t'(1) d lt lv
    by (simp add: queue_ok_def last_write_snoc sorted_wrt_append less_imp_le)
qed

lemma iter_opt_map: "iter_opt (\<lambda>t x. f t (g x)) t xs = iter_opt f t (map g xs)"
proof (induction xs arbitrary: t)
  case (Cons x xs)
  then show ?case by (cases "f t (g x)") simp_all
qed simp

lemma queue_ok_no_events:
  assumes "queue_ok mg [] t" "merr bs = None" "bstore mg' = bs" "mg_seq mg' = mg_seq mg" "txs mg' = txs mg" "nextTx mg' = nextTx mg"
  shows "queue_ok mg' [] t"
  using assms by (auto simp: queue_ok_def live_ok_def)

lemma trackBatch_ok:
  assumes q: "queue_ok mg es t" "events mg = Some es" "txTable mg = Some t" and ne: "mg_seq mg \<noteq> - 1"
    and bs: "merr bs = None" "\<And>k. k \<notin> opKey ` set batch \<Longrightarrow> memstore_contents bs k = memstore_contents (bstore mg) k"
    and d: "distinct (map opKey batch)"
  shows "\<exists>mg' es' t'. trackBatch (mg\<lparr>bstore := bs\<rparr>) batch = Some mg' \<and> bstore mg' = bs \<and> txs mg' = txs mg \<and>
    nextTx mg' = nextTx mg \<and> mg_seq mg' = (if es = [] then mg_seq mg else mg_seq mg + 1) \<and>
    events mg' = Some es' \<and> txTable mg' = Some t' \<and> queue_ok mg' es' t' \<and>
    es' = (if es = [] then [] else es @ [CommittedEvent (mg_seq mg + 1) (map opKey batch)])"
proof (cases "es = []")
  case True
  then have "trackBatch (mg\<lparr>bstore := bs\<rparr>) batch = Some (mg\<lparr>bstore := bs\<rparr>)" using q(2) by (simp add: trackBatch_def)
  moreover have "queue_ok (mg\<lparr>bstore := bs\<rparr>) [] t" using q(1) True bs(1) queue_ok_no_events[of mg t bs] by simp
  ultimately show ?thesis using True q by simp
next
  case False
  let ?s = "mg_seq mg + 1" and ?ks = "map opKey batch"
  have ti: "trie_inv t" "map_of (seqs t) = last_write es" using q(1) by (simp_all add: queue_ok_def)
  have le: "old \<le> ?s" if "map_of (seqs t) k = Some old" for k old
    using that ti(2) last_write_in_commits[of es k old] word_less_Suc[OF ne, of old] q(1) by (simp add: queue_ok_def less_imp_le)
  obtain t' where t': "iter_opt (\<lambda>t k. trie_add t k ?s) t ?ks = Some t'" "trie_inv t'"
      "map_of (seqs t') = (\<lambda>k. if k \<in> set ?ks then Some ?s else map_of (seqs t) k)"
    using tt.add_all[OF ti(1), of ?s ?ks] le by blast
  let ?mg = "mg\<lparr>bstore := bs, mg_seq := ?s, txTable := Some t', events := Some (es @ [CommittedEvent ?s ?ks])\<rparr>"
  have "iter_opt (\<lambda>t w. trie_add t (opKey w) ?s) t batch = Some t'"
    using t'(1) iter_opt_map[of "\<lambda>t k. trie_add t k ?s" opKey t batch] by metis
  then have "trackBatch (mg\<lparr>bstore := bs\<rparr>) batch = Some ?mg"
    using False q(2,3) by (simp add: trackBatch_def Let_def)
  moreover have "queue_ok ?mg (es @ [CommittedEvent ?s ?ks]) t'"
    using bs d by (intro queue_ok_commit[OF q(1) ne _ _ t'(2,3)]) auto
  ultimately show ?thesis using False by simp
qed

subsection \<open>Every operation keeps the invariant\<close>

lemma mg_inv_cases:
  assumes "mg_inv mg"
  obtains (opened) es t where "events mg = Some es" "txTable mg = Some t" "queue_ok mg es t" "merr (bstore mg) = None"
  | (closed) "events mg = None" "txTable mg = None" "merr (bstore mg) \<noteq> None"
  using assms by (auto simp: mg_inv_def queue_ok_def split: option.splits)

lemma mg_inv_openI:
  assumes "memstore_inv (bstore mg)" "\<And>i tx. txs mg i = Some tx \<Longrightarrow> i < nextTx mg \<and> tx_wf tx"
    and "events mg = Some es" "txTable mg = Some t" "queue_ok mg es t"
  shows "mg_inv mg"
  using assms by (simp add: mg_inv_def)

lemma mg_inv_tx: "mg_inv mg \<Longrightarrow> txs mg i = Some tx \<Longrightarrow> i < nextTx mg \<and> tx_wf tx"
  by (simp add: mg_inv_def)

lemma mg_inv_store: "mg_inv mg \<Longrightarrow> memstore_inv (bstore mg)"
  by (simp add: mg_inv_def)

lemma NewTransaction_ok:
  assumes inv: "mg_inv mg" and t: "txTable mg \<noteq> None"
  shows "\<exists>mg' tx. NewTransaction mg = Some (mg', TxRef (nextTx mg)) \<and> mg_inv mg' \<and> bstore mg' = bstore mg \<and>
    mg_seq mg' = mg_seq mg \<and> txTable mg' \<noteq> None \<and> txs mg' = (txs mg)(nextTx mg \<mapsto> tx) \<and> txs mg (nextTx mg) = None \<and>
    tx_err tx = None \<and> tx_base tx = memstore_contents (bstore mg) \<and> ptrie_contents (tx_writes tx) = Map.empty \<and>
    readKeys tx = [] \<and> readRanges tx = []"
  using inv
proof (cases rule: mg_inv_cases)
  case (opened es tb)
  let ?i = "nextTx mg"
  let ?tx = "\<lparr>tx_seq = mg_seq mg, tx_event = True, tx_snapshot = Snapshot \<lparr>sndata = mdata (bstore mg), snerr = None\<rparr>,
     readKeys = [], readRanges = [], tx_writes = ptrie_New True, tx_err = None\<rparr> :: transaction"
  let ?mg = "mg\<lparr>events := Some (es @ [TxEvent ?i]), txs := (txs mg)(?i \<mapsto> ?tx), nextTx := Suc ?i\<rparr>"
  have new: "NewTransaction mg = Some (?mg, TxRef ?i)"
    using opened memstore_NewSnapshot_open[OF mg_inv_store[OF inv] opened(4)]
    by (simp add: NewTransaction_def newTransaction_def Let_def)
  have fresh: "txs mg ?i = None" using mg_inv_tx[OF inv, of ?i] by (cases "txs mg ?i") auto
  have nin: "TxEvent ?i \<notin> set es" using opened(3) by (auto simp: queue_ok_def)
  have wf: "tx_wf ?tx" using mg_inv_store[OF inv]
    by (simp add: tx_wf_def ptrie_inv_New ptrie_contents_New memstore_inv_def) (simp add: ptrie_New_def)
  have lw: "last_write (es @ [TxEvent ?i]) = last_write es" by (rule ext) (simp add: last_write_append)
  have this_live: "live_ok (bstore mg) (es @ [TxEvent ?i]) ?i ?tx" using after_fresh[OF nin] opened(3)
    by (simp add: live_ok_def tx_open_def tx_base_def queue_ok_def)
  have others: "live_ok (bstore mg) (es @ [TxEvent ?i]) j tx" if "live_ok (bstore mg) es j tx" for j tx
    using that before_after_snoc[of j es "[TxEvent ?i]"] by (simp add: live_ok_def)
  have "queue_ok ?mg (es @ [TxEvent ?i]) tb"
    unfolding queue_ok_def lw using opened(3) nin fresh this_live others
    by (auto simp: queue_ok_def less_SucI)
  then have "mg_inv ?mg"
    using opened(2) mg_inv_store[OF inv] mg_inv_tx[OF inv] wf
    by (intro mg_inv_openI) (auto simp: less_SucI split: if_splits)
  moreover have "ptrie_contents (ptrie_New True :: wval ptrie) = Map.empty"
    by (rule ext) (simp add: ptrie_contents_New)
  ultimately show ?thesis using new fresh opened
    by (intro exI[of _ ?mg] exI[of _ ?tx]) (simp add: tx_base_def)
next
  case closed
  with t show ?thesis by simp
qed

lemma store_write_ok:
  assumes inv: "mg_inv mg" and q: "events mg = Some es" "txTable mg = Some t" "queue_ok mg es t"
    and ne: "mg_seq mg \<noteq> - 1" and b: "list_all op_ok batch" "distinct (map opKey batch)"
  shows "\<exists>bs mg' es' t'. memstore_WriteBatch (bstore mg) batch = Some (bs, None) \<and>
    trackBatch (mg\<lparr>bstore := bs\<rparr>) batch = Some mg' \<and> mg_inv mg' \<and> txs mg' = txs mg \<and> nextTx mg' = nextTx mg \<and>
    memstore_contents (bstore mg') = apply_ops batch (memstore_contents (bstore mg)) \<and>
    mg_seq mg' = (if es = [] then mg_seq mg else mg_seq mg + 1) \<and>
    events mg' = Some es' \<and> txTable mg' = Some t' \<and>
    es' = (if es = [] then [] else es @ [CommittedEvent (mg_seq mg + 1) (map opKey batch)])"
proof -
  have "merr (bstore mg) = None" using q(3) by (simp add: queue_ok_def)
  from memstore_WriteBatch_open[OF mg_inv_store[OF inv] this b(1)]
  obtain bs where bs: "memstore_WriteBatch (bstore mg) batch = Some (bs, None)" "memstore_inv bs" "merr bs = None"
      "memstore_contents bs = apply_ops batch (memstore_contents (bstore mg))"
    by blast
  have "memstore_contents bs k = memstore_contents (bstore mg) k" if "k \<notin> opKey ` set batch" for k
    using bs(4) apply_ops_other[OF that] by simp
  from trackBatch_ok[OF q(3,1,2) ne bs(3) this b(2)]
  obtain mg' es' t' where mg': "trackBatch (mg\<lparr>bstore := bs\<rparr>) batch = Some mg'" "bstore mg' = bs" "txs mg' = txs mg"
      "nextTx mg' = nextTx mg" "mg_seq mg' = (if es = [] then mg_seq mg else mg_seq mg + 1)"
      "events mg' = Some es'" "txTable mg' = Some t'" "queue_ok mg' es' t'"
      "es' = (if es = [] then [] else es @ [CommittedEvent (mg_seq mg + 1) (map opKey batch)])"
    by blast
  have "mg_inv mg'" using mg_inv_tx[OF inv] bs(2) mg' by (intro mg_inv_openI[OF _ _ mg'(6-8)]) simp_all
  then show ?thesis using bs(1,4) mg' by (intro exI[of _ bs] exI[of _ mg']) simp
qed

lemma mg_write_ok:
  assumes "mg_inv mg" "txTable mg \<noteq> None" "mg_seq mg \<noteq> - 1" "op_ok w"
  shows "\<exists>mg'. mg_write mg w = Some (mg', None) \<and> mg_inv mg' \<and> txs mg' = txs mg \<and> txTable mg' \<noteq> None \<and>
    memstore_contents (bstore mg') = apply_op w (memstore_contents (bstore mg)) \<and>
    mg_seq mg' \<in> {mg_seq mg, mg_seq mg + 1}"
  using assms(1)
proof (cases rule: mg_inv_cases)
  case (opened es t)
  from store_write_ok[OF assms(1) opened(1-3) assms(3), of "[w]"] assms(4)
  obtain bs mg' where "memstore_WriteBatch (bstore mg) [w] = Some (bs, None)"
      "trackBatch (mg\<lparr>bstore := bs\<rparr>) [w] = Some mg'" "mg_inv mg'" "txs mg' = txs mg" "txTable mg' \<noteq> None"
      "memstore_contents (bstore mg') = apply_op w (memstore_contents (bstore mg))"
      "mg_seq mg' = (if es = [] then mg_seq mg else mg_seq mg + 1)"
    by auto
  then show ?thesis using opened(2) by (intro exI[of _ mg']) (simp add: mg_write_def)
next
  case closed
  with assms(2) show ?thesis by simp
qed

text \<open>Operations of a live transaction that only change the transaction object.\<close>

lemma mg_inv_upd_live:
  assumes "mg_inv mg" "txs mg i = Some tx" "tx_err tx = None" "tx_wf tx'"
    and "tx_err tx' = None" "tx_seq tx' = tx_seq tx" "tx_snapshot tx' = tx_snapshot tx" "tx_event tx' = tx_event tx"
  shows "mg_inv (upd_tx mg i tx')"
  using assms(1)
proof (cases rule: mg_inv_cases)
  case (opened es t)
  from queue_ok_upd_live[OF opened(3) assms(2,3,5-8)] opened assms show ?thesis
    by (intro mg_inv_openI) (auto simp: upd_tx_def mg_inv_def split: if_splits)
next
  case closed
  then show ?thesis using assms by (auto simp: upd_tx_def mg_inv_def)
qed

lemma tx_live_open:
  assumes "mg_inv mg" "txs mg i = Some tx" "tx_err tx = None" "txTable mg \<noteq> None"
  obtains sn where "tx_snapshot tx = Snapshot sn" "snerr sn = None" "ptrie_inv (sndata sn)"
    "tx_base tx = ptrie_contents (sndata sn)"
  using assms(1)
proof (cases rule: mg_inv_cases)
  case (opened es t)
  then have "tx_open tx" using assms by (auto simp: queue_ok_def live_ok_def)
  with mg_inv_tx[OF assms(1,2)] that show ?thesis
    by (cases "tx_snapshot tx") (auto simp: tx_open_def tx_wf_def tx_base_def)
next
  case closed
  with assms show ?thesis by simp
qed

text \<open>What a live transaction sees.\<close>

definition tx_view :: "transaction \<Rightarrow> bytes \<rightharpoonup> bytes" where
  "tx_view tx = overlay_map (tx_base tx) (ptrie_contents (tx_writes tx))"

lemma tx_Get_ok:
  assumes inv: "mg_inv mg" and tx: "txs mg i = Some tx" "tx_err tx = None" and t: "txTable mg \<noteq> None" and k: "key_ok key"
  shows "\<exists>r e. tx_Get mg i key valbuf = Some (upd_tx mg i (tx\<lparr>readKeys := readKeys tx @ [key]\<rparr>), r, e) \<and>
    (r, e) = read_result (tx_view tx) key valbuf \<and> mg_inv (upd_tx mg i (tx\<lparr>readKeys := readKeys tx @ [key]\<rparr>))"
proof -
  obtain sn where sn: "tx_snapshot tx = Snapshot sn" "snerr sn = None" "ptrie_inv (sndata sn)"
      "tx_base tx = ptrie_contents (sndata sn)"
    using tx_live_open[OF inv tx t] .
  have wf: "tx_wf tx" using mg_inv_tx[OF inv tx(1)] by blast
  then have w: "ptrie_Get (tx_writes tx) key = Some (ptrie_contents (tx_writes tx) key)"
    using k by (simp add: tx_wf_def pt.get_law)
  have "mg_inv (upd_tx mg i (tx\<lparr>readKeys := readKeys tx @ [key]\<rparr>))"
    using wf tx by (intro mg_inv_upd_live[OF inv tx]) (simp_all add: tx_wf_def)
  then show ?thesis
    using w tx sn msnapshot_Get_open[OF sn(3,2) k, of valbuf]
    by (cases "ptrie_contents (tx_writes tx) key")
       (auto simp: tx_Get_def Let_def tx_view_def overlay_map_def read_result_def split: wval.split option.split)
qed

lemma tx_Scan_ok:
  assumes inv: "mg_inv mg" and tx: "txs mg i = Some tx" "tx_err tx = None" and t: "txTable mg \<noteq> None" and k: "key_ok start"
  shows "\<exists>m. tx_Scan mg i start lim = Some (upd_tx mg i (tx\<lparr>readRanges := readRanges tx @ [(start, lim)]\<rparr>), MergedTx m) \<and>
    inputs_ok m \<and> strict_keys (merged_rest m) \<and>
    (\<forall>k. map_of (merged_rest m) k = (if in_range start lim k then tx_view tx k else None)) \<and>
    mg_inv (upd_tx mg i (tx\<lparr>readRanges := readRanges tx @ [(start, lim)]\<rparr>))"
proof -
  obtain sn where sn: "tx_snapshot tx = Snapshot sn" "snerr sn = None" "ptrie_inv (sndata sn)"
      "tx_base tx = ptrie_contents (sndata sn)"
    using tx_live_open[OF inv tx t] .
  have wf: "tx_wf tx" using mg_inv_tx[OF inv tx(1)] by blast
  then obtain m where m: "mergeWritesWithStream (Snapshot sn) (tx_writes tx) start lim = Some m" "inputs_ok m"
      "strict_keys (merged_rest m)"
      "\<forall>k. map_of (merged_rest m) k = (if in_range start lim k then tx_view tx k else None)"
    using mergeWritesWithStream_correct[OF sn(3,2) _ k, of "tx_writes tx" lim] sn(4)
    by (auto simp: tx_wf_def tx_view_def)
  have "mg_inv (upd_tx mg i (tx\<lparr>readRanges := readRanges tx @ [(start, lim)]\<rparr>))"
    using wf tx by (intro mg_inv_upd_live[OF inv tx]) (simp_all add: tx_wf_def)
  moreover have "ptrie_Copy (tx_writes tx) = Some (tx_writes tx)"
    using wf by (simp add: tx_wf_def ptrie_Copy_def)
  ultimately show ?thesis using m tx sn(1) by (intro exI[of _ m]) (simp add: tx_Scan_def)
qed

lemma tx_write_ok:
  assumes inv: "mg_inv mg" and tx: "txs mg i = Some tx" "tx_err tx = None"
    and k: "key_ok key" "key = [] \<longrightarrow> w \<noteq> IsDeleted"
  shows "\<exists>ws. tx_write mg i key w = Some (upd_tx mg i (tx\<lparr>tx_writes := ws\<rparr>), None) \<and>
    ptrie_contents ws = (ptrie_contents (tx_writes tx))(key \<mapsto> w) \<and> mg_inv (upd_tx mg i (tx\<lparr>tx_writes := ws\<rparr>))"
proof -
  have wf: "tx_wf tx" using mg_inv_tx[OF inv tx(1)] by blast
  then obtain ws where ws: "ptrie_Put (tx_writes tx) key (Some w) = Some ws" "ptrie_inv ws"
      "ptrie_contents ws = (ptrie_contents (tx_writes tx))(key \<mapsto> w)" "copyOnWrite ws"
    using ptrie_Put_correct[OF _ k(1), of "tx_writes tx" w] by (auto simp: tx_wf_def)
  then have "tx_wf (tx\<lparr>tx_writes := ws\<rparr>)" using wf k(2) by (auto simp: tx_wf_def)
  then have "mg_inv (upd_tx mg i (tx\<lparr>tx_writes := ws\<rparr>))"
    using tx by (intro mg_inv_upd_live[OF inv tx]) simp_all
  then show ?thesis using ws tx by (intro exI[of _ ws]) (simp add: tx_write_def)
qed

subsection \<open>The end of a transaction\<close>

lemma tx_wf_Abort: "tx_wf (tx\<lparr>tx_err := e, tx_snapshot := fst (Snapshot_Abort (tx_snapshot tx)), tx_event := b\<rparr>) = tx_wf tx"
  "tx_wf (tx\<lparr>tx_snapshot := fst (Snapshot_Abort (tx_snapshot tx))\<rparr>) = tx_wf tx"
  by (cases "tx_snapshot tx"; simp add: tx_wf_def msnapshot_Abort_def Let_def split: option.split)+

definition ended :: "transaction \<Rightarrow> verror \<Rightarrow> transaction" where
  "ended tx e = tx\<lparr>tx_err := Some e, tx_snapshot := fst (Snapshot_Abort (tx_snapshot tx)), tx_event := False\<rparr>"

lemma ended_no_event:
  "\<not> tx_event tx \<Longrightarrow> ended tx e = tx\<lparr>tx_err := Some e, tx_snapshot := fst (Snapshot_Abort (tx_snapshot tx))\<rparr>"
  by (cases tx) (simp add: ended_def)

lemma mg_inv_end:
  assumes inv: "mg_inv mg" and q: "events mg = Some es" "txTable mg = Some t" "queue_ok mg es t"
    and tx: "txs mg i = Some tx"
  shows "mg_inv (mg\<lparr>events := Some (remove1 (TxEvent i) es), txs := (txs mg)(i \<mapsto> ended tx e)\<rparr>)"
proof -
  let ?mg = "mg\<lparr>events := Some (remove1 (TxEvent i) es), txs := (txs mg)(i \<mapsto> ended tx e)\<rparr>"
  have qe: "queue_ok ?mg (remove1 (TxEvent i) es) t"
    by (rule queue_ok_end[OF q(3) tx]) (simp add: ended_def)
  have "tx_wf (ended tx e)" using mg_inv_tx[OF inv tx] by (simp add: ended_def tx_wf_Abort)
  then show ?thesis using mg_inv_store[OF inv] mg_inv_tx[OF inv] tx q(2)
    by (intro mg_inv_openI[OF _ _ _ _ qe]) (auto split: if_splits)
qed

lemma tx_Abort_ok:
  assumes inv: "mg_inv mg" and tx: "txs mg i = Some tx" "tx_err tx = None"
  shows "\<exists>mg'. tx_Abort mg i = Some (mg', None) \<and> mg_inv mg' \<and> bstore mg' = bstore mg \<and> mg_seq mg' = mg_seq mg \<and>
    txTable mg' = txTable mg \<and> nextTx mg' = nextTx mg \<and>
    txs mg' = (txs mg)(i \<mapsto> ended tx (ErrCanceled ErrMsgAbortedTxn))"
  using inv
proof (cases rule: mg_inv_cases)
  case (opened es t)
  then have "tx_event tx" using tx by (auto simp: queue_ok_def live_ok_def)
  let ?mg = "mg\<lparr>events := Some (remove1 (TxEvent i) es), txs := (txs mg)(i \<mapsto> ended tx (ErrCanceled ErrMsgAbortedTxn))\<rparr>"
  have "tx_Abort mg i = Some (?mg, None)"
    using tx opened(1) \<open>tx_event tx\<close> by (simp add: tx_Abort_def removeEvent_def upd_tx_def ended_def)
  then show ?thesis using mg_inv_end[OF inv opened(1-3) tx(1)]
    by (intro exI[of _ ?mg]) (auto simp: ended_def)
next
  case closed
  let ?tx = "ended tx (ErrCanceled ErrMsgAbortedTxn)"
  have a: "tx_Abort mg i = Some (upd_tx mg i ?tx, None)"
  proof (cases "tx_event tx")
    case True
    then show ?thesis using tx closed(1) by (simp add: tx_Abort_def removeEvent_def upd_tx_def ended_def)
  next
    case False
    then show ?thesis using tx by (simp add: tx_Abort_def removeEvent_def upd_tx_def ended_no_event)
  qed
  have "tx_wf ?tx" using mg_inv_tx[OF inv tx(1)] by (simp add: ended_def tx_wf_Abort)
  then have "mg_inv (upd_tx mg i ?tx)"
    using inv tx closed by (auto simp: upd_tx_def mg_inv_def)
  then show ?thesis using a by (intro exI[of _ "upd_tx mg i ?tx"]) (auto simp: upd_tx_def)
qed

text \<open>\<^verbatim>\<open>Commit\<close> of a live transaction on an open store: what it decides and what it does.\<close>

lemma tx_Commit_ok:
  assumes inv: "mg_inv mg" and q: "events mg = Some es" "txTable mg = Some t" "queue_ok mg es t"
    and tx: "txs mg i = Some tx" "tx_err tx = None" and ne: "mg_seq mg \<noteq> - 1"
  defines "e \<equiv> ErrBadState ErrMsgCommittedTxn"
  shows "if read_cover tx \<inter> written (ev_after i es) = {}
    then \<exists>mg'. tx_Commit mg i = Some (mg', None) \<and> mg_inv mg' \<and> txs mg' = (txs mg)(i \<mapsto> ended tx e) \<and>
      memstore_contents (bstore mg') = overlay_map (memstore_contents (bstore mg)) (ptrie_contents (tx_writes tx)) \<and>
      mg_seq mg' \<in> {mg_seq mg, mg_seq mg + 1} \<and> txTable mg' \<noteq> None \<and>
      (\<exists>ks. set ks = dom (ptrie_contents (tx_writes tx)) \<and>
        events mg' = Some (if remove1 (TxEvent i) es = [] then [] else remove1 (TxEvent i) es @ [CommittedEvent (mg_seq mg + 1) ks]))
    else \<exists>mg'. tx_Commit mg i = Some (mg', Some ErrConcurrentTransaction) \<and> mg_inv mg' \<and>
      txs mg' = (txs mg)(i \<mapsto> ended tx e) \<and> bstore mg' = bstore mg \<and> mg_seq mg' = mg_seq mg \<and> txTable mg' = txTable mg"
proof -
  have live: "live_ok (bstore mg) es i tx" using q(3) tx by (simp add: queue_ok_def)
  then have ev: "tx_event tx" by (simp add: live_ok_def)
  have wf: "tx_wf tx" using mg_inv_tx[OF inv tx(1)] by blast
  let ?tx = "ended tx e"
  let ?mg = "mg\<lparr>events := Some (remove1 (TxEvent i) es), txs := (txs mg)(i \<mapsto> ?tx)\<rparr>"
  have inv1: "mg_inv ?mg" by (rule mg_inv_end[OF inv q tx(1)])
  have val: "validateReadSet t ?tx \<longleftrightarrow> read_cover tx \<inter> written (ev_after i es) = {}"
    using validateReadSet_iff[OF q(3) live, of ?tx] by (simp add: ended_def read_cover_def)
  have en: "tx\<lparr>tx_err := Some (ErrBadState ErrMsgCommittedTxn),
      tx_snapshot := fst (Snapshot_Abort (tx_snapshot tx)), tx_event := False\<rparr> = ?tx"
    by (simp add: ended_def e_def)
  have commit: "tx_Commit mg i = (if \<not> validateReadSet t ?tx then Some (?mg, Some ErrConcurrentTransaction)
      else do {
        s \<leftarrow> ptrie_Scan (tx_writes tx) [] [];
        batch \<leftarrow> batch_loop s [];
        (bs, er) \<leftarrow> memstore_WriteBatch (bstore mg) batch;
        (case er of
           Some er \<Rightarrow> Some (?mg\<lparr>bstore := bs\<rparr>, Some er)
         | None \<Rightarrow> do { mg' \<leftarrow> trackBatch (?mg\<lparr>bstore := bs\<rparr>) batch; Some (mg', None) })
      })"
    using tx q(1,2) ev by (simp add: tx_Commit_def removeEvent_def upd_tx_def Let_def en) (simp add: ended_def)
  show ?thesis
  proof (cases "read_cover tx \<inter> written (ev_after i es) = {}")
    case True
    obtain s batch where b: "ptrie_Scan (tx_writes tx) [] [] = Some s" "batch_loop s [] = Some batch"
        "list_all op_ok batch" "distinct (map opKey batch)" "opKey ` set batch = dom (ptrie_contents (tx_writes tx))"
        "\<And>m. apply_ops batch m = overlay_map m (ptrie_contents (tx_writes tx))"
      using commit_batch[OF wf] by metis
    have qe: "queue_ok ?mg (remove1 (TxEvent i) es) t"
      by (rule queue_ok_end[OF q(3) tx(1)]) (simp add: ended_def)
    obtain bs mg' where "memstore_WriteBatch (bstore ?mg) batch = Some (bs, None)"
        "trackBatch (?mg\<lparr>bstore := bs\<rparr>) batch = Some mg'" "mg_inv mg'" "txs mg' = txs ?mg"
        "memstore_contents (bstore mg') = apply_ops batch (memstore_contents (bstore ?mg))"
        "mg_seq mg' = (if remove1 (TxEvent i) es = [] then mg_seq ?mg else mg_seq ?mg + 1)" "txTable mg' \<noteq> None"
        "events mg' = Some (if remove1 (TxEvent i) es = [] then []
          else remove1 (TxEvent i) es @ [CommittedEvent (mg_seq ?mg + 1) (map opKey batch)])"
      using store_write_ok[OF inv1 _ _ qe _ b(3,4)] q(2) ne by force
    then have "tx_Commit mg i = Some (mg', None) \<and> mg_inv mg' \<and> txs mg' = (txs mg)(i \<mapsto> ended tx e) \<and>
      memstore_contents (bstore mg') = overlay_map (memstore_contents (bstore mg)) (ptrie_contents (tx_writes tx)) \<and>
      mg_seq mg' \<in> {mg_seq mg, mg_seq mg + 1} \<and> txTable mg' \<noteq> None \<and>
      set (map opKey batch) = dom (ptrie_contents (tx_writes tx)) \<and>
      events mg' = Some (if remove1 (TxEvent i) es = [] then []
          else remove1 (TxEvent i) es @ [CommittedEvent (mg_seq mg + 1) (map opKey batch)])"
      using commit val True b(1,2,5,6) by simp
    then show ?thesis unfolding if_P[OF True] by (intro exI[of _ mg']) blast
  next
    case False
    then have "tx_Commit mg i = Some (?mg, Some ErrConcurrentTransaction)" using commit val by simp
    then show ?thesis using False inv1 by simp
  qed
qed

end
