(* ===== verification/Tx_Steps.thy ===== *)
theory Tx_Steps
  imports Tx_Invariant
begin

text \<open>
  Garbage collection and closing keep the invariant too; the operations as a step relation,
  and what holds in every state that fewer than \<open>2 ^ 64\<close> steps reach from a fresh store (the
  sequence number is 64 bits wide and grows by at most one per step). On top of it, the
  theorems on committing: a commit that succeeds is serializable at its commit point, one that is
  refused changes nothing, and collecting garbage never changes a verdict.
\<close>

subsection \<open>Garbage collection\<close>

fun is_commit :: "event \<Rightarrow> bool" where
  "is_commit (CommittedEvent _ _) \<longleftrightarrow> True"
| "is_commit (TxEvent _) \<longleftrightarrow> False"

lemma gc_loop_ok:
  assumes "trie_inv t" "map_of (seqs t) = last_write es" "sorted_wrt (<) (commits es)" "list_all batch_distinct es"
  shows "\<exists>t' es'. gc_loop t es = Some (t', es') \<and> trie_inv t' \<and> map_of (seqs t') = last_write es' \<and>
    es' = dropWhile is_commit es"
  using assms
proof (induction t es rule: gc_loop.induct)
  case (3 t s ks es)
  have in_es: "s < s'" if "last_write es k = Some s'" for k s'
    using last_write_in_commits[OF that] "3.prems"(3) by simp
  have "\<exists>old. map_of (seqs t) k = Some old \<and> s \<le> old" if "k \<in> set ks" for k
    using that "3.prems"(2) in_es[of k] by (cases "last_write es k") (auto simp: less_imp_le)
  moreover have "distinct ks" using "3.prems"(4) by simp
  ultimately obtain t1 where t1: "iter_opt (\<lambda>t k. trie_remove t k s) t ks = Some t1" "trie_inv t1"
      "map_of (seqs t1) = (\<lambda>k. if k \<in> set ks \<and> map_of (seqs t) k = Some s then None else map_of (seqs t) k)"
    using tt.remove_all[OF "3.prems"(1), of ks s] by blast
  have "map_of (seqs t1) = last_write es"
  proof
    fix k
    show "map_of (seqs t1) k = last_write es k"
      unfolding t1(3) "3.prems"(2) using in_es[of k] by (cases "last_write es k") auto
  qed
  with 3 t1 show ?case by simp
qed simp_all

lemma dropWhile_commit_tx:
  "TxEvent i \<in> set (dropWhile is_commit es) \<longleftrightarrow> TxEvent i \<in> set es"
  "ev_after i (dropWhile is_commit es) = ev_after i es"
  "set (commits (ev_before i (dropWhile is_commit es))) \<subseteq> set (commits (ev_before i es))"
  "filter (\<lambda>e. \<exists>i. e = TxEvent i) (dropWhile is_commit es) = filter (\<lambda>e. \<exists>i. e = TxEvent i) es"
  by (induction es rule: commits.induct) (auto simp: ev_before_def ev_after_def)

lemma dropWhile_commit_commits:
  "sorted_wrt (<) (commits es) \<Longrightarrow> sorted_wrt (<) (commits (dropWhile is_commit es))"
  "set (commits (dropWhile is_commit es)) \<subseteq> set (commits es)"
  "list_all batch_distinct es \<Longrightarrow> list_all batch_distinct (dropWhile is_commit es)"
  by (induction es rule: commits.induct) auto

lemma queue_ok_gc:
  assumes "queue_ok mg es t" "trie_inv t'" "map_of (seqs t') = last_write (dropWhile is_commit es)"
  shows "queue_ok (mg\<lparr>txTable := x, events := y\<rparr>) (dropWhile is_commit es) t'"
proof -
  have "live_ok (bstore mg) (dropWhile is_commit es) i tx" if "live_ok (bstore mg) es i tx" for i tx
    using that dropWhile_commit_tx(1-3)[of i es] by (auto simp: live_ok_def subset_iff)
  then show ?thesis using assms dropWhile_commit_tx[where es = es] dropWhile_commit_commits[of es]
    by (auto simp: queue_ok_def)
qed

lemma gcTransactions_ok:
  assumes inv: "mg_inv mg" and q: "events mg = Some es" "txTable mg = Some t"
  shows "\<exists>t'. gcTransactions mg = Some (mg\<lparr>txTable := Some t', events := Some (dropWhile is_commit es)\<rparr>) \<and>
    map_of (seqs t') = last_write (dropWhile is_commit es) \<and>
    mg_inv (mg\<lparr>txTable := Some t', events := Some (dropWhile is_commit es)\<rparr>)"
proof -
  have qok: "queue_ok mg es t" using inv q by (simp add: mg_inv_def)
  then obtain t' where t': "gc_loop t es = Some (t', dropWhile is_commit es)" "trie_inv t'"
      "map_of (seqs t') = last_write (dropWhile is_commit es)"
    using gc_loop_ok[of t es] by (auto simp: queue_ok_def)
  have "mg_inv (mg\<lparr>txTable := Some t', events := Some (dropWhile is_commit es)\<rparr>)"
    using queue_ok_gc[OF qok t'(2,3)] mg_inv_store[OF inv] mg_inv_tx[OF inv] by (intro mg_inv_openI) auto
  then show ?thesis using t' q by (intro exI[of _ t']) (simp add: gcTransactions_def)
qed

subsection \<open>Closing\<close>

lemma memstore_Close_inv:
  "memstore_inv bs \<Longrightarrow> memstore_inv (fst (memstore_Close bs)) \<and> merr (fst (memstore_Close bs)) \<noteq> None"
  by (simp add: memstore_Close_def memstore_inv_def split: option.split)

lemma mg_Close_locked_ok:
  assumes inv: "mg_inv mg" and t: "events mg = Some es" "txTable mg \<noteq> None"
  shows "\<exists>mg'. mg_Close_locked mg = Inl (mg', es) \<and> mg_inv mg' \<and> txTable mg' = None \<and> events mg' = None \<and>
    mg_seq mg' = mg_seq mg \<and> mg' = mg\<lparr>bstore := fst (memstore_Close (bstore mg)), txs := abort_snapshots (txs mg),
      events := None, txTable := None\<rparr>"
proof -
  let ?mg = "mg\<lparr>bstore := fst (memstore_Close (bstore mg)), txs := abort_snapshots (txs mg), events := None, txTable := None\<rparr>"
  have "mg_inv ?mg"
    using memstore_Close_inv[OF mg_inv_store[OF inv]] mg_inv_tx[OF inv]
    by (auto simp: mg_inv_def abort_snapshots_def tx_wf_Abort)
  then show ?thesis using t by (auto simp: mg_Close_locked_def)
qed

text \<open>The aborts that follow: every transaction that was in the queue is ended.\<close>

lemma abort_events_ok:
  assumes "mg_inv mg" "txTable mg = None"
    and "\<And>i. TxEvent i \<in> set es \<Longrightarrow> txs mg i \<noteq> None"
  shows "\<exists>mg'. iter_opt abort_event mg es = Some mg' \<and> mg_inv mg' \<and> txTable mg' = None \<and>
    dom (txs mg') = dom (txs mg) \<and>
    (\<forall>i tx'. txs mg' i = Some tx' \<longrightarrow> (TxEvent i \<in> set es \<longrightarrow> tx_err tx' \<noteq> None) \<and>
       (\<forall>tx. txs mg i = Some tx \<longrightarrow> tx_err tx \<noteq> None \<longrightarrow> tx' = tx))"
  using assms
proof (induction es arbitrary: mg)
  case (Cons e es)
  show ?case
  proof (cases e)
    case (CommittedEvent s ks)
    then show ?thesis using Cons.IH[OF Cons.prems(1,2)] Cons.prems(3) by auto
  next
    case (TxEvent i)
    then obtain tx where tx: "txs mg i = Some tx" using Cons.prems(3)[of i] by auto
    obtain mg1 r where 1: "tx_Abort mg i = Some (mg1, r)" "mg_inv mg1" "txTable mg1 = None" "dom (txs mg1) = dom (txs mg)"
        "\<And>tx'. txs mg1 i = Some tx' \<Longrightarrow> tx_err tx' \<noteq> None" "\<And>j. j \<noteq> i \<Longrightarrow> txs mg1 j = txs mg j"
        "tx_err tx \<noteq> None \<longrightarrow> txs mg1 = txs mg"
    proof (cases "tx_err tx")
      case None
      have "insert i (dom (txs mg)) = dom (txs mg)" using tx by (intro insert_absorb) blast
      with tx_Abort_ok[OF Cons.prems(1) tx None] that Cons.prems(2) tx None show ?thesis
        by (auto simp: ended_def)
    next
      case (Some er)
      then have "tx_Abort mg i = Some (mg, Some er)" using tx by (simp add: tx_Abort_def)
      with that Some tx Cons.prems(1,2) show ?thesis by auto
    qed
    have ex: "\<And>j. TxEvent j \<in> set es \<Longrightarrow> txs mg1 j \<noteq> None" using Cons.prems(3) 1(4) by (fastforce simp: dom_def)
    from Cons.IH[OF 1(2,3) ex] obtain mg' where 2: "iter_opt abort_event mg1 es = Some mg'" "mg_inv mg'" "txTable mg' = None"
        "dom (txs mg') = dom (txs mg1)"
        "\<And>j tx'. txs mg' j = Some tx' \<Longrightarrow> (TxEvent j \<in> set es \<longrightarrow> tx_err tx' \<noteq> None) \<and>
           (\<forall>tx. txs mg1 j = Some tx \<longrightarrow> tx_err tx \<noteq> None \<longrightarrow> tx' = tx)"
      by blast
    have fin: "(TxEvent j \<in> set (e # es) \<longrightarrow> tx_err tx' \<noteq> None) \<and>
           (\<forall>tx. txs mg j = Some tx \<longrightarrow> tx_err tx \<noteq> None \<longrightarrow> tx' = tx)" if j: "txs mg' j = Some tx'" for j tx'
    proof (cases "j = i")
      case True
      from j 2(4) obtain tx1 where tx1: "txs mg1 j = Some tx1" by (auto simp: dom_def)
      then have "tx' = tx1" "tx_err tx1 \<noteq> None" using 2(5)[OF j] 1(5) True by auto
      then show ?thesis using tx1 1(7) tx True by auto
    next
      case False
      then show ?thesis using 2(5)[OF j] 1(6) TxEvent by auto
    qed
    show ?thesis using 1(1,4) 2(1-4) fin TxEvent by (intro exI[of _ mg']) simp
  qed
qed auto

subsection \<open>Steps\<close>

text \<open>
  One operation, with arguments the callers may use: keys shorter than \<open>2 ^ 29\<close> bytes, and no
  deletion of the empty key (see \<open>ptrie_Delete_panics_iff\<close>). \<^verbatim>\<open>Close\<close> is its locked part; the aborts
  that follow it are \<open>Abort\<close> steps, so that other operations may come in between. Every rule
  needs its operation to return; that it does is proved below.
\<close>

inductive mg_step :: "manager \<Rightarrow> manager \<Rightarrow> bool" where
  step_New: "NewTransaction mg = Some (mg', r) \<Longrightarrow> mg_step mg mg'"
| step_write: "op_ok w \<Longrightarrow> mg_write mg w = Some (mg', e) \<Longrightarrow> mg_step mg mg'"
| step_gc: "gcTransactions mg = Some mg' \<Longrightarrow> mg_step mg mg'"
| step_Get: "key_ok key \<Longrightarrow> tx_Get mg i key buf = Some (mg', r, e) \<Longrightarrow> mg_step mg mg'"
| step_Scan: "key_ok start \<Longrightarrow> tx_Scan mg i start lim = Some (mg', st) \<Longrightarrow> mg_step mg mg'"
| step_tx_write: "key_ok key \<Longrightarrow> key = [] \<longrightarrow> w \<noteq> IsDeleted \<Longrightarrow> tx_write mg i key w = Some (mg', e) \<Longrightarrow> mg_step mg mg'"
| step_Commit: "tx_Commit mg i = Some (mg', e) \<Longrightarrow> mg_step mg mg'"
| step_Abort: "tx_Abort mg i = Some (mg', e) \<Longrightarrow> mg_step mg mg'"
| step_Close: "mg_Close_locked mg = Inl (mg', es) \<Longrightarrow> mg_step mg mg'"

inductive mg_reach :: "nat \<Rightarrow> manager \<Rightarrow> bool" where
  reach_init: "mg_reach 0 (Wrap memstore_New)"
| reach_step: "mg_reach n mg \<Longrightarrow> mg_step mg mg' \<Longrightarrow> mg_reach (Suc n) mg'"

inductive_cases mg_stepE: "mg_step mg mg'"

text \<open>On an ended transaction, or on a closed store, operations change at most the transaction object.\<close>

lemma tx_ended:
  assumes "txs mg i = Some tx" "tx_err tx = Some e"
  shows "tx_Get mg i key buf = Some (mg, buf, Some e)" "tx_Scan mg i start lim = Some (mg, InvalidTxStream e)"
    "tx_write mg i key w = Some (mg, Some e)" "tx_Commit mg i = Some (mg, Some e)" "tx_Abort mg i = Some (mg, Some e)"
  using assms by (simp_all add: tx_Get_def tx_Scan_def tx_write_def tx_Commit_def tx_Abort_def)

lemma tx_closed_commit:
  assumes inv: "mg_inv mg" "txTable mg = None" and tx: "txs mg i = Some tx" "tx_err tx = None"
  shows "\<exists>tx'. tx_Commit mg i = Some (upd_tx mg i tx', Some errClosedStore) \<and> tx_err tx' \<noteq> None \<and> mg_inv (upd_tx mg i tx')"
proof -
  let ?tx = "tx\<lparr>tx_err := Some (ErrBadState ErrMsgCommittedTxn), tx_snapshot := fst (Snapshot_Abort (tx_snapshot tx))\<rparr>"
  have "tx_wf ?tx" using mg_inv_tx[OF inv(1) tx(1)] tx_wf_Abort(2)[of tx] by (simp add: tx_wf_def)
  then have "mg_inv (upd_tx mg i ?tx)"
    using inv tx by (auto simp: mg_inv_def upd_tx_def split: option.splits)
  then show ?thesis using inv(2) tx by (intro exI[of _ ?tx]) (simp add: tx_Commit_def)
qed

lemma tx_Get_upd:
  assumes "tx_Get mg i key buf = Some (mg', r, e)" "txs mg i = Some tx" "tx_err tx = None"
  shows "mg' = upd_tx mg i (tx\<lparr>readKeys := readKeys tx @ [key]\<rparr>)"
proof (cases "ptrie_Get (tx_writes tx) key")
  case None
  then show ?thesis using assms by (simp add: tx_Get_def Let_def)
next
  case (Some v)
  show ?thesis
  proof (cases v)
    case None
    then show ?thesis using assms Some by (auto simp: tx_Get_def Let_def bind_eq_Some_conv)
  next
    case (Some w)
    then show ?thesis using assms \<open>ptrie_Get _ _ = Some v\<close> by (cases w) (simp_all add: tx_Get_def Let_def)
  qed
qed

lemma tx_Scan_upd:
  assumes "tx_Scan mg i start lim = Some (mg', st)" "txs mg i = Some tx" "tx_err tx = None"
  shows "mg' = upd_tx mg i (tx\<lparr>readRanges := readRanges tx @ [(start, lim)]\<rparr>)"
  using assms by (auto simp: tx_Scan_def bind_eq_Some_conv)

lemma mg_step_Commit:
  assumes inv: "mg_inv mg" and ne: "mg_seq mg \<noteq> - 1" and c: "tx_Commit mg i = Some (mg', e)"
  shows "mg_inv mg' \<and> mg_seq mg' \<in> {mg_seq mg, mg_seq mg + 1}"
proof -
  obtain tx where tx: "txs mg i = Some tx" using c by (auto simp: tx_Commit_def bind_eq_Some_conv)
  show ?thesis
  proof (cases "tx_err tx")
    case (Some er)
    then show ?thesis using tx_ended(4)[OF tx Some] c inv by simp
  next
    case None
    from inv show ?thesis
    proof (cases rule: mg_inv_cases)
      case (opened es t)
      from tx_Commit_ok[OF inv opened(1-3) tx None ne] c show ?thesis by (auto split: if_splits)
    next
      case closed
      from tx_closed_commit[OF inv closed(2) tx None] c show ?thesis by (auto simp: upd_tx_def)
    qed
  qed
qed

lemma mg_step_Abort:
  assumes inv: "mg_inv mg" and c: "tx_Abort mg i = Some (mg', e)"
  shows "mg_inv mg' \<and> mg_seq mg' = mg_seq mg"
proof -
  obtain tx where tx: "txs mg i = Some tx" using c by (auto simp: tx_Abort_def bind_eq_Some_conv)
  show ?thesis
  proof (cases "tx_err tx")
    case (Some er)
    then show ?thesis using tx_ended(5)[OF tx Some] c inv by simp
  next
    case None
    from tx_Abort_ok[OF inv tx None] c show ?thesis by auto
  qed
qed

lemma mg_step_upd:
  assumes inv: "mg_inv mg" and tx: "txs mg i = Some tx" "tx_err tx = None"
  shows "mg_inv (upd_tx mg i (tx\<lparr>readKeys := ks\<rparr>))" "mg_inv (upd_tx mg i (tx\<lparr>readRanges := rs\<rparr>))"
    "mg_seq (upd_tx mg i tx') = mg_seq mg"
  using mg_inv_tx[OF inv tx(1)] tx
  by (auto intro!: mg_inv_upd_live[OF inv tx] simp: tx_wf_def) (simp add: upd_tx_def)

theorem mg_step_inv:
  assumes "mg_step mg mg'" "mg_inv mg" "mg_seq mg \<noteq> - 1"
  shows "mg_inv mg' \<and> mg_seq mg' \<in> {mg_seq mg, mg_seq mg + 1}"
  using assms
proof (cases rule: mg_step.cases)
  case (step_New r)
  show ?thesis
  proof (cases "txTable mg")
    case None
    then show ?thesis using step_New assms(2) by (simp add: NewTransaction_def)
  next
    case (Some t)
    then show ?thesis using NewTransaction_ok[OF assms(2)] step_New by auto
  qed
next
  case (step_write w e)
  show ?thesis
  proof (cases "txTable mg")
    case None
    then show ?thesis using step_write assms(2) by (simp add: mg_write_def)
  next
    case (Some t)
    then show ?thesis using mg_write_ok[OF assms(2) _ assms(3) step_write(1)] step_write(2) by auto
  qed
next
  case step_gc
  from assms(2) show ?thesis
  proof (cases rule: mg_inv_cases)
    case (opened es t)
    then show ?thesis using gcTransactions_ok[OF assms(2) opened(1,2)] step_gc by auto
  next
    case closed
    then show ?thesis using step_gc assms(2) by (simp add: gcTransactions_def)
  qed
next
  case (step_Get key i buf r e)
  then obtain tx where tx: "txs mg i = Some tx" by (auto simp: tx_Get_def bind_eq_Some_conv)
  show ?thesis
  proof (cases "tx_err tx")
    case None
    from tx_Get_upd[OF step_Get(2) tx None] mg_step_upd[OF assms(2) tx None] show ?thesis by simp
  qed (use step_Get assms(2) tx_ended(1)[OF tx] in simp)
next
  case (step_Scan start i lim st)
  then obtain tx where tx: "txs mg i = Some tx" by (auto simp: tx_Scan_def bind_eq_Some_conv)
  show ?thesis
  proof (cases "tx_err tx")
    case None
    from tx_Scan_upd[OF step_Scan(2) tx None] mg_step_upd[OF assms(2) tx None] show ?thesis by simp
  qed (use step_Scan assms(2) tx_ended(2)[OF tx] in simp)
next
  case (step_tx_write key w i e)
  then obtain tx where tx: "txs mg i = Some tx" by (auto simp: tx_write_def bind_eq_Some_conv)
  show ?thesis
  proof (cases "tx_err tx")
    case None
    from tx_write_ok[OF assms(2) tx None step_tx_write(1,2)] step_tx_write(3)
      mg_step_upd(3)[OF assms(2) tx None] show ?thesis by auto
  qed (use step_tx_write assms(2) tx_ended(3)[OF tx] in simp)
next
  case (step_Commit i e)
  then show ?thesis using mg_step_Commit[OF assms(2,3)] by blast
next
  case (step_Abort i e)
  then show ?thesis using mg_step_Abort[OF assms(2)] by simp
next
  case (step_Close es)
  from assms(2) show ?thesis
  proof (cases rule: mg_inv_cases)
    case (opened es' t)
    then show ?thesis using mg_Close_locked_ok[OF assms(2) opened(1)] step_Close by auto
  next
    case closed
    then show ?thesis using step_Close by (simp add: mg_Close_locked_def)
  qed
qed

lemma mg_reach_inv:
  assumes "mg_reach n mg" "n < 2 ^ 64"
  shows "mg_inv mg \<and> unat (mg_seq mg) \<le> n"
  using assms
proof (induction rule: mg_reach.induct)
  case reach_init
  show ?case using mg_inv_Wrap by (simp add: Wrap_def)
next
  case (reach_step n mg mg')
  then have ih: "mg_inv mg" "unat (mg_seq mg) \<le> n" by simp_all
  have ne: "mg_seq mg \<noteq> - 1"
  proof
    assume "mg_seq mg = - 1"
    with ih(2) reach_step.prems show False by (simp add: unsigned_minus_1_eq_mask mask_eq_exp_minus_1)
  qed
  from mg_step_inv[OF reach_step.hyps(2) ih(1) ne] ih(2) word_inc_unat[OF ne] show ?case by auto
qed

lemma reach_open:
  assumes "mg_reach n mg" "n < 2 ^ 64 - 1"
  shows "mg_inv mg" "mg_seq mg \<noteq> - 1"
proof -
  have r: "mg_inv mg" "unat (mg_seq mg) \<le> n" using mg_reach_inv[OF assms(1)] assms(2) by simp_all
  show "mg_inv mg" by (fact r(1))
  show "mg_seq mg \<noteq> - 1"
  proof
    assume "mg_seq mg = - 1"
    with r(2) assms(2) show False by (simp add: unsigned_minus_1_eq_mask mask_eq_exp_minus_1)
  qed
qed

lemma commit_success_open:
  assumes inv: "mg_inv mg" and tx: "txs mg i = Some tx" "tx_err tx = None" and c: "tx_Commit mg i = Some (mg', None)"
  obtains es t where "events mg = Some es" "txTable mg = Some t" "queue_ok mg es t"
  using inv
proof (cases rule: mg_inv_cases)
  case (opened es t)
  then show ?thesis using that by blast
next
  case closed
  from tx_closed_commit[OF inv closed(2) tx] c show ?thesis by auto
qed


subsection \<open>A concrete run\<close>

text \<open>Two transactions are begun on a fresh store; the first puts \<open>[5]\<close> under the key \<open>[1]\<close>, which the second
  then reads.\<close>

lemma demo_run:
  obtains mg t0 t1 where "mg_reach 4 mg" "txTable mg \<noteq> None" "txs mg 0 = Some t0" "tx_err t0 = None"
    "txs mg 1 = Some t1" "tx_err t1 = None" "ptrie_contents (tx_writes t0) = [[1] \<mapsto> PutBytes [5]]"
    "tx_base t0 = Map.empty" "read_cover t0 = {}" "read_cover t1 = {[1]}"
proof -
  let ?w = "Wrap memstore_New"
  have o: "txTable ?w \<noteq> None" "nextTx ?w = 0" "txs ?w = Map.empty" "memstore_contents (bstore ?w) = Map.empty"
    using memstore_inv_New(2) by (simp_all add: Wrap_def)
  obtain m1 t0 where 1: "NewTransaction ?w = Some (m1, TxRef 0)" "mg_inv m1" "txTable m1 \<noteq> None" "txs m1 = [0 \<mapsto> t0]"
      "tx_err t0 = None" "tx_base t0 = Map.empty" "ptrie_contents (tx_writes t0) = Map.empty" "readKeys t0 = []" "readRanges t0 = []"
    using NewTransaction_ok[OF mg_inv_Wrap o(1)] o by auto
  have n1: "nextTx m1 = 1" using 1(1) by (auto simp: NewTransaction_def newTransaction_def Wrap_def Let_def bind_eq_Some_conv)
  obtain m2 t1 where 2: "NewTransaction m1 = Some (m2, TxRef 1)" "mg_inv m2" "txTable m2 \<noteq> None" "txs m2 = [0 \<mapsto> t0, 1 \<mapsto> t1]"
      "tx_err t1 = None" "readKeys t1 = []" "readRanges t1 = []"
    using NewTransaction_ok[OF 1(2,3)] n1 1(4) by auto
  have t0: "txs m2 0 = Some t0" using 2(4) by simp
  obtain ws where 3: "tx_write m2 0 [1] (PutBytes [5]) = Some (upd_tx m2 0 (t0\<lparr>tx_writes := ws\<rparr>), None)"
      "ptrie_contents ws = [[1] \<mapsto> PutBytes [5]]" "mg_inv (upd_tx m2 0 (t0\<lparr>tx_writes := ws\<rparr>))"
    using tx_write_ok[OF 2(2) t0 1(5), of "[1]" "PutBytes [5]"] 1(7) by auto
  let ?m3 = "upd_tx m2 0 (t0\<lparr>tx_writes := ws\<rparr>)"
  have t1: "txs ?m3 1 = Some t1" "txTable ?m3 \<noteq> None" using 2(3,4) by (simp_all add: upd_tx_def)
  obtain r e where 4: "tx_Get ?m3 1 [1] [] = Some (upd_tx ?m3 1 (t1\<lparr>readKeys := [[1]]\<rparr>), r, e)"
    using tx_Get_ok[OF 3(3) t1(1) 2(5) t1(2), of "[1]" "[]"] 2(6) by auto
  let ?m4 = "upd_tx ?m3 1 (t1\<lparr>readKeys := [[1]]\<rparr>)"
  have "mg_reach (Suc 0) m1" using reach_step[OF reach_init step_New[OF 1(1)]] .
  from reach_step[OF this step_New[OF 2(1)]] have "mg_reach (Suc (Suc 0)) m2" .
  from reach_step[OF this step_tx_write[OF _ _ 3(1)]] have "mg_reach (Suc (Suc (Suc 0))) ?m3" by simp
  from reach_step[OF this step_Get[OF _ 4]] have r4: "mg_reach (Suc (Suc (Suc (Suc 0)))) ?m4" by simp
  have "Suc (Suc (Suc (Suc 0))) = 4" by simp
  then have "mg_reach 4 ?m4" using r4 by (simp only:)
  moreover have "txTable ?m4 \<noteq> None" "txs ?m4 0 = Some (t0\<lparr>tx_writes := ws\<rparr>)" "txs ?m4 1 = Some (t1\<lparr>readKeys := [[1]]\<rparr>)"
    using 2(3) by (simp_all add: upd_tx_def)
  moreover have "tx_base (t0\<lparr>tx_writes := ws\<rparr>) = Map.empty" using 1(6) by (simp add: tx_base_def)
  moreover have "read_cover (t0\<lparr>tx_writes := ws\<rparr>) = {}" "read_cover (t1\<lparr>readKeys := [[1]]\<rparr>) = {[1]}"
    using 1(8,9) 2(7) by (simp_all add: read_cover_def)
  ultimately show ?thesis using 1(5) 2(5) 3(2) that by simp
qed

lemma demo_commit:
  obtains mg t0 t1 mg1 where "mg_reach 4 mg" "txTable mg \<noteq> None" "txs mg 0 = Some t0" "tx_err t0 = None"
    "txs mg 1 = Some t1" "tx_err t1 = None" "ptrie_contents (tx_writes t0) = [[1] \<mapsto> PutBytes [5]]" "read_cover t1 = {[1]}"
    "tx_Commit mg 0 = Some (mg1, None)"
proof -
  obtain mg t0 t1 where d: "mg_reach 4 mg" "txTable mg \<noteq> None" "txs mg 0 = Some t0" "tx_err t0 = None"
    "txs mg 1 = Some t1" "tx_err t1 = None" "ptrie_contents (tx_writes t0) = [[1] \<mapsto> PutBytes [5]]"
    "read_cover t0 = {}" "read_cover t1 = {[1]}"
    by (rule demo_run)
  note inv = reach_open[OF d(1)]
  obtain es t where q: "events mg = Some es" "txTable mg = Some t" "queue_ok mg es t"
    using inv(1) d(2) by (auto simp: mg_inv_def split: option.splits)
  obtain mg1 where "tx_Commit mg 0 = Some (mg1, None)"
    using tx_Commit_ok[OF _ q d(3,4)] inv d(8) by auto
  with that d show ?thesis by blast
qed

subsection \<open>Properties\<close>



text \<open>C1: serializability at the commit point. If a transaction of a reachable state commits, then every key
  it read, directly or through a scanned range (absent keys included), had at that moment the same
  value in the store as in its snapshot, so each of its reads would have answered the same there;
  and the store afterwards is the store before with exactly its writes applied.\<close>

theorem commit_serializable:
  assumes "mg_reach n mg" "n < 2 ^ 64 - 1" "txs mg i = Some tx" "tx_err tx = None" "tx_Commit mg i = Some (mg', None)"
  shows "(\<forall>k \<in> read_cover tx. tx_base tx k = memstore_contents (bstore mg) k \<and>
       tx_view tx k = memstore_contents (bstore mg') k) \<and>
    memstore_contents (bstore mg') = overlay_map (memstore_contents (bstore mg)) (ptrie_contents (tx_writes tx))"
proof -
  note inv = reach_open[OF assms(1,2)]
  obtain es t where q: "events mg = Some es" "txTable mg = Some t" "queue_ok mg es t"
    using commit_success_open[OF inv(1) assms(3-5)] .
  have live: "live_ok (bstore mg) es i tx" using q(3) assms(3,4) by (simp add: queue_ok_def)
  have r: "read_cover tx \<inter> written (ev_after i es) = {}"
    "memstore_contents (bstore mg') = overlay_map (memstore_contents (bstore mg)) (ptrie_contents (tx_writes tx))"
    using tx_Commit_ok[OF inv(1) q assms(3,4) inv(2)] assms(5) by (auto split: if_splits)
  have "tx_base tx k = memstore_contents (bstore mg) k" if "k \<in> read_cover tx" for k
    using that r(1) live by (auto simp: live_ok_def)
  then show ?thesis using r(2) by (auto simp: tx_view_def overlay_map_def split: option.split wval.split)
qed

lemma commit_serializable_witness:
  "\<exists>mg mg'. mg_reach 4 mg \<and> tx_Commit mg 0 = Some (mg', None) \<and> memstore_contents (bstore mg') [1] = Some [5]"
proof -
  obtain mg t0 t1 mg1 where d: "mg_reach 4 mg" "txs mg 0 = Some t0" "tx_err t0 = None"
      "ptrie_contents (tx_writes t0) = [[1] \<mapsto> PutBytes [5]]" "tx_Commit mg 0 = Some (mg1, None)"
    by (rule demo_commit)
  from commit_serializable[OF d(1) _ d(2,3,5)] have "memstore_contents (bstore mg1) [1] = Some [5]"
    by (simp add: d(4) overlay_map_def)
  with d(1,5) show ?thesis by blast
qed

text \<open>C22: on an open store \<^verbatim>\<open>Commit\<close> of a live transaction is refused, with \<^verbatim>\<open>ErrConcurrentTransaction\<close> and the
  store unchanged, exactly when some key that it read was written by a commit (or a direct write) that
  came after its start; there are no other refusals.\<close>

theorem commit_refused_iff:
  assumes "mg_reach n mg" "n < 2 ^ 64 - 1" "events mg = Some es" "txs mg i = Some tx" "tx_err tx = None"
  shows "\<exists>mg' e. tx_Commit mg i = Some (mg', e) \<and>
    (if read_cover tx \<inter> written (ev_after i es) = {} then e = None
     else e = Some ErrConcurrentTransaction \<and> bstore mg' = bstore mg)"
proof -
  note inv = reach_open[OF assms(1,2)]
  from inv(1) obtain t where "txTable mg = Some t" "queue_ok mg es t"
    using assms(3) by (auto simp: mg_inv_def split: option.splits)
  from tx_Commit_ok[OF inv(1) assms(3) this assms(4,5) inv(2)] show ?thesis by (auto split: if_splits)
qed

lemma commit_refused_iff_witness:
  "\<exists>mg mg'. mg_reach 4 mg \<and> tx_Commit mg 0 = Some (mg', None)"
proof -
  obtain mg t0 t1 where d: "mg_reach 4 mg" "txTable mg \<noteq> None" "txs mg 0 = Some t0" "tx_err t0 = None" "read_cover t0 = {}"
    by (rule demo_run)
  then obtain es where "events mg = Some es"
    using reach_open(1)[OF d(1)] by (auto simp: mg_inv_def split: option.splits)
  from commit_refused_iff[OF d(1) _ this d(3,4)] d(1,5) show ?thesis by auto
qed

text \<open>C2: no lost update. When two live transactions overlap and the first to commit wrote a key the other
  read, the other is refused.\<close>

theorem first_committer_wins:
  assumes "mg_reach n mg" "n < 2 ^ 64 - 2" "i \<noteq> j"
    and "txs mg i = Some ti" "tx_err ti = None" "txs mg j = Some tj" "tx_err tj = None"
    and "tx_Commit mg i = Some (mg1, None)"
    and "k \<in> dom (ptrie_contents (tx_writes ti))" "k \<in> read_cover tj"
  shows "\<exists>mg2. tx_Commit mg1 j = Some (mg2, Some ErrConcurrentTransaction) \<and> bstore mg2 = bstore mg1"
proof -
  have n: "n < 2 ^ 64 - 1" using assms(2) by simp
  note inv = reach_open[OF assms(1) n]
  obtain es t where q: "events mg = Some es" "txTable mg = Some t" "queue_ok mg es t"
    using commit_success_open[OF inv(1) assms(4,5,8)] .
  let ?es = "remove1 (TxEvent i) es"
  have "TxEvent j \<in> set es" using q(3) assms(6,7) by (simp add: queue_ok_def live_ok_def)
  then have jin: "TxEvent j \<in> set ?es" using assms(3) by simp
  then have ne: "?es \<noteq> []" by (metis empty_iff list.set(1))
  obtain ks where ks: "set ks = dom (ptrie_contents (tx_writes ti))"
      "events mg1 = Some (?es @ [CommittedEvent (mg_seq mg + 1) ks])" "txs mg1 j = Some tj"
    using tx_Commit_ok[OF inv(1) q assms(4,5) inv(2)] assms(3,6,8) ne by (auto split: if_splits)
  have "k \<in> written (ev_after j (?es @ [CommittedEvent (mg_seq mg + 1) ks]))"
    using before_after_snoc[OF jin] ks(1) assms(9) by simp
  then have "read_cover tj \<inter> written (ev_after j (?es @ [CommittedEvent (mg_seq mg + 1) ks])) \<noteq> {}" using assms(10) by blast
  moreover have r1: "mg_reach (Suc n) mg1" using reach_step[OF assms(1) step_Commit[OF assms(8)]] .
  moreover have "mg_inv mg1" "mg_seq mg1 \<noteq> - 1" using reach_open[OF r1] assms(2) by simp_all
  moreover obtain t1 where "txTable mg1 = Some t1" "queue_ok mg1 (?es @ [CommittedEvent (mg_seq mg + 1) ks]) t1"
    using \<open>mg_inv mg1\<close> ks(2) by (auto simp: mg_inv_def split: option.splits)
  ultimately show ?thesis using tx_Commit_ok[of mg1 "?es @ [CommittedEvent (mg_seq mg + 1) ks]" t1 j tj] ks(2,3) assms(7)
    by auto
qed

lemma first_committer_wins_witness:
  "\<exists>mg mg1 mg2. mg_reach 4 mg \<and> tx_Commit mg 0 = Some (mg1, None) \<and>
     tx_Commit mg1 1 = Some (mg2, Some ErrConcurrentTransaction)"
proof -
  obtain mg t0 t1 mg1 where d: "mg_reach 4 mg" "txTable mg \<noteq> None" "txs mg 0 = Some t0" "tx_err t0 = None"
      "txs mg 1 = Some t1" "tx_err t1 = None" "ptrie_contents (tx_writes t0) = [[1] \<mapsto> PutBytes [5]]" "read_cover t1 = {[1]}"
      "tx_Commit mg 0 = Some (mg1, None)"
    by (rule demo_commit)
  from first_committer_wins[OF d(1) _ _ d(3-6,9), of "[1]"] d(7,8) have "\<exists>mg2. tx_Commit mg1 1 = Some (mg2, Some ErrConcurrentTransaction)"
    by auto
  with d(1,9) show ?thesis by blast
qed

text \<open>C21: collecting garbage is invisible. It changes no stored value and no transaction, and the commit of any
  transaction gives the same verdict and the same store after it as before it.\<close>

theorem gc_transparent:
  assumes "mg_reach n mg" "n < 2 ^ 64 - 1" "gcTransactions mg = Some mg'"
  shows "bstore mg' = bstore mg \<and> txs mg' = txs mg \<and>
    map_option snd (tx_Commit mg' i) = map_option snd (tx_Commit mg i) \<and>
    map_option (memstore_contents \<circ> bstore \<circ> fst) (tx_Commit mg' i) =
      map_option (memstore_contents \<circ> bstore \<circ> fst) (tx_Commit mg i)"
proof -
  note inv = reach_open[OF assms(1,2)]
  from inv(1) show ?thesis
  proof (cases rule: mg_inv_cases)
    case (opened es t)
    from gcTransactions_ok[OF inv(1) opened(1,2)] assms(3)
    obtain t' where mg': "mg' = mg\<lparr>txTable := Some t', events := Some (dropWhile is_commit es)\<rparr>" "mg_inv mg'"
      by auto
    then have q': "events mg' = Some (dropWhile is_commit es)" "txTable mg' = Some t'" "queue_ok mg' (dropWhile is_commit es) t'"
        "bstore mg' = bstore mg" "txs mg' = txs mg" "mg_seq mg' \<noteq> - 1"
      using inv(2) by (simp_all add: mg_inv_def)
    show ?thesis
    proof (cases "txs mg i")
      case None
      then show ?thesis using q' by (simp add: tx_Commit_def)
    next
      case (Some tx)
      show ?thesis
      proof (cases "tx_err tx")
        case None
        have tx': "txs mg' i = Some tx" using q'(5) Some by simp
        note c = tx_Commit_ok[OF inv(1) opened(1-3) Some None inv(2)]
        note c' = tx_Commit_ok[OF mg'(2) q'(1-3) tx' None q'(6), unfolded dropWhile_commit_tx(2)]
        show ?thesis
        proof (cases "read_cover tx \<inter> written (ev_after i es) = {}")
          case True
          from c[unfolded if_P[OF True]] c'[unfolded if_P[OF True]] q'(4,5) show ?thesis by fastforce
        next
          case False
          from c[unfolded if_not_P[OF False]] c'[unfolded if_not_P[OF False]] q'(4,5) show ?thesis by fastforce
        qed
      next
        case (Some e)
        then show ?thesis using q'(4,5) \<open>txs mg i = Some tx\<close> tx_ended(4)[of mg i tx e] tx_ended(4)[of mg' i tx e] by simp
      qed
    qed
  next
    case closed
    then show ?thesis using assms(3) by (simp add: gcTransactions_def)
  qed
qed

lemma gc_transparent_witness:
  "\<exists>mg mg'. mg_reach 4 mg \<and> gcTransactions mg = Some mg' \<and> bstore mg' = bstore mg \<and>
     map_option snd (tx_Commit mg' 0) = Some None"
proof -
  obtain mg t0 t1 mg1 where d: "mg_reach 4 mg" "txTable mg \<noteq> None" "tx_Commit mg 0 = Some (mg1, None)"
    by (rule demo_commit)
  have inv: "mg_inv mg" using reach_open(1)[OF d(1)] by simp
  then obtain mg' where g: "gcTransactions mg = Some mg'"
    using d(2) gcTransactions_ok[OF inv] by (auto simp: mg_inv_def split: option.splits)
  from gc_transparent[OF d(1) _ g, of 0] d g show ?thesis by auto
qed



text \<open>a transaction reads its own writes: \<^verbatim>\<open>Get\<close> of a live transaction on an open store answers from its
  snapshot overlaid with its writes, and records the key in the read set; the store and the other
  transactions stay as they are.\<close>

theorem tx_Get_reads_view:
  assumes "mg_reach n mg" "n < 2 ^ 64 - 1" "txTable mg \<noteq> None" "txs mg i = Some tx" "tx_err tx = None" "key_ok key"
  shows "\<exists>mg'. tx_Get mg i key valbuf =
      Some (mg', case tx_view tx key of None \<Rightarrow> (valbuf, Some (ErrUnknownKey key)) | Some v \<Rightarrow> (v, None)) \<and>
    bstore mg' = bstore mg \<and> txs mg' = (txs mg)(i \<mapsto> tx\<lparr>readKeys := readKeys tx @ [key]\<rparr>) \<and> mg_inv mg'"
  using tx_Get_ok[OF reach_open(1)[OF assms(1,2)] assms(4,5,3,6), of valbuf]
  by (auto simp: read_result_def upd_tx_def)

lemma tx_Get_reads_view_witness:
  "\<exists>mg mg'. mg_reach 4 mg \<and> tx_Get mg 0 [1] [] = Some (mg', [5], None)"
proof -
  obtain mg t0 t1 where d: "mg_reach 4 mg" "txTable mg \<noteq> None" "txs mg 0 = Some t0" "tx_err t0 = None"
      "ptrie_contents (tx_writes t0) = [[1] \<mapsto> PutBytes [5]]"
    by (rule demo_run)
  then have "tx_view t0 [1] = Some [5]" by (simp add: tx_view_def overlay_map_def)
  with tx_Get_reads_view[OF d(1) _ d(2-4), of "[1]" "[]"] d(1) show ?thesis by auto
qed

text \<open>\<^verbatim>\<open>Put\<close> and \<^verbatim>\<open>Delete\<close> of a live transaction change its view at that key only, and nothing else: they
  are invisible to the store and to every other transaction until the commit.\<close>

theorem tx_write_local:
  assumes "mg_reach n mg" "n < 2 ^ 64 - 1" "txs mg i = Some tx" "tx_err tx = None" "key_ok key"
    and "key \<noteq> [] \<or> w \<noteq> IsDeleted"
  shows "\<exists>mg' tx'. tx_write mg i key w = Some (mg', None) \<and> bstore mg' = bstore mg \<and> mg_inv mg' \<and>
    txs mg' = (txs mg)(i \<mapsto> tx') \<and> readKeys tx' = readKeys tx \<and> readRanges tx' = readRanges tx \<and>
    tx_view tx' = (tx_view tx)(key := (case w of IsDeleted \<Rightarrow> None | PutBytes v \<Rightarrow> Some v))"
proof -
  obtain ws where ws: "tx_write mg i key w = Some (upd_tx mg i (tx\<lparr>tx_writes := ws\<rparr>), None)"
      "ptrie_contents ws = (ptrie_contents (tx_writes tx))(key \<mapsto> w)" "mg_inv (upd_tx mg i (tx\<lparr>tx_writes := ws\<rparr>))"
    using tx_write_ok[OF reach_open(1)[OF assms(1,2)] assms(3-5), of w] assms(6) by blast
  have "tx_view (tx\<lparr>tx_writes := ws\<rparr>) = (tx_view tx)(key := (case w of IsDeleted \<Rightarrow> None | PutBytes v \<Rightarrow> Some v))"
    by (simp add: tx_view_def ws(2) overlay_map_upd tx_base_def)
  then show ?thesis using ws(1,3)
    by (intro exI[of _ "upd_tx mg i (tx\<lparr>tx_writes := ws\<rparr>)"] exI[of _ "tx\<lparr>tx_writes := ws\<rparr>"]) (simp add: upd_tx_def)
qed

lemma tx_write_local_witness:
  "\<exists>mg mg' tx'. mg_reach 4 mg \<and> tx_write mg 0 [1] IsDeleted = Some (mg', None) \<and> txs mg' 0 = Some tx' \<and> tx_view tx' [1] = None"
proof -
  obtain mg t0 t1 where d: "mg_reach 4 mg" "txs mg 0 = Some t0" "tx_err t0 = None"
    by (rule demo_run)
  from tx_write_local[OF d(1) _ d(2,3), of "[1]" IsDeleted] d(1) show ?thesis by force
qed

text \<open>a committed or aborted transaction is inert: \<^verbatim>\<open>Get\<close>, \<^verbatim>\<open>Scan\<close>, \<^verbatim>\<open>Put\<close>, \<^verbatim>\<open>Delete\<close>, \<^verbatim>\<open>Commit\<close> and \<^verbatim>\<open>Abort\<close> return
  the error it was ended with and change nothing; in particular no transaction commits twice.\<close>

theorem ended_tx_inert:
  assumes "txs mg i = Some tx" "tx_err tx = None" "tx_Commit mg i = Some (mg', e) \<or> tx_Abort mg i = Some (mg', e)" "mg_reach n mg" "n < 2 ^ 64 - 1"
  shows "\<exists>er. tx_Get mg' i key buf = Some (mg', buf, Some er) \<and> tx_Scan mg' i start lim = Some (mg', InvalidTxStream er) \<and>
    tx_Put mg' i key v = Some (mg', Some er) \<and> tx_Delete mg' i key = Some (mg', Some er) \<and>
    tx_Commit mg' i = Some (mg', Some er) \<and> tx_Abort mg' i = Some (mg', Some er) \<and>
    er \<in> {ErrBadState ErrMsgCommittedTxn, ErrCanceled ErrMsgAbortedTxn}"
proof -
  note inv = reach_open[OF assms(4,5)]
  have "\<exists>tx' er. txs mg' i = Some tx' \<and> tx_err tx' = Some er \<and> er \<in> {ErrBadState ErrMsgCommittedTxn, ErrCanceled ErrMsgAbortedTxn}"
    using assms(3)
  proof
    assume c: "tx_Commit mg i = Some (mg', e)"
    from inv(1) show ?thesis
    proof (cases rule: mg_inv_cases)
      case (opened es t)
      from tx_Commit_ok[OF inv(1) opened(1-3) assms(1,2) inv(2)] c show ?thesis
        by (auto simp: ended_def split: if_splits)
    next
      case closed
      then show ?thesis using c assms(1,2) by (auto simp: tx_Commit_def upd_tx_def)
    qed
  next
    assume "tx_Abort mg i = Some (mg', e)"
    with tx_Abort_ok[OF inv(1) assms(1,2)] show ?thesis by (auto simp: ended_def)
  qed
  then obtain tx' er where e: "txs mg' i = Some tx'" "tx_err tx' = Some er"
      "er \<in> {ErrBadState ErrMsgCommittedTxn, ErrCanceled ErrMsgAbortedTxn}" by blast
  then show ?thesis by (intro exI[of _ er]) (simp add: tx_ended[OF e(1,2)] tx_Put_def tx_Delete_def)
qed

lemma ended_tx_inert_witness:
  "\<exists>mg mg1 er. mg_reach 4 mg \<and> tx_Commit mg 0 = Some (mg1, None) \<and> tx_Commit mg1 0 = Some (mg1, Some er)"
proof -
  obtain mg t0 t1 mg1 where d: "mg_reach 4 mg" "txs mg 0 = Some t0" "tx_err t0 = None" "tx_Commit mg 0 = Some (mg1, None)"
    by (rule demo_commit)
  have "\<exists>er. tx_Commit mg1 0 = Some (mg1, Some er)"
    using ended_tx_inert[OF d(2,3) _ d(1), of mg1 None "[]" "[]" "[]" "[]" "[]"] d(4) by auto
  with d(1,4) show ?thesis by blast
qed

text \<open>\<^verbatim>\<open>Close\<close> succeeds once; it ends every transaction, and afterwards new transactions and writes are refused
  with the closed-store error and the data stays what it was.\<close>

theorem mg_Close_ends_all:
  assumes "mg_reach n mg" "n < 2 ^ 64 - 1" "txTable mg \<noteq> None"
  shows "\<exists>mg'. mg_Close mg = Some (mg', None) \<and> mg_Close mg' = Some (mg', Some errClosedStore) \<and>
    (\<forall>i tx. txs mg' i = Some tx \<longrightarrow> tx_err tx \<noteq> None) \<and> dom (txs mg') = dom (txs mg) \<and>
    NewTransaction mg' = Some (mg', InvalidTransaction errClosedStore) \<and> mg_write mg' w = Some (mg', Some errClosedStore)"
proof -
  note inv = reach_open[OF assms(1,2)]
  obtain es t where q: "events mg = Some es" "txTable mg = Some t" "queue_ok mg es t"
    using inv(1) assms(3) by (auto simp: mg_inv_def split: option.splits)
  obtain mg1 where c: "mg_Close_locked mg = Inl (mg1, es)" "mg_inv mg1" "txTable mg1 = None"
      "txs mg1 = abort_snapshots (txs mg)"
    using mg_Close_locked_ok[OF inv(1) q(1)] q(2) by auto
  have ex: "txs mg1 i \<noteq> None" if "TxEvent i \<in> set es" for i
    using that q(3) c(4) by (auto simp: queue_ok_def abort_snapshots_def)
  from abort_events_ok[OF c(2,3) ex] obtain mg' where m: "iter_opt abort_event mg1 es = Some mg'" "txTable mg' = None"
      "dom (txs mg') = dom (txs mg1)"
      "\<And>i tx'. txs mg' i = Some tx' \<Longrightarrow> (TxEvent i \<in> set es \<longrightarrow> tx_err tx' \<noteq> None) \<and>
         (\<forall>tx. txs mg1 i = Some tx \<longrightarrow> tx_err tx \<noteq> None \<longrightarrow> tx' = tx)" by blast
  have "tx_err tx' \<noteq> None" if tx': "txs mg' i = Some tx'" for i tx'
  proof (cases "TxEvent i \<in> set es")
    case True
    then show ?thesis using m(4)[OF tx'] by blast
  next
    case False
    obtain tx1 where tx1: "txs mg1 i = Some tx1" using tx' m(3) by (auto simp: dom_def)
    then obtain tx where tx: "txs mg i = Some tx" "tx_err tx1 = tx_err tx" by (auto simp: c(4) abort_snapshots_def)
    have "tx_err tx \<noteq> None"
    proof
      assume "tx_err tx = None"
      then have "live_ok (bstore mg) es i tx" using q(3) tx(1) unfolding queue_ok_def by blast
      then show False using False by (simp add: live_ok_def)
    qed
    then show ?thesis using m(4)[OF tx'] tx1 tx(2) by metis
  qed
  moreover have "dom (txs mg1) = dom (txs mg)" by (auto simp: c(4) abort_snapshots_def dom_def)
  ultimately show ?thesis using c(1) m(1-3)
    by (intro exI[of _ mg']) (simp add: mg_Close_def mg_Close_locked_def NewTransaction_def mg_write_def)
qed

lemma mg_Close_ends_all_witness:
  "\<exists>mg mg'. mg_reach 4 mg \<and> mg_Close mg = Some (mg', None) \<and> mg_write mg' (PutOp [1] [2]) = Some (mg', Some errClosedStore)"
proof -
  obtain mg t0 t1 where d: "mg_reach 4 mg" "txTable mg \<noteq> None"
    by (rule demo_run)
  from mg_Close_ends_all[OF d(1) _ d(2), of "PutOp [1] [2]"] d(1) show ?thesis by auto
qed

end
