(* ===== verification/Key_Util.thy ===== *)
theory Key_Util
  imports Prelude "HOL-Library.Char_ord"
begin

text \<open>
  Storage engine keys, \<^verbatim>\<open>src/services/syncbase/common/key_util.go\<close> and \<^verbatim>\<open>constants.go\<close>: keys are joined from
  parts by the byte \<open>0xfe\<close>, ids are encoded with NUL as separator and terminator, and batch handles
  carry a type letter and a 64-bit number in hexadecimal. \<open>split_n\<close>, \<open>split_all\<close>, \<open>join_parts\<close>, \<open>hex_pad\<close>
  and \<open>parse_hex\<close> are the parts of Go's \<^verbatim>\<open>strings\<close>, \<^verbatim>\<open>fmt\<close> and \<^verbatim>\<open>strconv\<close> that the code uses, for a separator of
  one byte. The lemmas are the round trips of the encodings.

  \<^verbatim>\<open>util.PrefixRangeStart\<close> and \<^verbatim>\<open>util.PrefixRangeLimit\<close> come from another repository; the scan arguments take
  them as parameters.
\<close>

subsection \<open>Strings\<close>

fun join_parts :: "char \<Rightarrow> string list \<Rightarrow> string" where
  "join_parts c [] = []"
| "join_parts c [p] = p"
| "join_parts c (p # q # ps) = p @ c # join_parts c (q # ps)"

fun split_all :: "char \<Rightarrow> string \<Rightarrow> string list" where
  "split_all c [] = [[]]"
| "split_all c (x # xs) =
     (if x = c then [] # split_all c xs
      else (case split_all c xs of [] \<Rightarrow> [[x]] | p # ps \<Rightarrow> (x # p) # ps))"

fun split_n :: "nat \<Rightarrow> char \<Rightarrow> string \<Rightarrow> string list" where
  "split_n 0 c s = []"
| "split_n (Suc 0) c s = [s]"
| "split_n (Suc (Suc n)) c s =
     (case dropWhile (\<lambda>x. x \<noteq> c) s of
        [] \<Rightarrow> [s]
      | _ # rest \<Rightarrow> takeWhile (\<lambda>x. x \<noteq> c) s # split_n (Suc n) c rest)"

definition hex_digit :: "nat \<Rightarrow> char" where
  "hex_digit d = (if d < 10 then char_of (48 + d) else char_of (87 + d))"

definition hex_val :: "char \<Rightarrow> nat option" where
  "hex_val c =
     (let n = of_char c in
      if 48 \<le> n \<and> n \<le> 57 then Some (n - 48)
      else if 97 \<le> n \<and> n \<le> 102 then Some (n - 87)
      else if 65 \<le> n \<and> n \<le> 70 then Some (n - 55)
      else None)"

fun hex_pad :: "nat \<Rightarrow> nat \<Rightarrow> string" where
  "hex_pad 0 n = []"
| "hex_pad (Suc k) n = hex_pad k (n div 16) @ [hex_digit (n mod 16)]"

text \<open>\<^verbatim>\<open>strconv.ParseUint(s, 16, 64)\<close>: \<^term>\<open>None\<close> for its syntax and range errors.\<close>

definition parse_hex :: "string \<Rightarrow> 64 word option" where
  "parse_hex s =
     (if s = [] then None
      else do {
        n \<leftarrow> iter_opt (\<lambda>n c. do { d \<leftarrow> hex_val c; Some (n * 16 + d) }) (0 :: nat) s;
        (if n < 2 ^ 64 then Some (word_of_nat n) else None)
      })"

subsection \<open>Keys\<close>

definition KeyPartSep :: char where "KeyPartSep = CHR 0xFE"
definition IdPartSep :: char where "IdPartSep = CHR 0x00"
definition RowPrefix :: string where "RowPrefix = ''r''"
definition CollectionPermsPrefix :: string where "CollectionPermsPrefix = ''c''"
definition SyncPrefix :: string where "SyncPrefix = ''y''"

definition JoinKeyParts :: "string list \<Rightarrow> string" where
  "JoinKeyParts parts = join_parts KeyPartSep parts"

definition SplitKeyParts :: "string \<Rightarrow> string list" where
  "SplitKeyParts key = split_all KeyPartSep key"

definition SplitNKeyParts :: "string \<Rightarrow> nat \<Rightarrow> string list" where
  "SplitNKeyParts key n = split_n n KeyPartSep key"

text \<open>\<^term>\<open>None\<close> is the fatal exit on a key of one part.\<close>

definition StripFirstKeyPartOrDie :: "string \<Rightarrow> string option" where
  "StripFirstKeyPartOrDie key =
     (let parts = SplitNKeyParts key 2 in if length parts < 2 then None else Some (parts ! 1))"

definition FirstKeyPart :: "string \<Rightarrow> string" where
  "FirstKeyPart key = hd (SplitNKeyParts key 2)"

record wire_Id =
  Blessing :: string
  Name :: string

definition EncodeIdKeyPart :: "wire_Id \<Rightarrow> string" where
  "EncodeIdKeyPart cid = Blessing cid @ IdPartSep # Name cid @ [IdPartSep]"

definition DecodeIdKeyPart :: "string \<Rightarrow> wire_Id option" where
  "DecodeIdKeyPart idKeyPart =
     (let parts = split_n 3 IdPartSep idKeyPart in
      if length parts < 3 \<or> parts ! 2 \<noteq> [] then None
      else Some \<lparr>Blessing = parts ! 0, Name = parts ! 1\<rparr>)"

definition IsRowKey :: "string \<Rightarrow> bool" where
  "IsRowKey key \<longleftrightarrow> FirstKeyPart key = RowPrefix"

definition ParseRowKey :: "string \<Rightarrow> (wire_Id \<times> string) option" where
  "ParseRowKey key =
     (let parts = SplitNKeyParts key 3; pfx = parts ! 0 in
      if length parts < 3 \<or> pfx \<noteq> RowPrefix then None
      else do { cxId \<leftarrow> DecodeIdKeyPart (parts ! 1); Some (cxId, parts ! 2) })"

definition ParseCollectionPermsKey :: "string \<Rightarrow> wire_Id option" where
  "ParseCollectionPermsKey key =
     (let parts = SplitNKeyParts key 3; pfx = parts ! 0 in
      if length parts < 3 \<or> pfx \<noteq> CollectionPermsPrefix \<or> parts ! 2 \<noteq> [] then None
      else DecodeIdKeyPart (parts ! 1))"

definition ScanRangeArgs :: "(string \<Rightarrow> string) \<Rightarrow> string \<Rightarrow> string \<Rightarrow> string \<Rightarrow> string \<times> string" where
  "ScanRangeArgs prefixRangeLimit stKeyPrefix start lim =
     (let fullStart = JoinKeyParts [stKeyPrefix, start];
          fullLimit = JoinKeyParts [stKeyPrefix, lim];
          fullLimit = (if lim = [] then prefixRangeLimit fullLimit else fullLimit)
      in (fullStart, fullLimit))"

definition ScanPrefixArgs :: "(string \<Rightarrow> string) \<Rightarrow> (string \<Rightarrow> string) \<Rightarrow> string \<Rightarrow> string \<Rightarrow> string \<times> string" where
  "ScanPrefixArgs prefixRangeStart prefixRangeLimit stKeyPrefix pfx =
     ScanRangeArgs prefixRangeLimit stKeyPrefix (prefixRangeStart pfx) (prefixRangeLimit pfx)"

subsection \<open>Batch handles\<close>

datatype BatchType = BatchTypeSn | BatchTypeTx

fun batch_char :: "BatchType \<Rightarrow> char" where
  "batch_char BatchTypeSn = CHR ''s''"
| "batch_char BatchTypeTx = CHR ''t''"

datatype batch_err = InvalidLength | InvalidType | InvalidId

definition JoinBatchHandle :: "BatchType \<Rightarrow> 64 word \<Rightarrow> string" where
  "JoinBatchHandle batchType batchId = batch_char batchType # hex_pad 16 (unat batchId)"

definition SplitBatchHandle :: "string \<Rightarrow> batch_err + BatchType \<times> 64 word" where
  "SplitBatchHandle bh =
     (if length bh \<noteq> 1 + 16 then Inl InvalidLength
      else let c = bh ! 0; batchIdStr = drop 1 bh in
        if c \<noteq> CHR ''s'' \<and> c \<noteq> CHR ''t'' then Inl InvalidType
        else (case parse_hex batchIdStr of
                None \<Rightarrow> Inl InvalidId
              | Some batchId \<Rightarrow> Inr (if c = CHR ''s'' then BatchTypeSn else BatchTypeTx, batchId)))"

subsection \<open>Lemmas\<close>

declare split_n.simps(3) [simp del]

lemma split_n_sep [simp]:
  "c \<notin> set p \<Longrightarrow> split_n (Suc (Suc n)) c (p @ c # rest) = p # split_n (Suc n) c rest"
  by (simp add: split_n.simps(3) dropWhile_append takeWhile_append)

lemma split_all_append:
  "c \<notin> set p \<Longrightarrow> split_all c (p @ c # rest) = p # split_all c rest"
  by (induction p) auto

lemma split_all_plain: "c \<notin> set p \<Longrightarrow> split_all c p = [p]"
  by (induction p) auto

lemma split_all_nonempty: "split_all c s \<noteq> []"
  by (cases s) (auto split: list.split)

lemma split_join: "ps \<noteq> [] \<Longrightarrow> list_all (\<lambda>p. c \<notin> set p) ps \<Longrightarrow> split_all c (join_parts c ps) = ps"
  by (induction c ps rule: join_parts.induct) (auto simp: split_all_append split_all_plain)

lemma join_split: "join_parts c (split_all c s) = s"
proof (induction s)
  case (Cons x s)
  obtain p ps where s: "split_all c s = p # ps" using split_all_nonempty by (metis neq_Nil_conv)
  then show ?case using Cons.IH by (cases ps) auto
qed simp

lemma split_all_no_sep: "list_all (\<lambda>p. c \<notin> set p) (split_all c s)"
  by (induction s) (auto split: list.splits)

lemma length_hex_pad [simp]: "length (hex_pad k n) = k"
  by (induction k arbitrary: n) auto

lemma hex_val_digit: "d < 16 \<Longrightarrow> hex_val (hex_digit d) = Some d"
  by (auto simp: hex_val_def hex_digit_def Let_def)

lemma iter_opt_append: "iter_opt f s (xs @ ys) = iter_opt f s xs \<bind> (\<lambda>s'. iter_opt f s' ys)"
proof (induction xs arbitrary: s)
  case (Cons x xs)
  then show ?case by (cases "f s x") auto
qed simp

lemma parse_digits:
  "iter_opt (\<lambda>n c. do { d \<leftarrow> hex_val c; Some (n * 16 + d) }) a (hex_pad k n) = Some (a * 16 ^ k + n mod 16 ^ k)"
proof (induction k arbitrary: n)
  case (Suc k)
  have "n mod (16 * 16 ^ k) = 16 * (n div 16 mod 16 ^ k) + n mod 16"
    by (metis add.commute mod_mult2_eq)
  then show ?case using Suc by (simp add: iter_opt_append hex_val_digit)
qed simp

lemma parse_hex_pad: "parse_hex (hex_pad 16 (unat w)) = Some w"
proof -
  have "unat w < 2 ^ 64" using unsigned_less[of w] by simp
  moreover have "hex_pad 16 (unat w) \<noteq> []" by (metis length_hex_pad list.size(3) zero_neq_numeral)
  ultimately show ?thesis using parse_digits[of 0 16 "unat w"] by (simp add: parse_hex_def)
qed

subsection \<open>Properties\<close>

text \<open>splitting a key undoes joining it whenever no part contains the separator byte, and joining
  undoes splitting for every key.\<close>

theorem key_parts_roundtrip:
  assumes "parts \<noteq> []" "list_all (\<lambda>p. KeyPartSep \<notin> set p) parts"
  shows "SplitKeyParts (JoinKeyParts parts) = parts \<and> JoinKeyParts (SplitKeyParts key) = key"
  using assms by (simp add: SplitKeyParts_def JoinKeyParts_def split_join join_split)

lemma key_parts_roundtrip_witness:
  "SplitKeyParts (JoinKeyParts [''y'', ''a'', ''oid'']) = [''y'', ''a'', ''oid'']"
  using key_parts_roundtrip[of "[''y'', ''a'', ''oid'']"] by (simp add: KeyPartSep_def)

text \<open>a row key parses back to its collection id and row, even if the row itself contains the separator,
  provided the id holds neither the separator nor a NUL byte.\<close>

theorem row_key_roundtrip:
  assumes "{KeyPartSep, IdPartSep} \<inter> set (Blessing cid) = {}" "{KeyPartSep, IdPartSep} \<inter> set (Name cid) = {}"
  shows "ParseRowKey (JoinKeyParts [RowPrefix, EncodeIdKeyPart cid, row]) = Some (cid, row) \<and>
    IsRowKey (JoinKeyParts [RowPrefix, EncodeIdKeyPart cid, row])"
proof -
  have sep: "KeyPartSep \<noteq> IdPartSep" by (simp add: KeyPartSep_def IdPartSep_def)
  have enc: "KeyPartSep \<notin> set (EncodeIdKeyPart cid)" using assms sep by (auto simp: EncodeIdKeyPart_def)
  have pre: "KeyPartSep \<notin> set RowPrefix" by (simp add: RowPrefix_def KeyPartSep_def)
  have key: "JoinKeyParts [RowPrefix, EncodeIdKeyPart cid, row] = RowPrefix @ KeyPartSep # EncodeIdKeyPart cid @ KeyPartSep # row"
    by (simp add: JoinKeyParts_def)
  have "split_n 3 IdPartSep (EncodeIdKeyPart cid) = [Blessing cid, Name cid, []]"
    using assms by (simp add: EncodeIdKeyPart_def numeral_3_eq_3)
  then have dec: "DecodeIdKeyPart (EncodeIdKeyPart cid) = Some cid" by (simp add: DecodeIdKeyPart_def)
  show ?thesis unfolding key using enc pre dec
    by (simp add: ParseRowKey_def IsRowKey_def FirstKeyPart_def SplitNKeyParts_def numeral_3_eq_3 numeral_2_eq_2)
qed

lemma row_key_roundtrip_witness:
  "ParseRowKey (JoinKeyParts [RowPrefix, EncodeIdKeyPart \<lparr>Blessing = ''root:u'', Name = ''cx''\<rparr>, ''row1'']) =
     Some (\<lparr>Blessing = ''root:u'', Name = ''cx''\<rparr>, ''row1'')"
  using row_key_roundtrip[of "\<lparr>Blessing = ''root:u'', Name = ''cx''\<rparr>" "''row1''"]
  by (simp add: KeyPartSep_def IdPartSep_def)

text \<open>a batch handle splits back into the type and the 64-bit id it was joined from, for every id.\<close>

theorem batch_handle_roundtrip: "SplitBatchHandle (JoinBatchHandle t batchId) = Inr (t, batchId)"
  by (cases t) (simp_all add: SplitBatchHandle_def JoinBatchHandle_def parse_hex_pad)

end
