(* ===== verification/Sync_Types.thy ===== *)
theory Sync_Types
  imports Key_Util "HOL-Library.AList"
begin

text \<open>
  The data that the sync modules keep in the store, \<^verbatim>\<open>src/services/syncbase/vsync/types.vdl\<close> and
  \<^verbatim>\<open>server/interfaces/sync_types.vdl\<close> (in Go: the structs of the generated \<^verbatim>\<open>vsync.vdl.go\<close> and
  \<^verbatim>\<open>interfaces.vdl.go\<close>), and what their operations share.

  The store of a transaction is a map from keys to typed values: the encoding of values (VOM) lives in
  another repository, and reading a key at the wrong type is the decoding error. Errors are values of
  \<open>derr\<close>; \<open>ExitFatal\<close> stands for \<^verbatim>\<open>vlog.Fatalf\<close>, which ends the process, and \<open>Panic\<close> for a run-time panic. A time is an integer, its distance
  from a fixed instant.
\<close>

subsection \<open>Data\<close>

datatype derr =
    ErrNoExist string | ErrInternal string | ErrBadState string | ErrDbOffline | ErrNoAccess
  | ErrNoExistOrNoAccess string | ErrUnknownKey string | ErrConcurrentTransaction | ErrAborted | ErrCanceled
  | ErrUnknownResumeMarker string | ErrConnFail | ErrExist string | ErrBadArg string
  | ErrGetTimeFailed | ErrBrokenCrConnection
  | ExitFatal | Panic

record DagNode =
  Level :: "64 word"
  Parents :: "string list"
  Logrec :: string
  BatchId :: "64 word"
  Deleted :: bool
  PermId :: string
  PermVers :: string

record BatchInfo =
  Objects :: "(string \<times> string) list"
  LinkedObjects :: "(string \<times> string) list"
  Count :: "64 word"

text \<open>Maps that are ranged over are association lists, in the order which the loop takes.\<close>

type_synonym GenVector = "(64 word \<times> 64 word) list"
type_synonym Knowledge = "(string \<times> GenVector) list"

record LogRecMetadata =
  Id :: "64 word"
  Gen :: "64 word"
  RecType :: "8 word"
  ObjId :: string
  CurVers :: string
  rec_Parents :: "string list"
  UpdTime :: int
  Delete :: bool
  rec_BatchId :: "64 word"
  BatchCount :: "64 word"

record LocalLogRec =
  Metadata :: LogRecMetadata
  Pos :: "64 word"

record DbSyncState =
  GenVecs :: Knowledge
  SgGenVecs :: Knowledge
  IsPaused :: bool

text \<open>Access lists and syncgroup specifications are types of the v23 API.\<close>

record AccessList =
  In :: "string list"
  NotIn :: "string list"

type_synonym Permissions = "(string \<times> AccessList) list"

record SyncgroupSpec =
  Description :: string
  PublishSyncbaseName :: string
  Perms :: Permissions
  Collections :: "wire_Id list"
  MountTables :: "string list"
  IsPrivate :: bool

datatype SyncgroupStatus = PublishPending | PublishRejected | Running

record SyncgroupMemberInfo =
  SyncPriority :: "8 word"
  BlobDevType :: "8 word"

record SyncgroupMemberState =
  WhenUpdated :: "64 word"
  HasLeft :: bool
  MemberInfo :: SyncgroupMemberInfo

record Syncgroup =
  sg_Id :: wire_Id
  SpecVersion :: string
  Spec :: SyncgroupSpec
  Creator :: string
  sg_DbId :: wire_Id
  Status :: SyncgroupStatus
  Joiners :: "(string \<times> SyncgroupMemberState) list"

record SgLocalState =
  NumLocalJoiners :: "32 word"
  Watched :: bool
  RemotePublisher :: string
  SyncPending :: bool
  PendingGenVec :: GenVector

text \<open>The operations that the watch log records, and its entries.\<close>

datatype StateChange = StateChangePauseSync | StateChangeResumeSync

datatype watch_op =
    GetOp string
  | ScanOp string string
  | PutOp string string
  | DeleteOp string
  | SyncgroupOp string "string list" bool
  | SyncSnapshotOp string string
  | DbStateChangeRequestOp StateChange

record LogEntry =
  Op :: watch_op
  CommitTimestamp :: int
  FromSync :: bool
  Continued :: bool

datatype dval =
    NodeVal DagNode
  | VersionVal string
  | BatchVal BatchInfo
  | RecVal LocalLogRec
  | StateVal DbSyncState
  | SgVal Syncgroup
  | PermsVal Permissions
  | BytesVal string
  | SgStateVal SgLocalState
  | LogVal LogEntry
  | SeqVal "64 word"

type_synonym dstore = "string \<rightharpoonup> dval"

definition NoVersion :: string where "NoVersion = []"
definition NoBatchId :: "64 word" where "NoBatchId = 0"

text \<open>Sequencing of operations that may fail.\<close>

fun sbind :: "'e + 'a \<Rightarrow> ('a \<Rightarrow> 'e + 'b) \<Rightarrow> 'e + 'b" where
  "sbind (Inl e) f = Inl e"
| "sbind (Inr x) f = f x"

lemma sbindE: "sbind x f = Inr y \<Longrightarrow> (\<And>z. x = Inr z \<Longrightarrow> f z = Inr y \<Longrightarrow> P) \<Longrightarrow> P"
  by (cases x) auto

subsection \<open>Decimal numbers in keys\<close>

fun dec_digits :: "nat \<Rightarrow> string" where
  "dec_digits n = (if n < 10 then [hex_digit n] else dec_digits (n div 10) @ [hex_digit (n mod 10)])"

text \<open>\<^verbatim>\<open>%x\<close> of Go's \<^verbatim>\<open>fmt\<close>.\<close>

fun hex_digits :: "nat \<Rightarrow> string" where
  "hex_digits n = (if n < 16 then [hex_digit n] else hex_digits (n div 16) @ [hex_digit (n mod 16)])"

declare hex_digits.simps [simp del]

end
