(* ===== verification/Sync_State.thy ===== *)
theory Sync_State
  imports Sync_Types
begin

text \<open>
  Generations and log positions, \<^verbatim>\<open>src/services/syncbase/vsync/sync_state.go\<close>, and the generation vectors of
  \<^verbatim>\<open>server/interfaces/sync_types.go\<close>. The sync service keeps, for the data of a database and for each syncgroup in
  it, the next generation and the next log position; operations run under \<^verbatim>\<open>syncStateLock\<close> and are functions of
  the state. A scan of the store is the list of the values it delivers, in the order of their keys, or the error of the
  stream.
\<close>

subsection \<open>Generation vectors\<close>

definition gv_get :: "GenVector \<Rightarrow> 64 word \<Rightarrow> 64 word" where
  "gv_get gv dev = (case map_of gv dev of Some g \<Rightarrow> g | None \<Rightarrow> 0)"

definition GenVector_DeepCopy :: "GenVector \<Rightarrow> GenVector" where
  "GenVector_DeepCopy gv = fold (\<lambda>(i, g) out. AList.update i g out) gv []"

definition Knowledge_DeepCopy :: "Knowledge \<Rightarrow> Knowledge" where
  "Knowledge_DeepCopy k = fold (\<lambda>(p, gv) out. AList.update p (GenVector_DeepCopy gv) out) k []"

fun compare_own :: "GenVector \<Rightarrow> GenVector \<Rightarrow> int \<Rightarrow> int option" where
  "compare_own [] b res = Some res"
| "compare_own ((aid, agen) # a) b res =
     (let bgen = gv_get b aid; ok = map_of b aid \<noteq> None;
          resCur = (if bgen < agen \<or> \<not> ok then 1 else if agen < bgen then -1 else 0)
      in if res = -2 \<or> res = 0 then compare_own a b resCur
         else if res \<noteq> resCur \<and> resCur \<noteq> 0 then None
         else compare_own a b res)"

fun compare_other :: "GenVector \<Rightarrow> GenVector \<Rightarrow> int \<Rightarrow> int" where
  "compare_other [] a res = res"
| "compare_other ((bid, bgen) # b) a res =
     (if map_of a bid \<noteq> None then compare_other b a res else if res = 1 then 2 else -1)"

definition GenVector_Compare :: "GenVector \<Rightarrow> GenVector \<Rightarrow> int" where
  "GenVector_Compare a b =
     (if length a = 0 \<and> length b = 0 then 0
      else case compare_own a b (-2) of None \<Rightarrow> 2 | Some res \<Rightarrow> compare_other b a res)"

subsection \<open>State\<close>

record localGenInfoInMem =
  gen :: "64 word"
  pos :: "64 word"
  checkptGen :: "64 word"

record dbSyncStateInMem =
  data :: localGenInfoInMem
  sgs :: "(string \<times> localGenInfoInMem) list"
  genvecs :: Knowledge
  sggenvecs :: Knowledge
  isPaused :: bool

record sgPublishInfo =
  sgId :: wire_Id
  dbId :: wire_Id
  queued :: int
  lastTry :: "int option"

record syncService =
  sync_id :: "64 word"
  syncState :: "wire_Id \<rightharpoonup> dbSyncStateInMem"
  sgPublishQueue :: "sgPublishInfo list"

definition localGen_deepCopy :: "localGenInfoInMem \<Rightarrow> localGenInfoInMem" where
  "localGen_deepCopy i = \<lparr>gen = gen i, pos = pos i, checkptGen = checkptGen i\<rparr>"

definition dbSync_deepCopy :: "dbSyncStateInMem \<Rightarrow> dbSyncStateInMem" where
  "dbSync_deepCopy ds =
     \<lparr>data = localGen_deepCopy (data ds),
      sgs = fold (\<lambda>(oid, info) out. AList.update oid (localGen_deepCopy info) out) (sgs ds) [],
      genvecs = Knowledge_DeepCopy (genvecs ds), sggenvecs = Knowledge_DeepCopy (sggenvecs ds), isPaused = isPaused ds\<rparr>"

definition new_genInfo :: localGenInfoInMem where
  "new_genInfo = \<lparr>gen = 1, pos = 0, checkptGen = 0\<rparr>"

definition new_dbSync :: dbSyncStateInMem where
  "new_dbSync = \<lparr>data = new_genInfo, sgs = [], genvecs = [], sggenvecs = [], isPaused = False\<rparr>"

subsection \<open>Keys of syncgroups and log records\<close>

definition logPrefix :: string where "logPrefix = JoinKeyParts [SyncPrefix, ''l'']"
definition sgDataPrefix :: string where "sgDataPrefix = JoinKeyParts [SyncPrefix, ''s'']"
definition dbssKey :: string where "dbssKey = JoinKeyParts [SyncPrefix, ''d'']"
definition logDataPrefix :: string where "logDataPrefix = ''d''"

definition sgOID :: "string \<Rightarrow> string" where
  "sgOID gid = JoinKeyParts [sgDataPrefix, gid]"

definition sgID :: "string \<Rightarrow> string option" where
  "sgID oid = (let parts = SplitNKeyParts oid 3 in if length parts \<noteq> 3 then None else Some (parts ! 2))"

definition logRecsPerDeviceScanPrefix :: "string \<Rightarrow> 64 word \<Rightarrow> string" where
  "logRecsPerDeviceScanPrefix pfx dev = JoinKeyParts [logPrefix, pfx, dec_digits (unat dev)]"

definition logRecKey :: "string \<Rightarrow> 64 word \<Rightarrow> 64 word \<Rightarrow> string" where
  "logRecKey pfx dev g = JoinKeyParts [logPrefix, pfx, dec_digits (unat dev), hex_pad 16 (unat g)]"

definition hasLogRec :: "dstore \<Rightarrow> string \<Rightarrow> 64 word \<Rightarrow> 64 word \<Rightarrow> bool" where
  "hasLogRec st pfx dev g \<longleftrightarrow> st (logRecKey pfx dev g) \<noteq> None"

definition putLogRec :: "dstore \<Rightarrow> string \<Rightarrow> LocalLogRec \<Rightarrow> dstore" where
  "putLogRec tx pfx rec = tx(logRecKey pfx (Id (Metadata rec)) (Gen (Metadata rec)) \<mapsto> RecVal rec)"

definition getLogRecByKey :: "dstore \<Rightarrow> string \<Rightarrow> derr + LocalLogRec" where
  "getLogRecByKey st key =
     (case st key of
        None \<Rightarrow> Inl (ErrNoExist key)
      | Some (RecVal rec) \<Rightarrow> Inr rec
      | Some _ \<Rightarrow> Inl (ErrInternal key))"

definition getLogRec :: "dstore \<Rightarrow> string \<Rightarrow> 64 word \<Rightarrow> 64 word \<Rightarrow> derr + LocalLogRec" where
  "getLogRec st pfx dev g = getLogRecByKey st (logRecKey pfx dev g)"

definition delLogRec :: "dstore \<Rightarrow> string \<Rightarrow> 64 word \<Rightarrow> 64 word \<Rightarrow> dstore" where
  "delLogRec tx pfx dev g = tx(logRecKey pfx dev g := None)"

definition putDbSyncState :: "dstore \<Rightarrow> DbSyncState \<Rightarrow> dstore" where
  "putDbSyncState tx ds = tx(dbssKey \<mapsto> StateVal ds)"

definition getDbSyncState :: "dstore \<Rightarrow> derr + DbSyncState" where
  "getDbSyncState st =
     (case st dbssKey of
        None \<Rightarrow> Inl (ErrNoExist dbssKey)
      | Some (StateVal ds) \<Rightarrow> Inr ds
      | Some _ \<Rightarrow> Inl (ErrInternal dbssKey))"

definition not_exist :: "derr \<Rightarrow> bool" where
  "not_exist e = (case e of ErrNoExist _ \<Rightarrow> True | _ \<Rightarrow> False)"

subsection \<open>Operations\<close>

definition getOrCreateSyncStateInternal :: "syncService \<Rightarrow> wire_Id \<Rightarrow> syncService \<times> dbSyncStateInMem" where
  "getOrCreateSyncStateInternal s db =
     (case syncState s db of
        Some ds \<Rightarrow> (s, ds)
      | None \<Rightarrow> (s\<lparr>syncState := (syncState s)(db \<mapsto> new_dbSync)\<rparr>, new_dbSync))"

definition reserveGenAndPosInternal :: "syncService \<Rightarrow> wire_Id \<Rightarrow> string \<Rightarrow> 64 word \<Rightarrow> 64 word \<Rightarrow>
    syncService \<times> 64 word \<times> 64 word" where
  "reserveGenAndPosInternal s db sgoid genCount posCount =
     (let (s, ds) = getOrCreateSyncStateInternal s db;
          info = (if sgoid \<noteq> [] then (case map_of (sgs ds) sgoid of Some i \<Rightarrow> i | None \<Rightarrow> new_genInfo) else data ds);
          info' = info\<lparr>gen := gen info + genCount, pos := pos info + posCount\<rparr>;
          ds = (if sgoid \<noteq> [] then ds\<lparr>sgs := AList.update sgoid info' (sgs ds)\<rparr> else ds\<lparr>data := info'\<rparr>)
      in (s\<lparr>syncState := (syncState s)(db \<mapsto> ds)\<rparr>, gen info, pos info))"

definition reserveGenAndPosInDbLog :: "syncService \<Rightarrow> wire_Id \<Rightarrow> string \<Rightarrow> 64 word \<Rightarrow> syncService \<times> 64 word \<times> 64 word" where
  "reserveGenAndPosInDbLog s db sgoid count = reserveGenAndPosInternal s db sgoid count count"

definition reservePosInDbLog :: "syncService \<Rightarrow> wire_Id \<Rightarrow> string \<Rightarrow> 64 word \<Rightarrow> syncService \<times> 64 word" where
  "reservePosInDbLog s db sgoid count =
     (let (s, _, p) = reserveGenAndPosInternal s db sgoid 0 count in (s, p))"

text \<open>An unknown syncgroup ends the loop with an error, after the syncgroups before it were frozen.\<close>

fun checkpt_sgs :: "dbSyncStateInMem \<Rightarrow> string list \<Rightarrow> dbSyncStateInMem \<times> derr option" where
  "checkpt_sgs ds [] = (ds, None)"
| "checkpt_sgs ds (gid # ids) =
     (case map_of (sgs ds) (sgOID gid) of
        None \<Rightarrow> (ds, Some (ErrInternal ''sg state not found''))
      | Some info \<Rightarrow> checkpt_sgs (ds\<lparr>sgs := AList.update (sgOID gid) (info\<lparr>checkptGen := gen info - 1\<rparr>) (sgs ds)\<rparr>) ids)"

definition checkptLocalGen :: "syncService \<Rightarrow> wire_Id \<Rightarrow> string list \<Rightarrow> syncService \<times> derr option" where
  "checkptLocalGen s db sgSet =
     (case syncState s db of
        None \<Rightarrow> (s, Some (ErrInternal ''db state not found''))
      | Some ds \<Rightarrow>
          (let (ds, e) = (if length sgSet > 0 then checkpt_sgs ds sgSet
                          else (ds\<lparr>data := (data ds)\<lparr>checkptGen := gen (data ds) - 1\<rparr>\<rparr>, None))
           in (s\<lparr>syncState := (syncState s)(db \<mapsto> ds)\<rparr>, e)))"

definition initSyncStateInMem :: "syncService \<Rightarrow> wire_Id \<Rightarrow> string \<Rightarrow> syncService" where
  "initSyncStateInMem s db sgoid =
     (let s = (if syncState s db = None then s\<lparr>syncState := (syncState s)(db \<mapsto> new_dbSync)\<rparr> else s) in
      if sgoid \<noteq> [] then
        (case syncState s db of
           None \<Rightarrow> s
         | Some ds \<Rightarrow>
             if map_of (sgs ds) sgoid = None
             then s\<lparr>syncState := (syncState s)(db \<mapsto> ds\<lparr>sgs := AList.update sgoid new_genInfo (sgs ds)\<rparr>)\<rparr>
             else s)
      else s)"

definition copyDbSyncStateInMem :: "syncService \<Rightarrow> wire_Id \<Rightarrow> derr + dbSyncStateInMem" where
  "copyDbSyncStateInMem s db =
     (case syncState s db of None \<Rightarrow> Inl (ErrInternal ''db state not found'') | Some ds \<Rightarrow> Inr (dbSync_deepCopy ds))"

definition sg_genvec :: "syncService \<Rightarrow> dbSyncStateInMem \<Rightarrow> string \<Rightarrow> Knowledge \<Rightarrow> Knowledge" where
  "sg_genvec s ds gid out =
     (let sgoid = sgOID gid;
          gv = (case map_of (sggenvecs ds) sgoid of Some gv \<Rightarrow> gv | None \<Rightarrow> []);
          ckpt = (case map_of (sgs ds) sgoid of Some info \<Rightarrow> checkptGen info | None \<Rightarrow> 0)
      in AList.update sgoid (AList.update (sync_id s) ckpt (GenVector_DeepCopy gv)) out)"

definition copyDbGenInfo :: "syncService \<Rightarrow> wire_Id \<Rightarrow> string list \<Rightarrow> derr + Knowledge \<times> 64 word" where
  "copyDbGenInfo s db sgSet =
     (case syncState s db of
        None \<Rightarrow> Inl (ErrInternal ''db state not found'')
      | Some ds \<Rightarrow>
          if length sgSet > 0 then Inr (fold (sg_genvec s ds) sgSet [], 0)
          else Inr (map (\<lambda>(p, gv). (p, AList.update (sync_id s) (checkptGen (data ds)) gv)) (Knowledge_DeepCopy (genvecs ds)),
                    checkptGen (data ds)))"

definition putDbGenInfoRemote :: "syncService \<Rightarrow> wire_Id \<Rightarrow> bool \<Rightarrow> Knowledge \<Rightarrow> syncService \<times> derr option" where
  "putDbGenInfoRemote s db sg gvs =
     (case syncState s db of
        None \<Rightarrow> (s, Some (ErrInternal ''db state not found''))
      | Some ds \<Rightarrow>
          (s\<lparr>syncState := (syncState s)(db \<mapsto> (if sg then ds\<lparr>sggenvecs := Knowledge_DeepCopy gvs\<rparr>
                                                 else ds\<lparr>genvecs := Knowledge_DeepCopy gvs\<rparr>))\<rparr>, None))"

definition isDbSyncable :: "syncService \<Rightarrow> wire_Id \<Rightarrow> syncService \<times> bool" where
  "isDbSyncable s db = (let (s, ds) = getOrCreateSyncStateInternal s db in (s, \<not> isPaused ds))"

definition updateInMemoryPauseSt :: "syncService \<Rightarrow> wire_Id \<Rightarrow> bool \<Rightarrow> syncService" where
  "updateInMemoryPauseSt s db paused =
     (let (s, ds) = getOrCreateSyncStateInternal s db in s\<lparr>syncState := (syncState s)(db \<mapsto> ds\<lparr>isPaused := paused\<rparr>)\<rparr>)"

definition updateDbPauseSt :: "dstore \<Rightarrow> bool \<Rightarrow> derr + dstore" where
  "updateDbPauseSt tx paused =
     (case getDbSyncState tx of
        Inl e \<Rightarrow>
          if not_exist e then Inr (putDbSyncState tx \<lparr>GenVecs = [], SgGenVecs = [], IsPaused = paused\<rparr>) else Inl e
      | Inr ss \<Rightarrow> Inr (putDbSyncState tx (ss\<lparr>IsPaused := paused\<rparr>)))"

definition enqueuePublishSyncgroup :: "syncService \<Rightarrow> int \<Rightarrow> wire_Id \<Rightarrow> wire_Id \<Rightarrow> bool \<Rightarrow> syncService" where
  "enqueuePublishSyncgroup s now sg db attempted =
     s\<lparr>sgPublishQueue := sgPublishQueue s @
        [\<lparr>sgId = sg, dbId = db, queued = now, lastTry = (if attempted then Some now else None)\<rparr>]\<rparr>"

subsection \<open>Recovery of generation and position\<close>

text \<open>The loop runs from the given generation down to 1.\<close>

fun getPrevLogRec_from :: "dstore \<Rightarrow> string \<Rightarrow> 64 word \<Rightarrow> nat \<Rightarrow> derr + LocalLogRec option" where
  "getPrevLogRec_from st pfx dev 0 = Inr None"
| "getPrevLogRec_from st pfx dev (Suc i) =
     (case getLogRec st pfx dev (word_of_nat (Suc i)) of
        Inr rec \<Rightarrow> Inr (Some rec)
      | Inl e \<Rightarrow> if \<not> not_exist e then Inl e else getPrevLogRec_from st pfx dev i)"

definition getPrevLogRec :: "dstore \<Rightarrow> string \<Rightarrow> 64 word \<Rightarrow> 64 word \<Rightarrow> derr + LocalLogRec option" where
  "getPrevLogRec st pfx dev g = getPrevLogRec_from st pfx dev (unat g)"

fun max_pos_loop :: "dstore \<Rightarrow> string \<Rightarrow> GenVector \<Rightarrow> bool \<times> 64 word \<Rightarrow> derr + bool \<times> 64 word" where
  "max_pos_loop st pfx [] (found, maxpos) = Inr (found, maxpos)"
| "max_pos_loop st pfx ((dev, g) # gv) (found, maxpos) =
     (if g = 0 then max_pos_loop st pfx gv (found, maxpos)
      else case getPrevLogRec st pfx dev g of
        Inl e \<Rightarrow> Inl e
      | Inr None \<Rightarrow> max_pos_loop st pfx gv (found, maxpos)
      | Inr (Some lrec) \<Rightarrow>
          max_pos_loop st pfx gv (if maxpos < Pos lrec then (True, Pos lrec) else (found, maxpos)))"

definition computeCurGenAndPos :: "dstore \<Rightarrow> derr + dval list \<Rightarrow> string \<Rightarrow> GenVector \<Rightarrow> derr + 64 word \<times> 64 word" where
  "computeCurGenAndPos st scan pfx genvec =
     sbind (sbind scan (\<lambda>scanned.
            if scanned = [] then Inr (False, 0, 0)
            else case last scanned of
              RecVal lrec \<Rightarrow> Inr (True, Pos lrec, Gen (Metadata lrec))
            | _ \<Rightarrow> Inl (ErrInternal ''decode'')))
       (\<lambda>(found, maxpos, maxgen).
         sbind (max_pos_loop st pfx genvec (found, maxpos)) (\<lambda>(found, maxpos).
           Inr (maxgen + 1, if found then maxpos + 1 else maxpos)))"

subsection \<open>The order of generation vectors\<close>

definition cmp_at :: "GenVector \<Rightarrow> 64 word \<times> 64 word \<Rightarrow> int" where
  "cmp_at b e = (case map_of b (fst e) of None \<Rightarrow> 1 | Some y \<Rightarrow> if y < snd e then 1 else if snd e < y then -1 else 0)"

lemma compare_own_step:
  "compare_own (e # a) b res =
     (if res = -2 \<or> res = 0 then compare_own a b (cmp_at b e)
      else if res \<noteq> cmp_at b e \<and> cmp_at b e \<noteq> 0 then None else compare_own a b res)"
  by (cases e) (auto simp: cmp_at_def gv_get_def Let_def split: option.split)

lemma cmp_at_cases: "cmp_at b e \<in> {1, -1, 0}"
  by (auto simp: cmp_at_def split: option.split)

lemma compare_own_nonzero:
  "r \<in> {1, -1} \<Longrightarrow> compare_own a b r = (if \<exists>e\<in>set a. cmp_at b e = - r then None else Some r)"
proof (induction a)
  case (Cons e a)
  have "r = 1 \<or> r = -1" "cmp_at b e = 1 \<or> cmp_at b e = -1 \<or> cmp_at b e = 0"
    using Cons.prems cmp_at_cases[of b e] by auto
  then show ?case using Cons.IH by (elim disjE) (simp_all add: compare_own_step del: compare_own.simps)
qed simp

lemma compare_own_zero:
  "compare_own a b 0 =
     (if (\<exists>e\<in>set a. cmp_at b e = 1) \<and> (\<exists>e\<in>set a. cmp_at b e = -1) then None
      else if \<exists>e\<in>set a. cmp_at b e = 1 then Some 1
      else if \<exists>e\<in>set a. cmp_at b e = -1 then Some (-1) else Some 0)"
proof (induction a)
  case (Cons e a)
  have "cmp_at b e = 1 \<or> cmp_at b e = -1 \<or> cmp_at b e = 0" using cmp_at_cases[of b e] by auto
  then show ?case
    using Cons.IH compare_own_nonzero[of 1 a b] compare_own_nonzero[of "-1" a b]
    by (elim disjE) (auto simp: compare_own_step simp del: compare_own.simps)
qed simp

lemma compare_other_eq:
  "compare_other b a res = (if \<forall>e\<in>set b. map_of a (fst e) \<noteq> None then res else if res = 1 then 2 else -1)"
proof (induction b a res rule: compare_other.induct)
  case (2 bid bgen b a res)
  show ?case
  proof (cases "map_of a bid = None")
    case False
    then show ?thesis using "2.IH" by simp
  qed simp
qed simp

text \<open>One vector knows at most what another knows.\<close>

definition gv_le :: "GenVector \<Rightarrow> GenVector \<Rightarrow> bool" where
  "gv_le a b \<longleftrightarrow> (\<forall>d x. map_of a d = Some x \<longrightarrow> (\<exists>y. map_of b d = Some y \<and> x \<le> y))"

lemma cmp_at_map_of:
  assumes "distinct (map fst a)"
  shows "(\<exists>e\<in>set a. P (cmp_at b e)) \<longleftrightarrow> (\<exists>d x. map_of a d = Some x \<and> P (cmp_at b (d, x)))"
  using assms by (metis map_of_eq_Some_iff surj_pair)

lemma gv_le_cmp:
  assumes "distinct (map fst a)"
  shows "gv_le a b \<longleftrightarrow> \<not> (\<exists>e\<in>set a. cmp_at b e = 1)"
proof -
  have "cmp_at b (d, x) = 1 \<longleftrightarrow> \<not> (\<exists>y. map_of b d = Some y \<and> x \<le> y)" for d x
    by (auto simp: cmp_at_def not_less split: option.split)
  then show ?thesis unfolding cmp_at_map_of[OF assms, of "\<lambda>c. c = 1"] gv_le_def by blast
qed

lemma map_of_domain: "(\<forall>e\<in>set b. map_of a (fst e) \<noteq> None) \<longleftrightarrow> dom (map_of b) \<subseteq> dom (map_of a)"
  by (simp add: dom_map_of_conv_image_fst[of b] image_subset_iff domIff)

lemma GenVector_Compare_order:
  assumes "distinct (map fst a)" "distinct (map fst b)"
  shows "GenVector_Compare a b =
    (if map_of a = map_of b then 0 else if gv_le a b then -1 else if gv_le b a then 1 else 2)"
proof -
  let ?up = "\<exists>e\<in>set a. cmp_at b e = 1" and ?dn = "\<exists>e\<in>set a. cmp_at b e = -1"
  let ?sub = "dom (map_of b) \<subseteq> dom (map_of a)"
  have up: "?up \<longleftrightarrow> \<not> gv_le a b" using gv_le_cmp[OF assms(1)] by blast
  have "cmp_at b (d, x) = -1 \<longleftrightarrow> (\<exists>y. map_of b d = Some y \<and> x < y)" for d x
    by (auto simp: cmp_at_def split: option.split)
  then have dn: "?dn \<longleftrightarrow> (\<exists>d x y. map_of a d = Some x \<and> map_of b d = Some y \<and> x < y)"
    unfolding cmp_at_map_of[OF assms(1), of "\<lambda>c. c = -1"] by blast
  have ba: "gv_le b a \<longleftrightarrow> ?sub \<and> \<not> ?dn"
    unfolding dn gv_le_def subset_iff dom_def by (auto simp: not_less) (metis linorder_not_less option.inject)+
  have eq: "map_of a = map_of b \<longleftrightarrow> gv_le a b \<and> gv_le b a"
  proof
    assume "gv_le a b \<and> gv_le b a"
    then have "map_of a d = map_of b d" for d
      unfolding gv_le_def by (cases "map_of a d"; cases "map_of b d") force+
    then show "map_of a = map_of b" by blast
  qed (simp add: gv_le_def)
  show ?thesis
  proof (cases a)
    case Nil
    then show ?thesis
      using map_of_domain[of b a] by (cases b) (auto simp: GenVector_Compare_def gv_le_def fun_eq_iff split: prod.split)
  next
    case (Cons e a')
    have "compare_own a b (-2) = compare_own a b 0" by (simp add: Cons compare_own_step del: compare_own.simps)
    then have "GenVector_Compare a b = (case compare_own a b 0 of None \<Rightarrow> 2 | Some res \<Rightarrow> if ?sub then res else if res = 1 then 2 else -1)"
      using Cons unfolding GenVector_Compare_def compare_other_eq map_of_domain by simp
    then show ?thesis unfolding compare_own_zero eq ba using up by auto
  qed
qed

text \<open>
  the comparison of generation vectors is the order of their knowledge (a missing device is below every
  generation), whatever the iteration order of the maps: 0 for equal ones, -1 and 1 for smaller and greater
  ones, 2 for vectors that are not comparable.
\<close>

theorem GenVector_Compare_correct:
  assumes "distinct (map fst a)" "distinct (map fst b)"
  shows "GenVector_Compare a b =
    (if map_of a = map_of b then 0 else if gv_le a b then -1 else if gv_le b a then 1 else 2)"
  using GenVector_Compare_order[OF assms] .

lemma GenVector_Compare_witness:
  "GenVector_Compare [(1, 5), (2, 3)] [(2, 3), (1, 4)] = 1 \<and> GenVector_Compare [(1, 5)] [(2, 3), (1, 4)] = 2"
  using GenVector_Compare_correct[of "[(1, 5), (2, 3)]" "[(2, 3), (1, 4)]"] GenVector_Compare_correct[of "[(1, 5)]" "[(2, 3), (1, 4)]"]
  by (simp add: GenVector_Compare_def gv_get_def)

subsection \<open>Reservations\<close>

text \<open>The counters of a space: the data of a database, or one of its syncgroups.\<close>

definition db_state :: "syncService \<Rightarrow> wire_Id \<Rightarrow> dbSyncStateInMem" where
  "db_state s db = (case syncState s db of None \<Rightarrow> new_dbSync | Some ds \<Rightarrow> ds)"

definition space_of :: "dbSyncStateInMem \<Rightarrow> string \<Rightarrow> localGenInfoInMem" where
  "space_of ds sgoid =
     (if sgoid \<noteq> [] then (case map_of (sgs ds) sgoid of Some i \<Rightarrow> i | None \<Rightarrow> new_genInfo) else data ds)"

definition next_gen :: "syncService \<Rightarrow> wire_Id \<times> string \<Rightarrow> 64 word" where
  "next_gen s sp = gen (space_of (db_state s (fst sp)) (snd sp))"

definition next_pos :: "syncService \<Rightarrow> wire_Id \<times> string \<Rightarrow> 64 word" where
  "next_pos s sp = pos (space_of (db_state s (fst sp)) (snd sp))"

lemma db_state_upd [simp]: "db_state (s\<lparr>syncState := (syncState s)(db \<mapsto> ds)\<rparr>) db' = (if db' = db then ds else db_state s db')"
  by (simp add: db_state_def)

lemma getOrCreate_eq:
  "snd (getOrCreateSyncStateInternal s db) = db_state s db"
  "(fst (getOrCreateSyncStateInternal s db))\<lparr>syncState := (syncState (fst (getOrCreateSyncStateInternal s db)))(db \<mapsto> ds)\<rparr> =
     s\<lparr>syncState := (syncState s)(db \<mapsto> ds)\<rparr>"
  "db_state (fst (getOrCreateSyncStateInternal s db)) = db_state s"
  by (auto simp: getOrCreateSyncStateInternal_def db_state_def split: option.split)

lemma space_of_upd:
  "space_of (ds\<lparr>sgs := AList.update k i (sgs ds)\<rparr>) o' = (if o' = k \<and> o' \<noteq> [] then i else space_of ds o')"
  "space_of (ds\<lparr>data := i\<rparr>) o' = (if o' = [] then i else space_of ds o')"
  by (simp_all add: space_of_def AList.update_conv')

lemma reserve_eq:
  "reserveGenAndPosInternal s db sgoid gc pc =
     (let i = space_of (db_state s db) sgoid; i' = i\<lparr>gen := gen i + gc, pos := pos i + pc\<rparr>
      in (s\<lparr>syncState := (syncState s)(db \<mapsto> (if sgoid \<noteq> [] then (db_state s db)\<lparr>sgs := AList.update sgoid i' (sgs (db_state s db))\<rparr>
                                             else (db_state s db)\<lparr>data := i'\<rparr>))\<rparr>, gen i, pos i))"
  unfolding reserveGenAndPosInternal_def
  by (simp add: case_prod_beta Let_def getOrCreate_eq space_of_def del: fun_upd_apply)

lemma reserve_spec:
  assumes "reserveGenAndPosInternal s db sgoid gc pc = (s', g, p)"
  shows "g = next_gen s (db, sgoid) \<and> p = next_pos s (db, sgoid) \<and>
    next_gen s' = (next_gen s)((db, sgoid) := g + gc) \<and> next_pos s' = (next_pos s)((db, sgoid) := p + pc)"
proof -
  let ?i = "space_of (db_state s db) sgoid"
  have s': "space_of (db_state s' db') o' = (if db' = db \<and> o' = sgoid then ?i\<lparr>gen := gen ?i + gc, pos := pos ?i + pc\<rparr>
      else space_of (db_state s db') o')" for db' o'
    using assms by (auto simp: reserve_eq Let_def space_of_upd)
  have "g = gen ?i" "p = pos ?i" using assms by (simp_all add: reserve_eq Let_def)
  then show ?thesis by (auto simp: next_gen_def next_pos_def s' fun_eq_iff)
qed

text \<open>The other operations move no counter.\<close>

definition same_counters :: "dbSyncStateInMem \<Rightarrow> dbSyncStateInMem \<Rightarrow> bool" where
  "same_counters ds ds' \<longleftrightarrow> (\<forall>sg. gen (space_of ds' sg) = gen (space_of ds sg) \<and> pos (space_of ds' sg) = pos (space_of ds sg))"

lemma same_counters_refl: "same_counters ds ds"
  by (simp add: same_counters_def)

lemma same_counters_data: "same_counters ds (ds\<lparr>data := (data ds)\<lparr>checkptGen := g\<rparr>\<rparr>)"
  by (simp add: same_counters_def space_of_def)

lemma checkpt_sgs_keeps: "checkpt_sgs ds ids = (ds', e) \<Longrightarrow> same_counters ds ds'"
proof (induction ds ids rule: checkpt_sgs.induct)
  case (2 ds gid ids)
  show ?case
  proof (cases "map_of (sgs ds) (sgOID gid)")
    case (Some info)
    then have "gen (space_of ds (sgOID gid)) = gen info" "pos (space_of ds (sgOID gid)) = pos info" if "sgOID gid \<noteq> []"
      using that by (simp_all add: space_of_def)
    then show ?thesis using "2.IH"[OF Some] "2.prems" Some by (auto simp: same_counters_def space_of_upd)
  qed (use 2 in \<open>simp add: same_counters_def\<close>)
qed (simp add: same_counters_def)

datatype sync_op =
    Reserve wire_Id string "64 word" "64 word"
  | Checkpoint wire_Id "string list"
  | Init_mem wire_Id string
  | Put_remote wire_Id bool Knowledge
  | Pause wire_Id bool
  | Syncable wire_Id

fun run_op :: "syncService \<Rightarrow> sync_op \<Rightarrow> syncService \<times> (64 word \<times> 64 word)" where
  "run_op s (Reserve db sgoid gc pc) = reserveGenAndPosInternal s db sgoid gc pc"
| "run_op s (Checkpoint db ids) = (fst (checkptLocalGen s db ids), 0, 0)"
| "run_op s (Init_mem db sgoid) = (initSyncStateInMem s db sgoid, 0, 0)"
| "run_op s (Put_remote db sg k) = (fst (putDbGenInfoRemote s db sg k), 0, 0)"
| "run_op s (Pause db b) = (updateInMemoryPauseSt s db b, 0, 0)"
| "run_op s (Syncable db) = (fst (isDbSyncable s db), 0, 0)"

lemma keeps_counters:
  assumes "\<And>db. same_counters (db_state s db) (db_state s' db)"
  shows "next_gen s' = next_gen s \<and> next_pos s' = next_pos s"
  using assms by (auto simp: same_counters_def next_gen_def next_pos_def)

lemma run_op_other:
  assumes "\<And>db sgoid gc pc. op \<noteq> Reserve db sgoid gc pc"
  shows "next_gen (fst (run_op s op)) = next_gen s \<and> next_pos (fst (run_op s op)) = next_pos s"
proof (cases op)
  case (Checkpoint db ids)
  show ?thesis
  proof (rule keeps_counters)
    fix db'
    show "same_counters (db_state s db') (db_state (fst (run_op s op)) db')"
    proof (cases "syncState s db")
      case (Some ds)
      then have "db_state s db = ds" by (simp add: db_state_def)
      then show ?thesis
        using Checkpoint Some checkpt_sgs_keeps[of ds ids] same_counters_refl same_counters_data[of ds]
        by (cases "checkpt_sgs ds ids") (auto simp: checkptLocalGen_def)
    qed (simp add: Checkpoint checkptLocalGen_def same_counters_def)
  qed
next
  case (Init_mem db sgoid)
  show ?thesis
  proof (rule keeps_counters)
    fix db'
    have "db_state s db = new_dbSync" if "syncState s db = None" using that by (simp add: db_state_def)
    moreover have "db_state s db = ds" if "syncState s db = Some ds" for ds using that by (simp add: db_state_def)
    ultimately show "same_counters (db_state s db') (db_state (fst (run_op s op)) db')"
      by (cases "syncState s db")
         (auto simp: Init_mem initSyncStateInMem_def Let_def same_counters_def space_of_def new_dbSync_def AList.update_conv')
  qed
next
  case (Put_remote db sg k)
  have "db_state s db = ds" if "syncState s db = Some ds" for ds using that by (simp add: db_state_def)
  then show ?thesis
    by (intro keeps_counters) (auto simp: Put_remote putDbGenInfoRemote_def same_counters_def space_of_def split: option.split)
next
  case (Pause db b)
  then show ?thesis
    by (intro keeps_counters)
       (simp add: updateInMemoryPauseSt_def case_prod_beta getOrCreate_eq same_counters_def space_of_def del: fun_upd_apply)
next
  case (Syncable db)
  then show ?thesis
    by (intro keeps_counters) (simp add: isDbSyncable_def case_prod_beta getOrCreate_eq same_counters_def)
qed (use assms in simp)

text \<open>The reservations made in a run: the space, and the first number and the count of generations and positions.\<close>

type_synonym reservation = "(wire_Id \<times> string) \<times> (64 word \<times> 64 word) \<times> (64 word \<times> 64 word)"

fun reservations :: "syncService \<Rightarrow> sync_op list \<Rightarrow> reservation list" where
  "reservations s [] = []"
| "reservations s (op # ops) =
     (case op of
        Reserve db sgoid gc pc \<Rightarrow> [((db, sgoid), (fst (snd (run_op s op)), gc), (snd (snd (run_op s op)), pc))]
      | _ \<Rightarrow> []) @ reservations (fst (run_op s op)) ops"

fun gen_cost :: "sync_op \<Rightarrow> nat" where
  "gen_cost (Reserve _ _ gc _) = unat gc" | "gen_cost _ = 0"

fun pos_cost :: "sync_op \<Rightarrow> nat" where
  "pos_cost (Reserve _ _ _ pc) = unat pc" | "pos_cost _ = 0"

text \<open>The counters are below the limit and stay there in the run.\<close>

definition no_wrap :: "syncService \<Rightarrow> sync_op list \<Rightarrow> bool" where
  "no_wrap s ops \<longleftrightarrow> (\<forall>sp. unat (next_gen s sp) + sum_list (map gen_cost ops) < 2 ^ 64 \<and>
     unat (next_pos s sp) + sum_list (map pos_cost ops) < 2 ^ 64)"

lemma unat_add_64: "unat (a :: 64 word) + n < 2 ^ 64 \<Longrightarrow> unat b \<le> n \<Longrightarrow> unat (a + b) = unat a + unat b"
  by (simp add: unat_word_ariths)

lemma run_op_mono:
  assumes "no_wrap s (op # ops)"
  shows "no_wrap (fst (run_op s op)) ops \<and>
    (\<forall>sp. unat (next_gen s sp) \<le> unat (next_gen (fst (run_op s op)) sp) \<and>
          unat (next_pos s sp) \<le> unat (next_pos (fst (run_op s op)) sp))"
proof (cases "\<exists>db sgoid gc pc. op = Reserve db sgoid gc pc")
  case True
  then obtain db sgoid gc pc where op: "op = Reserve db sgoid gc pc" by blast
  obtain s' g p where r: "reserveGenAndPosInternal s db sgoid gc pc = (s', g, p)" by (metis prod_cases3)
  note sp = reserve_spec[OF r]
  have b: "unat (next_gen s x) + (unat gc + sum_list (map gen_cost ops)) < 2 ^ 64"
      "unat (next_pos s x) + (unat pc + sum_list (map pos_cost ops)) < 2 ^ 64" for x
    using assms by (simp_all add: no_wrap_def op del: split_paired_All)
  have "unat (g + gc) = unat g + unat gc" "unat (p + pc) = unat p + unat pc"
    using unat_add_64[OF b(1)] unat_add_64[OF b(2)] sp by auto
  then have "unat (next_gen s' x) = (if x = (db, sgoid) then unat (next_gen s x) + unat gc else unat (next_gen s x))"
      "unat (next_pos s' x) = (if x = (db, sgoid) then unat (next_pos s x) + unat pc else unat (next_pos s x))" for x
    using sp by simp_all
  note n = this
  have "unat (next_gen s' x) + sum_list (map gen_cost ops) < 2 ^ 64 \<and> unat (next_pos s' x) + sum_list (map pos_cost ops) < 2 ^ 64" for x
    unfolding n using b[of x] by auto
  then show ?thesis by (simp add: op r no_wrap_def n del: split_paired_All)
next
  case False
  then have "gen_cost op = 0" "pos_cost op = 0" by (cases op; simp)+
  then show ?thesis using assms run_op_other[of op s] False by (auto simp: no_wrap_def)
qed

lemma reservations_above:
  "no_wrap s ops \<Longrightarrow> (sp, (g, gc), (p, pc)) \<in> set (reservations s ops) \<Longrightarrow> next_gen s sp \<le> g \<and> next_pos s sp \<le> p"
proof (induction ops arbitrary: s)
  case (Cons op ops)
  note m = run_op_mono[OF Cons.prems(1)]
  have IH: "next_gen s sp \<le> g \<and> next_pos s sp \<le> p" if "(sp, (g, gc), (p, pc)) \<in> set (reservations (fst (run_op s op)) ops)"
    using Cons.IH[OF conjunct1[OF m] that] m by (meson order_trans word_le_nat_alt)
  show ?case
  proof (cases op)
    case (Reserve db sgoid gc' pc')
    obtain s' g' p' where r: "reserveGenAndPosInternal s db sgoid gc' pc' = (s', g', p')" by (metis prod_cases3)
    then show ?thesis using Cons.prems(2) reserve_spec[OF r] IH by (auto simp: Reserve)
  qed (use Cons.prems(2) IH in auto)
qed simp

text \<open>
  C11: whatever sequence of operations the sync service runs on its counters, two reservations in the same
  space get disjoint ranges of generations and of log positions, the later one above the earlier one.
\<close>

theorem reservations_disjoint:
  assumes "no_wrap s ops"
  shows "sorted_wrt (\<lambda>(sp, (g, gc), (p, pc)) (sp', (g', gc'), (p', pc')).
      sp = sp' \<longrightarrow> unat g + unat gc \<le> unat g' \<and> unat p + unat pc \<le> unat p') (reservations s ops)"
  using assms
proof (induction ops arbitrary: s)
  case (Cons op ops)
  note m = run_op_mono[OF Cons.prems]
  show ?case
  proof (cases op)
    case (Reserve db sgoid gc pc)
    obtain s' g p where r: "reserveGenAndPosInternal s db sgoid gc pc = (s', g, p)" by (metis prod_cases3)
    note sp = reserve_spec[OF r]
    have b: "unat g + (unat gc + sum_list (map gen_cost ops)) < 2 ^ 64" "unat p + (unat pc + sum_list (map pos_cost ops)) < 2 ^ 64"
      using Cons.prems sp by (simp_all add: no_wrap_def Reserve)
    have e: "unat (next_gen s' (db, sgoid)) = unat g + unat gc" "unat (next_pos s' (db, sgoid)) = unat p + unat pc"
      using sp unat_add_64[OF b(1)] unat_add_64[OF b(2)] by simp_all
    have "unat g + unat gc \<le> unat g' \<and> unat p + unat pc \<le> unat p'"
      if "((db, sgoid), (g', gc'), (p', pc')) \<in> set (reservations s' ops)" for g' gc' p' pc'
      using reservations_above[OF _ that] m e r by (simp add: Reserve word_le_nat_alt)
    then show ?thesis using Cons.IH[OF conjunct1[OF m]] by (auto simp: Reserve r)
  qed (use Cons.IH[OF conjunct1[OF m]] in auto)
qed simp

lemma reservations_disjoint_witness:
  "sorted_wrt (\<lambda>(sp, (g, gc), (p, pc)) (sp', (g', gc'), (p', pc')).
      sp = sp' \<longrightarrow> unat g + unat gc \<le> unat g' \<and> unat p + unat pc \<le> unat p')
    (reservations \<lparr>sync_id = 7, syncState = Map.empty, sgPublishQueue = []\<rparr>
      [Reserve \<lparr>Blessing = [], Name = ''d''\<rparr> [] 3 3, Checkpoint \<lparr>Blessing = [], Name = ''d''\<rparr> [],
       Reserve \<lparr>Blessing = [], Name = ''d''\<rparr> [] 0 5, Reserve \<lparr>Blessing = [], Name = ''d''\<rparr> [] 2 2])"
  by (rule reservations_disjoint) (simp add: no_wrap_def next_gen_def next_pos_def db_state_def space_of_def new_dbSync_def new_genInfo_def)

subsection \<open>Log record keys\<close>

lemma hex_digit_inject: "a < 16 \<Longrightarrow> b < 16 \<Longrightarrow> hex_digit a = hex_digit b \<longleftrightarrow> a = b"
  by (metis hex_val_digit option.inject)

declare dec_digits.simps [simp del]

lemma dec_digits_inject: "dec_digits m = dec_digits n \<Longrightarrow> m = n"
proof (induction m arbitrary: n rule: less_induct)
  case (less m)
  have ne: "dec_digits k \<noteq> []" "[] \<noteq> dec_digits k" for k by (subst dec_digits.simps, simp)+
  show ?case
  proof (cases "m < 10")
    case True
    then have "n < 10" using less.prems ne by (auto simp: dec_digits.simps[of m] dec_digits.simps[of n] split: if_splits)
    then show ?thesis using True less.prems by (simp add: dec_digits.simps hex_digit_inject)
  next
    case False
    then have n: "\<not> n < 10" using less.prems ne by (auto simp: dec_digits.simps[of m] dec_digits.simps[of n] split: if_splits)
    with False less.prems have "dec_digits (m div 10) = dec_digits (n div 10)" "hex_digit (m mod 10) = hex_digit (n mod 10)"
      by (simp_all add: dec_digits.simps[of m] dec_digits.simps[of n])
    then have "m div 10 = n div 10" "m mod 10 = n mod 10" using less.IH[of "m div 10"] False by (simp_all add: hex_digit_inject)
    then show ?thesis by (metis div_mult_mod_eq)
  qed
qed

lemma hex_pad_inject: "hex_pad 16 (unat a) = hex_pad 16 (unat (b :: 64 word)) \<longleftrightarrow> a = b"
  by (metis parse_hex_pad option.inject)

lemma logRecKey_inject [simp]: "logRecKey pfx d g = logRecKey pfx d' g' \<longleftrightarrow> d = d' \<and> g = g'"
proof
  assume "logRecKey pfx d g = logRecKey pfx d' g'"
  then have "(dec_digits (unat d) @ [KeyPartSep]) @ hex_pad 16 (unat g) = (dec_digits (unat d') @ [KeyPartSep]) @ hex_pad 16 (unat g')"
    by (simp add: logRecKey_def JoinKeyParts_def)
  then have "dec_digits (unat d) = dec_digits (unat d')" "hex_pad 16 (unat g) = hex_pad 16 (unat g')"
    by (subst (asm) append_eq_append_conv; simp)+
  then show "d = d' \<and> g = g'" using dec_digits_inject hex_pad_inject by (metis word_unat_eq_iff)
qed simp

lemma getLogRec_put:
  "getLogRec (putLogRec tx pfx rec) pfx dev g =
     (if dev = Id (Metadata rec) \<and> g = Gen (Metadata rec) then Inr rec else getLogRec tx pfx dev g)"
  by (auto simp: getLogRec_def putLogRec_def getLogRecByKey_def)

lemma getLogRec_del:
  "getLogRec (delLogRec tx pfx dev g) pfx dev' g' =
     (if dev' = dev \<and> g' = g then Inl (ErrNoExist (logRecKey pfx dev g)) else getLogRec tx pfx dev' g')"
  by (auto simp: getLogRec_def delLogRec_def getLogRecByKey_def)

end
