(* ===== verification/Watchable.thy ===== *)
theory Watchable
  imports Sync_State
begin

text \<open>
  The watchable store, \<^verbatim>\<open>src/services/syncbase/store/watchable\<close> (\<^verbatim>\<open>util.go\<close>, \<^verbatim>\<open>transaction.go\<close>, \<^verbatim>\<open>store.go\<close>,
  \<^verbatim>\<open>stream.go\<close>, \<^verbatim>\<open>snapshot.go\<close>): keys under a managed prefix have versions, and the operations of a committed transaction are
  appended to a log in the store. The wrapped transaction is a snapshot and the writes over it, which is how the theory
  \<open>Transactions\<close> shows the engine's transactions to behave. A stream of the wrapped store is the list of the pairs that it will deliver and the error it ends with.
\<close>

subsection \<open>The wrapped transaction\<close>

record itransaction =
  snap :: dstore
  writes :: "string \<rightharpoonup> dval option"

definition view :: "itransaction \<Rightarrow> dstore" where
  "view t = (\<lambda>k. case writes t k of Some v \<Rightarrow> v | None \<Rightarrow> snap t k)"

definition i_Put :: "itransaction \<Rightarrow> string \<Rightarrow> dval \<Rightarrow> itransaction" where
  "i_Put t k v = t\<lparr>writes := (writes t)(k \<mapsto> Some v)\<rparr>"

definition i_Delete :: "itransaction \<Rightarrow> string \<Rightarrow> itransaction" where
  "i_Delete t k = t\<lparr>writes := (writes t)(k \<mapsto> None)\<rparr>"

text \<open>A commit applies the writes to what the store holds then.\<close>

definition i_apply :: "itransaction \<Rightarrow> dstore \<Rightarrow> dstore" where
  "i_apply t st = (\<lambda>k. case writes t k of Some v \<Rightarrow> v | None \<Rightarrow> st k)"

lemma view_i_Put [simp]: "view (i_Put t k v) = (view t)(k \<mapsto> v)"
  by (rule ext) (simp add: view_def i_Put_def split: option.split)

lemma view_i_Delete [simp]: "view (i_Delete t k) = (view t)(k := None)"
  by (rule ext) (simp add: view_def i_Delete_def split: option.split)

subsection \<open>Keys and versions\<close>

definition VersionPrefix :: string where "VersionPrefix = ''v''"
definition LogPrefix :: string where "LogPrefix = ''l''"
definition LogMarkerPrefix :: string where "LogMarkerPrefix = ''m''"

definition makeVersionKey :: "string \<Rightarrow> string" where
  "makeVersionKey key = JoinKeyParts [VersionPrefix, key]"

definition makeAtVersionKey :: "string \<Rightarrow> string \<Rightarrow> string" where
  "makeAtVersionKey key version = JoinKeyParts [key, version]"

text \<open>\<^verbatim>\<open>Get\<close> of the wrapped store, for values that are plain bytes.\<close>

definition get_bytes :: "dstore \<Rightarrow> string \<Rightarrow> derr + string" where
  "get_bytes st key =
     (case st key of
        None \<Rightarrow> Inl (ErrUnknownKey key)
      | Some (BytesVal b) \<Rightarrow> Inr b
      | Some _ \<Rightarrow> Inl (ErrInternal key))"

definition getVersion :: "dstore \<Rightarrow> string \<Rightarrow> derr + string" where
  "getVersion st key = get_bytes st (makeVersionKey key)"

definition getAtVersion :: "dstore \<Rightarrow> string \<Rightarrow> string \<Rightarrow> derr + string" where
  "getAtVersion st key version = get_bytes st (makeAtVersionKey key version)"

definition getVersioned :: "dstore \<Rightarrow> string \<Rightarrow> derr + string" where
  "getVersioned st key = sbind (getVersion st key) (getAtVersion st key)"

text \<open>The random number drawn for a new version is an argument.\<close>

definition NewVersion :: "64 word \<Rightarrow> string" where
  "NewVersion num = hex_digits (unat num)"

definition putVersioned :: "itransaction \<Rightarrow> 64 word \<Rightarrow> string \<Rightarrow> string \<Rightarrow> itransaction \<times> string" where
  "putVersioned tx num key v =
     (let version = NewVersion num in
      (i_Put (i_Put tx (makeVersionKey key) (BytesVal version)) (makeAtVersionKey key version) (BytesVal v), version))"

definition deleteVersioned :: "itransaction \<Rightarrow> string \<Rightarrow> itransaction" where
  "deleteVersioned tx key = i_Delete tx (makeVersionKey key)"

subsection \<open>Managed keys\<close>

definition managesKey :: "string list \<Rightarrow> string \<Rightarrow> bool" where
  "managesKey managed key \<longleftrightarrow> list_ex (\<lambda>p. prefix p key) managed"

definition limitForCompare :: "string \<Rightarrow> string" where
  "limitForCompare lim = (if lim = [] then [CHR 0xFF] else lim)"

text \<open>\<^term>\<open>None\<close> is the panic on a range that overlaps a managed prefix in part.\<close>

fun managesRange :: "(string \<Rightarrow> string) \<Rightarrow> (string \<Rightarrow> string) \<Rightarrow> string list \<Rightarrow> string \<Rightarrow> string \<Rightarrow> bool option" where
  "managesRange rangeStart rangeLimit [] start lim = Some False"
| "managesRange rangeStart rangeLimit (p # ps) start lim =
     (let ilimit = limitForCompare lim; pstart = rangeStart p; plimit = limitForCompare (rangeLimit p) in
      if pstart \<le> start \<and> ilimit \<le> plimit then Some True
      else if \<not> (plimit \<le> start \<or> ilimit \<le> pstart) then None
      else managesRange rangeStart rangeLimit ps start lim)"

subsection \<open>Streams over versioned keys\<close>

record vstream =
  iit :: "(string \<times> string) list"
  iit_err :: "derr option"
  sntx :: dstore
  v_err :: "derr option"
  hasValue :: bool
  v_key :: string
  v_value :: string

text \<open>A versioned stream scans the version keys of the range.\<close>

definition newStreamVersioned :: "(string \<Rightarrow> string \<Rightarrow> (string \<times> string) list \<times> derr option) \<Rightarrow> dstore \<Rightarrow> string \<Rightarrow> string \<Rightarrow> vstream" where
  "newStreamVersioned scan st start lim =
     (let (pairs, e) = scan (makeVersionKey start) (makeVersionKey lim) in
      \<lparr>iit = pairs, iit_err = e, sntx = st, v_err = None, hasValue = False, v_key = [], v_value = []\<rparr>)"

text \<open>\<^term>\<open>None\<close> is the fatal exit for a key without a separator.\<close>

definition vstream_Advance :: "vstream \<Rightarrow> (vstream \<times> bool) option" where
  "vstream_Advance s =
     (let s = s\<lparr>hasValue := False\<rparr> in
      if v_err s \<noteq> None then Some (s, False)
      else case iit s of
        [] \<Rightarrow> Some (s, False)
      | (versionKey, version) # pairs \<Rightarrow> do {
          key \<leftarrow> StripFirstKeyPartOrDie versionKey;
          let s = s\<lparr>iit := pairs, v_key := key\<rparr>;
          (case getAtVersion (sntx s) key version of
             Inl e \<Rightarrow> Some (s\<lparr>v_err := Some e\<rparr>, False)
           | Inr v \<Rightarrow> Some (s\<lparr>v_value := v, hasValue := True\<rparr>, True))
        })"

definition vstream_Key :: "vstream \<Rightarrow> string option" where
  "vstream_Key s = (if \<not> hasValue s then None else Some (v_key s))"

definition vstream_Value :: "vstream \<Rightarrow> string option" where
  "vstream_Value s = (if \<not> hasValue s then None else Some (v_value s))"

definition vstream_Err :: "vstream \<Rightarrow> derr option" where
  "vstream_Err s = (if v_err s \<noteq> None then v_err s else if iit s = [] then iit_err s else None)"

definition vstream_Cancel :: "vstream \<Rightarrow> vstream" where
  "vstream_Cancel s = (if v_err s \<noteq> None then s else s\<lparr>iit := [], iit_err := Some ErrCanceled\<rparr>)"

subsection \<open>Transactions\<close>

record wTransaction =
  itx :: itransaction
  managed :: "string list"
  t_err :: "derr option"
  ops :: "watch_op list"
  fromSync :: bool

definition wtx_newTransaction :: "string list \<Rightarrow> dstore \<Rightarrow> wTransaction" where
  "wtx_newTransaction mp st = \<lparr>itx = \<lparr>snap = st, writes = Map.empty\<rparr>, managed = mp, t_err = None, ops = [], fromSync = False\<rparr>"

definition wtx_Get :: "wTransaction \<Rightarrow> string \<Rightarrow> wTransaction \<times> (derr + string)" where
  "wtx_Get tx key =
     (case t_err tx of
        Some e \<Rightarrow> (tx, Inl e)
      | None \<Rightarrow>
          if \<not> managesKey (managed tx) key then (tx, get_bytes (view (itx tx)) key)
          else (tx\<lparr>ops := ops tx @ [GetOp key]\<rparr>, getVersioned (view (itx tx)) key))"

datatype wstream = RawStream "(string \<times> string) list" "derr option" | VersionedStream vstream | InvalidStream derr

definition wtx_Scan :: "(string \<Rightarrow> string) \<Rightarrow> (string \<Rightarrow> string) \<Rightarrow> (dstore \<Rightarrow> string \<Rightarrow> string \<Rightarrow> (string \<times> string) list \<times> derr option) \<Rightarrow>
    wTransaction \<Rightarrow> string \<Rightarrow> string \<Rightarrow> (wTransaction \<times> wstream) option" where
  "wtx_Scan rangeStart rangeLimit scan tx start lim =
     (case t_err tx of
        Some e \<Rightarrow> Some (tx, InvalidStream e)
      | None \<Rightarrow> do {
          manages \<leftarrow> managesRange rangeStart rangeLimit (managed tx) start lim;
          Some (if \<not> manages then (tx, case scan (view (itx tx)) start lim of (pairs, e) \<Rightarrow> RawStream pairs e)
                else (tx\<lparr>ops := ops tx @ [ScanOp start lim]\<rparr>,
                      VersionedStream (newStreamVersioned (scan (view (itx tx))) (view (itx tx)) start lim)))
        })"

definition wtx_Put :: "64 word \<Rightarrow> wTransaction \<Rightarrow> string \<Rightarrow> string \<Rightarrow> wTransaction \<times> derr option" where
  "wtx_Put num tx key v =
     (case t_err tx of
        Some e \<Rightarrow> (tx, Some e)
      | None \<Rightarrow>
          if \<not> managesKey (managed tx) key then (tx\<lparr>itx := i_Put (itx tx) key (BytesVal v)\<rparr>, None)
          else (let (t, version) = putVersioned (itx tx) num key v in
                (tx\<lparr>itx := t, ops := ops tx @ [PutOp key version]\<rparr>, None)))"

definition wtx_Delete :: "wTransaction \<Rightarrow> string \<Rightarrow> wTransaction \<times> derr option" where
  "wtx_Delete tx key =
     (case t_err tx of
        Some e \<Rightarrow> (tx, Some e)
      | None \<Rightarrow>
          if \<not> managesKey (managed tx) key then (tx\<lparr>itx := i_Delete (itx tx) key\<rparr>, None)
          else (tx\<lparr>itx := deleteVersioned (itx tx) key, ops := ops tx @ [DeleteOp key]\<rparr>, None))"

definition wtx_Abort :: "wTransaction \<Rightarrow> wTransaction \<times> derr option" where
  "wtx_Abort tx =
     (case t_err tx of
        Some e \<Rightarrow> (tx, Some e)
      | None \<Rightarrow> (tx\<lparr>t_err := Some ErrCanceled\<rparr>, None))"

definition SetTransactionFromSync :: "wTransaction \<Rightarrow> wTransaction" where
  "SetTransactionFromSync tx = tx\<lparr>fromSync := True\<rparr>"

definition wtx_GetVersion :: "wTransaction \<Rightarrow> string \<Rightarrow> derr + string" where
  "wtx_GetVersion tx key = (case t_err tx of Some e \<Rightarrow> Inl e | None \<Rightarrow> getVersion (view (itx tx)) key)"

definition wtx_GetAtVersion :: "wTransaction \<Rightarrow> string \<Rightarrow> string \<Rightarrow> derr + string" where
  "wtx_GetAtVersion tx key version = (case t_err tx of Some e \<Rightarrow> Inl e | None \<Rightarrow> getAtVersion (view (itx tx)) key version)"

definition PutAtVersion :: "wTransaction \<Rightarrow> string \<Rightarrow> string \<Rightarrow> string \<Rightarrow> wTransaction \<times> derr option" where
  "PutAtVersion tx key valbuf version =
     (case t_err tx of
        Some e \<Rightarrow> (tx, Some e)
      | None \<Rightarrow> (tx\<lparr>itx := i_Put (itx tx) (makeAtVersionKey key version) (BytesVal valbuf)\<rparr>, None))"

definition PutVersion :: "wTransaction \<Rightarrow> string \<Rightarrow> string \<Rightarrow> wTransaction \<times> derr option" where
  "PutVersion tx key version =
     (case t_err tx of
        Some e \<Rightarrow> (tx, Some e)
      | None \<Rightarrow> (tx\<lparr>itx := i_Put (itx tx) (makeVersionKey key) (BytesVal version), ops := ops tx @ [PutOp key version]\<rparr>, None))"

definition AddOp :: "wTransaction \<Rightarrow> watch_op \<Rightarrow> derr option option \<Rightarrow> wTransaction \<times> derr option" where
  "AddOp tx op precond =
     (case t_err tx of
        Some e \<Rightarrow> (tx, Some e)
      | None \<Rightarrow>
          (case precond of
             Some (Some e) \<Rightarrow> (tx, Some e)
           | _ \<Rightarrow> (tx\<lparr>ops := ops tx @ [op]\<rparr>, None)))"

text \<open>The operations that sync itself puts into the log, \<^verbatim>\<open>src/services/syncbase/watchable/transaction.go\<close>.\<close>

definition AddSyncgroupOp :: "wTransaction \<Rightarrow> string \<Rightarrow> string list \<Rightarrow> bool \<Rightarrow> wTransaction \<times> derr option" where
  "AddSyncgroupOp tx gid pfxs remove = AddOp tx (SyncgroupOp gid pfxs remove) None"

definition AddSyncSnapshotOp :: "wTransaction \<Rightarrow> string \<Rightarrow> string \<Rightarrow> wTransaction \<times> derr option" where
  "AddSyncSnapshotOp tx key version =
     AddOp tx (SyncSnapshotOp key version)
       (Some (if \<not> managesKey (managed tx) key then Some (ErrInternal key) else None))"

definition AddDbStateChangeRequestOp :: "wTransaction \<Rightarrow> StateChange \<Rightarrow> wTransaction \<times> derr option" where
  "AddDbStateChangeRequestOp tx change = AddOp tx (DbStateChangeRequestOp change) None"

end
