(* ===== verification/Watch_Log.thy ===== *)
theory Watch_Log
  imports Watchable
begin

text \<open>
  The watch log, \<^verbatim>\<open>src/services/syncbase/store/watchable/watcher.go\<close> with \<^verbatim>\<open>Commit\<close> of \<^verbatim>\<open>transaction.go\<close>, \<^verbatim>\<open>Wrap\<close> of
  \<^verbatim>\<open>store.go\<close> and \<^verbatim>\<open>RunInTransaction\<close> of \<^verbatim>\<open>util.go\<close>: a commit appends its operations as one batch, clients read the
  log batch by batch, and the end of the log is found again when a store is opened. The channels that wake up
  clients carry no data and are not modelled. Reading an entry of the log from the map of the store cannot fail otherwise than by
  its absence.
\<close>

subsection \<open>Entries of the log\<close>

definition logEntryKey :: "64 word \<Rightarrow> string" where
  "logEntryKey seq = JoinKeyParts [LogPrefix, hex_pad 16 (unat seq)]"

definition MakeResumeMarker :: "64 word \<Rightarrow> string" where
  "MakeResumeMarker seq = logEntryKey seq"

definition parseResumeMarker :: "string \<Rightarrow> derr + 64 word" where
  "parseResumeMarker resumeMarker =
     (let parts = SplitNKeyParts resumeMarker 2 in
      if length parts \<noteq> 2 then Inl (ErrUnknownResumeMarker resumeMarker)
      else case parse_hex (parts ! 1) of
        None \<Rightarrow> Inl (ErrUnknownResumeMarker resumeMarker)
      | Some seq \<Rightarrow> Inr seq)"

definition logStartSeqKey :: string where
  "logStartSeqKey = JoinKeyParts [LogMarkerPrefix, ''st'']"

definition getLogStartSeq :: "dstore \<Rightarrow> derr + 64 word" where
  "getLogStartSeq st =
     (case st logStartSeqKey of
        None \<Rightarrow> Inr 0
      | Some (SeqVal seq) \<Rightarrow> Inr seq
      | Some _ \<Rightarrow> Inl (ErrInternal logStartSeqKey))"

definition putLogStartSeq :: "string list \<Rightarrow> dstore \<Rightarrow> 64 word \<Rightarrow> derr + dstore" where
  "putLogStartSeq mp st seq =
     (if managesKey mp logStartSeqKey then Inl Panic else Inr (st(logStartSeqKey \<mapsto> SeqVal seq)))"

definition logEntryExists :: "dstore \<Rightarrow> 64 word \<Rightarrow> bool" where
  "logEntryExists st seq \<longleftrightarrow> st (logEntryKey seq) \<noteq> None"

subsection \<open>Finding the end of the log\<close>

text \<open>\<^term>\<open>None\<close> would be a loop that does not end.\<close>

partial_function (option) gallop :: "dstore \<Rightarrow> 64 word \<Rightarrow> 64 word \<Rightarrow> (64 word \<times> 64 word) option" where
  "gallop st seq step =
     (if \<not> logEntryExists st (seq + step) then Some (seq, step) else gallop st (seq + step) (step * 2))"

partial_function (option) bisect :: "dstore \<Rightarrow> 64 word \<Rightarrow> 64 word \<Rightarrow> (64 word) option" where
  "bisect st seq step =
     (if 1 < step then
        (let step = step div 2 in
         if logEntryExists st (seq + step) then bisect st (seq + step) step else bisect st seq step)
      else Some seq)"

definition getNextLogSeq :: "dstore \<Rightarrow> (derr + 64 word) option" where
  "getNextLogSeq st =
     (case getLogStartSeq st of
        Inl e \<Rightarrow> Some (Inl e)
      | Inr seq \<Rightarrow>
          if \<not> logEntryExists st seq then Some (Inr 0)
          else do {
            (seq, step) \<leftarrow> gallop st seq 1;
            seq \<leftarrow> bisect st seq step;
            Some (Inr (seq + 1))
          })"

definition GetResumeMarker :: "dstore \<Rightarrow> (derr + string) option" where
  "GetResumeMarker st = map_option (map_sum (\<lambda>e. e) logEntryKey) (getNextLogSeq st)"

subsection \<open>Clients and stores\<close>

record Client =
  prevSeq :: "64 word"
  nextSeq :: "64 word"
  c_err :: "derr option"

text \<open>Clients are named by numbers; a closed watcher has none (\<^verbatim>\<open>nil\<close> in Go).\<close>

record wwatcher =
  clients :: "(nat \<times> Client) list option"
  logStart :: "64 word"

record wStore =
  ist :: dstore
  s_managed :: "string list"
  s_seq :: "64 word"
  watcher :: wwatcher

definition newClient :: "64 word \<Rightarrow> Client" where
  "newClient seq = \<lparr>prevSeq = seq, nextSeq = seq, c_err = None\<rparr>"

definition client_stop :: "derr \<Rightarrow> Client \<Rightarrow> Client" where
  "client_stop e c = (if c_err c = None then c\<lparr>c_err := Some e\<rparr> else c)"

definition newStoppedClient :: "derr \<Rightarrow> Client" where
  "newStoppedClient e = client_stop e (newClient 0)"

definition watchable_Wrap :: "dstore \<Rightarrow> string list \<Rightarrow> (derr + wStore) option" where
  "watchable_Wrap st mp =
     (case getLogStartSeq st of
        Inl e \<Rightarrow> Some (Inl e)
      | Inr ls \<Rightarrow> do {
          r \<leftarrow> getNextLogSeq st;
          Some (sbind r (\<lambda>seq. Inr \<lparr>ist = st, s_managed = mp, s_seq = seq, watcher = \<lparr>clients = Some [], logStart = ls\<rparr>\<rparr>))
        })"

text \<open>The clients that \<^verbatim>\<open>close\<close> stops are returned with the watcher.\<close>

definition watcher_close :: "wwatcher \<Rightarrow> wwatcher \<times> (nat \<times> Client) list" where
  "watcher_close w =
     (case clients w of
        None \<Rightarrow> (w, [])
      | Some cs \<Rightarrow> (w\<lparr>clients := None\<rparr>, map (\<lambda>(i, c). (i, client_stop ErrAborted c)) cs))"

definition updateLogStartSeq :: "wStore \<Rightarrow> 64 word \<Rightarrow> wStore \<times> (derr + 64 word)" where
  "updateLogStartSeq st syncSeq =
     (case clients (watcher st) of
        None \<Rightarrow> (st, Inl ErrAborted)
      | Some cs \<Rightarrow>
          (let lsSeq = fold (\<lambda>(_, c) ls. if prevSeq c < ls then prevSeq c else ls) cs syncSeq in
           if lsSeq < logStart (watcher st) then (st, Inl (ErrInternal ''watcher or sync seq less than log start''))
           else case putLogStartSeq (s_managed st) (ist st) lsSeq of
             Inl e \<Rightarrow> (st, Inl e)
           | Inr t \<Rightarrow> (st\<lparr>ist := t, watcher := (watcher st)\<lparr>logStart := lsSeq\<rparr>\<rparr>, Inr lsSeq)))"

definition UpdateLogStart :: "wStore \<Rightarrow> string \<Rightarrow> wStore \<times> (derr + string)" where
  "UpdateLogStart st syncMarker =
     (case parseResumeMarker syncMarker of
        Inl e \<Rightarrow> (st, Inl e)
      | Inr syncSeq \<Rightarrow>
          if s_seq st < syncSeq then (st, Inl (ErrInternal ''sync seq greater than log end''))
          else (let (st, r) = updateLogStartSeq st syncSeq in (st, map_sum (\<lambda>e. e) MakeResumeMarker r)))"

text \<open>A new client is registered under the given number.\<close>

definition watchUpdates :: "wwatcher \<Rightarrow> nat \<Rightarrow> 64 word \<Rightarrow> wwatcher \<times> Client" where
  "watchUpdates w i seq =
     (case clients w of
        None \<Rightarrow> (w, newStoppedClient ErrAborted)
      | Some cs \<Rightarrow>
          if seq < logStart w then (w, newStoppedClient (ErrUnknownResumeMarker (MakeResumeMarker seq)))
          else (w\<lparr>clients := Some ((i, newClient seq) # cs)\<rparr>, newClient seq))"

definition WatchUpdates :: "wStore \<Rightarrow> nat \<Rightarrow> string \<Rightarrow> wStore \<times> Client" where
  "WatchUpdates st i resumeMarker =
     (case parseResumeMarker resumeMarker of
        Inl e \<Rightarrow> (st, newStoppedClient e)
      | Inr seq \<Rightarrow>
          if s_seq st < seq then (st, newStoppedClient (ErrUnknownResumeMarker resumeMarker))
          else (let (w, c) = watchUpdates (watcher st) i seq in (st\<lparr>watcher := w\<rparr>, c)))"

definition cancel_client :: "wwatcher \<Rightarrow> nat \<Rightarrow> wwatcher" where
  "cancel_client w i = w\<lparr>clients := map_option (AList.delete i) (clients w)\<rparr>"

subsection \<open>Reading batches\<close>

text \<open>
  The loop over the stream of the log from the given number on: the entries of the batch, the next number, and whether the end
  of the batch was seen.
\<close>

fun read_entries :: "dval list \<Rightarrow> 64 word \<Rightarrow> LogEntry list \<Rightarrow> (derr \<times> 64 word) + LogEntry list \<times> 64 word \<times> bool" where
  "read_entries [] seq logs = Inr (logs, seq, False)"
| "read_entries (v # vs) seq logs =
     (case v of
        LogVal logEnt \<Rightarrow>
          if \<not> Continued logEnt then Inr (logs @ [logEnt], seq + 1, True)
          else read_entries vs (seq + 1) (logs @ [logEnt])
      | _ \<Rightarrow> Inl (ErrInternal ''decode'', seq + 1))"

definition readBatchFromLog :: "dval list \<Rightarrow> derr option \<Rightarrow> 64 word \<Rightarrow> (derr + LogEntry list) \<times> 64 word" where
  "readBatchFromLog scan scanErr seq =
     (case read_entries scan seq [] of
        Inl (e, seq) \<Rightarrow> (Inl e, seq)
      | Inr (logs, seq, endOfBatch) \<Rightarrow>
          if endOfBatch then (Inr logs, seq)
          else case scanErr of
            Some e \<Rightarrow> (Inl e, seq)
          | None \<Rightarrow>
              if length logs > 0 then (Inl (ErrInternal ''end of batch not found''), seq) else (Inr [], seq))"

definition NextBatchFromLog :: "dval list \<Rightarrow> derr option \<Rightarrow> Client \<Rightarrow> Client \<times> (derr + LogEntry list \<times> string)" where
  "NextBatchFromLog scan scanErr c =
     (case c_err c of
        Some e \<Rightarrow> (c, Inl e)
      | None \<Rightarrow>
          (case readBatchFromLog scan scanErr (nextSeq c) of
             (Inl e, _) \<Rightarrow> (c\<lparr>c_err := Some e\<rparr>, Inl e)
           | (Inr batch, batchEndSeq) \<Rightarrow>
               (c\<lparr>prevSeq := nextSeq c, nextSeq := batchEndSeq\<rparr>, Inr (batch, MakeResumeMarker batchEndSeq))))"

subsection \<open>Commit\<close>

fun write_log :: "int \<Rightarrow> bool \<Rightarrow> watch_op list \<Rightarrow> 64 word \<Rightarrow> itransaction \<Rightarrow> 64 word \<times> itransaction" where
  "write_log now fs [] seq t = (seq, t)"
| "write_log now fs (op # os) seq t =
     write_log now fs os (seq + 1)
       (i_Put t (logEntryKey seq) (LogVal \<lparr>Op = op, CommitTimestamp = now, FromSync = fs, Continued = (os \<noteq> [])\<rparr>))"

text \<open>The clock's answer and the error of the wrapped commit, if any, are arguments.\<close>

definition wtx_Commit :: "derr + int \<Rightarrow> derr option \<Rightarrow> wStore \<Rightarrow> wTransaction \<Rightarrow> wStore \<times> wTransaction \<times> derr option" where
  "wtx_Commit clock commitErr st tx =
     (case t_err tx of
        Some e \<Rightarrow> (st, tx, Some e)
      | None \<Rightarrow>
          (let tx = tx\<lparr>t_err := Some (ErrBadState ''committed transaction'')\<rparr> in
           case clock of
             Inl e \<Rightarrow> (st, tx, Some e)
           | Inr now \<Rightarrow>
               if (2 ^ 64 - 1) - s_seq st < word_of_nat (length (ops tx)) then (st, tx, Some (ErrInternal ''seq maxed out''))
               else
                 (let (seq, t) = write_log now (fromSync tx) (ops tx) (s_seq st) (itx tx) in
                  case commitErr of
                    Some e \<Rightarrow> (st, tx\<lparr>itx := t\<rparr>, Some e)
                  | None \<Rightarrow> (st\<lparr>ist := i_apply t (ist st), s_seq := seq\<rparr>, tx\<lparr>itx := t\<rparr>, None))))"

text \<open>
  \<^verbatim>\<open>RunInTransaction\<close>: the function runs at most as often as there are attempts; what the environment does to the store between
  them, and how each commit ends, is a list with one element per attempt. The function gets the number of attempts left, so that its random
  numbers may differ.
\<close>

fun runInTransactionWithOpts :: "(derr + int) \<Rightarrow> (wStore \<Rightarrow> wStore) list \<Rightarrow> derr option list \<Rightarrow>
    (nat \<Rightarrow> wTransaction \<Rightarrow> wTransaction \<times> derr option) \<Rightarrow> nat \<Rightarrow> wStore \<Rightarrow> wStore \<times> derr option" where
  "runInTransactionWithOpts clock env outcomes fn 0 st = (st, None)"
| "runInTransactionWithOpts clock env outcomes fn (Suc n) st =
     (let (tx, e) = fn n (wtx_newTransaction (s_managed st) (ist st)) in
      case e of
        Some e \<Rightarrow> (st, Some e)
      | None \<Rightarrow>
          (let (st, tx, e) = wtx_Commit clock (case outcomes of [] \<Rightarrow> None | c # _ \<Rightarrow> c) st tx in
           if e \<noteq> Some ErrConcurrentTransaction then (st, e)
           else if n = 0 then (st, e)
           else runInTransactionWithOpts clock (tl env) (tl outcomes) fn n ((case env of [] \<Rightarrow> (\<lambda>s. s) | f # _ \<Rightarrow> f) st)))"

subsection \<open>Operations of the store\<close>

text \<open>A read is one on a snapshot; a write is a transaction of its own, tried up to a hundred times.\<close>

definition wsn_Get :: "string list \<Rightarrow> dstore \<Rightarrow> string \<Rightarrow> derr + string" where
  "wsn_Get mp isn key = (if \<not> managesKey mp key then get_bytes isn key else getVersioned isn key)"

definition wstore_Get :: "wStore \<Rightarrow> string \<Rightarrow> derr + string" where
  "wstore_Get st key =
     (if \<not> managesKey (s_managed st) key then get_bytes (ist st) key else wsn_Get (s_managed st) (ist st) key)"

definition wstore_Put :: "(derr + int) \<Rightarrow> (wStore \<Rightarrow> wStore) list \<Rightarrow> derr option list \<Rightarrow> (nat \<Rightarrow> 64 word) \<Rightarrow> wStore \<Rightarrow> string \<Rightarrow> string \<Rightarrow> wStore \<times> derr option" where
  "wstore_Put clock env outcomes nums st key v = runInTransactionWithOpts clock env outcomes (\<lambda>n tx. wtx_Put (nums n) tx key v) 100 st"

definition wstore_Delete :: "(derr + int) \<Rightarrow> (wStore \<Rightarrow> wStore) list \<Rightarrow> derr option list \<Rightarrow> wStore \<Rightarrow> string \<Rightarrow> wStore \<times> derr option" where
  "wstore_Delete clock env outcomes st key = runInTransactionWithOpts clock env outcomes (\<lambda>n tx. wtx_Delete tx key) 100 st"

definition wstore_Close :: "wStore \<Rightarrow> wStore \<times> (nat \<times> Client) list" where
  "wstore_Close st = (let (w, cs) = watcher_close (watcher st) in (st\<lparr>watcher := w\<rparr>, cs))"

end
