(* ===== verification/Watch_Log_Props.thy ===== *)
theory Watch_Log_Props
  imports Watch_Log
begin

text \<open>
  What the watch log guarantees: the search for its end at the opening of a store finds it, except when the
  log is empty behind a log start that has moved, and clients read the committed batches one by one, in the order of the
  commits.
\<close>

lemma map_sum_eq_Inr: "map_sum f g x = Inr y \<longleftrightarrow> (\<exists>z. x = Inr z \<and> y = g z)"
  by (cases x) auto

subsection \<open>Keys of the log\<close>

lemma logEntryKey_inject [simp]: "logEntryKey a = logEntryKey b \<longleftrightarrow> a = b"
  by (simp add: logEntryKey_def JoinKeyParts_def hex_pad_inject)

lemma logStartSeqKey_neq [simp]: "logStartSeqKey \<noteq> logEntryKey s" "logEntryKey s \<noteq> logStartSeqKey"
  by (simp_all add: logEntryKey_def logStartSeqKey_def JoinKeyParts_def LogPrefix_def LogMarkerPrefix_def)

lemma parse_marker [simp]: "parseResumeMarker (MakeResumeMarker seq) = Inr seq"
proof -
  have "SplitNKeyParts (MakeResumeMarker seq) 2 = [LogPrefix, hex_pad 16 (unat seq)]"
    using split_n_sep[of KeyPartSep LogPrefix 0 "hex_pad 16 (unat seq)"]
    by (simp add: MakeResumeMarker_def logEntryKey_def JoinKeyParts_def SplitNKeyParts_def LogPrefix_def KeyPartSep_def
        numeral_2_eq_2)
  then show ?thesis by (simp add: parseResumeMarker_def parse_hex_pad)
qed

lemma hex_digit_less: "a < 16 \<Longrightarrow> b < 16 \<Longrightarrow> hex_digit a < hex_digit b \<longleftrightarrow> a < b"
  by (auto simp: hex_digit_def less_char_def)

lemma lexord_append_eq_length:
  "length a = length b \<Longrightarrow> (a @ [x] :: char list) < b @ [y] \<longleftrightarrow> a < b \<or> a = b \<and> x < y"
proof (induction a b rule: list_induct2)
  case Nil
  then show ?case by simp
next
  case (Cons u us v vs)
  then show ?case by (cases u v rule: linorder_cases) auto
qed

lemma div_mod_less: "m div 16 < n div 16 \<or> m div 16 = n div 16 \<and> m mod 16 < n mod 16 \<longleftrightarrow> m < (n :: nat)"
proof -
  have l: "q < q' \<or> q = q' \<and> r < r' \<longleftrightarrow> q * 16 + r < q' * 16 + r'" if "r < 16" "r' < 16" for q q' r r' :: nat
    using that by linarith
  show ?thesis using l[of "m mod 16" "n mod 16" "m div 16" "n div 16"] by simp
qed

lemma hex_pad_less: "m < 16 ^ k \<Longrightarrow> n < 16 ^ k \<Longrightarrow> hex_pad k m < hex_pad k n \<longleftrightarrow> m < n"
proof (induction k arbitrary: m n)
  case (Suc k)
  have d: "m div 16 < 16 ^ k" "n div 16 < 16 ^ k" using Suc.prems by (simp_all add: less_mult_imp_div_less mult.commute)
  have e: "hex_pad k (m div 16) = hex_pad k (n div 16) \<longleftrightarrow> m div 16 = n div 16"
    using Suc.IH[OF d] Suc.IH[OF d(2,1)] by (metis less_irrefl linorder_neqE_nat)
  have "hex_pad (Suc k) m < hex_pad (Suc k) n \<longleftrightarrow> m div 16 < n div 16 \<or> m div 16 = n div 16 \<and> m mod 16 < n mod 16"
    using Suc.IH[OF d] e by (simp add: lexord_append_eq_length hex_digit_less)
  also have "\<dots> \<longleftrightarrow> m < n" by (rule div_mod_less)
  finally show ?case .
qed simp

lemma prefix_less: "(p @ a :: char list) < p @ b \<longleftrightarrow> a < b"
  by (induction p) auto

lemma logEntryKey_less [simp]: "logEntryKey a < logEntryKey b \<longleftrightarrow> a < b"
proof -
  have "unat a < 16 ^ 16" "unat b < 16 ^ 16" using unsigned_less[of a] unsigned_less[of b] by simp_all
  from hex_pad_less[OF this] show ?thesis
    using prefix_less[of "LogPrefix @ [KeyPartSep]"] by (simp add: logEntryKey_def JoinKeyParts_def word_less_nat_alt)
qed

subsection \<open>The end of the log\<close>

text \<open>From its start on the log has the entries below its end and no other.\<close>

definition log_range :: "dstore \<Rightarrow> 64 word \<Rightarrow> 64 word \<Rightarrow> bool" where
  "log_range st start lim \<longleftrightarrow> getLogStartSeq st = Inr start \<and> start \<le> lim \<and> (\<forall>s\<ge>start. logEntryExists st s \<longleftrightarrow> s < lim)"

lemma unat_less_64: "unat (w :: 64 word) < 2 ^ 64"
  using unsigned_less[of w] by simp

lemma unat_max_sub: "unat ((2 ^ 64 - 1) - w :: 64 word) = 2 ^ 64 - 1 - unat w"
proof -
  have "w \<le> 18446744073709551615" using unat_less_64[of w] by (simp add: word_le_nat_alt)
  from unat_sub[OF this] show ?thesis by simp
qed

lemma unat_add_small: "unat (a :: 64 word) + unat b < 2 ^ 64 \<Longrightarrow> unat (a + b) = unat a + unat b"
  using unat_add_lem[of a b] by simp

text \<open>The step stays one more than the distance from the start, hence not above the end: nothing wraps around.\<close>

lemma gallop_returns:
  assumes "log_range st start lim" "unat lim \<le> 2 ^ 63" "unat seq + 1 = unat start + unat step" "seq < lim" "1 \<le> unat step"
    "unat step = 2 ^ j"
  shows "\<exists>seq' step' k. gallop st seq step = Some (seq', step') \<and> start \<le> seq' \<and> seq' < lim \<and>
    unat lim \<le> unat seq' + unat step' \<and> unat step' = 2 ^ k \<and> unat seq' + unat step' < 2 ^ 64"
  using assms(3-6)
proof (induction "unat lim - unat seq" arbitrary: seq step j rule: less_induct)
  case less
  have s: "unat step \<le> unat seq + 1" "unat seq < unat lim" using less.prems by (simp_all add: word_less_nat_alt)
  have b: "unat seq + unat step < 2 ^ 64" using s assms(2) by simp
  note u = unat_add_small[OF b]
  have "unat start \<le> unat seq" using less.prems(1,3) by linarith
  then have ge: "start \<le> seq + step" "start \<le> seq" using u by (simp_all add: word_le_nat_alt)
  show ?case
  proof (cases "logEntryExists st (seq + step)")
    case False
    then have "unat lim \<le> unat seq + unat step" using assms(1) ge u by (simp add: log_range_def word_less_nat_alt)
    with False less.prems b ge(2) show ?thesis by (subst gallop.simps) auto
  next
    case True
    then have lt: "seq + step < lim" using assms(1) ge by (simp add: log_range_def)
    then have "unat step < 2 ^ 63" using u assms(2) by (simp add: word_less_nat_alt)
    then have "unat (step * 2) = unat step * 2" by (simp add: unat_word_ariths)
    moreover have "unat lim - unat (seq + step) < unat lim - unat seq" using u s less.prems(3) by linarith
    ultimately show ?thesis using less.hyps[of "seq + step" "step * 2" "Suc j"] less.prems lt u
      by (subst gallop.simps) (simp add: True)
  qed
qed

lemma bisect_returns:
  assumes "log_range st start lim" "start \<le> seq" "seq < lim" "unat lim \<le> unat seq + unat step" "unat step = 2 ^ k"
    "unat seq + unat step < 2 ^ 64"
  shows "bisect st seq step = Some (lim - 1)"
  using assms(2-)
proof (induction k arbitrary: seq step)
  case 0
  then have one: "step = 1" by (simp add: word_unat_eq_iff)
  moreover have "unat lim = unat (seq + 1)"
    using 0 one unat_add_small[of seq 1] by (simp add: word_less_nat_alt)
  then have "seq = lim - 1" by (simp add: word_unat_eq_iff[symmetric])
  ultimately show ?case by (subst bisect.simps) simp
next
  case (Suc k)
  have h: "unat (step div 2) = 2 ^ k" using Suc.prems(4) by (simp add: unat_div)
  have "1 < (2 :: nat) * 2 ^ k" using one_le_power[of "2 :: nat" k] by linarith
  then have gt: "1 < step" using Suc.prems(4) by (simp add: word_less_nat_alt)
  have b: "unat seq + unat (step div 2) < 2 ^ 64" using h Suc.prems(4,5) by simp
  note u = unat_add_small[OF b]
  show ?case
  proof (cases "logEntryExists st (seq + step div 2)")
    case True
    have ge: "start \<le> seq + step div 2" using Suc.prems(1) u by (simp add: word_le_nat_alt)
    from True assms(1) ge have "seq + step div 2 < lim" by (simp add: log_range_def)
    with Suc.IH[of "seq + step div 2" "step div 2"] ge u h Suc.prems gt True show ?thesis
      by (subst bisect.simps) simp
  next
    case False
    have ge: "start \<le> seq + step div 2" using Suc.prems(1) u by (simp add: word_le_nat_alt)
    from False assms(1) ge have "unat lim \<le> unat seq + unat (step div 2)" using u by (simp add: log_range_def word_less_nat_alt)
    with Suc.IH[of seq "step div 2"] h b Suc.prems gt False show ?thesis by (subst bisect.simps) simp
  qed
qed

lemma getNextLogSeq_log:
  assumes "log_range st start lim" "start < lim" "unat lim \<le> 2 ^ 63"
  shows "getNextLogSeq st = Some (Inr lim)"
proof -
  have "logEntryExists st start" "getLogStartSeq st = Inr start" using assms(1,2) by (auto simp: log_range_def)
  moreover obtain seq step k where "gallop st start 1 = Some (seq, step)" "start \<le> seq" "seq < lim"
      "unat lim \<le> unat seq + unat step" "unat step = 2 ^ k" "unat seq + unat step < 2 ^ 64"
    using gallop_returns[OF assms(1,3), of start 1 0] assms(2) by auto
  moreover from bisect_returns[OF assms(1) this(2-)] have "bisect st seq step = Some (lim - 1)" .
  ultimately show ?thesis by (simp add: getNextLogSeq_def)
qed

text \<open>
  C32: when a store is opened, the search by doubling and halving finds the end of a log that is not empty, in finitely many
  probes and without wrap-around for logs that end at \<open>2 ^ 63\<close> or before.
\<close>

theorem getNextLogSeq_finds_end:
  assumes "log_range st start lim" "start < lim" "unat lim \<le> 2 ^ 63"
  shows "getNextLogSeq st = Some (Inr lim)"
  using assms by (rule getNextLogSeq_log)

lemma getNextLogSeq_finds_end_witness:
  "getNextLogSeq [logEntryKey 0 \<mapsto> BytesVal [], logEntryKey 1 \<mapsto> BytesVal [], logEntryKey 2 \<mapsto> BytesVal []] = Some (Inr 3)"
proof -
  have "s = 0 \<or> s = 1 \<or> s = 2 \<longleftrightarrow> s < (3 :: 64 word)" for s :: "64 word"
  proof -
    have "unat s = 0 \<or> unat s = 1 \<or> unat s = 2 \<longleftrightarrow> unat s < 3" by auto
    then show ?thesis by (simp add: word_unat_eq_iff word_less_nat_alt)
  qed
  then have "log_range [logEntryKey 0 \<mapsto> BytesVal [], logEntryKey 1 \<mapsto> BytesVal [], logEntryKey 2 \<mapsto> BytesVal []] 0 3"
    by (auto simp: log_range_def getLogStartSeq_def logEntryExists_def)
  from getNextLogSeq_finds_end[OF this] show ?thesis by simp
qed

lemma updateLogStartSeq_law:
  assumes "updateLogStartSeq st syncSeq = (st', Inr ls)"
  shows "ist st' = (ist st)(logStartSeqKey \<mapsto> SeqVal ls) \<and> s_managed st' = s_managed st \<and> s_seq st' = s_seq st \<and>
    watcher st' = (watcher st)\<lparr>logStart := ls\<rparr> \<and> logStart (watcher st) \<le> ls"
  using assms by (auto simp: updateLogStartSeq_def putLogStartSeq_def Let_def split: option.splits if_splits)

lemma fold_min_le:
  "fold (\<lambda>(_, c) ls. if prevSeq c < ls then prevSeq c else ls) cs x \<le> x \<and>
   (\<forall>(i, c)\<in>set cs. fold (\<lambda>(_, c) ls. if prevSeq c < ls then prevSeq c else ls) cs x \<le> prevSeq c)"
proof (induction cs arbitrary: x)
  case (Cons a cs)
  obtain i c where a: "a = (i, c)" by fastforce
  show ?case using Cons[of "if prevSeq c < x then prevSeq c else x"] unfolding a by (auto split: if_splits)
qed simp

text \<open>
  the start of the log never moves back, and never past the marker of the sync watcher or the batch that an active client is
  working on.
\<close>

theorem log_start_behind_clients:
  assumes "updateLogStartSeq st syncSeq = (st', Inr ls)"
  shows "logStart (watcher st) \<le> logStart (watcher st') \<and> logStart (watcher st') = ls \<and> ls \<le> syncSeq \<and>
    getLogStartSeq (ist st') = Inr ls \<and> (\<forall>cs. clients (watcher st) = Some cs \<longrightarrow> (\<forall>(i, c)\<in>set cs. ls \<le> prevSeq c))"
proof -
  from assms obtain cs where cs: "clients (watcher st) = Some cs"
      and ls: "ls = fold (\<lambda>(_, c) ls. if prevSeq c < ls then prevSeq c else ls) cs syncSeq"
    by (auto simp: updateLogStartSeq_def Let_def split: option.splits if_splits sum.splits)
  from fold_min_le[of cs syncSeq] have "ls \<le> syncSeq" "\<forall>(i, c)\<in>set cs. ls \<le> prevSeq c" unfolding ls by blast+
  with cs updateLogStartSeq_law[OF assms] show ?thesis by (simp add: getLogStartSeq_def)
qed

definition one_client :: wStore where
  "one_client = \<lparr>ist = Map.empty, s_managed = [''r''], s_seq = 9,
     watcher = \<lparr>clients = Some [(0, \<lparr>prevSeq = 4, nextSeq = 6, c_err = None\<rparr>)], logStart = 1\<rparr>\<rparr>"

lemma log_start_behind_clients_witness: "\<exists>st'. updateLogStartSeq one_client 7 = (st', Inr 4) \<and> logStart (watcher st') = 4"
proof -
  have "updateLogStartSeq one_client 7 =
      (one_client\<lparr>ist := [logStartSeqKey \<mapsto> SeqVal 4], watcher := (watcher one_client)\<lparr>logStart := 4\<rparr>\<rparr>, Inr 4)"
    by (simp add: updateLogStartSeq_def one_client_def putLogStartSeq_def managesKey_def logStartSeqKey_def JoinKeyParts_def
        LogMarkerPrefix_def)
  from log_start_behind_clients[OF this] this show ?thesis by blast
qed

text \<open>
  C33: a log that is empty behind its start is not found again. If the log start has caught up with the end of the log, a store that is
  opened on the same data numbers its commits from 0, below the log start, and refuses the marker at which the sync watcher has to
  resume.
\<close>

theorem emptied_log_is_forgotten:
  assumes "UpdateLogStart st m = (st', Inr (MakeResumeMarker (s_seq st)))" "\<forall>s. logEntryExists (ist st) s \<longrightarrow> s < s_seq st"
    "0 < s_seq st"
  shows "\<exists>st''. watchable_Wrap (ist st') (s_managed st') = Some (Inr st'') \<and> s_seq st'' = 0 \<and>
    logStart (watcher st'') = s_seq st \<and>
    c_err (snd (WatchUpdates st'' i (MakeResumeMarker (s_seq st)))) = Some (ErrUnknownResumeMarker (MakeResumeMarker (s_seq st)))"
proof -
  from assms(1) obtain syncSeq where "updateLogStartSeq st syncSeq = (st', Inr (s_seq st))"
    by (auto simp: UpdateLogStart_def MakeResumeMarker_def map_sum_eq_Inr split: sum.splits if_splits prod.splits)
  from updateLogStartSeq_law[OF this] have i: "ist st' = (ist st)(logStartSeqKey \<mapsto> SeqVal (s_seq st))" by simp
  then have g: "getLogStartSeq (ist st') = Inr (s_seq st)" by (simp add: getLogStartSeq_def)
  moreover have "\<not> logEntryExists (ist st') (s_seq st)" using i assms(2) by (auto simp: logEntryExists_def)
  ultimately have "getNextLogSeq (ist st') = Some (Inr 0)" by (simp add: getNextLogSeq_def)
  with g assms(3) show ?thesis
    by (simp add: watchable_Wrap_def WatchUpdates_def newStoppedClient_def client_stop_def newClient_def)
qed

definition caught_up :: wStore where
  "caught_up = \<lparr>ist = [logEntryKey 0 \<mapsto> BytesVal []], s_managed = [''r''], s_seq = 1, watcher = \<lparr>clients = Some [], logStart = 0\<rparr>\<rparr>"

lemma emptied_log_is_forgotten_witness:
  "\<exists>st' st''. UpdateLogStart caught_up (MakeResumeMarker 1) = (st', Inr (MakeResumeMarker 1)) \<and>
     watchable_Wrap (ist st') (s_managed st') = Some (Inr st'') \<and> s_seq st'' = 0 \<and> logStart (watcher st'') = 1"
proof -
  have u: "UpdateLogStart caught_up (MakeResumeMarker 1) =
      (caught_up\<lparr>ist := (ist caught_up)(logStartSeqKey \<mapsto> SeqVal 1), watcher := (watcher caught_up)\<lparr>logStart := 1\<rparr>\<rparr>, Inr (MakeResumeMarker (s_seq caught_up)))"
    by (simp add: UpdateLogStart_def updateLogStartSeq_def caught_up_def putLogStartSeq_def managesKey_def logStartSeqKey_def
        JoinKeyParts_def LogMarkerPrefix_def)
  have "\<forall>s. logEntryExists (ist caught_up) s \<longrightarrow> s < s_seq caught_up" "0 < s_seq caught_up"
    by (auto simp: caught_up_def logEntryExists_def split: if_splits)
  from emptied_log_is_forgotten[OF u this] u show ?thesis by (auto simp: caught_up_def)
qed

subsection \<open>Commits append batches\<close>

fun entries :: "int \<Rightarrow> bool \<Rightarrow> watch_op list \<Rightarrow> LogEntry list" where
  "entries now fs [] = []"
| "entries now fs (op # os) = \<lparr>Op = op, CommitTimestamp = now, FromSync = fs, Continued = (os \<noteq> [])\<rparr> # entries now fs os"

lemma length_entries [simp]: "length (entries now fs os) = length os"
  by (induction os) auto

lemma entries_eq_Nil [simp]: "entries now fs os = [] \<longleftrightarrow> os = []"
  by (cases os) auto

definition batch_ok :: "LogEntry list \<Rightarrow> bool" where
  "batch_ok b \<longleftrightarrow> b \<noteq> [] \<and> \<not> Continued (last b) \<and> list_all Continued (butlast b)"

lemma batch_ok_entries: "os \<noteq> [] \<Longrightarrow> batch_ok (entries now fs os)"
  by (induction os) (auto simp: batch_ok_def)

text \<open>Everything under the prefix of the log is an entry, and the entries from 0 on are those of the batches.\<close>

definition log_inv :: "wStore \<Rightarrow> LogEntry list list \<Rightarrow> bool" where
  "log_inv st bs \<longleftrightarrow> unat (s_seq st) = length (concat bs) \<and> list_all batch_ok bs \<and>
     (\<forall>s. ist st (logEntryKey s) = (if s < s_seq st then Some (LogVal (concat bs ! unat s)) else None)) \<and>
     (\<forall>k. prefix (LogPrefix @ [KeyPartSep]) k \<and> ist st k \<noteq> None \<longrightarrow> (\<exists>s. k = logEntryKey s))"

lemma write_log_seq: "fst (write_log now fs os seq t) = seq + word_of_nat (length os)"
  by (induction now fs os seq t rule: write_log.induct) auto

lemma write_log_other: "\<forall>s. k \<noteq> logEntryKey s \<Longrightarrow> writes (snd (write_log now fs os seq t)) k = writes t k"
  by (induction now fs os seq t rule: write_log.induct) (auto simp: i_Put_def)

lemma write_log_at:
  assumes "unat seq + length os < 2 ^ 64"
  shows "writes (snd (write_log now fs os seq t)) (logEntryKey s) =
    (if seq \<le> s \<and> unat s < unat seq + length os then Some (Some (LogVal (entries now fs os ! (unat s - unat seq))))
     else writes t (logEntryKey s))"
  using assms
proof (induction now fs os seq t rule: write_log.induct)
  case (2 now fs op os seq t)
  have u: "unat (seq + 1) = Suc (unat seq)" using 2(2) unat_add_small[of seq 1] by simp
  have e: "s = seq \<longleftrightarrow> unat s = unat seq" by (simp add: word_unat_eq_iff)
  show ?case using 2(1) 2(2) u
    by (auto simp: i_Put_def word_le_nat_alt e nth_Cons' Suc_diff_Suc diff_Suc split: nat.split)
qed (auto simp: word_le_nat_alt)

text \<open>A transaction that leaves the keys of the log alone.\<close>

definition off_log :: "wTransaction \<Rightarrow> bool" where
  "off_log tx \<longleftrightarrow> (\<forall>k. prefix (LogPrefix @ [KeyPartSep]) k \<longrightarrow> writes (itx tx) k = None) \<and> length (ops tx) < 2 ^ 64"

lemma prefix_logEntryKey [simp]: "prefix (LogPrefix @ [KeyPartSep]) (logEntryKey s)"
  by (simp add: logEntryKey_def JoinKeyParts_def)

lemma commit_appends:
  assumes "log_inv st bs" "wtx_Commit (Inr now) None st tx = (st', tx', None)" "off_log tx"
  shows "log_inv st' (bs @ (if ops tx = [] then [] else [entries now (fromSync tx) (ops tx)]))"
proof -
  let ?es = "entries now (fromSync tx) (ops tx)"
  obtain seq t where w: "write_log now (fromSync tx) (ops tx) (s_seq st) (itx tx) = (seq, t)" by fastforce
  from assms(2) w have m: "\<not> (2 ^ 64 - 1) - s_seq st < word_of_nat (length (ops tx))"
      and st': "st' = st\<lparr>ist := i_apply t (ist st), s_seq := seq\<rparr>"
    by (auto simp: wtx_Commit_def Let_def split: option.splits if_splits)
  have n: "unat (word_of_nat (length (ops tx)) :: 64 word) = length (ops tx)" using assms(3) by (simp add: off_log_def unat_of_nat)
  have "length (ops tx) \<le> 2 ^ 64 - 1 - unat (s_seq st)" using m n unfolding word_less_nat_alt unat_max_sub by simp
  then have b: "unat (s_seq st) + length (ops tx) < 2 ^ 64" using unat_less_64[of "s_seq st"] by linarith
  have seq: "unat seq = unat (s_seq st) + length (ops tx)"
    using write_log_seq[of now "fromSync tx" "ops tx" "s_seq st" "itx tx"] w n b unat_add_small by simp
  have len: "unat (s_seq st) = length (concat bs)" using assms(1) by (simp add: log_inv_def)
  have at: "ist st' (logEntryKey s) = (if s < seq then Some (LogVal ((concat bs @ ?es) ! unat s)) else None)" for s
    using write_log_at[OF b, of now "fromSync tx" "itx tx" s] w seq len assms(1,3)
    by (auto simp: st' i_apply_def off_log_def log_inv_def nth_append word_less_nat_alt word_le_nat_alt)
  have "\<exists>s. k = logEntryKey s" if "prefix (LogPrefix @ [KeyPartSep]) k" "ist st' k \<noteq> None" for k
  proof (rule ccontr)
    assume o: "\<nexists>s. k = logEntryKey s"
    with write_log_other[of k now "fromSync tx" "ops tx" "s_seq st" "itx tx"] w have "writes t k = writes (itx tx) k" by simp
    with that assms(3) have "ist st k \<noteq> None" by (simp add: st' i_apply_def off_log_def)
    with that(1) assms(1) o show False by (auto simp: log_inv_def)
  qed
  then show ?thesis using at seq len assms(1) batch_ok_entries
    by (auto simp: log_inv_def st')
qed

subsection \<open>Clients read batch by batch\<close>

definition is_scan :: "dstore \<Rightarrow> string \<Rightarrow> string \<Rightarrow> (string \<times> dval) list \<Rightarrow> bool" where
  "is_scan st start lim kvs \<longleftrightarrow>
     sorted_wrt (<) (map fst kvs) \<and> (\<forall>k v. (k, v) \<in> set kvs \<longleftrightarrow> st k = Some v \<and> start \<le> k \<and> k < lim)"

text \<open>The limit that the v23 API gives for the prefix of the log.\<close>

definition log_limit :: "string \<Rightarrow> bool" where
  "log_limit lim \<longleftrightarrow> (\<forall>k. LogPrefix @ [KeyPartSep] \<le> k \<and> k < lim \<longleftrightarrow> prefix (LogPrefix @ [KeyPartSep]) k)"

lemma log_limitD: "log_limit lim \<Longrightarrow> LogPrefix @ [KeyPartSep] \<le> logEntryKey s \<and> logEntryKey s < lim"
  unfolding log_limit_def using prefix_logEntryKey by blast

definition log_pairs :: "LogEntry list list \<Rightarrow> 64 word \<Rightarrow> (string \<times> dval) list" where
  "log_pairs bs s = map (\<lambda>n. (logEntryKey (word_of_nat n), LogVal (concat bs ! n))) [unat s..<length (concat bs)]"

lemma is_scan_unique:
  assumes "is_scan st a b xs" "is_scan st a b ys"
  shows "xs = ys"
proof -
  have s: "set xs = set ys" using assms unfolding is_scan_def by auto
  have d: "sorted (map fst xs)" "distinct (map fst xs)" "sorted (map fst ys)" "distinct (map fst ys)"
    using assms by (simp_all add: is_scan_def strict_sorted_iff)
  show ?thesis using map_sorted_distinct_set_unique[of fst xs ys] s d by (simp add: distinct_map)
qed

lemma log_pairs_scan:
  assumes "log_inv st bs" "log_limit lim"
  shows "is_scan (ist st) (logEntryKey s) lim (log_pairs bs s)"
proof -
  let ?L = "length (concat bs)"
  have len: "unat (s_seq st) = ?L" using assms(1) by (simp add: log_inv_def)
  then have L: "?L < 2 ^ 64" using unat_less_64[of "s_seq st"] by simp
  then have u: "unat (word_of_nat n :: 64 word) = n" if "n < ?L" for n using that by (simp add: unat_of_nat)
  have "sorted_wrt (<) (map fst (log_pairs bs s))"
    unfolding log_pairs_def sorted_wrt_map map_map
    by (rule sorted_wrt_mono_rel[OF _ sorted_wrt_upt]) (auto simp: word_less_nat_alt u)
  moreover have "(k, v) \<in> set (log_pairs bs s) \<longleftrightarrow> ist st k = Some v \<and> logEntryKey s \<le> k \<and> k < lim" for k v
  proof
    assume "(k, v) \<in> set (log_pairs bs s)"
    then obtain n where n: "unat s \<le> n" "n < ?L" "k = logEntryKey (word_of_nat n)" "v = LogVal (concat bs ! n)"
      by (auto simp: log_pairs_def)
    moreover have "logEntryKey s \<le> k" using n u by (simp add: not_less[symmetric] word_less_nat_alt)
    moreover have "k < lim" using log_limitD[OF assms(2)] n(3) by simp
    ultimately show "ist st k = Some v \<and> logEntryKey s \<le> k \<and> k < lim"
      using assms(1) u len by (simp add: log_inv_def word_less_nat_alt)
  next
    assume a: "ist st k = Some v \<and> logEntryKey s \<le> k \<and> k < lim"
    from log_limitD[OF assms(2), of s] a have "prefix (LogPrefix @ [KeyPartSep]) k" using assms(2) unfolding log_limit_def by (meson order.trans)
    with a assms(1) obtain s' where k: "k = logEntryKey s'" by (auto simp: log_inv_def)
    with a assms(1) len have "unat s' < ?L" "v = LogVal (concat bs ! unat s')"
      by (auto simp: log_inv_def word_less_nat_alt split: if_splits)
    moreover have "unat s \<le> unat s'" using a k by (simp add: not_less[symmetric] word_less_nat_alt)
    ultimately have "unat s' \<in> set [unat s..<?L]" "(k, v) = (logEntryKey (word_of_nat (unat s')), LogVal (concat bs ! unat s'))"
      using k by simp_all
    then show "(k, v) \<in> set (log_pairs bs s)" unfolding log_pairs_def set_map by (rule rev_image_eqI)
  qed
  ultimately show ?thesis by (simp add: is_scan_def)
qed

lemma map_snd_log_pairs: "map snd (log_pairs bs s) = map LogVal (drop (unat s) (concat bs))"
  by (rule nth_equalityI) (auto simp: log_pairs_def)

lemma read_entries_batch:
  "batch_ok b \<Longrightarrow> read_entries (map LogVal b @ vs) seq logs = Inr (logs @ b, seq + word_of_nat (length b), True)"
proof (induction b arbitrary: seq logs)
  case (Cons e b)
  show ?case
  proof (cases "b = []")
    case False
    with Cons.prems have "Continued e" "batch_ok b" by (auto simp: batch_ok_def)
    with Cons.IH show ?thesis by (simp add: algebra_simps)
  qed (use Cons.prems in \<open>simp add: batch_ok_def\<close>)
qed (simp add: batch_ok_def)

abbreviation seq_at :: "LogEntry list list \<Rightarrow> nat \<Rightarrow> 64 word" where
  "seq_at bs i \<equiv> word_of_nat (length (concat (take i bs)))"

lemma next_batch:
  assumes "log_inv st bs" "log_limit lim" "is_scan (ist st) (logEntryKey (nextSeq c)) lim kvs" "c_err c = None"
    "nextSeq c = seq_at bs i"
  shows "NextBatchFromLog (map snd kvs) None c =
    (c\<lparr>prevSeq := nextSeq c, nextSeq := seq_at bs (Suc i)\<rparr>, Inr (if i < length bs then bs ! i else [], MakeResumeMarker (seq_at bs (Suc i))))"
proof -
  have kvs: "kvs = log_pairs bs (nextSeq c)" using is_scan_unique[OF assms(3) log_pairs_scan[OF assms(1,2)]] .
  have "length (concat (take i bs)) \<le> length (concat bs)"
    by (metis append_take_drop_id concat_append le_add1 length_append)
  then have u: "unat (nextSeq c) = length (concat (take i bs))"
    using assms(1) unat_less_64[of "s_seq st"] by (simp add: assms(5) unat_of_nat log_inv_def)
  have d: "drop (unat (nextSeq c)) (concat bs) = concat (drop i bs)"
    by (metis u append_take_drop_id append_eq_conv_conj concat_append)
  have s: "map snd kvs = map LogVal (concat (drop i bs))" by (simp add: kvs map_snd_log_pairs d)
  show ?thesis
  proof (cases "i < length bs")
    case True
    then have "concat (drop i bs) = bs ! i @ concat (drop (Suc i) bs)" by (metis Cons_nth_drop_Suc concat.simps(2))
    moreover have "batch_ok (bs ! i)" using assms(1) True by (simp add: log_inv_def list_all_length)
    moreover have "seq_at bs (Suc i) = nextSeq c + word_of_nat (length (bs ! i))"
      using True by (simp add: assms(5) take_Suc_conv_app_nth)
    ultimately show ?thesis using True assms(4)
      by (simp add: NextBatchFromLog_def s readBatchFromLog_def read_entries_batch)
  next
    case False
    with assms(4,5) show ?thesis by (simp add: NextBatchFromLog_def s readBatchFromLog_def)
  qed
qed

subsection \<open>Runs of a store\<close>

text \<open>A run with the batches that it has committed: opening, commits that end well or not, moving the log start, new clients.\<close>

inductive log_run :: "wStore \<Rightarrow> LogEntry list list \<Rightarrow> bool" where
  run_open: "watchable_Wrap st0 mp = Some (Inr st) \<Longrightarrow> \<forall>k. prefix (LogPrefix @ [KeyPartSep]) k \<longrightarrow> st0 k = None \<Longrightarrow> log_run st []"
| run_commit: "log_run st bs \<Longrightarrow> wtx_Commit (Inr now) None st tx = (st', tx', None) \<Longrightarrow> off_log tx \<Longrightarrow>
    log_run st' (bs @ (if ops tx = [] then [] else [entries now (fromSync tx) (ops tx)]))"
| run_fail: "log_run st bs \<Longrightarrow> wtx_Commit clock e st tx = (st', tx', Some err) \<Longrightarrow> log_run st' bs"
| run_start: "log_run st bs \<Longrightarrow> UpdateLogStart st m = (st', r) \<Longrightarrow> log_run st' bs"
| run_watch: "log_run st bs \<Longrightarrow> WatchUpdates st i m = (st', c) \<Longrightarrow> log_run st' bs"

lemma commit_failed: "wtx_Commit clock e st tx = (st', tx', Some err) \<Longrightarrow> st' = st"
  by (auto simp: wtx_Commit_def Let_def split: option.splits if_splits sum.splits prod.splits)

lemma updateLogStartSeq_cases:
  "updateLogStartSeq st q = (st', r) \<Longrightarrow>
   st' = st \<or> (\<exists>ls. ist st' = (ist st)(logStartSeqKey \<mapsto> SeqVal ls) \<and> s_seq st' = s_seq st)"
  by (auto simp: updateLogStartSeq_def putLogStartSeq_def Let_def split: option.splits if_splits)

lemma start_seq_not_log: "\<not> prefix (LogPrefix @ [KeyPartSep]) logStartSeqKey"
  by (simp add: logStartSeqKey_def JoinKeyParts_def LogPrefix_def LogMarkerPrefix_def)

lemma log_inv_start: "log_inv st bs \<Longrightarrow> ist st' = (ist st)(logStartSeqKey \<mapsto> SeqVal ls) \<Longrightarrow> s_seq st' = s_seq st \<Longrightarrow> log_inv st' bs"
  using start_seq_not_log by (auto simp: log_inv_def)

lemma log_run_inv: "log_run st bs \<Longrightarrow> log_inv st bs"
proof (induction rule: log_run.induct)
  case (run_open st0 mp st)
  then have n: "st0 (logEntryKey s) = None" for s by simp
  from run_open(1) obtain start where g: "getLogStartSeq st0 = Inr start" by (auto simp: watchable_Wrap_def split: sum.splits)
  have "getNextLogSeq st0 = Some (Inr 0)" by (simp add: getNextLogSeq_def g logEntryExists_def n)
  with run_open(1) g have "ist st = st0" "s_seq st = 0" by (auto simp: watchable_Wrap_def)
  with n run_open(2) show ?case by (auto simp: log_inv_def)
next
  case (run_commit st bs now tx st' tx')
  from commit_appends[OF run_commit.IH run_commit.hyps(2,3)] show ?case .
next
  case (run_fail st bs clock e tx st' tx' err)
  then show ?case using commit_failed by blast
next
  case (run_start st bs m st' r)
  then show ?case
    by (auto simp: UpdateLogStart_def split: sum.splits if_splits prod.splits
        dest!: updateLogStartSeq_cases intro: log_inv_start)
next
  case (run_watch st bs i m st' c)
  then have "ist st' = ist st" "s_seq st' = s_seq st"
    by (auto simp: WatchUpdates_def split: sum.splits if_splits prod.splits)
  with run_watch.IH show ?case by (simp add: log_inv_def)
qed

text \<open>A client that asks for the next batch again and again, with what the scan of the log delivers from a number on.\<close>

fun follow :: "nat \<Rightarrow> (64 word \<Rightarrow> (string \<times> dval) list) \<Rightarrow> Client \<Rightarrow> LogEntry list list" where
  "follow 0 scan c = []"
| "follow (Suc n) scan c =
     (case NextBatchFromLog (map snd (scan (nextSeq c))) None c of
        (c', Inr (b, _)) \<Rightarrow> b # follow n scan c'
      | (c', Inl _) \<Rightarrow> [])"

lemma follow_from:
  assumes "log_inv st bs" "log_limit lim" "\<forall>s. is_scan (ist st) (logEntryKey s) lim (scan s)" "c_err c = None" "nextSeq c = seq_at bs i"
  shows "follow n scan c = take n (drop i bs) @ replicate (n - (length bs - i)) []"
  using assms(4,5)
proof (induction n arbitrary: c i)
  case (Suc n)
  let ?c = "c\<lparr>prevSeq := nextSeq c, nextSeq := seq_at bs (Suc i)\<rparr>"
  have "follow (Suc n) scan c = (if i < length bs then bs ! i else []) # follow n scan ?c"
    using next_batch[OF assms(1,2) assms(3)[rule_format, of "nextSeq c"] Suc.prems] by simp
  moreover have "follow n scan ?c = take n (drop (Suc i) bs) @ replicate (n - (length bs - Suc i)) []"
    using Suc.IH[of ?c "Suc i"] Suc.prems(1) by simp
  ultimately show ?case by (cases "i < length bs") (auto simp: Cons_nth_drop_Suc[symmetric] Suc_diff_Suc)
qed simp

text \<open>
  C15: a client that follows the log from its beginning receives every committed transaction as one batch, in the order of the
  commits, each once and with all its operations, and then nothing.
\<close>

theorem watch_delivers_batches:
  assumes "log_run st bs" "log_limit lim" "\<forall>s. is_scan (ist st) (logEntryKey s) lim (scan s)"
  shows "follow n scan (newClient 0) = take n bs @ replicate (n - length bs) []"
  using follow_from[OF log_run_inv[OF assms(1)] assms(2,3), of "newClient 0" 0 n] by (simp add: newClient_def)

lemma char_between: "CHR 0xFE \<le> c \<and> c < CHR 0xFF \<longleftrightarrow> c = CHR 0xFE"
proof -
  have "of_char c = (254 :: nat) \<longleftrightarrow> of_char c = (of_char (CHR 0xFE) :: nat)" by simp
  also have "\<dots> \<longleftrightarrow> c = CHR 0xFE" by (rule of_char_eq_iff)
  finally show ?thesis by (auto simp: less_eq_char_def less_char_def)
qed

lemma log_limit_concrete: "log_limit [CHR ''l'', CHR 0xFF]"
proof -
  have "[CHR ''l'', CHR 0xFE] \<le> k \<and> k < [CHR ''l'', CHR 0xFF] \<longleftrightarrow> prefix [CHR ''l'', CHR 0xFE] k" for k
  proof (cases k)
    case (Cons a r)
    then show ?thesis
    proof (cases r)
      case (Cons b q)
      with \<open>k = a # r\<close> show ?thesis using char_between[of b] by (cases q) (auto simp: le_less)
    qed auto
  qed auto
  then show ?thesis by (simp add: log_limit_def LogPrefix_def KeyPartSep_def)
qed

definition two_ops :: wTransaction where
  "two_ops = \<lparr>itx = \<lparr>snap = Map.empty, writes = Map.empty\<rparr>, managed = [''r''], t_err = None,
     ops = [PutOp ''ra'' ''1'', DeleteOp ''rb''], fromSync = False\<rparr>"

lemma watch_delivers_batches_witness:
  "\<exists>st bs scan. log_run st bs \<and> bs \<noteq> [] \<and> follow 3 scan (newClient 0) = bs @ [[], []]"
proof -
  obtain st0 where st0: "watchable_Wrap Map.empty [''r''] = Some (Inr st0)" "s_seq st0 = 0"
    by (simp add: watchable_Wrap_def getLogStartSeq_def getNextLogSeq_def logEntryExists_def)
  then have r0: "log_run st0 []" by (auto intro: run_open)
  obtain st tx where c: "wtx_Commit (Inr 5) None st0 two_ops = (st, tx, None)"
    by (simp add: wtx_Commit_def two_ops_def st0(2))
  have "off_log two_ops" by (simp add: off_log_def two_ops_def)
  from run_commit[OF r0 c this] have r: "log_run st [entries 5 False [PutOp ''ra'' ''1'', DeleteOp ''rb'']]" by (simp add: two_ops_def)
  have "\<forall>s. is_scan (ist st) (logEntryKey s) [CHR ''l'', CHR 0xFF] (log_pairs [entries 5 False [PutOp ''ra'' ''1'', DeleteOp ''rb'']] s)"
    using log_pairs_scan[OF log_run_inv[OF r] log_limit_concrete] by blast
  from watch_delivers_batches[OF r log_limit_concrete this, of 3] r show ?thesis
    by (intro exI[of _ st] exI[of _ "[entries 5 False [PutOp ''ra'' ''1'', DeleteOp ''rb'']]"]) (auto simp: numeral_2_eq_2)
qed

end
