(* ===== verification/Dag.thy ===== *)
theory Dag
  imports Sync_Types
begin

text \<open>
  The version history of synced objects, \<^verbatim>\<open>src/services/syncbase/vsync/dag.go\<close>: nodes, heads and batches kept in
  the store, batches under construction in memory, and the grafting state of one sync operation.

  Go maps used as sets, or ranged over, are lists without repetition: the order is the one the loop
  happens to take.
\<close>

subsection \<open>Data\<close>

type_synonym batchSet = "64 word \<rightharpoonup> BatchInfo"

record graftInfo =
  newNodes :: "string list"
  newHeads :: "string list"
  graftNodes :: "(string \<times> 64 word) list"
  oldHeadSnap :: string

record graftMap =
  objGraft :: "string \<rightharpoonup> graftInfo"
  graft_st :: "dstore option"

definition dagNodePrefix :: string where "dagNodePrefix = JoinKeyParts [SyncPrefix, ''a'']"
definition dagHeadPrefix :: string where "dagHeadPrefix = JoinKeyParts [SyncPrefix, ''b'']"
definition dagBatchPrefix :: string where "dagBatchPrefix = JoinKeyParts [SyncPrefix, ''c'']"

subsection \<open>Access to store entries\<close>

definition nodeKey :: "string \<Rightarrow> string \<Rightarrow> string" where
  "nodeKey oid version = JoinKeyParts [dagNodePrefix, oid, version]"

definition setNode :: "dstore \<Rightarrow> string \<Rightarrow> string \<Rightarrow> DagNode \<Rightarrow> derr + dstore" where
  "setNode tx oid version node =
     (if version = NoVersion then Inl ExitFatal else Inr (tx(nodeKey oid version \<mapsto> NodeVal node)))"

definition getNode :: "dstore \<Rightarrow> string \<Rightarrow> string \<Rightarrow> derr + DagNode" where
  "getNode st oid version =
     (if version = NoVersion then Inl ExitFatal
      else case st (nodeKey oid version) of
        None \<Rightarrow> Inl (ErrNoExist (nodeKey oid version))
      | Some (NodeVal n) \<Rightarrow> Inr n
      | Some _ \<Rightarrow> Inl (ErrInternal (nodeKey oid version)))"

definition delNode :: "dstore \<Rightarrow> string \<Rightarrow> string \<Rightarrow> derr + dstore" where
  "delNode tx oid version =
     (if version = NoVersion then Inl ExitFatal else Inr (tx(nodeKey oid version := None)))"

definition hasNode :: "dstore \<Rightarrow> string \<Rightarrow> string \<Rightarrow> derr + bool" where
  "hasNode st oid version =
     (if version = NoVersion then Inl ExitFatal else Inr (st (nodeKey oid version) \<noteq> None))"

definition headKey :: "string \<Rightarrow> string" where
  "headKey oid = JoinKeyParts [dagHeadPrefix, oid]"

definition setHead :: "dstore \<Rightarrow> string \<Rightarrow> string \<Rightarrow> derr + dstore" where
  "setHead tx oid version =
     (if version = NoVersion then Inl ExitFatal else Inr (tx(headKey oid \<mapsto> VersionVal version)))"

definition getHead :: "dstore \<Rightarrow> string \<Rightarrow> derr + string" where
  "getHead st oid =
     (case st (headKey oid) of
        None \<Rightarrow> Inl (ErrNoExist (headKey oid))
      | Some (VersionVal v) \<Rightarrow> Inr v
      | Some _ \<Rightarrow> Inl (ErrInternal (headKey oid)))"

definition delHead :: "dstore \<Rightarrow> string \<Rightarrow> dstore" where
  "delHead tx oid = tx(headKey oid := None)"

definition batchKey :: "64 word \<Rightarrow> string" where
  "batchKey btid = JoinKeyParts [dagBatchPrefix, dec_digits (unat btid)]"

definition setBatch :: "dstore \<Rightarrow> 64 word \<Rightarrow> BatchInfo \<Rightarrow> derr + dstore" where
  "setBatch tx btid info =
     (if btid = NoBatchId then Inl (ErrInternal ''invalid batch id'') else Inr (tx(batchKey btid \<mapsto> BatchVal info)))"

definition getBatch :: "dstore \<Rightarrow> 64 word \<Rightarrow> derr + BatchInfo" where
  "getBatch st btid =
     (if btid = NoBatchId then Inl (ErrInternal ''invalid batch id'')
      else case st (batchKey btid) of
        None \<Rightarrow> Inl (ErrNoExist (batchKey btid))
      | Some (BatchVal i) \<Rightarrow> Inr i
      | Some _ \<Rightarrow> Inl (ErrInternal (batchKey btid)))"

definition delBatch :: "dstore \<Rightarrow> 64 word \<Rightarrow> derr + dstore" where
  "delBatch tx btid =
     (if btid = NoBatchId then Inl (ErrInternal ''invalid batch id'') else Inr (tx(batchKey btid := None)))"

definition getLogRecKey :: "dstore \<Rightarrow> string \<Rightarrow> string \<Rightarrow> derr + string" where
  "getLogRecKey st oid version = sbind (getNode st oid version) (\<lambda>node. Inr (Logrec node))"

subsection \<open>Batches under construction\<close>

definition newBatchInfo :: BatchInfo where
  "newBatchInfo = \<lparr>Objects = [], LinkedObjects = [], Count = 0\<rparr>"

text \<open>The random numbers that \<^verbatim>\<open>rand64\<close> will return are a list; \<^term>\<open>None\<close> means that all of it was used up.\<close>

fun gen_batch :: "batchSet \<Rightarrow> 64 word \<Rightarrow> 64 word list \<Rightarrow> (64 word \<times> 64 word list) option" where
  "gen_batch batches btid rands =
     (if btid = NoBatchId \<or> batches btid \<noteq> None
      then (case rands of [] \<Rightarrow> None | r # rs \<Rightarrow> gen_batch batches r rs)
      else Some (btid, rands))"

definition startBatch :: "batchSet \<Rightarrow> 64 word list \<Rightarrow> dstore \<Rightarrow> 64 word \<Rightarrow> (batchSet \<times> 64 word \<times> 64 word list) option" where
  "startBatch batches rands st btid =
     (if btid = NoBatchId then do {
        r \<leftarrow> gen_batch batches btid rands;
        Some (batches(fst r \<mapsto> newBatchInfo), fst r, snd r)
      }
      else if batches btid = None then
        (let info = (case getBatch st btid of Inl _ \<Rightarrow> newBatchInfo | Inr i \<Rightarrow> i)
         in Some (batches(btid \<mapsto> info), btid, rands))
      else Some (batches, btid, rands))"

definition addNodeToBatch :: "batchSet \<Rightarrow> 64 word \<Rightarrow> string \<Rightarrow> string \<Rightarrow> derr + batchSet" where
  "addNodeToBatch batches btid oid version =
     (if btid = NoBatchId then Inl (ErrInternal ''invalid batch id'')
      else case batches btid of
        None \<Rightarrow> Inl (ErrInternal ''unknown batch id'')
      | Some info \<Rightarrow> Inr (batches(btid \<mapsto> info\<lparr>Objects := AList.update oid version (Objects info)\<rparr>)))"

definition addLinkToBatch :: "batchSet \<Rightarrow> 64 word \<Rightarrow> string \<Rightarrow> string \<Rightarrow> derr + batchSet" where
  "addLinkToBatch batches btid oid version =
     (if btid = NoBatchId then Inl (ErrInternal ''invalid batch id'')
      else case batches btid of
        None \<Rightarrow> Inl (ErrInternal ''unknown batch id'')
      | Some info \<Rightarrow> Inr (batches(btid \<mapsto> info\<lparr>LinkedObjects := AList.update oid version (LinkedObjects info)\<rparr>)))"

definition endBatch :: "batchSet \<Rightarrow> dstore \<Rightarrow> 64 word \<Rightarrow> 64 word \<Rightarrow> derr + batchSet \<times> dstore" where
  "endBatch batches tx btid count =
     (if btid = NoBatchId \<or> count = 0 then Inl (ErrInternal ''invalid batch info'')
      else case batches btid of
        None \<Rightarrow> Inl (ErrInternal ''unknown batch id'')
      | Some info \<Rightarrow>
          if Count info \<noteq> 0 \<and> Count info \<noteq> count then Inl (ErrInternal ''wrong counts for batch'')
          else sbind (if length (Objects info) > 0 then setBatch tx btid (info\<lparr>Count := count\<rparr>) else Inr tx)
                 (\<lambda>tx'. Inr (batches(btid := None), tx')))"

subsection \<open>Grafting\<close>

definition newGraft :: "dstore option \<Rightarrow> graftMap" where
  "newGraft st = \<lparr>objGraft = Map.empty, graft_st = st\<rparr>"

definition getObjectGraftInfo :: "dstore \<Rightarrow> graftMap \<Rightarrow> string \<Rightarrow> graftMap \<times> graftInfo" where
  "getObjectGraftInfo sntx graft oid =
     (case objGraft graft oid of
        Some info \<Rightarrow> (graft, info)
      | None \<Rightarrow>
          (let st = (case graft_st graft of None \<Rightarrow> sntx | Some st \<Rightarrow> st);
               info = \<lparr>newNodes = [], newHeads = [], graftNodes = [], oldHeadSnap = NoVersion\<rparr>;
               info = (case getHead st oid of
                         Inr head \<Rightarrow> info\<lparr>newHeads := [head], oldHeadSnap := head\<rparr>
                       | Inl _ \<Rightarrow> info)
           in (graft\<lparr>objGraft := (objGraft graft)(oid \<mapsto> info)\<rparr>, info)))"

fun verify_parents :: "dstore \<Rightarrow> string \<Rightarrow> string list \<Rightarrow> (string \<times> 64 word) list \<Rightarrow> 64 word \<Rightarrow>
    derr + (string \<times> 64 word) list \<times> 64 word" where
  "verify_parents tx oid [] parentLevels level = Inr (parentLevels, level)"
| "verify_parents tx oid (parent # ps) parentLevels level =
     sbind (getNode tx oid parent) (\<lambda>pnode.
       verify_parents tx oid ps (AList.update parent (Level pnode) parentLevels)
         (if level \<le> Level pnode then Level pnode + 1 else level))"

fun graft_parents :: "(string \<times> 64 word) list \<Rightarrow> string list \<Rightarrow> graftInfo \<Rightarrow> graftInfo" where
  "graft_parents parentLevels [] info = info"
| "graft_parents parentLevels (parent # ps) info =
     (let info = (if parent \<notin> set (newNodes info)
                  then info\<lparr>graftNodes := AList.update parent (case map_of parentLevels parent of Some l \<Rightarrow> l | None \<Rightarrow> 0) (graftNodes info)\<rparr>
                  else info)
      in graft_parents parentLevels ps (info\<lparr>newHeads := removeAll parent (newHeads info)\<rparr>))"

definition addNode :: "batchSet \<Rightarrow> dstore \<Rightarrow> string \<Rightarrow> string \<Rightarrow> string \<Rightarrow> bool \<Rightarrow> string list \<Rightarrow> 64 word \<Rightarrow>
    graftMap option \<Rightarrow> derr + batchSet \<times> dstore \<times> graftMap option" where
  "addNode batches tx oid version logrec deleted parents btid graft =
     (if length parents > 2 then Inl (ErrInternal ''cannot have more than 2 parents'')
      else sbind (verify_parents tx oid parents [] 0) (\<lambda>(parentLevels, level).
        sbind (if btid \<noteq> NoBatchId then addNodeToBatch batches btid oid version else Inr batches) (\<lambda>batches.
        sbind (setNode tx oid version
                 \<lparr>Level = level, Parents = parents, Logrec = logrec, BatchId = btid, Deleted = deleted, PermId = [], PermVers = []\<rparr>) (\<lambda>tx.
          case graft of
            None \<Rightarrow> Inr (batches, tx, None)
          | Some g \<Rightarrow>
              (let (g, info) = getObjectGraftInfo tx g oid;
                   info = graft_parents parentLevels parents info;
                   info = info\<lparr>newNodes := List.insert version (newNodes info),
                               newHeads := List.insert version (newHeads info)\<rparr>
               in Inr (batches, tx, Some (g\<lparr>objGraft := (objGraft g)(oid \<mapsto> info)\<rparr>)))))))"

subsection \<open>Ancestors\<close>

fun push_parents :: "string list \<Rightarrow> string list \<Rightarrow> string list \<Rightarrow> string list \<times> string list" where
  "push_parents [] visited queue = (visited, queue)"
| "push_parents (parent # ps) visited queue =
     (if parent \<notin> set visited then push_parents ps (parent # visited) (queue @ [parent])
      else push_parents ps visited queue)"

text \<open>
  The traversal reads nodes by \<open>get\<close> in a state that its callback may change. An error of the
  callback ends it, a missing node is skipped; \<^term>\<open>None\<close> would be a loop that does not end.
\<close>

partial_function (option) ancestor_loop ::
    "('s \<Rightarrow> string \<Rightarrow> derr + DagNode) \<Rightarrow> (string \<Rightarrow> DagNode \<Rightarrow> 's \<Rightarrow> 's \<times> derr option) \<Rightarrow>
     string list \<Rightarrow> string list \<Rightarrow> 's \<Rightarrow> ('s \<times> derr option) option" where
  "ancestor_loop get callback visited queue s =
     (case queue of
        [] \<Rightarrow> Some (s, None)
      | version # q \<Rightarrow>
          (case get s version of
             Inl e \<Rightarrow> if e = ExitFatal then Some (s, Some ExitFatal) else ancestor_loop get callback visited q s
           | Inr node \<Rightarrow>
               (let (visited', q') = push_parents (Parents node) visited q;
                    (s', e) = callback version node s
                in if e \<noteq> None then Some (s', e) else ancestor_loop get callback visited' q' s')))"

definition forEachAncestor ::
    "('s \<Rightarrow> string \<Rightarrow> derr + DagNode) \<Rightarrow> string list \<Rightarrow> (string \<Rightarrow> DagNode \<Rightarrow> 's \<Rightarrow> 's \<times> derr option) \<Rightarrow>
     's \<Rightarrow> ('s \<times> derr option) option" where
  "forEachAncestor get startVersions callback s = ancestor_loop get callback startVersions startVersions s"

subsection \<open>Links and heads\<close>

definition cycle_check :: "string \<Rightarrow> string \<Rightarrow> DagNode \<Rightarrow> dstore \<Rightarrow> dstore \<times> derr option" where
  "cycle_check version v nd tx = (tx, if v = version then Some (ErrInternal ''cycle on object'') else None)"

definition addParent :: "batchSet \<Rightarrow> dstore \<Rightarrow> string \<Rightarrow> string \<Rightarrow> string \<Rightarrow> 64 word \<Rightarrow> graftMap option \<Rightarrow>
    (batchSet \<times> (derr + dstore \<times> graftMap option)) option" where
  "addParent batches tx oid version parent btid graft =
     (if version = parent then Some (batches, Inl (ErrInternal ''cannot be its own parent''))
      else case getNode tx oid version of Inl e \<Rightarrow> Some (batches, Inl e) | Inr node \<Rightarrow>
      (case getNode tx oid parent of Inl e \<Rightarrow> Some (batches, Inl e) | Inr pnode \<Rightarrow>
      (case (if btid \<noteq> NoBatchId then addLinkToBatch batches btid oid version else Inr batches) of
         Inl e \<Rightarrow> Some (batches, Inl e)
       | Inr batches \<Rightarrow> do {
           tx' \<leftarrow> (if parent \<in> set (Parents node) then Some (Inr tx)
                  else do {
                    r \<leftarrow> forEachAncestor (\<lambda>tx. getNode tx oid) (Parents pnode) (cycle_check version) tx;
                    Some (case snd r of
                            Some e \<Rightarrow> Inl e
                          | None \<Rightarrow> setNode tx oid version (node\<lparr>Parents := Parents node @ [parent]\<rparr>))
                  });
           Some (batches, sbind tx' (\<lambda>tx.
             case graft of
               None \<Rightarrow> Inr (tx, None)
             | Some g \<Rightarrow>
                 (let (g, info) = getObjectGraftInfo tx g oid;
                      nodeNew = version \<in> set (newNodes info);
                      parentNew = parent \<in> set (newNodes info);
                      info = (if nodeNew \<and> \<not> parentNew \<or> \<not> nodeNew \<and> parentNew
                              then info\<lparr>graftNodes := AList.update parent (Level pnode) (graftNodes info)\<rparr> else info);
                      info = info\<lparr>newHeads := removeAll parent (newHeads info)\<rparr>
                  in Inr (tx, Some (g\<lparr>objGraft := (objGraft g)(oid \<mapsto> info)\<rparr>)))))
         })))"

definition moveHead :: "dstore \<Rightarrow> string \<Rightarrow> string \<Rightarrow> derr + dstore" where
  "moveHead tx oid head =
     sbind (hasNode tx oid head) (\<lambda>ok.
       if \<not> ok then Inl (ErrInternal ''does not exist'') else setHead tx oid head)"

subsection \<open>Conflicts\<close>

definition pick_ancestor :: "(string \<times> 64 word) list \<Rightarrow> 64 word \<times> string" where
  "pick_ancestor gn =
     fold (\<lambda>(node, level) (maxLevel, ancestor).
             if maxLevel < level \<or> maxLevel = level \<and> ancestor < node then (level, node) else (maxLevel, ancestor))
       gn (0, NoVersion)"

definition hasConflict :: "dstore \<Rightarrow> string \<Rightarrow> graftMap option \<Rightarrow> derr + bool \<times> string \<times> string \<times> string" where
  "hasConflict st oid graft =
     (case graft of None \<Rightarrow> Inl (ErrInternal ''no DAG graft map given'') | Some g \<Rightarrow>
     (case objGraft g oid of None \<Rightarrow> Inl (ErrInternal ''has no DAG graft info'') | Some info \<Rightarrow>
       (let numHeads = length (newHeads info) in
        if numHeads < 1 \<or> numHeads > 2 then Inl (ErrInternal ''invalid count of new heads'')
        else let oldHead = (case getHead st oid of Inr h \<Rightarrow> h | Inl _ \<Rightarrow> NoVersion);
                 newHead = (if numHeads = 1 then last (newHeads info) else NoVersion) in
          if numHeads = 1 \<and> newHead = oldHeadSnap info then Inr (False, oldHead, oldHead, NoVersion)
          else if numHeads = 1 \<and> oldHead = oldHeadSnap info then Inr (False, newHead, oldHead, NoVersion)
          else let newHead = (case filter (\<lambda>h. h \<noteq> oldHeadSnap info) (newHeads info) of [] \<Rightarrow> newHead | h # _ \<Rightarrow> h) in
            if numHeads = 1 then Inr (True, newHead, oldHead, oldHeadSnap info)
            else Inr (True, newHead, oldHead, snd (pick_ancestor (graftNodes info))))))"

subsection \<open>Pruning\<close>

record prune_state =
  p_tx :: dstore
  p_batches :: batchSet
  nodeErrs :: nat
  logErrs :: nat

definition prune_callback :: "string \<Rightarrow> (dstore \<Rightarrow> string \<Rightarrow> derr + dstore) \<Rightarrow> string \<Rightarrow> DagNode \<Rightarrow>
    prune_state \<Rightarrow> prune_state \<times> derr option" where
  "prune_callback oid delLogRec v nd s =
     (let s = (if BatchId nd \<noteq> NoBatchId
               then (let info = (case p_batches s (BatchId nd) of None \<Rightarrow> newBatchInfo | Some i \<Rightarrow> i)
                     in s\<lparr>p_batches := (p_batches s)(BatchId nd \<mapsto> info\<lparr>Objects := AList.update oid v (Objects info)\<rparr>)\<rparr>)
               else s);
          s = (case delLogRec (p_tx s) (Logrec nd) of Inl _ \<Rightarrow> s\<lparr>logErrs := Suc (logErrs s)\<rparr> | Inr tx \<Rightarrow> s\<lparr>p_tx := tx\<rparr>)
      in (case delNode (p_tx s) oid v of
            Inl e \<Rightarrow> if e = ExitFatal then (s, Some ExitFatal) else (s\<lparr>nodeErrs := Suc (nodeErrs s)\<rparr>, None)
          | Inr tx \<Rightarrow> (s\<lparr>p_tx := tx\<rparr>, None)))"

definition prune :: "dstore \<Rightarrow> string \<Rightarrow> string \<Rightarrow> batchSet \<Rightarrow> (dstore \<Rightarrow> string \<Rightarrow> derr + dstore) \<Rightarrow>
    (derr + dstore \<times> batchSet) option" where
  "prune tx oid version batches delLogRec =
     (case (if version = NoVersion
            then sbind (getHead tx oid) (\<lambda>head. Inr (Some (delHead tx oid, [head])))
            else sbind (getNode tx oid version) (\<lambda>node.
              if Parents node = [] then Inr None
              else sbind (setNode tx oid version (node\<lparr>Parents := []\<rparr>)) (\<lambda>tx. Inr (Some (tx, Parents node))))) of
        Inl e \<Rightarrow> Some (Inl e)
      | Inr None \<Rightarrow> Some (Inr (tx, batches))
      | Inr (Some (tx, parents)) \<Rightarrow> do {
          r \<leftarrow> forEachAncestor (\<lambda>s. getNode (p_tx s) oid) parents (prune_callback oid delLogRec)
                 \<lparr>p_tx = tx, p_batches = batches, nodeErrs = 0, logErrs = 0\<rparr>;
          Some (if snd r = Some ExitFatal then Inl ExitFatal
                else if nodeErrs (fst r) \<noteq> 0 \<or> logErrs (fst r) \<noteq> 0
                then Inl (ErrInternal ''prune failed to delete nodes and logs:'')
                else Inr (p_tx (fst r), p_batches (fst r)))
        })"

text \<open>The batches to visit are given as a list, in the order in which the range loop takes them.\<close>

fun pruneDone :: "dstore \<Rightarrow> (64 word \<times> BatchInfo) list \<Rightarrow> derr + dstore" where
  "pruneDone tx [] = Inr tx"
| "pruneDone tx ((btid, pruneInfo) # bs) =
     sbind (getBatch tx btid) (\<lambda>info.
       let info = info\<lparr>Objects := fold AList.delete (map fst (Objects pruneInfo)) (Objects info)\<rparr> in
       sbind (if length (Objects info) > 0 then setBatch tx btid info else delBatch tx btid) (\<lambda>tx.
         pruneDone tx bs))"

definition getParentMap :: "dstore \<Rightarrow> string \<Rightarrow> graftMap option \<Rightarrow> ((string \<rightharpoonup> string list) \<times> derr option) option" where
  "getParentMap st oid graft =
     (let start = (case getHead st oid of Inr head \<Rightarrow> [head] | Inl _ \<Rightarrow> []);
          start = start @ (case graft of None \<Rightarrow> [] | Some g \<Rightarrow> (case objGraft g oid of None \<Rightarrow> [] | Some info \<Rightarrow> newHeads info))
      in forEachAncestor (\<lambda>_. getNode st oid) start (\<lambda>v nd pm. (pm(v \<mapsto> Parents nd), None)) Map.empty)"

end
