(* ===== verification/Access_Util.thy ===== *)
theory Access_Util
  imports Sync_Types
begin

text \<open>
  Access control, \<^verbatim>\<open>src/services/syncbase/common/access_util.go\<close>: authorizers by tags, and the checks that do not let
  a caller without access learn whether an object exists.

  Parameters: \<open>incl\<close> is the v23 test whether an access list admits a set of blessing names; the blessing names
  of the caller are an argument; \<open>add_pattern\<close> and \<open>typ\<close> are \<^verbatim>\<open>Permissions.Add\<close> and
  \<^verbatim>\<open>AllTypicalTags\<close> of the v23 API. The object of the hierarchy that a check is about is
  represented by the result of its \<^verbatim>\<open>GetDataWithExistAuth\<close>.
\<close>

subsection \<open>Authorizers\<close>

record anyOfTagsAuthorizer =
  auth_tags :: "string list"
  auth_perms :: Permissions

definition AnyOfTagsAuthorizer :: "string list \<Rightarrow> Permissions \<Rightarrow> anyOfTagsAuthorizer" where
  "AnyOfTagsAuthorizer tags perms = \<lparr>auth_tags = tags, auth_perms = perms\<rparr>"

definition TagAuthorizer :: "string \<Rightarrow> Permissions \<Rightarrow> anyOfTagsAuthorizer" where
  "TagAuthorizer tag perms = \<lparr>auth_tags = [tag], auth_perms = perms\<rparr>"

type_synonym acl_includes = "AccessList \<Rightarrow> string list \<Rightarrow> bool"

definition Authorize :: "acl_includes \<Rightarrow> string list \<Rightarrow> anyOfTagsAuthorizer \<Rightarrow> derr + unit" where
  "Authorize incl blessings a =
     (if \<exists>tag\<in>set (auth_tags a). (case map_of (auth_perms a) tag of Some acl \<Rightarrow> incl acl blessings | None \<Rightarrow> False)
      then Inr () else Inl ErrNoAccess)"

subsection \<open>Validation\<close>

datatype perms_err = PermsEmpty | PermsDisallowedTags "string list" | PermsNoAdmin

definition ValidatePerms :: "Permissions \<Rightarrow> string list \<Rightarrow> perms_err option" where
  "ValidatePerms perms allowTags =
     (if length perms = 0 then Some PermsEmpty
      else let disallowedTags = filter (\<lambda>tag. tag \<notin> set allowTags) (map fst perms) in
        if length disallowedTags > 0 then Some (PermsDisallowedTags (sort disallowedTags))
        else case map_of perms ''Admin'' of
          None \<Rightarrow> Some PermsNoAdmin
        | Some adminAcl \<Rightarrow> if length (In adminAcl) = 0 then Some PermsNoAdmin else None)"

definition CheckImplicitPerms :: "(string \<Rightarrow> string list \<Rightarrow> Permissions) \<Rightarrow> acl_includes \<Rightarrow> string list \<Rightarrow> wire_Id \<Rightarrow> string list \<Rightarrow>
    derr + Permissions" where
  "CheckImplicitPerms add_pattern incl bs i allowedTags =
     (let implicitPerms = add_pattern (Blessing i) allowedTags
      in sbind (Authorize incl bs (TagAuthorizer ''Admin'' implicitPerms)) (\<lambda>_. Inr implicitPerms))"

subsection \<open>Existence\<close>

definition fuzzifyErrorForExists :: "string list \<Rightarrow> acl_includes \<Rightarrow> string list \<Rightarrow> string \<Rightarrow> Permissions \<Rightarrow> Permissions option \<Rightarrow> derr option \<Rightarrow> derr option" where
  "fuzzifyErrorForExists typ incl bs name parentPerms perms originalErr =
     (if Authorize incl bs (AnyOfTagsAuthorizer [''Read'', ''Write''] parentPerms) = Inr () then originalErr
      else case perms of
        None \<Rightarrow> Some (ErrNoExistOrNoAccess name)
      | Some p \<Rightarrow>
          if Authorize incl bs (TagAuthorizer ''Resolve'' parentPerms) \<noteq> Inr () then Some (ErrNoExistOrNoAccess name)
          else if Authorize incl bs (AnyOfTagsAuthorizer typ p) \<noteq> Inr () then Some (ErrNoExistOrNoAccess name)
          else originalErr)"

text \<open>The metadata of an object, with its permissions; other values do not decode.\<close>

definition get_metadata :: "dstore \<Rightarrow> string \<Rightarrow> derr + Permissions" where
  "get_metadata st k = (case st k of
     None \<Rightarrow> Inl (ErrNoExist k)
   | Some (PermsVal p) \<Rightarrow> Inr p
   | Some (SgVal sg) \<Rightarrow> Inr (Perms (Spec sg))
   | Some _ \<Rightarrow> Inl (ErrInternal k))"

definition ExistAuthStep :: "string list \<Rightarrow> acl_includes \<Rightarrow> string list \<Rightarrow> string \<Rightarrow> Permissions \<Rightarrow> derr + Permissions \<Rightarrow> derr option" where
  "ExistAuthStep typ incl bs name parentPerms got =
     (case got of
        Inl e \<Rightarrow> fuzzifyErrorForExists typ incl bs name parentPerms None
          (Some (case e of ErrNoExist _ \<Rightarrow> ErrNoExist name | _ \<Rightarrow> e))
      | Inr p \<Rightarrow> fuzzifyErrorForExists typ incl bs name parentPerms (Some p) None)"

definition GetDataWithExistAuthStep :: "string list \<Rightarrow> acl_includes \<Rightarrow> string list \<Rightarrow> string \<Rightarrow> Permissions \<Rightarrow> dstore option \<Rightarrow> string \<Rightarrow>
    derr option \<times> Permissions option" where
  "GetDataWithExistAuthStep typ incl bs name parentPerms st k =
     (case st of
        None \<Rightarrow> (fuzzifyErrorForExists typ incl bs name parentPerms None (Some (ErrNoExist name)), None)
      | Some s \<Rightarrow> (ExistAuthStep typ incl bs name parentPerms (get_metadata s k), case get_metadata s k of Inr p \<Rightarrow> Some p | Inl _ \<Rightarrow> None))"

type_synonym permser = "derr + Permissions \<times> Permissions"

definition getDataWithExistAndParentResolveAuth :: "acl_includes \<Rightarrow> string list \<Rightarrow> permser \<Rightarrow> derr + Permissions" where
  "getDataWithExistAndParentResolveAuth incl bs obj =
     sbind obj (\<lambda>(parentPerms, perms). sbind (Authorize incl bs (TagAuthorizer ''Resolve'' parentPerms)) (\<lambda>_. Inr perms))"

definition GetPermsWithExistAndParentResolveAuth :: "acl_includes \<Rightarrow> string list \<Rightarrow> permser \<Rightarrow> derr + Permissions" where
  "GetPermsWithExistAndParentResolveAuth incl bs obj = getDataWithExistAndParentResolveAuth incl bs obj"

definition GetDataWithAuth :: "acl_includes \<Rightarrow> string list \<Rightarrow> permser \<Rightarrow> string list \<Rightarrow> derr + Permissions" where
  "GetDataWithAuth incl bs obj tags =
     sbind (getDataWithExistAndParentResolveAuth incl bs obj) (\<lambda>perms.
       sbind (Authorize incl bs (AnyOfTagsAuthorizer tags perms)) (\<lambda>_. Inr perms))"

definition GetPermsWithAuth :: "acl_includes \<Rightarrow> string list \<Rightarrow> permser \<Rightarrow> string list \<Rightarrow> derr + Permissions" where
  "GetPermsWithAuth incl bs obj tags = GetDataWithAuth incl bs obj tags"

definition ErrorToExists :: "derr option \<Rightarrow> derr + bool" where
  "ErrorToExists err = (case err of None \<Rightarrow> Inr True | Some (ErrNoExist _) \<Rightarrow> Inr False | Some e \<Rightarrow> Inl e)"

subsection \<open>Existence is not leaked\<close>

definition holds_any :: "acl_includes \<Rightarrow> string list \<Rightarrow> string list \<Rightarrow> Permissions \<Rightarrow> bool" where
  "holds_any incl bs tags perms \<longleftrightarrow> (\<exists>tag\<in>set tags. \<exists>acl. map_of perms tag = Some acl \<and> incl acl bs)"

lemma Authorize_iff: "Authorize incl bs (AnyOfTagsAuthorizer tags perms) = Inr () \<longleftrightarrow> holds_any incl bs tags perms"
  by (auto simp: Authorize_def AnyOfTagsAuthorizer_def holds_any_def split: option.splits)

lemma TagAuthorizer_any: "TagAuthorizer tag perms = AnyOfTagsAuthorizer [tag] perms"
  by (simp add: TagAuthorizer_def AnyOfTagsAuthorizer_def)

text \<open>Who may know of an object: readers and writers of its parent, and those who reach it and hold a tag on it.\<close>

definition may_know :: "string list \<Rightarrow> acl_includes \<Rightarrow> string list \<Rightarrow> Permissions \<Rightarrow> (derr + Permissions) \<Rightarrow> bool" where
  "may_know typ incl bs parentPerms got \<longleftrightarrow> holds_any incl bs [''Read'', ''Write''] parentPerms \<or>
     (\<exists>p. got = Inr p \<and> holds_any incl bs [''Resolve''] parentPerms \<and> holds_any incl bs typ p)"

text \<open>
  C24: a caller that may not know of an object gets the same answer whether or not the object exists; any other
  caller gets the truth: success if the metadata is there, and the original error otherwise.
\<close>

theorem existence_not_leaked:
  "fst (GetDataWithExistAuthStep typ incl bs name parentPerms (Some st) k) =
     (if \<not> may_know typ incl bs parentPerms (get_metadata st k) then Some (ErrNoExistOrNoAccess name)
      else case get_metadata st k of
        Inr _ \<Rightarrow> None
      | Inl (ErrNoExist _) \<Rightarrow> Some (ErrNoExist name)
      | Inl e \<Rightarrow> Some e)"
  by (auto simp: GetDataWithExistAuthStep_def ExistAuthStep_def fuzzifyErrorForExists_def may_know_def Authorize_iff TagAuthorizer_any
      split: sum.split derr.split)

lemma ValidatePerms_ok:
  "ValidatePerms perms allowTags = None \<Longrightarrow>
     fst ` set perms \<subseteq> set allowTags \<and> (\<exists>acl. map_of perms ''Admin'' = Some acl \<and> In acl \<noteq> [])"
  by (auto simp: ValidatePerms_def Let_def filter_empty_conv split: if_splits option.splits)

end
