(* ===== verification/Syncgroups.thy ===== *)
theory Syncgroups
  imports Watchable Dag Access_Util
begin

text \<open>
  Syncgroups in the store, \<^verbatim>\<open>src/services/syncbase/vsync/syncgroup.go\<close>: the entries of a syncgroup and of its versions,
  creation, new versions and deletion, and the view of all members over the databases. The group id of a syncgroup is a hash over
  encodings of the v23 API, an argument of the operations that compute it; so are the check of an id and the blob store's
  record of priorities, of which only the error matters.
\<close>

subsection \<open>Entries\<close>

definition sgIdPrefix :: string where "sgIdPrefix = JoinKeyParts [SyncPrefix, ''i'']"

definition sgIdKey :: "string \<Rightarrow> string" where
  "sgIdKey gid = JoinKeyParts [sgIdPrefix, gid]"

definition sgDataKeyByOID :: "string \<Rightarrow> string \<Rightarrow> string" where
  "sgDataKeyByOID oid version = JoinKeyParts [oid, version]"

definition getSGDataEntryByOID :: "dstore \<Rightarrow> string \<Rightarrow> string \<Rightarrow> derr + Syncgroup" where
  "getSGDataEntryByOID st sgoid version =
     (case st (sgDataKeyByOID sgoid version) of
        None \<Rightarrow> Inl (ErrNoExist (sgDataKeyByOID sgoid version))
      | Some (SgVal sg) \<Rightarrow> Inr sg
      | Some _ \<Rightarrow> Inl (ErrInternal (sgDataKeyByOID sgoid version)))"

definition getSGDataEntry :: "dstore \<Rightarrow> string \<Rightarrow> string \<Rightarrow> derr + Syncgroup" where
  "getSGDataEntry st gid version = getSGDataEntryByOID st (sgOID gid) version"

definition getSyncgroupVersion :: "dstore \<Rightarrow> string \<Rightarrow> derr + string" where
  "getSyncgroupVersion st gid = getHead st (sgOID gid)"

definition getSyncgroupByGid :: "dstore \<Rightarrow> string \<Rightarrow> derr + Syncgroup" where
  "getSyncgroupByGid st gid = sbind (getSyncgroupVersion st gid) (getSGDataEntry st gid)"

definition sgDataKey :: "string \<Rightarrow> string \<Rightarrow> string" where
  "sgDataKey gid version = sgDataKeyByOID (sgOID gid) version"

definition hasSGIdEntry :: "dstore \<Rightarrow> string \<Rightarrow> bool" where
  "hasSGIdEntry st gid \<longleftrightarrow> st (sgIdKey gid) \<noteq> None"

definition hasSGDataEntry :: "dstore \<Rightarrow> string \<Rightarrow> string \<Rightarrow> bool" where
  "hasSGDataEntry st gid version \<longleftrightarrow> st (sgDataKey gid version) \<noteq> None"

definition setSGIdEntry :: "dstore \<Rightarrow> string \<Rightarrow> SgLocalState \<Rightarrow> dstore" where
  "setSGIdEntry tx gid state = tx(sgIdKey gid \<mapsto> SgStateVal state)"

definition setSGDataEntryByOID :: "dstore \<Rightarrow> string \<Rightarrow> string \<Rightarrow> Syncgroup \<Rightarrow> dstore" where
  "setSGDataEntryByOID tx sgoid version sg = tx(sgDataKeyByOID sgoid version \<mapsto> SgVal sg)"

definition getSGIdEntry :: "dstore \<Rightarrow> string \<Rightarrow> derr + SgLocalState" where
  "getSGIdEntry st gid =
     (case st (sgIdKey gid) of
        None \<Rightarrow> Inl (ErrNoExist (sgIdKey gid))
      | Some (SgStateVal state) \<Rightarrow> Inr state
      | Some _ \<Rightarrow> Inl (ErrInternal (sgIdKey gid)))"

definition delSGIdEntry :: "dstore \<Rightarrow> string \<Rightarrow> dstore" where
  "delSGIdEntry tx gid = tx(sgIdKey gid := None)"

definition delSGDataEntry :: "dstore \<Rightarrow> string \<Rightarrow> string \<Rightarrow> dstore" where
  "delSGDataEntry tx gid version = tx(sgDataKey gid version := None)"

subsection \<open>Validation\<close>

definition verifySyncgroupSpec :: "(wire_Id \<Rightarrow> bool) \<Rightarrow> string list \<Rightarrow> SyncgroupSpec option \<Rightarrow> derr option" where
  "verifySyncgroupSpec validId allTags spec =
     (case spec of
        None \<Rightarrow> Some (ErrBadArg ''group spec not specified'')
      | Some spec \<Rightarrow>
          if length (Collections spec) = 0 then Some (ErrBadArg ''group has no collections specified'')
          else if list_ex (\<lambda>c. \<not> validId c) (Collections spec) then Some (ErrBadArg ''group has an invalid collection id'')
          else if length (remdups (Collections spec)) \<noteq> length (Collections spec)
            then Some (ErrBadArg ''group has duplicate collections specified'')
          else case ValidatePerms (Perms spec) allTags of
            Some _ \<Rightarrow> Some (ErrBadArg ''permissions'')
          | None \<Rightarrow> None)"

definition verifySyncgroup :: "(wire_Id \<Rightarrow> bool) \<Rightarrow> string list \<Rightarrow> Syncgroup option \<Rightarrow> derr option" where
  "verifySyncgroup validId allTags sg =
     (case sg of
        None \<Rightarrow> Some (ErrBadArg ''group information not specified'')
      | Some sg \<Rightarrow>
          if \<not> validId (sg_Id sg) then Some (ErrBadArg ''invalid sg id'')
          else if \<not> validId (sg_DbId sg) then Some (ErrBadArg ''invalid db id'')
          else if Creator sg = [] then Some (ErrBadArg ''creator id not specified'')
          else if SpecVersion sg = [] then Some (ErrBadArg ''group version not specified'')
          else if length (Joiners sg) = 0 then Some (ErrBadArg ''group has no joiners'')
          else verifySyncgroupSpec validId allTags (Some (Spec sg)))"

subsection \<open>New syncgroups and versions\<close>

definition newSyncgroupVersion :: "64 word \<Rightarrow> string" where
  "newSyncgroupVersion rand = hex_digits (unat rand)"

definition addSyncgroupLogRec :: "derr + int \<Rightarrow> dstore \<Rightarrow> string \<Rightarrow> string \<Rightarrow> string list \<Rightarrow> 64 word \<Rightarrow> 64 word \<Rightarrow> 64 word \<Rightarrow> derr + dstore" where
  "addSyncgroupLogRec clock tx oid version parents servId g p =
     sbind clock (\<lambda>now. Inr (putLogRec tx oid
       \<lparr>Metadata = \<lparr>Id = servId, Gen = g, RecType = 0, ObjId = oid, CurVers = version, rec_Parents = parents, UpdTime = now,
          Delete = False, rec_BatchId = NoBatchId, BatchCount = 0\<rparr>, Pos = p\<rparr>))"

text \<open>Nodes of syncgroups belong to no batch, so the batches under construction do not change.\<close>

definition updateSyncgroupVersioning :: "derr + int \<Rightarrow> 64 word \<Rightarrow> batchSet \<Rightarrow> dstore \<Rightarrow> string \<Rightarrow> string \<Rightarrow> bool \<Rightarrow> 64 word \<Rightarrow> 64 word \<Rightarrow> 64 word \<Rightarrow>
    Syncgroup \<Rightarrow> derr + dstore" where
  "updateSyncgroupVersioning clock rand batches tx gid version withLog servId g p sg =
     (let version = (if version = NoVersion then newSyncgroupVersion rand else version); oid = sgOID gid;
          tx = setSGDataEntryByOID tx oid version sg in
      sbind (case getHead tx oid of
               Inr head \<Rightarrow> Inr [head]
             | Inl e \<Rightarrow> if not_exist e then Inr [] else Inl e) (\<lambda>parents.
      sbind (if withLog then sbind (addSyncgroupLogRec clock tx oid version parents servId g p) (\<lambda>tx. Inr (tx, logRecKey oid servId g))
             else Inr (tx, [])) (\<lambda>(tx, logKey).
      sbind (addNode batches tx oid version logKey False parents NoBatchId None) (\<lambda>(_, tx, _).
        setHead tx oid version))))"

definition addSyncgroup :: "(wire_Id \<Rightarrow> bool) \<Rightarrow> string list \<Rightarrow> (wire_Id \<Rightarrow> wire_Id \<Rightarrow> string) \<Rightarrow> (string \<Rightarrow> derr option) \<Rightarrow>
    derr + int \<Rightarrow> 64 word \<Rightarrow> batchSet \<Rightarrow> dstore \<Rightarrow> string \<Rightarrow> bool \<Rightarrow> string \<Rightarrow> GenVector \<Rightarrow> 64 word \<Rightarrow> 64 word \<Rightarrow> 64 word \<Rightarrow> Syncgroup option \<Rightarrow>
    derr + dstore" where
  "addSyncgroup validId allTags toGid setPerSyncgroup clock rand batches tx version creator remotePublisher genvec servId g p sgp =
     (case verifySyncgroup validId allTags sgp of
        Some e \<Rightarrow> Inl e
      | None \<Rightarrow>
          (let sg = the sgp; gid = toGid (sg_DbId sg) (sg_Id sg) in
           if hasSGIdEntry tx gid then Inl (ErrExist ''group id already exists'')
           else case setPerSyncgroup gid of
             Some e \<Rightarrow> Inl e
           | None \<Rightarrow>
               (let state = \<lparr>NumLocalJoiners = (if remotePublisher = [] then 1 else 0), Watched = False, RemotePublisher = remotePublisher,
                             SyncPending = (\<not> creator), PendingGenVec = genvec\<rparr>;
                    tx = setSGIdEntry tx gid state in
                if hasSGDataEntry tx gid version then Inl (ErrExist ''group id version already exists'')
                else updateSyncgroupVersioning clock rand batches tx gid version creator servId g p sg)))"

subsection \<open>Deletion\<close>

definition del_sg_version :: "string \<Rightarrow> string \<Rightarrow> DagNode \<Rightarrow> dstore \<Rightarrow> dstore \<times> derr option" where
  "del_sg_version gid v nd tx = (delSGDataEntry tx gid v, None)"

definition del_sg_logrec :: "dstore \<Rightarrow> string \<Rightarrow> derr + dstore" where
  "del_sg_logrec tx lr = (if lr \<noteq> [] then Inr (tx(lr := None)) else Inr tx)"

text \<open>\<open>order\<close> is the order in which the range loop of \<^verbatim>\<open>pruneDone\<close> takes the batches.\<close>

definition delSyncgroupBySgId :: "64 word list \<Rightarrow> dstore \<Rightarrow> string \<Rightarrow> (derr + dstore) option" where
  "delSyncgroupBySgId order tx gid =
     (case getSyncgroupVersion tx gid of
        Inl e \<Rightarrow> Some (Inl e)
      | Inr version \<Rightarrow> do {
          (tx, e) \<leftarrow> forEachAncestor (\<lambda>tx. getNode tx (sgOID gid)) [version] (del_sg_version gid) (delSGIdEntry tx gid);
          (case e of
             Some e \<Rightarrow> Some (Inl e)
           | None \<Rightarrow> do {
               r \<leftarrow> prune tx (sgOID gid) NoVersion Map.empty del_sg_logrec;
               Some (sbind r (\<lambda>(tx, bset). pruneDone tx (map (\<lambda>b. (b, the (bset b))) (filter (\<lambda>b. bset b \<noteq> None) order))))
             })
        })"

definition delSyncgroupByGid :: "(wire_Id \<Rightarrow> wire_Id \<Rightarrow> string) \<Rightarrow> 64 word list \<Rightarrow> dstore \<Rightarrow> string \<Rightarrow> (derr + dstore) option" where
  "delSyncgroupByGid toGid order tx gid =
     (case getSyncgroupByGid tx gid of
        Inl e \<Rightarrow> Some (Inl e)
      | Inr sg \<Rightarrow> delSyncgroupBySgId order tx (toGid (sg_DbId sg) (sg_Id sg)))"

subsection \<open>Members\<close>

type_synonym sgMember = "(string \<times> SyncgroupMemberState) list"

record memberInfo =
  db2sg :: "(wire_Id \<times> sgMember) list"
  mtTables :: "string list"

text \<open>One member of a syncgroup, and all of them.\<close>

definition refresh_member :: "string \<Rightarrow> Syncgroup \<Rightarrow> wire_Id \<Rightarrow> string \<times> SyncgroupMemberState \<Rightarrow> (string \<times> memberInfo) list \<Rightarrow> (string \<times> memberInfo) list" where
  "refresh_member gid sg db = (\<lambda>(member, info) newMembers.
     let mi = (case map_of newMembers member of Some mi \<Rightarrow> mi | None \<Rightarrow> \<lparr>db2sg = [], mtTables = []\<rparr>);
         sgm = (case map_of (db2sg mi) db of Some m \<Rightarrow> m | None \<Rightarrow> []);
         mi = mi\<lparr>db2sg := AList.update db (AList.update gid info sgm) (db2sg mi),
                 mtTables := fold List.insert (MountTables (Spec sg)) (mtTables mi)\<rparr>
     in AList.update member mi newMembers)"

definition refreshSyncgroupMembers :: "string \<Rightarrow> Syncgroup \<Rightarrow> wire_Id \<Rightarrow> (string \<times> memberInfo) list \<Rightarrow> (string \<times> memberInfo) list" where
  "refreshSyncgroupMembers gid sg db newMembers = fold (refresh_member gid sg db) (Joiners sg) newMembers"

text \<open>
  The syncgroups of a store, from the keys that the scan of the id entries delivers; a key or syncgroup that cannot be read is
  skipped.
\<close>

definition forEachSyncgroup :: "dstore \<Rightarrow> string list \<Rightarrow> (string \<times> Syncgroup) list" where
  "forEachSyncgroup st keys =
     List.map_filter (\<lambda>key. case sgID key of
        None \<Rightarrow> None
      | Some gid \<Rightarrow> (case getSyncgroupByGid st gid of Inl _ \<Rightarrow> None | Inr sg \<Rightarrow> Some (gid, sg))) keys"

record memberView =
  expiration :: int
  members :: "(string \<times> memberInfo) list"

definition refreshMembersIfExpired :: "int \<Rightarrow> int \<Rightarrow> (wire_Id \<times> dstore \<times> string list) list \<Rightarrow> memberView option \<Rightarrow> memberView" where
  "refreshMembersIfExpired now ttl dbs allMembers =
     (let v = (case allMembers of Some v \<Rightarrow> v | None \<Rightarrow> \<lparr>expiration = 0, members = []\<rparr>) in
      if now < expiration v then v
      else \<lparr>expiration = now + ttl,
            members = fold (\<lambda>(db, st, keys). fold (\<lambda>(gid, sg). refreshSyncgroupMembers gid sg db) (forEachSyncgroup st keys)) dbs []\<rparr>)"

definition getMembers :: "int \<Rightarrow> int \<Rightarrow> (wire_Id \<times> dstore \<times> string list) list \<Rightarrow> memberView option \<Rightarrow> memberView \<times> (string \<times> 32 word) list" where
  "getMembers now ttl dbs allMembers =
     (let v = refreshMembersIfExpired now ttl dbs allMembers in
      (v, map (\<lambda>(member, info). (member, word_of_nat (sum_list (map (\<lambda>(_, sgmi). length sgmi) (db2sg info))))) (members v)))"

definition copyMemberInfo :: "memberView \<Rightarrow> string \<Rightarrow> memberInfo option" where
  "copyMemberInfo v member = map_of (members v) member"

end
