(* ===== verification/Sync_Watcher.thy ===== *)
theory Sync_Watcher
  imports Watch_Log Syncgroups
begin

text \<open>
  The sync watcher, \<^verbatim>\<open>src/services/syncbase/vsync/watcher.go\<close>: it reads the watch log of a database batch by batch, and
  turns the updates of synced objects into nodes of the version history and log records, in one transaction with
  the marker where to resume. The blob references in a value are handled by \<^verbatim>\<open>processBlobRefs\<close> (\<^verbatim>\<open>blob.go\<close>), an
  argument here, of which only the error matters.
\<close>

subsection \<open>Watched prefixes\<close>

type_synonym sgPrefixes = "(string \<times> string list) list"
type_synonym watchPrefixes = "wire_Id \<rightharpoonup> sgPrefixes"

definition addWatchPrefixSyncgroup :: "watchPrefixes \<Rightarrow> wire_Id \<Rightarrow> string \<Rightarrow> string \<Rightarrow> watchPrefixes" where
  "addWatchPrefixSyncgroup wp db pfx gid =
     (case wp db of
        Some pfxs \<Rightarrow>
          (case map_of pfxs pfx of
             Some sgset \<Rightarrow> wp(db \<mapsto> AList.update pfx (List.insert gid sgset) pfxs)
           | None \<Rightarrow> wp(db \<mapsto> AList.update pfx [gid] pfxs))
      | None \<Rightarrow> wp(db \<mapsto> [(pfx, [gid])]))"

definition rmWatchPrefixSyncgroup :: "watchPrefixes \<Rightarrow> wire_Id \<Rightarrow> string \<Rightarrow> string \<Rightarrow> watchPrefixes" where
  "rmWatchPrefixSyncgroup wp db pfx gid =
     (case wp db of
        None \<Rightarrow> wp
      | Some pfxs \<Rightarrow>
          (case map_of pfxs pfx of
             None \<Rightarrow> wp
           | Some sgset \<Rightarrow>
               (let sgset = removeAll gid sgset in
                if sgset \<noteq> [] then wp(db \<mapsto> AList.update pfx sgset pfxs)
                else let pfxs = AList.delete pfx pfxs in if pfxs \<noteq> [] then wp(db \<mapsto> pfxs) else wp(db := None))))"

text \<open>\<^term>\<open>None\<close> is the fatal exit for a key of one part.\<close>

definition syncable :: "watchPrefixes \<Rightarrow> wire_Id \<Rightarrow> string \<Rightarrow> bool option" where
  "syncable wp db key =
     map_option (\<lambda>key. list_ex (\<lambda>(p, _). prefix p key) (case wp db of Some pfxs \<Rightarrow> pfxs | None \<Rightarrow> [])) (StripFirstKeyPartOrDie key)"

subsection \<open>Resume markers and local state\<close>

definition resMarkKey :: string where "resMarkKey = JoinKeyParts [SyncPrefix, ''w'', ''rm'']"

definition setResMark :: "dstore \<Rightarrow> string \<Rightarrow> dstore" where
  "setResMark tx resMark = tx(resMarkKey \<mapsto> BytesVal resMark)"

definition getResMark :: "dstore \<Rightarrow> derr + string" where
  "getResMark st =
     (case st resMarkKey of
        None \<Rightarrow> Inl (ErrNoExist resMarkKey)
      | Some (BytesVal m) \<Rightarrow> Inr m
      | Some _ \<Rightarrow> Inl (ErrInternal resMarkKey))"

definition setSyncgroupWatchable :: "dstore \<Rightarrow> string \<Rightarrow> bool \<Rightarrow> derr + dstore" where
  "setSyncgroupWatchable tx gid remove =
     sbind (getSGIdEntry tx gid) (\<lambda>state. Inr (setSGIdEntry tx gid (state\<lparr>Watched := \<not> remove\<rparr>)))"

subsection \<open>From log entries to records\<close>

text \<open>The random number is used for the version of a deletion.\<close>

definition convertLogRecord :: "64 word \<Rightarrow> 64 word \<Rightarrow> LogEntry \<Rightarrow> derr + LocalLogRec option" where
  "convertLogRecord syncId num logEnt =
     (let mk = (\<lambda>key version deleted. Inr (Some
                 \<lparr>Metadata = \<lparr>Id = syncId, Gen = 0, RecType = 0, ObjId = key, CurVers = version, rec_Parents = [],
                    UpdTime = CommitTimestamp logEnt, Delete = deleted, rec_BatchId = 0, BatchCount = 0\<rparr>, Pos = 0\<rparr>)) in
      case Op logEnt of
        PutOp key version \<Rightarrow> mk key version False
      | SyncSnapshotOp key version \<Rightarrow> mk key version False
      | DeleteOp key \<Rightarrow> mk key (NewVersion num) True
      | GetOp _ \<Rightarrow> Inr None
      | ScanOp _ _ \<Rightarrow> Inr None
      | SyncgroupOp _ _ _ \<Rightarrow> Inr None
      | _ \<Rightarrow> Inl (ErrInternal ''cannot convert unknown watch log entry''))"

text \<open>The entry at a place of the batch uses the random number at that place. The outer option is the fatal exit of \<open>syncable\<close>.\<close>

fun convert_logs :: "64 word \<Rightarrow> watchPrefixes \<Rightarrow> wire_Id \<Rightarrow> (LogEntry \<times> 64 word) list \<Rightarrow> (derr + LocalLogRec list) option" where
  "convert_logs syncId wp db [] = Some (Inr [])"
| "convert_logs syncId wp db ((e, num) # es) =
     (if FromSync e then convert_logs syncId wp db es
      else case convertLogRecord syncId num e of
        Inl err \<Rightarrow> Some (Inl err)
      | Inr None \<Rightarrow> convert_logs syncId wp db es
      | Inr (Some rec) \<Rightarrow> do {
          ok \<leftarrow> syncable wp db (ObjId (Metadata rec));
          r \<leftarrow> convert_logs syncId wp db es;
          Some (if ok then sbind r (\<lambda>rs. Inr (rec # rs)) else r)
        })"

fun fixupLogRecordBatch :: "dstore \<Rightarrow> LocalLogRec list \<Rightarrow> bool \<Rightarrow> derr + LocalLogRec list" where
  "fixupLogRecordBatch tx [] appBatch = Inr []"
| "fixupLogRecordBatch tx (rec # recs) appBatch =
     (let m = Metadata rec in
      case hasNode tx (ObjId m) (CurVers m) of
        Inl e \<Rightarrow> Inl e
      | Inr True \<Rightarrow> if appBatch then Inl (ErrInternal ''duplicate log record'') else fixupLogRecordBatch tx recs appBatch
      | Inr False \<Rightarrow>
          (case getHead tx (ObjId m) of
             Inr head \<Rightarrow> sbind (fixupLogRecordBatch tx recs appBatch) (\<lambda>rs. Inr (rec\<lparr>Metadata := m\<lparr>rec_Parents := [head]\<rparr>\<rparr> # rs))
           | Inl e \<Rightarrow>
               if Delete m \<or> \<not> not_exist e then Inl (ErrInternal ''cannot getHead to fixup log record'')
               else sbind (fixupLogRecordBatch tx recs appBatch) (\<lambda>rs. Inr (rec\<lparr>Metadata := m\<lparr>rec_Parents := []\<rparr>\<rparr> # rs))))"

subsection \<open>Applying a batch\<close>

definition processLocalLogRec :: "batchSet \<Rightarrow> dstore \<Rightarrow> LocalLogRec \<Rightarrow> derr + batchSet \<times> dstore" where
  "processLocalLogRec batches tx rec =
     (let m = Metadata rec; tx = putLogRec tx logDataPrefix rec; logKey = logRecKey logDataPrefix (Id m) (Gen m) in
      sbind (addNode batches tx (ObjId m) (CurVers m) logKey (Delete m) (rec_Parents m) (rec_BatchId m) None) (\<lambda>(batches, tx, _).
        sbind (moveHead tx (ObjId m) (CurVers m)) (\<lambda>tx. Inr (batches, tx))))"

fun process_recs :: "64 word \<Rightarrow> 64 word \<Rightarrow> 64 word \<Rightarrow> 64 word \<Rightarrow> LocalLogRec list \<Rightarrow> batchSet \<Rightarrow> dstore \<Rightarrow> derr + batchSet \<times> dstore" where
  "process_recs g p btid cnt [] batches tx = Inr (batches, tx)"
| "process_recs g p btid cnt (rec # recs) batches tx =
     (let rec = rec\<lparr>Metadata := (Metadata rec)\<lparr>Gen := g, rec_BatchId := btid, BatchCount := cnt\<rparr>, Pos := p\<rparr> in
      case processLocalLogRec batches tx rec of
        Inl e \<Rightarrow> Inl (ErrInternal ''process'')
      | Inr (batches, tx) \<Rightarrow> process_recs (g + 1) (p + 1) btid cnt recs batches tx)"

text \<open>What the sync service changes while it processes a batch: generations and positions, batches, random numbers.\<close>

record sync_mem =
  w_sync :: syncService
  w_batches :: batchSet
  w_rands :: "64 word list"

definition process_started :: "sync_mem \<Rightarrow> wire_Id \<Rightarrow> LocalLogRec list \<Rightarrow> 64 word \<Rightarrow> 64 word \<Rightarrow> dstore \<Rightarrow> sync_mem \<times> (derr + dstore)" where
  "process_started s db batch btid totalCount tx =
     (let (sync, g, p) = reserveGenAndPosInDbLog (w_sync s) db [] (word_of_nat (length batch)); s = s\<lparr>w_sync := sync\<rparr> in
      case process_recs g p btid totalCount batch (w_batches s) tx of
        Inl e \<Rightarrow> (s, Inl e)
      | Inr (bs, tx) \<Rightarrow>
          if btid \<noteq> NoBatchId
          then (case endBatch bs tx btid totalCount of
                  Inl e \<Rightarrow> (s\<lparr>w_batches := bs\<rparr>, Inl e)
                | Inr (bs, tx) \<Rightarrow> (s\<lparr>w_batches := bs\<rparr>, Inr tx))
          else (s\<lparr>w_batches := bs\<rparr>, Inr tx))"

definition processBatch :: "sync_mem \<Rightarrow> wire_Id \<Rightarrow> LocalLogRec list \<Rightarrow> bool \<Rightarrow> 64 word \<Rightarrow> dstore \<Rightarrow> (sync_mem \<times> (derr + dstore)) option" where
  "processBatch s db batch appBatch totalCount tx =
     (if length batch = 0 then Some (s, Inr tx)
      else do {
        (s, btid) \<leftarrow> (if appBatch \<and> 1 < totalCount
          then map_option (\<lambda>(bs, btid, rs). (s\<lparr>w_batches := bs, w_rands := rs\<rparr>, btid)) (startBatch (w_batches s) (w_rands s) tx NoBatchId)
          else Some (s, NoBatchId));
        Some (process_started s db batch btid totalCount tx)
      })"

text \<open>
  \<^verbatim>\<open>RunInTransaction\<close>: the function runs on the store as it is when an attempt begins; the list holds the stores of
  the attempts whose commit meets a concurrent one. An error of the function ends the attempts.
\<close>

fun run_in_tx :: "('s \<Rightarrow> dstore \<Rightarrow> ('s \<times> (derr + dstore)) option) \<Rightarrow> nat \<Rightarrow> dstore list \<Rightarrow> 's \<Rightarrow> dstore \<Rightarrow> ('s \<times> (derr + dstore)) option" where
  "run_in_tx fn 0 conflicts s st = Some (s, Inl ErrConcurrentTransaction)"
| "run_in_tx fn (Suc n) [] s st = fn s st"
| "run_in_tx fn (Suc n) (c # cs) s st = do {
     (s, r) \<leftarrow> fn s c;
     (case r of Inl e \<Rightarrow> Some (s, Inl e) | Inr _ \<Rightarrow> run_in_tx fn n cs s st)
   }"

definition watch_tx :: "wire_Id \<Rightarrow> LocalLogRec list \<Rightarrow> (string \<times> bool) option \<Rightarrow> 64 word \<Rightarrow> string \<Rightarrow> sync_mem \<Rightarrow> dstore \<Rightarrow>
    (sync_mem \<times> (derr + dstore)) option" where
  "watch_tx db batch sgop totalCount resMark s tx =
     (case fixupLogRecordBatch tx batch (sgop = None) of
        Inl e \<Rightarrow> Some (s, Inl e)
      | Inr txBatch \<Rightarrow> do {
          (s, r) \<leftarrow> processBatch s db txBatch (sgop = None) totalCount tx;
          Some (s, sbind r (\<lambda>tx. sbind (case sgop of Some (gid, remove) \<Rightarrow> setSyncgroupWatchable tx gid remove | None \<Rightarrow> Inr tx)
                     (\<lambda>tx. Inr (setResMark tx resMark))))
        })"

fun blob_refs :: "(LogRecMetadata \<Rightarrow> string \<Rightarrow> derr option) \<Rightarrow> dstore \<Rightarrow> LocalLogRec list \<Rightarrow> derr option" where
  "blob_refs processBlobRefs st [] = None"
| "blob_refs processBlobRefs st (rec # recs) =
     (let m = Metadata rec in
      if Delete m then blob_refs processBlobRefs st recs
      else case getAtVersion st (ObjId m) (CurVers m) of
        Inl e \<Rightarrow> Some e
      | Inr buf \<Rightarrow> (case processBlobRefs m buf of Some e \<Rightarrow> Some e | None \<Rightarrow> blob_refs processBlobRefs st recs))"

definition processWatchBlobRefs :: "(LogRecMetadata \<Rightarrow> string \<Rightarrow> derr option) \<Rightarrow> watchPrefixes \<Rightarrow> wire_Id \<Rightarrow> dstore \<Rightarrow> LocalLogRec list \<Rightarrow> derr option" where
  "processWatchBlobRefs processBlobRefs wp db st batch =
     (if length batch = 0 then None
      else if (case wp db of Some pfxs \<Rightarrow> length pfxs | None \<Rightarrow> 0) = 0 then Some (ErrInternal ''no sg prefixes in db'')
      else blob_refs processBlobRefs st batch)"

definition state_change_tx :: "StateChange \<Rightarrow> string \<Rightarrow> sync_mem \<Rightarrow> dstore \<Rightarrow> (sync_mem \<times> (derr + dstore)) option" where
  "state_change_tx change resMark s tx =
     Some (s, sbind (updateDbPauseSt tx (change = StateChangePauseSync)) (\<lambda>tx. Inr (setResMark tx resMark)))"

text \<open>A failed state change is fatal; \<^term>\<open>None\<close> in the result says that the entry is no state change.\<close>

definition processDbStateChangeLogRecord :: "dstore list \<Rightarrow> sync_mem \<Rightarrow> wire_Id \<Rightarrow> dstore \<Rightarrow> LogEntry \<Rightarrow> string \<Rightarrow>
    (sync_mem \<times> (derr + dstore)) option" where
  "processDbStateChangeLogRecord conflicts s db st logEnt resMark =
     (case Op logEnt of
        DbStateChangeRequestOp change \<Rightarrow>
          (case run_in_tx (state_change_tx change resMark) 100 conflicts s st of
             Some (s, Inr st) \<Rightarrow> Some (s\<lparr>w_sync := updateInMemoryPauseSt (w_sync s) db (change = StateChangePauseSync)\<rparr>, Inr st)
           | _ \<Rightarrow> Some (s, Inl ExitFatal))
      | _ \<Rightarrow> None)"

fun processSyncgroupLogRecord :: "watchPrefixes \<Rightarrow> wire_Id \<Rightarrow> LogEntry list \<Rightarrow> watchPrefixes \<times> (string \<times> bool) option" where
  "processSyncgroupLogRecord wp db [] = (wp, None)"
| "processSyncgroupLogRecord wp db (e # es) =
     (case Op e of
        SyncgroupOp gid pfxs remove \<Rightarrow>
          (fold (\<lambda>pfx wp. if remove then rmWatchPrefixSyncgroup wp db pfx gid else addWatchPrefixSyncgroup wp db pfx gid) pfxs wp, Some (gid, remove))
      | _ \<Rightarrow> processSyncgroupLogRecord wp db es)"

text \<open>
  The result: the watched prefixes, the memory, and the store or an error. An error is suppressed if the watch was aborted
  meanwhile (\<open>aborted\<close>). \<open>nums\<close> are the random numbers for deletions; the outer option is a fatal exit.
\<close>

definition processWatchLogBatch :: "(LogRecMetadata \<Rightarrow> string \<Rightarrow> derr option) \<Rightarrow> dstore list \<Rightarrow> bool \<Rightarrow> 64 word list \<Rightarrow> watchPrefixes \<Rightarrow> sync_mem \<Rightarrow> wire_Id \<Rightarrow>
    dstore \<Rightarrow> LogEntry list \<Rightarrow> string \<Rightarrow> (watchPrefixes \<times> sync_mem \<times> dstore \<times> derr option) option" where
  "processWatchLogBatch processBlobRefs conflicts aborted nums wp s db st logs resMark =
     (case logs of
        [] \<Rightarrow> Some (wp, s, st, None)
      | first # _ \<Rightarrow>
          (case processDbStateChangeLogRecord conflicts s db st first resMark of
             Some (s, Inr st) \<Rightarrow> Some (wp, s, st, None)
           | Some (s, Inl e) \<Rightarrow> Some (wp, s, st, Some e)
           | None \<Rightarrow>
               (let (wp, sgop) = processSyncgroupLogRecord wp db logs in
                do {
                  r \<leftarrow> convert_logs (sync_id (w_sync s)) wp db (zip logs nums);
                  (case r of
                     Inl e \<Rightarrow> Some (wp, s, st, Some e)
                   | Inr batch \<Rightarrow>
                       (case processWatchBlobRefs processBlobRefs wp db st batch of
                          Some e \<Rightarrow> Some (wp, s, st, if aborted then None else Some e)
                        | None \<Rightarrow> do {
                            (s, r) \<leftarrow> run_in_tx (watch_tx db batch sgop (word_of_nat (length logs)) resMark) 100 conflicts s st;
                            Some (case r of
                                    Inr st \<Rightarrow> (wp, s, st, None)
                                  | Inl e \<Rightarrow> (wp, s, st, if aborted then None else Some e))
                          }))
                })))"

text \<open>
  One round of the watcher: the next batch of the log, then a new generation if the database may sync. The flag says whether there
  was a batch.
\<close>

definition processDatabase :: "(LogRecMetadata \<Rightarrow> string \<Rightarrow> derr option) \<Rightarrow> dstore list \<Rightarrow> bool \<Rightarrow> 64 word list \<Rightarrow> watchPrefixes \<Rightarrow> sync_mem \<Rightarrow> wire_Id \<Rightarrow>
    dstore \<Rightarrow> dval list \<Rightarrow> derr option \<Rightarrow> Client \<Rightarrow> (Client \<times> watchPrefixes \<times> sync_mem \<times> dstore \<times> (derr + bool)) option" where
  "processDatabase processBlobRefs conflicts aborted nums wp s db st scan scanErr c =
     (let s = s\<lparr>w_sync := initSyncStateInMem (w_sync s) db []\<rparr>;
          (c, b) = NextBatchFromLog scan scanErr c in
      case b of
        Inl e \<Rightarrow> Some (c, wp, s, st, if e = ErrAborted then Inr False else Inl e)
      | Inr (logs, nextResmark) \<Rightarrow>
          if logs = [] then Some (c, wp, s, st, Inr False)
          else do {
            (wp, s, st, e) \<leftarrow> processWatchLogBatch processBlobRefs conflicts aborted nums wp s db st logs nextResmark;
            (case e of
               Some e \<Rightarrow> Some (c, wp, s, st, Inl e)
             | None \<Rightarrow>
                 (let (sync, ok) = isDbSyncable (w_sync s) db; s = s\<lparr>w_sync := sync\<rparr> in
                  if ok then
                    (case checkptLocalGen (w_sync s) db [] of
                       (sync, Some e) \<Rightarrow> Some (c, wp, s\<lparr>w_sync := sync\<rparr>, st, Inl e)
                     | (sync, None) \<Rightarrow> Some (c, wp, s\<lparr>w_sync := sync\<rparr>, st, Inr True))
                  else Some (c, wp, s, st, Inr True)))
          })"

end
