(* ===== verification/Syncgroups_Props.thy ===== *)
theory Syncgroups_Props
  imports Syncgroups
begin

text \<open>
  The keys of the sync module do not meet; a syncgroup that was added is read back with its state; the view of members lists the
  joiners.
\<close>

subsection \<open>Keys\<close>

lemmas sync_prefix_defs = dagNodePrefix_def dagHeadPrefix_def dagBatchPrefix_def dbssKey_def sgIdPrefix_def logPrefix_def sgDataPrefix_def

lemma key_kind:
  "nodeKey oid v ! 2 = CHR ''a''" "headKey oid ! 2 = CHR ''b''" "batchKey b ! 2 = CHR ''c''" "dbssKey ! 2 = CHR ''d''"
  "sgIdKey gid ! 2 = CHR ''i''" "logRecKey pfx d g ! 2 = CHR ''l''" "sgDataKeyByOID (sgOID gid) v ! 2 = CHR ''s''" "sgOID gid ! 2 = CHR ''s''"
  by (simp_all add: nodeKey_def headKey_def batchKey_def sgIdKey_def logRecKey_def sgDataKeyByOID_def sgOID_def sync_prefix_defs
      JoinKeyParts_def SyncPrefix_def)

lemma nth2_neq: "a ! 2 \<noteq> b ! 2 \<Longrightarrow> a \<noteq> b"
  by auto

lemma sync_keys_distinct [simp]:
  "nodeKey o1 v \<noteq> headKey o2" "headKey o2 \<noteq> nodeKey o1 v"
  "nodeKey o1 v \<noteq> sgIdKey gid" "sgIdKey gid \<noteq> nodeKey o1 v"
  "nodeKey o1 v \<noteq> logRecKey p d g" "logRecKey p d g \<noteq> nodeKey o1 v"
  "nodeKey o1 v \<noteq> sgDataKeyByOID (sgOID gid) w" "sgDataKeyByOID (sgOID gid) w \<noteq> nodeKey o1 v"
  "headKey o2 \<noteq> sgIdKey gid" "sgIdKey gid \<noteq> headKey o2"
  "headKey o2 \<noteq> logRecKey p d g" "logRecKey p d g \<noteq> headKey o2"
  "headKey o2 \<noteq> sgDataKeyByOID (sgOID gid) w" "sgDataKeyByOID (sgOID gid) w \<noteq> headKey o2"
  "sgIdKey gid \<noteq> logRecKey p d g" "logRecKey p d g \<noteq> sgIdKey gid"
  "sgIdKey gid \<noteq> sgDataKeyByOID (sgOID gid') w" "sgDataKeyByOID (sgOID gid') w \<noteq> sgIdKey gid"
  "logRecKey p d g \<noteq> sgDataKeyByOID (sgOID gid) w" "sgDataKeyByOID (sgOID gid) w \<noteq> logRecKey p d g"
  "dbssKey \<noteq> nodeKey o1 v" "nodeKey o1 v \<noteq> dbssKey" "dbssKey \<noteq> headKey o2" "headKey o2 \<noteq> dbssKey"
  "dbssKey \<noteq> logRecKey p d g" "logRecKey p d g \<noteq> dbssKey"
  by (rule nth2_neq, simp add: key_kind)+

lemma sbind_eq_Inr: "sbind x f = Inr y \<longleftrightarrow> (\<exists>z. x = Inr z \<and> f z = Inr y)"
  by (cases x) auto

lemma addNode_no_batch:
  assumes "addNode batches tx oid version logrec del parents NoBatchId None = Inr (batches', tx', g')"
  shows "batches' = batches \<and> g' = None \<and> (\<exists>node. tx' = tx(nodeKey oid version \<mapsto> NodeVal node) \<and> Logrec node = logrec \<and>
    Parents node = parents \<and> Deleted node = del \<and> BatchId node = NoBatchId) \<and> version \<noteq> NoVersion"
  using assms by (cases "verify_parents tx oid parents [] 0")
    (auto simp: addNode_def setNode_def split: if_splits)

lemma addSyncgroupLogRec_puts:
  "addSyncgroupLogRec clock tx oid version parents servId g p = Inr tx' \<Longrightarrow>
   \<exists>rec. tx' = tx(logRecKey oid servId g \<mapsto> RecVal rec) \<and> CurVers (Metadata rec) = version \<and> Pos rec = p"
  unfolding addSyncgroupLogRec_def by (elim sbindE) (auto simp: putLogRec_def)

lemma updateSyncgroupVersioning_steps:
  assumes "updateSyncgroupVersioning clock rand batches tx gid version withLog servId g p sg = Inr tx'" "version \<noteq> NoVersion"
  shows "\<exists>parents tx1 logKey tx2 b gr.
    (if withLog then sbind (addSyncgroupLogRec clock (setSGDataEntryByOID tx (sgOID gid) version sg) (sgOID gid) version parents servId g p)
                       (\<lambda>tx. Inr (tx, logRecKey (sgOID gid) servId g))
     else Inr (setSGDataEntryByOID tx (sgOID gid) version sg, [])) = Inr (tx1, logKey) \<and>
    addNode batches tx1 (sgOID gid) version logKey False parents NoBatchId None = Inr (b, tx2, gr) \<and> setHead tx2 (sgOID gid) version = Inr tx'"
proof -
  let ?tx = "setSGDataEntryByOID tx (sgOID gid) version sg" and ?oid = "sgOID gid"
  have "updateSyncgroupVersioning clock rand batches tx gid version withLog servId g p sg =
      sbind (case getHead ?tx ?oid of Inr head \<Rightarrow> Inr [head] | Inl e \<Rightarrow> if not_exist e then Inr [] else Inl e) (\<lambda>parents.
      sbind (if withLog then sbind (addSyncgroupLogRec clock ?tx ?oid version parents servId g p) (\<lambda>tx. Inr (tx, logRecKey ?oid servId g))
             else Inr (?tx, [])) (\<lambda>(tx, logKey).
      sbind (addNode batches tx ?oid version logKey False parents NoBatchId None) (\<lambda>(_, tx, _). setHead tx ?oid version)))"
    using assms(2) by (simp add: updateSyncgroupVersioning_def Let_def)
  from trans[OF sym[OF this] assms(1)] show ?thesis
    apply (elim sbindE)
    apply (simp only: split_beta)
    apply (erule sbindE)
    apply (simp only: split_beta)
    subgoal for parents z w
      by (rule exI[of _ parents], rule exI[of _ "fst z"], rule exI[of _ "snd z"], rule exI[of _ "fst (snd w)"],
          rule exI[of _ "fst w"], rule exI[of _ "snd (snd w)"]) simp
    done
qed

subsection \<open>Adding a syncgroup\<close>

text \<open>
  a syncgroup that was added can be read back at once, under the version given, as the head of its own history. It awaits its history from
  peers exactly when this device did not create it, and only a creator leaves a log record for it.
\<close>

theorem addSyncgroup_readable:
  assumes "addSyncgroup validId allTags toGid setPer clock rand batches tx version creator pub gv servId g p (Some sg) = Inr tx'"
    "version \<noteq> NoVersion"
  defines "gid \<equiv> toGid (sg_DbId sg) (sg_Id sg)"
  shows "getSyncgroupByGid tx' gid = Inr sg \<and> getSyncgroupVersion tx' gid = Inr version \<and>
    (\<exists>state. getSGIdEntry tx' gid = Inr state \<and> SyncPending state = (\<not> creator) \<and> PendingGenVec state = gv) \<and>
    (\<exists>node. getNode tx' (sgOID gid) version = Inr node \<and>
       (if creator then \<exists>rec. getLogRecByKey tx' (Logrec node) = Inr rec \<and> CurVers (Metadata rec) = version \<and> Pos rec = p
        else Logrec node = [])) \<and>
    (\<not> creator \<longrightarrow> (\<forall>pfx d i. tx' (logRecKey pfx d i) = tx (logRecKey pfx d i)))"
proof -
  let ?state = "\<lparr>NumLocalJoiners = (if pub = [] then 1 else 0), Watched = False, RemotePublisher = pub, SyncPending = (\<not> creator), PendingGenVec = gv\<rparr>"
  let ?oid = "sgOID gid"
  let ?tx = "setSGDataEntryByOID (setSGIdEntry tx gid ?state) ?oid version sg"
  have "updateSyncgroupVersioning clock rand batches (setSGIdEntry tx gid ?state) gid version creator servId g p sg = Inr tx'"
    using assms(1) by (auto simp: addSyncgroup_def gid_def Let_def split: option.splits if_splits)
  from updateSyncgroupVersioning_steps[OF this assms(2)] obtain parents tx1 logKey tx2 b gr where
      l: "(if creator then sbind (addSyncgroupLogRec clock ?tx ?oid version parents servId g p) (\<lambda>tx. Inr (tx, logRecKey ?oid servId g))
           else Inr (?tx, [])) = Inr (tx1, logKey)"
    and n: "addNode batches tx1 ?oid version logKey False parents NoBatchId None = Inr (b, tx2, gr)"
    and h: "setHead tx2 ?oid version = Inr tx'"
    by blast
  from addNode_no_batch[OF n] obtain node where node: "tx2 = tx1(nodeKey ?oid version \<mapsto> NodeVal node)" "Logrec node = logKey" by auto
  from h assms(2) node(1) have tx': "tx' = tx1(nodeKey ?oid version \<mapsto> NodeVal node, headKey ?oid \<mapsto> VersionVal version)"
    by (simp add: setHead_def)
  have base: "getSyncgroupByGid tx' gid = Inr sg \<and> getSyncgroupVersion tx' gid = Inr version \<and> getSGIdEntry tx' gid = Inr ?state \<and>
      getNode tx' ?oid version = Inr node"
    if "tx1 (sgIdKey gid) = ?tx (sgIdKey gid)" "tx1 (sgDataKeyByOID ?oid version) = ?tx (sgDataKeyByOID ?oid version)"
    using assms(2) that
    by (simp add: tx' getSyncgroupByGid_def getSyncgroupVersion_def getHead_def getSGDataEntry_def getSGDataEntryByOID_def
        setSGDataEntryByOID_def setSGIdEntry_def getSGIdEntry_def getNode_def)
  show ?thesis
  proof (cases creator)
    case True
    with l have "sbind (addSyncgroupLogRec clock ?tx ?oid version parents servId g p) (\<lambda>tx. Inr (tx, logRecKey ?oid servId g)) = Inr (tx1, logKey)"
      by (simp only: if_True)
    then have a: "addSyncgroupLogRec clock ?tx ?oid version parents servId g p = Inr tx1" and k: "logKey = logRecKey ?oid servId g"
      by (auto elim!: sbindE)
    from addSyncgroupLogRec_puts[OF a] k obtain rec where r: "tx1 = ?tx(logRecKey ?oid servId g \<mapsto> RecVal rec)"
        "CurVers (Metadata rec) = version" "Pos rec = p" "logKey = logRecKey ?oid servId g"
      by blast
    then have "getLogRecByKey tx' (Logrec node) = Inr rec" by (simp add: tx' node(2) getLogRecByKey_def)
    with base r True show ?thesis by auto
  next
    case False
    with l have "tx1 = ?tx" "logKey = []" by simp_all
    with base False node(2) show ?thesis by (auto simp: tx' setSGDataEntryByOID_def setSGIdEntry_def)
  qed
qed

definition sg1 :: Syncgroup where
  "sg1 = \<lparr>sg_Id = \<lparr>Blessing = ''b'', Name = ''n''\<rparr>, SpecVersion = ''1'',
     Spec = \<lparr>Description = [], PublishSyncbaseName = [], Perms = [(''Admin'', \<lparr>In = [''b''], NotIn = []\<rparr>)],
       Collections = [\<lparr>Blessing = ''b'', Name = ''c''\<rparr>], MountTables = [''/mt''], IsPrivate = False\<rparr>,
     Creator = ''dev'', sg_DbId = \<lparr>Blessing = ''b'', Name = ''db''\<rparr>, Status = PublishPending,
     Joiners = [(''dev'', \<lparr>WhenUpdated = 0, HasLeft = False, MemberInfo = \<lparr>SyncPriority = 1, BlobDevType = 0\<rparr>\<rparr>)]\<rparr>"

lemma addSyncgroup_readable_witness:
  "\<exists>tx'. addSyncgroup (\<lambda>_. True) [''Admin'', ''Read''] (\<lambda>db i. Name i) (\<lambda>_. None) (Inr 3) 0 Map.empty Map.empty ''v1'' True [] [] 5 1 0 (Some sg1) = Inr tx' \<and>
     getSyncgroupByGid tx' ''n'' = Inr sg1"
proof -
  let ?a = "addSyncgroup (\<lambda>_. True) [''Admin'', ''Read''] (\<lambda>db i. Name i) (\<lambda>_. None) (Inr 3) 0 Map.empty Map.empty ''v1'' True [] [] 5 1 0 (Some sg1)"
  have "verifySyncgroup (\<lambda>_. True) [''Admin'', ''Read''] (Some sg1) = None"
    by (simp add: verifySyncgroup_def verifySyncgroupSpec_def ValidatePerms_def sg1_def)
  then obtain tx' where a: "?a = Inr tx'"
    by (simp add: addSyncgroup_def hasSGIdEntry_def setSGIdEntry_def hasSGDataEntry_def sgDataKey_def updateSyncgroupVersioning_def
        NoVersion_def getHead_def setSGDataEntryByOID_def not_exist_def addSyncgroupLogRec_def addNode_def setNode_def setHead_def Let_def)
  from addSyncgroup_readable[OF this] have "getSyncgroupByGid tx' ''n'' = Inr sg1" by (simp add: NoVersion_def sg1_def)
  with a show ?thesis by blast
qed

subsection \<open>Members\<close>

definition member_in :: "(string \<times> memberInfo) list \<Rightarrow> string \<Rightarrow> wire_Id \<Rightarrow> string \<Rightarrow> SyncgroupMemberState option" where
  "member_in ms m db gid = Option.bind (map_of ms m) (\<lambda>mi. Option.bind (map_of (db2sg mi) db) (\<lambda>sgm. map_of sgm gid))"

lemma member_in_refresh:
  "member_in (refresh_member gid sg db (m, info) ms) m' db' gid' =
     (if m' = m \<and> db' = db \<and> gid' = gid then Some info else member_in ms m' db' gid')"
  by (cases "map_of ms m"; cases "map_of (db2sg (the (map_of ms m))) db")
    (auto simp: refresh_member_def member_in_def Let_def update_conv')

lemma member_in_syncgroup:
  "(member_in (refreshSyncgroupMembers gid sg db ms) m db' gid' \<noteq> None) \<longleftrightarrow>
     db' = db \<and> gid' = gid \<and> m \<in> fst ` set (Joiners sg) \<or> member_in ms m db' gid' \<noteq> None"
proof -
  have "(member_in (fold (refresh_member gid sg db) js ms) m db' gid' \<noteq> None) \<longleftrightarrow>
      db' = db \<and> gid' = gid \<and> m \<in> fst ` set js \<or> member_in ms m db' gid' \<noteq> None" for js
  proof (induction js arbitrary: ms)
    case (Cons j js)
    obtain m1 info where j: "j = (m1, info)" by fastforce
    show ?case unfolding j fold_Cons o_apply Cons.IH member_in_refresh by auto
  qed simp
  then show ?thesis by (simp add: refreshSyncgroupMembers_def)
qed

lemma member_in_database:
  "(member_in (fold (\<lambda>(gid, sg). refreshSyncgroupMembers gid sg db) gs ms) m db' gid' \<noteq> None) \<longleftrightarrow>
     (\<exists>sg. (gid', sg) \<in> set gs \<and> db' = db \<and> m \<in> fst ` set (Joiners sg)) \<or> member_in ms m db' gid' \<noteq> None"
proof (induction gs arbitrary: ms)
  case (Cons a gs)
  obtain gid sg where a: "a = (gid, sg)" by fastforce
  show ?case unfolding a fold_Cons o_apply split Cons.IH member_in_syncgroup list.set by blast
qed simp

text \<open>
  the view of all members: after a refresh, a member is listed with a syncgroup of a database exactly if it is a joiner of that
  syncgroup in that database.
\<close>

theorem members_are_joiners:
  assumes "expiration (case old of Some v \<Rightarrow> v | None \<Rightarrow> \<lparr>expiration = 0, members = []\<rparr>) \<le> now"
  shows "(member_in (members (refreshMembersIfExpired now ttl dbs old)) m db gid \<noteq> None) \<longleftrightarrow>
    (\<exists>st keys sg. (db, st, keys) \<in> set dbs \<and> (gid, sg) \<in> set (forEachSyncgroup st keys) \<and> m \<in> fst ` set (Joiners sg))"
proof -
  have "(member_in (fold (\<lambda>(db, st, keys). fold (\<lambda>(gid, sg). refreshSyncgroupMembers gid sg db) (forEachSyncgroup st keys)) dbs ms) m db gid \<noteq> None) \<longleftrightarrow>
      (\<exists>st keys sg. (db, st, keys) \<in> set dbs \<and> (gid, sg) \<in> set (forEachSyncgroup st keys) \<and> m \<in> fst ` set (Joiners sg)) \<or>
      member_in ms m db gid \<noteq> None" for ms
  proof (induction dbs arbitrary: ms)
    case (Cons d dbs)
    obtain db1 st1 keys1 where d: "d = (db1, st1, keys1)" by (cases d)
    show ?case unfolding d fold_Cons o_apply split Cons.IH member_in_database list.set by blast
  qed simp
  from this[of "[]"] assms show ?thesis by (simp add: refreshMembersIfExpired_def member_in_def not_less[symmetric])
qed

lemma members_are_joiners_witness:
  "\<exists>st. member_in (members (refreshMembersIfExpired 9 5 [(\<lparr>Blessing = ''b'', Name = ''db''\<rparr>, st, [sgIdKey ''n''])] None))
     ''dev'' \<lparr>Blessing = ''b'', Name = ''db''\<rparr> ''n'' \<noteq> None"
proof -
  let ?st = "[headKey (sgOID ''n'') \<mapsto> VersionVal ''v'', sgDataKeyByOID (sgOID ''n'') ''v'' \<mapsto> SgVal sg1]"
  have "sgID (sgIdKey ''n'') = Some ''n''"
    by (simp add: sgID_def sgIdKey_def sgIdPrefix_def SplitNKeyParts_def JoinKeyParts_def SyncPrefix_def KeyPartSep_def numeral_3_eq_3 numeral_2_eq_2 split_n.simps)
  then have "(''n'', sg1) \<in> set (forEachSyncgroup ?st [sgIdKey ''n''])"
    by (simp add: forEachSyncgroup_def List.map_filter_def getSyncgroupByGid_def getSyncgroupVersion_def getHead_def getSGDataEntry_def
        getSGDataEntryByOID_def)
  then show ?thesis
    using members_are_joiners[of None 9 5 "[(\<lparr>Blessing = ''b'', Name = ''db''\<rparr>, ?st, [sgIdKey ''n''])]" "''dev''"
        "\<lparr>Blessing = ''b'', Name = ''db''\<rparr>" "''n''"]
    by (intro exI[of _ ?st]) (auto simp: sg1_def)
qed

end
