(* ===== verification/Watchable_Props.thy ===== *)
theory Watchable_Props
  imports Watch_Log
begin

text \<open>
  Versioned keys in a transaction of the watchable store: what is read back after a put or a delete, and how versioned streams
  deliver the current values.
\<close>


subsection \<open>Keys\<close>

lemma hex_digit_sep: "d < 16 \<Longrightarrow> hex_digit d \<noteq> KeyPartSep"
proof -
  assume "d < 16"
  then have "hex_val (hex_digit d) = Some d" by (rule hex_val_digit)
  moreover have "hex_val KeyPartSep = None" by (simp add: hex_val_def KeyPartSep_def)
  ultimately show ?thesis by auto
qed

lemma hex_digits_sep: "KeyPartSep \<notin> set (hex_digits n)"
proof (induction n rule: hex_digits.induct)
  case (1 n)
  have "hex_digit (n mod 16) \<noteq> KeyPartSep" "n < 16 \<longrightarrow> hex_digit n \<noteq> KeyPartSep" using hex_digit_sep by auto
  with 1 show ?case by (subst hex_digits.simps) auto
qed

lemma version_key_inject [simp]: "makeVersionKey k = makeVersionKey k' \<longleftrightarrow> k = k'"
  by (simp add: makeVersionKey_def JoinKeyParts_def)

lemma snoc_sep_inject:
  assumes "c \<notin> set v" "c \<notin> set v'" "k @ c # v = k' @ c # v'"
  shows "k = k' \<and> v = v'"
proof -
  from assms(3) have r: "rev v @ c # rev k = rev v' @ c # rev k'" by (metis append.assoc append_Cons append_Nil rev.simps(2) rev_append)
  have "takeWhile (\<lambda>x. x \<noteq> c) (rev v @ c # rev k) = rev v" "takeWhile (\<lambda>x. x \<noteq> c) (rev v' @ c # rev k') = rev v'"
    using assms(1,2) by (auto simp: takeWhile_append)
  with r have "v = v'" by (metis rev_rev_ident)
  with assms(3) show ?thesis by simp
qed

lemma at_version_key_inject:
  "KeyPartSep \<notin> set v \<Longrightarrow> KeyPartSep \<notin> set v' \<Longrightarrow> makeAtVersionKey k v = makeAtVersionKey k' v' \<longleftrightarrow> k = k' \<and> v = v'"
  using snoc_sep_inject[of KeyPartSep v v' k k'] by (auto simp: makeAtVersionKey_def JoinKeyParts_def)

text \<open>The prefixes that a store manages, in Syncbase those of rows and of collection permissions, do not begin like version keys.\<close>

definition managed_ok :: "string list \<Rightarrow> bool" where
  "managed_ok mp \<longleftrightarrow> list_all (\<lambda>p. p \<noteq> [] \<and> hd p \<noteq> CHR ''v'') mp"

lemma managed_hd: "managed_ok mp \<Longrightarrow> managesKey mp k \<Longrightarrow> k \<noteq> [] \<and> hd k \<noteq> CHR ''v''"
  by (auto simp: managed_ok_def managesKey_def list_ex_iff list_all_iff prefix_def)

lemma version_neq_at_version:
  assumes "k \<noteq> [] \<and> hd k \<noteq> CHR ''v''"
  shows "makeVersionKey k' \<noteq> makeAtVersionKey k v" "makeAtVersionKey k v \<noteq> makeVersionKey k'"
proof -
  have "hd (makeVersionKey k') = CHR ''v''" "hd (makeAtVersionKey k v) = hd k"
    using assms by (simp_all add: makeVersionKey_def makeAtVersionKey_def JoinKeyParts_def VersionPrefix_def)
  with assms show "makeVersionKey k' \<noteq> makeAtVersionKey k v" "makeAtVersionKey k v \<noteq> makeVersionKey k'" by metis+
qed

definition versions_ok :: "dstore \<Rightarrow> bool" where
  "versions_ok st \<longleftrightarrow> (\<forall>k v. getVersion st k = Inr v \<longrightarrow> KeyPartSep \<notin> set v)"

subsection \<open>Reads after writes\<close>

lemma versioned_put:
  assumes "managed_ok mp" "managesKey mp k" "managesKey mp k'" "versions_ok (view t)" "putVersioned t num k v = (t', ver)"
  shows "getVersioned (view t') k' = (if k' = k then Inr v else getVersioned (view t) k') \<and> versions_ok (view t')"
proof -
  note h = managed_hd[OF assms(1,2)] and h' = managed_hd[OF assms(1,3)]
  have ver: "ver = hex_digits (unat num)" and t': "view t' = (view t)(makeVersionKey k \<mapsto> BytesVal ver, makeAtVersionKey k ver \<mapsto> BytesVal v)"
    using assms(5) by (auto simp: putVersioned_def NewVersion_def Let_def)
  have sep: "KeyPartSep \<notin> set ver" by (simp add: ver hex_digits_sep)
  have gv: "getVersion (view t') k'' = (if k'' = k then Inr ver else getVersion (view t) k'')" for k''
    using version_neq_at_version[OF h] by (simp add: getVersion_def get_bytes_def t')
  have ga: "getAtVersion (view t') k' x = getAtVersion (view t) k' x" if "k' \<noteq> k" "KeyPartSep \<notin> set x" for x
    using that sep version_neq_at_version[OF h'] by (simp add: getAtVersion_def get_bytes_def t' at_version_key_inject)
  have own: "getAtVersion (view t') k ver = Inr v" by (simp add: getAtVersion_def get_bytes_def t')
  have "getVersioned (view t') k' = getVersioned (view t) k'" if "k' \<noteq> k"
  proof (cases "getVersion (view t) k'")
    case (Inr x)
    with assms(4) have "KeyPartSep \<notin> set x" unfolding versions_ok_def by blast
    with Inr that ga gv show ?thesis by (simp add: getVersioned_def)
  qed (use that gv in \<open>simp add: getVersioned_def\<close>)
  moreover have "versions_ok (view t')" using assms(4) gv sep unfolding versions_ok_def by (metis Inr_inject)
  ultimately show ?thesis using gv own by (auto simp: getVersioned_def)
qed

lemma versioned_delete:
  assumes "managed_ok mp" "managesKey mp k" "managesKey mp k'" "versions_ok (view t)"
  shows "getVersioned (view (deleteVersioned t k)) k' =
     (if k' = k then Inl (ErrUnknownKey (makeVersionKey k)) else getVersioned (view t) k') \<and> versions_ok (view (deleteVersioned t k))"
proof -
  note h' = managed_hd[OF assms(1,3)]
  have gv: "getVersion (view (deleteVersioned t k)) k'' = (if k'' = k then Inl (ErrUnknownKey (makeVersionKey k)) else getVersion (view t) k'')" for k''
    by (simp add: deleteVersioned_def getVersion_def get_bytes_def)
  moreover have "getAtVersion (view (deleteVersioned t k)) k' x = getAtVersion (view t) k' x" for x
    using version_neq_at_version[OF h'] by (simp add: deleteVersioned_def getAtVersion_def get_bytes_def)
  then have "getAtVersion (view (deleteVersioned t k)) k' = getAtVersion (view t) k'" by (rule ext)
  moreover have "versions_ok (view (deleteVersioned t k))"
    using assms(4) gv unfolding versions_ok_def by (metis sum.distinct(1))
  ultimately show ?thesis by (simp add: getVersioned_def)
qed

text \<open>
  a transaction reads the managed keys it has written: after a put the key has the new value, after a delete it is unknown, and the other
  managed keys read as before. Each of these operations is noted for the watch log, and the new version is that of the entry.
\<close>

theorem watchable_reads_writes:
  assumes "managed_ok (managed tx)" "managesKey (managed tx) k" "managesKey (managed tx) k'" "t_err tx = None"
    "versions_ok (view (itx tx))"
  shows "\<exists>tx1 tx2. wtx_Put num tx k v = (tx1, None) \<and> wtx_Delete tx k = (tx2, None) \<and>
    snd (wtx_Get tx1 k') = (if k' = k then Inr v else snd (wtx_Get tx k')) \<and>
    snd (wtx_Get tx2 k') = (if k' = k then Inl (ErrUnknownKey (makeVersionKey k)) else snd (wtx_Get tx k')) \<and>
    ops tx1 = ops tx @ [PutOp k (NewVersion num)] \<and> wtx_GetVersion tx1 k = Inr (NewVersion num) \<and>
    ops tx2 = ops tx @ [DeleteOp k] \<and> versions_ok (view (itx tx1)) \<and> versions_ok (view (itx tx2))"
proof -
  obtain t ver where p: "putVersioned (itx tx) num k v = (t, ver)" by fastforce
  then have ver: "ver = NewVersion num" "getVersion (view t) k = Inr ver"
    using version_neq_at_version[OF managed_hd[OF assms(1,2)], of k ver]
    by (auto simp: putVersioned_def getVersion_def get_bytes_def Let_def)
  from versioned_put[OF assms(1,2,3,5) p] versioned_delete[OF assms(1,2,3,5)] ver p show ?thesis
    using assms(2-4) by (simp add: wtx_Put_def wtx_Delete_def wtx_Get_def wtx_GetVersion_def)
qed

lemma watchable_reads_writes_witness:
  "\<exists>tx1. wtx_Put 7 (wtx_newTransaction [''r'', ''c''] Map.empty) ''ra'' ''x'' = (tx1, None) \<and> snd (wtx_Get tx1 ''ra'') = Inr ''x'' \<and>
     ops tx1 = [PutOp ''ra'' (NewVersion 7)]"
proof -
  let ?tx = "wtx_newTransaction [''r'', ''c''] Map.empty"
  have "managed_ok (managed ?tx)" "managesKey (managed ?tx) ''ra''" "t_err ?tx = None" "versions_ok (view (itx ?tx))"
    by (simp_all add: wtx_newTransaction_def managed_ok_def managesKey_def versions_ok_def getVersion_def get_bytes_def view_def)
  from watchable_reads_writes[OF this(1,2,2,3,4), of 7 "''x''"] show ?thesis
    by (auto simp: wtx_newTransaction_def)
qed

end
