(* ===== verification/Sync_Watcher_Props.thy ===== *)
theory Sync_Watcher_Props
  imports Sync_Watcher Syncgroups_Props Watchable_Props
begin

text \<open>
  What the sync watcher does to the version history and the log: the records of a batch get consecutive generations
  and positions, become nodes on top of the heads before the batch, and are the new heads. Two kinds of batches go wrong in the code: one
  that deletes a row without history stops the watcher, and one that writes a row twice forks its history.
\<close>

subsection \<open>One record\<close>

lemma headKey_inject [simp]: "headKey a = headKey b \<longleftrightarrow> a = b"
  by (simp add: headKey_def JoinKeyParts_def)

lemma nodeKey_eqD:
  "nodeKey a v = nodeKey b w \<Longrightarrow> KeyPartSep \<notin> set v \<Longrightarrow> KeyPartSep \<notin> set w \<Longrightarrow> a = b \<and> v = w"
  using snoc_sep_inject[of KeyPartSep v w "dagNodePrefix @ KeyPartSep # a" "dagNodePrefix @ KeyPartSep # b"]
  by (simp add: nodeKey_def JoinKeyParts_def)

lemma resMarkKey_kind: "resMarkKey ! 2 = CHR ''w''"
  by (simp add: resMarkKey_def JoinKeyParts_def SyncPrefix_def)

lemma resMarkKey_distinct [simp]:
  "resMarkKey \<noteq> nodeKey a v" "nodeKey a v \<noteq> resMarkKey" "resMarkKey \<noteq> headKey a" "headKey a \<noteq> resMarkKey"
  "resMarkKey \<noteq> logRecKey p d g" "logRecKey p d g \<noteq> resMarkKey" "batchKey b \<noteq> nodeKey a v" "nodeKey a v \<noteq> batchKey b"
  "batchKey b \<noteq> headKey a" "headKey a \<noteq> batchKey b" "batchKey b \<noteq> logRecKey p d g" "logRecKey p d g \<noteq> batchKey b"
  by (rule nth2_neq, simp add: key_kind resMarkKey_kind)+

lemma addNode_puts:
  assumes "addNode batches tx oid version logrec del parents btid None = Inr (batches', tx', g')"
  shows "\<exists>node. tx' = tx(nodeKey oid version \<mapsto> NodeVal node) \<and> Logrec node = logrec \<and> Parents node = parents \<and> Deleted node = del \<and>
    BatchId node = btid \<and> version \<noteq> NoVersion"
proof -
  from assms obtain lvl where "setNode tx oid version \<lparr>Level = lvl, Parents = parents, Logrec = logrec, BatchId = btid, Deleted = del,
      PermId = [], PermVers = []\<rparr> = Inr tx'"
    unfolding addNode_def by (auto elim!: sbindE split: if_splits)
  then show ?thesis by (auto simp: setNode_def split: if_splits)
qed

definition recorded :: "LocalLogRec \<Rightarrow> DagNode \<Rightarrow> dstore \<Rightarrow> dstore \<Rightarrow> bool" where
  "recorded rec node tx tx' \<longleftrightarrow> (let m = Metadata rec in
     tx' = tx(logRecKey logDataPrefix (Id m) (Gen m) \<mapsto> RecVal rec, nodeKey (ObjId m) (CurVers m) \<mapsto> NodeVal node,
              headKey (ObjId m) \<mapsto> VersionVal (CurVers m)) \<and>
     Logrec node = logRecKey logDataPrefix (Id m) (Gen m) \<and> Parents node = rec_Parents m \<and> Deleted node = Delete m \<and>
     CurVers m \<noteq> NoVersion)"

lemma processLocalLogRec_records:
  assumes "processLocalLogRec batches tx rec = Inr (batches', tx')"
  shows "\<exists>node. recorded rec node tx tx'"
proof -
  let ?m = "Metadata rec" and ?tx = "putLogRec tx logDataPrefix rec"
  from assms obtain b1 tx1 g1 where a: "addNode batches ?tx (ObjId ?m) (CurVers ?m) (logRecKey logDataPrefix (Id ?m) (Gen ?m)) (Delete ?m)
      (rec_Parents ?m) (rec_BatchId ?m) None = Inr (b1, tx1, g1)" and h: "moveHead tx1 (ObjId ?m) (CurVers ?m) = Inr tx'"
    unfolding processLocalLogRec_def Let_def by (auto elim!: sbindE)
  from addNode_puts[OF a] obtain node where "tx1 = ?tx(nodeKey (ObjId ?m) (CurVers ?m) \<mapsto> NodeVal node)"
      "Logrec node = logRecKey logDataPrefix (Id ?m) (Gen ?m)" "Parents node = rec_Parents ?m" "Deleted node = Delete ?m" "CurVers ?m \<noteq> NoVersion"
    by auto
  with h show ?thesis
    by (intro exI[of _ node]) (auto simp: recorded_def Let_def moveHead_def hasNode_def setHead_def putLogRec_def split: if_splits elim!: sbindE)
qed

subsection \<open>A batch\<close>

definition stamp :: "64 word \<Rightarrow> 64 word \<Rightarrow> 64 word \<Rightarrow> 64 word \<Rightarrow> LocalLogRec \<Rightarrow> LocalLogRec" where
  "stamp g p btid cnt rec = rec\<lparr>Metadata := (Metadata rec)\<lparr>Gen := g, rec_BatchId := btid, BatchCount := cnt\<rparr>, Pos := p\<rparr>"

lemma process_recs_Cons:
  "process_recs g p btid cnt (rec # recs) batches tx = Inr (batches', tx') \<longleftrightarrow>
     (\<exists>b1 tx1. processLocalLogRec batches tx (stamp g p btid cnt rec) = Inr (b1, tx1) \<and>
        process_recs (g + 1) (p + 1) btid cnt recs b1 tx1 = Inr (batches', tx'))"
  by (auto simp: Let_def stamp_def split: sum.splits)

lemma stamp_sel [simp]:
  "ObjId (Metadata (stamp g p b c rec)) = ObjId (Metadata rec)" "CurVers (Metadata (stamp g p b c rec)) = CurVers (Metadata rec)"
  "Id (Metadata (stamp g p b c rec)) = Id (Metadata rec)" "Gen (Metadata (stamp g p b c rec)) = g"
  "rec_Parents (Metadata (stamp g p b c rec)) = rec_Parents (Metadata rec)" "Delete (Metadata (stamp g p b c rec)) = Delete (Metadata rec)"
  by (simp_all add: stamp_def)

lemma process_recs_frame:
  assumes "process_recs g p btid cnt recs batches tx = Inr (batches', tx')"
    "\<forall>rec\<in>set recs. k \<noteq> headKey (ObjId (Metadata rec)) \<and> k \<noteq> nodeKey (ObjId (Metadata rec)) (CurVers (Metadata rec))"
    "\<forall>i<length recs. k \<noteq> logRecKey logDataPrefix (Id (Metadata (recs ! i))) (g + word_of_nat i)"
  shows "tx' k = tx k"
  using assms
proof (induction recs arbitrary: g p batches tx)
  case (Cons rec recs)
  from Cons.prems(1) obtain b1 tx1 where s: "processLocalLogRec batches tx (stamp g p btid cnt rec) = Inr (b1, tx1)"
      "process_recs (g + 1) (p + 1) btid cnt recs b1 tx1 = Inr (batches', tx')"
    unfolding process_recs_Cons by blast
  from processLocalLogRec_records[OF s(1)] Cons.prems(2) spec[OF Cons.prems(3), of 0] have "tx1 k = tx k"
    by (auto simp: recorded_def Let_def)
  moreover have "k \<noteq> logRecKey logDataPrefix (Id (Metadata (recs ! i))) (g + 1 + word_of_nat i)" if "i < length recs" for i
    using spec[OF Cons.prems(3), of "Suc i"] that by (simp add: algebra_simps)
  with Cons.IH[OF s(2)] Cons.prems(2) have "tx' k = tx1 k" by simp
  ultimately show ?case by simp
qed simp

text \<open>Records for different objects, whose versions have no separator, and not more than there are generations.\<close>

definition batch_distinct :: "LocalLogRec list \<Rightarrow> bool" where
  "batch_distinct recs \<longleftrightarrow> distinct (map (\<lambda>r. ObjId (Metadata r)) recs) \<and> length recs < 2 ^ 64 \<and>
     (\<forall>r\<in>set recs. KeyPartSep \<notin> set (CurVers (Metadata r)))"

lemma word_of_nat_Suc_neq: "Suc i < 2 ^ 64 \<Longrightarrow> 1 + word_of_nat i \<noteq> (0 :: 64 word)"
proof -
  assume "Suc i < 2 ^ 64"
  then have "unat (word_of_nat (Suc i) :: 64 word) = Suc i" by (simp add: unat_of_nat del: of_nat_Suc)
  then show ?thesis by (metis nat.distinct(1) of_nat_Suc unat_0)
qed

lemma process_recs_records:
  assumes "process_recs g p btid cnt recs batches tx = Inr (batches', tx')" "batch_distinct recs" "i < length recs"
  shows "\<exists>node. getHead tx' (ObjId (Metadata (recs ! i))) = Inr (CurVers (Metadata (recs ! i))) \<and>
    getNode tx' (ObjId (Metadata (recs ! i))) (CurVers (Metadata (recs ! i))) = Inr node \<and>
    Parents node = rec_Parents (Metadata (recs ! i)) \<and> Deleted node = Delete (Metadata (recs ! i)) \<and>
    getLogRecByKey tx' (Logrec node) = Inr (stamp (g + word_of_nat i) (p + word_of_nat i) btid cnt (recs ! i)) \<and>
    (\<exists>q d n. Logrec node = logRecKey q d n)"
  using assms
proof (induction recs arbitrary: g p batches tx i)
  case (Cons rec recs)
  from Cons.prems(1) obtain b1 tx1 where s: "processLocalLogRec batches tx (stamp g p btid cnt rec) = Inr (b1, tx1)"
      "process_recs (g + 1) (p + 1) btid cnt recs b1 tx1 = Inr (batches', tx')"
    unfolding process_recs_Cons by blast
  have bd: "batch_distinct recs" using Cons.prems(2) by (simp add: batch_distinct_def)
  show ?case
  proof (cases i)
    case 0
    let ?m = "Metadata rec"
    obtain node where n: "recorded (stamp g p btid cnt rec) node tx tx1" using processLocalLogRec_records[OF s(1)] by blast
    have o: "ObjId (Metadata r) \<noteq> ObjId ?m" if "r \<in> set recs" for r using Cons.prems(2) that by (auto simp: batch_distinct_def image_iff)
    have "tx' (headKey (ObjId ?m)) = tx1 (headKey (ObjId ?m))"
      by (rule process_recs_frame[OF s(2)]) (auto simp: o o[symmetric])
    moreover have "tx' (nodeKey (ObjId ?m) (CurVers ?m)) = tx1 (nodeKey (ObjId ?m) (CurVers ?m))"
      by (rule process_recs_frame[OF s(2)]) (use Cons.prems(2) in \<open>auto simp: batch_distinct_def o o[symmetric] dest!: nodeKey_eqD\<close>)
    moreover have "tx' (logRecKey logDataPrefix (Id ?m) g) = tx1 (logRecKey logDataPrefix (Id ?m) g)"
      by (rule process_recs_frame[OF s(2)]) (use Cons.prems(2) word_of_nat_Suc_neq in \<open>auto simp: batch_distinct_def add.assoc\<close>)
    ultimately show ?thesis using n 0
      by (intro exI[of _ node]) (auto simp: recorded_def Let_def getHead_def getNode_def getLogRecByKey_def)
  next
    case (Suc j)
    with Cons.IH[OF s(2) bd, of j] Cons.prems(3) show ?thesis by (simp add: algebra_simps)
  qed
qed simp

lemma fixup_app:
  assumes "fixupLogRecordBatch tx batch True = Inr rs"
  shows "rs = map (\<lambda>rec. rec\<lparr>Metadata := (Metadata rec)\<lparr>rec_Parents := (case getHead tx (ObjId (Metadata rec)) of Inr h \<Rightarrow> [h] | Inl _ \<Rightarrow> [])\<rparr>\<rparr>) batch"
  using assms
proof (induction batch arbitrary: rs)
  case (Cons rec batch)
  from Cons.prems Cons.IH show ?case
    by (auto simp: Let_def split: sum.splits bool.splits if_splits elim!: sbindE)
qed simp

lemma fixup_fails:
  assumes "rec \<in> set batch" "Delete (Metadata rec)" "tx (headKey (ObjId (Metadata rec))) = None"
    "tx (nodeKey (ObjId (Metadata rec)) (CurVers (Metadata rec))) = None"
  shows "\<exists>e. fixupLogRecordBatch tx batch app = Inl e"
  using assms(1)
proof (induction batch)
  case (Cons r batch)
  show ?case
  proof (cases "r = rec")
    case True
    with assms(2-4) show ?thesis by (auto simp: Let_def hasNode_def getHead_def not_exist_def)
  next
    case False
    with Cons obtain e where "fixupLogRecordBatch tx batch app = Inl e" by auto
    then show ?thesis by (auto simp: Let_def split: sum.split bool.split)
  qed
qed simp

lemma run_in_tx_success:
  "run_in_tx fn n cs s st = Some (s', Inr st') \<Longrightarrow> \<exists>s1. fn s1 st = Some (s', Inr st')"
  by (induction fn n cs s st rule: run_in_tx.induct) (auto split: sum.splits Option.bind_splits)

lemma endBatch_frame:
  "endBatch bs tx btid cnt = Inr (bs', tx') \<Longrightarrow> \<forall>k. k \<noteq> batchKey btid \<longrightarrow> tx' k = tx k"
  by (auto simp: endBatch_def setBatch_def split: if_splits option.splits elim!: sbindE)

lemma processBatch_success:
  assumes "processBatch s db batch app cnt tx = Some (s', Inr tx')" "batch \<noteq> []"
  shows "\<exists>g p btid bs bs' tx1. process_recs g p btid cnt batch bs tx = Inr (bs', tx1) \<and> (\<forall>k. k \<noteq> batchKey btid \<longrightarrow> tx' k = tx1 k)"
proof -
  from assms obtain s1 btid where "process_started s1 db batch btid cnt tx = (s', Inr tx')"
    unfolding processBatch_def by (auto split: Option.bind_splits if_splits)
  then obtain g p bs bs1 tx1 where r: "process_recs g p btid cnt batch bs tx = Inr (bs1, tx1)" and
      "tx' = tx1 \<or> (\<exists>bs2. endBatch bs1 tx1 btid cnt = Inr (bs2, tx'))"
    unfolding process_started_def Let_def by (auto split: prod.splits sum.splits if_splits)
  with endBatch_frame[of bs1 tx1 btid cnt _ tx'] have "\<forall>k. k \<noteq> batchKey btid \<longrightarrow> tx' k = tx1 k" by blast
  with r show ?thesis by blast
qed

text \<open>An application's batch, already processed up to the conversion of its entries.\<close>

definition app_batch :: "watchPrefixes \<Rightarrow> wire_Id \<Rightarrow> 64 word \<Rightarrow> 64 word list \<Rightarrow> LogEntry list \<Rightarrow> LocalLogRec list \<Rightarrow> bool" where
  "app_batch wp db syncId nums logs batch \<longleftrightarrow> logs \<noteq> [] \<and> (\<forall>c. Op (hd logs) \<noteq> DbStateChangeRequestOp c) \<and>
     processSyncgroupLogRecord wp db logs = (wp, None) \<and> convert_logs syncId wp db (zip logs nums) = Some (Inr batch)"

lemma processWatchLogBatch_app:
  assumes "app_batch wp db (sync_id (w_sync s)) nums logs batch"
  shows "processWatchLogBatch f conflicts aborted nums wp s db st logs m =
    (case processWatchBlobRefs f wp db st batch of
       Some e \<Rightarrow> Some (wp, s, st, if aborted then None else Some e)
     | None \<Rightarrow> do {
         (s, r) \<leftarrow> run_in_tx (watch_tx db batch None (word_of_nat (length logs)) m) 100 conflicts s st;
         Some (case r of Inr st \<Rightarrow> (wp, s, st, None) | Inl e \<Rightarrow> (wp, s, st, if aborted then None else Some e))
       })"
proof -
  obtain e es where l: "logs = e # es" using assms by (cases logs) (auto simp: app_batch_def)
  have "processDbStateChangeLogRecord conflicts s db st e m = None"
    using assms l by (auto simp: app_batch_def processDbStateChangeLogRecord_def split: watch_op.split)
  with assms show ?thesis unfolding l
    by (simp add: processWatchLogBatch_def app_batch_def del: processSyncgroupLogRecord.simps convert_logs.simps)
qed

text \<open>
  C16: the watcher records a batch of local updates: every updated object gets a new version on top of its head before the batch, which
  becomes its head, with a log record; the records of the batch have consecutive generations and positions; and the marker to resume
  from moves behind the batch in the same transaction.
\<close>

theorem local_updates_recorded:
  assumes "app_batch wp db (sync_id (w_sync s)) nums logs batch" "batch_distinct batch"
    "processWatchLogBatch f conflicts False nums wp s db st logs m = Some (wp', s', st', None)"
  shows "getResMark st' = Inr m \<and> (\<exists>g p btid. \<forall>i<length batch. \<exists>node rec.
    getHead st' (ObjId (Metadata (batch ! i))) = Inr (CurVers (Metadata (batch ! i))) \<and>
    getNode st' (ObjId (Metadata (batch ! i))) (CurVers (Metadata (batch ! i))) = Inr node \<and>
    Parents node = (case getHead st (ObjId (Metadata (batch ! i))) of Inr h \<Rightarrow> [h] | Inl _ \<Rightarrow> []) \<and>
    Deleted node = Delete (Metadata (batch ! i)) \<and> getLogRecByKey st' (Logrec node) = Inr rec \<and>
    Gen (Metadata rec) = g + word_of_nat i \<and> Pos rec = p + word_of_nat i \<and> rec_BatchId (Metadata rec) = btid \<and>
    CurVers (Metadata rec) = CurVers (Metadata (batch ! i)))"
proof -
  let ?fix = "\<lambda>rec. rec\<lparr>Metadata := (Metadata rec)\<lparr>rec_Parents := (case getHead st (ObjId (Metadata rec)) of Inr h \<Rightarrow> [h] | Inl _ \<Rightarrow> [])\<rparr>\<rparr>"
  let ?cnt = "word_of_nat (length logs) :: 64 word"
  from assms(3) obtain s1 where w: "watch_tx db batch None ?cnt m s1 st = Some (s', Inr st')"
    unfolding processWatchLogBatch_app[OF assms(1)]
    by (auto split: option.splits sum.splits Option.bind_splits dest!: run_in_tx_success)
  then obtain rs s2 tx1 where f: "fixupLogRecordBatch st batch True = Inr rs" and
      b: "processBatch s1 db rs True ?cnt st = Some (s2, Inr tx1)" and st': "st' = setResMark tx1 m"
    unfolding watch_tx_def by (auto split: sum.splits Option.bind_splits elim!: sbindE)
  have rs: "rs = map ?fix batch" by (rule fixup_app[OF f])
  have mark: "getResMark st' = Inr m" by (simp add: st' setResMark_def getResMark_def)
  show ?thesis
  proof (cases "batch = []")
    case True
    with mark show ?thesis by simp
  next
    case False
    with rs have "rs \<noteq> []" by simp
    from processBatch_success[OF b this] obtain g p btid bs bs' tx2 where
        r: "process_recs g p btid ?cnt rs bs st = Inr (bs', tx2)" and k: "\<forall>k. k \<noteq> batchKey btid \<longrightarrow> tx1 k = tx2 k"
      by blast
    have bd: "batch_distinct rs" using assms(2) unfolding batch_distinct_def rs by (auto simp: comp_def)
    have rd: "getHead st' o1 = getHead tx2 o1" "getNode st' o1 v = getNode tx2 o1 v" "getLogRecByKey st' (logRecKey q d n) = getLogRecByKey tx2 (logRecKey q d n)"
      for o1 v q d n
      using k by (simp_all add: st' setResMark_def getHead_def getNode_def getLogRecByKey_def)
    have "\<exists>node rec. getHead st' (ObjId (Metadata (batch ! i))) = Inr (CurVers (Metadata (batch ! i))) \<and>
      getNode st' (ObjId (Metadata (batch ! i))) (CurVers (Metadata (batch ! i))) = Inr node \<and>
      Parents node = (case getHead st (ObjId (Metadata (batch ! i))) of Inr h \<Rightarrow> [h] | Inl _ \<Rightarrow> []) \<and>
      Deleted node = Delete (Metadata (batch ! i)) \<and> getLogRecByKey st' (Logrec node) = Inr rec \<and>
      Gen (Metadata rec) = g + word_of_nat i \<and> Pos rec = p + word_of_nat i \<and> rec_BatchId (Metadata rec) = btid \<and>
      CurVers (Metadata rec) = CurVers (Metadata (batch ! i))" if "i < length batch" for i
    proof -
      from process_recs_records[OF r bd, of i] that obtain node where
          n: "getHead tx2 (ObjId (Metadata (rs ! i))) = Inr (CurVers (Metadata (rs ! i)))"
            "getNode tx2 (ObjId (Metadata (rs ! i))) (CurVers (Metadata (rs ! i))) = Inr node"
            "Parents node = rec_Parents (Metadata (rs ! i))" "Deleted node = Delete (Metadata (rs ! i))"
            "getLogRecByKey tx2 (Logrec node) = Inr (stamp (g + word_of_nat i) (p + word_of_nat i) btid ?cnt (rs ! i))"
            "\<exists>q d n. Logrec node = logRecKey q d n"
        unfolding rs by auto
      then show ?thesis using that rd by (intro exI[of _ node] exI[of _ "stamp (g + word_of_nat i) (p + word_of_nat i) btid ?cnt (rs ! i)"])
         (auto simp: rs stamp_def)
    qed
    with mark show ?thesis by blast
  qed
qed


lemma run_in_tx_first: "run_in_tx fn 100 [] s st = fn s st"
  using run_in_tx.simps(2)[of fn 99 s st] by simp

definition db1 :: wire_Id where "db1 = \<lparr>Blessing = ''b'', Name = ''d''\<rparr>"
definition row1 :: string where "row1 = [CHR ''r'', KeyPartSep, CHR ''c'']"

definition put1 :: "LogEntry list" where
  "put1 = [\<lparr>Op = PutOp row1 ''1'', CommitTimestamp = 5, FromSync = False, Continued = False\<rparr>]"

definition mem1 :: sync_mem where
  "mem1 = \<lparr>w_sync = \<lparr>sync_id = 7, syncState = Map.empty, sgPublishQueue = []\<rparr>, w_batches = Map.empty, w_rands = []\<rparr>"

definition rec1 :: "string \<Rightarrow> bool \<Rightarrow> LocalLogRec" where
  "rec1 v del = \<lparr>Metadata = \<lparr>Id = 7, Gen = 0, RecType = 0, ObjId = row1, CurVers = v, rec_Parents = [], UpdTime = 5, Delete = del,
     rec_BatchId = 0, BatchCount = 0\<rparr>, Pos = 0\<rparr>"

lemma syncable_row1: "syncable [db1 \<mapsto> [(''c'', [''g''])]] db1 row1 = Some True"
  by (simp add: syncable_def StripFirstKeyPartOrDie_def SplitNKeyParts_def row1_def numeral_2_eq_2 split_n.simps KeyPartSep_def)

lemma app_batch_put1: "app_batch [db1 \<mapsto> [(''c'', [''g''])]] db1 7 [0] put1 [rec1 ''1'' False]"
  by (simp add: app_batch_def put1_def convertLogRecord_def syncable_row1 rec1_def)

lemma local_updates_recorded_witness:
  "\<exists>wp' s' st'. processWatchLogBatch (\<lambda>_ _. None) [] False [0] [db1 \<mapsto> [(''c'', [''g''])]] mem1 db1
      [makeAtVersionKey row1 ''1'' \<mapsto> BytesVal ''x''] put1 ''m'' = Some (wp', s', st', None) \<and>
     getHead st' row1 = Inr ''1'' \<and> getResMark st' = Inr ''m''"
proof -
  let ?st = "[makeAtVersionKey row1 ''1'' \<mapsto> BytesVal ''x'']" and ?wp = "[db1 \<mapsto> [(''c'', [''g''])]]"
  have a: "app_batch ?wp db1 (sync_id (w_sync mem1)) [0] put1 [rec1 ''1'' False]" using app_batch_put1 by (simp add: mem1_def)
  have at: "makeAtVersionKey row1 ''1'' = [CHR ''r'', KeyPartSep, CHR ''c'', KeyPartSep, CHR ''1'']"
    by (simp add: makeAtVersionKey_def JoinKeyParts_def row1_def)
  have n: "?st (nodeKey o1 v) = None" "?st (headKey o1) = None" for o1 v
    by (simp_all add: at nodeKey_def headKey_def dagNodePrefix_def dagHeadPrefix_def JoinKeyParts_def SyncPrefix_def)
  have b: "processWatchBlobRefs (\<lambda>_ _. None) ?wp db1 ?st [rec1 ''1'' False] = None"
    by (simp add: processWatchBlobRefs_def getAtVersion_def get_bytes_def rec1_def)
  have f: "fixupLogRecordBatch ?st [rec1 ''1'' False] True = Inr [rec1 ''1'' False]"
    using n by (simp add: rec1_def hasNode_def getHead_def not_exist_def NoVersion_def del: fun_upd_apply)
  obtain s' tx where p: "processBatch mem1 db1 [rec1 ''1'' False] True 1 ?st = Some (s', Inr tx)"
    by (simp add: processBatch_def process_started_def reserveGenAndPosInDbLog_def reserveGenAndPosInternal_def Let_def
        getOrCreateSyncStateInternal_def mem1_def new_dbSync_def new_genInfo_def processLocalLogRec_def rec1_def addNode_def setNode_def
        NoVersion_def moveHead_def hasNode_def setHead_def putLogRec_def NoBatchId_def)
  have w: "watch_tx db1 [rec1 ''1'' False] None (word_of_nat (length put1)) ''m'' mem1 ?st = Some (s', Inr (setResMark tx ''m''))"
    using f p by (simp add: watch_tx_def put1_def)
  have "processWatchLogBatch (\<lambda>_ _. None) [] False [0] ?wp mem1 db1 ?st put1 ''m'' = Some (?wp, s', setResMark tx ''m'', None)"
    unfolding processWatchLogBatch_app[OF a] b run_in_tx_first w by simp
  moreover have "batch_distinct [rec1 ''1'' False]" by (simp add: batch_distinct_def rec1_def KeyPartSep_def)
  ultimately show ?thesis using local_updates_recorded[OF a] by (fastforce simp: rec1_def)
qed

subsection \<open>Deleting a row that has no history\<close>

lemma convert_logs_mem:
  assumes "(e, num) \<in> set es" "convert_logs syncId wp db es = Some (Inr batch)" "convertLogRecord syncId num e = Inr (Some rec)" "\<not> FromSync e"
    "syncable wp db (ObjId (Metadata rec)) = Some True"
  shows "rec \<in> set batch"
  using assms(1,2)
proof (induction es arbitrary: batch)
  case (Cons x es)
  obtain e' num' where x: "x = (e', num')" by fastforce
  show ?case
  proof (cases "x = (e, num)")
    case True
    with Cons.prems(2) assms(3-) show ?thesis by (auto split: Option.bind_splits elim!: sbindE)
  next
    case False
    with Cons show ?thesis unfolding x
      by (auto split: Option.bind_splits if_splits sum.splits option.splits elim!: sbindE)
  qed
qed simp

text \<open>
  C34: a batch that deletes a synced row of which the history knows nothing stops the watcher: the batch is not applied, the marker
  stays in front of it, and an error is returned, on which the watcher of the database exits. A row that was never written, or one
  written and deleted in the same batch, is such a row.
\<close>

theorem unknown_row_deletion_stops_watcher:
  assumes "app_batch wp db (sync_id (w_sync s)) nums logs batch" "(e, num) \<in> set (zip logs nums)" "Op e = DeleteOp key" "\<not> FromSync e"
    "syncable wp db key = Some True" "st (headKey key) = None" "\<forall>v. st (nodeKey key v) = None"
    "processWatchBlobRefs f wp db st batch = None"
  shows "\<exists>err. processWatchLogBatch f [] False nums wp s db st logs m = Some (wp, s, st, Some err)"
proof -
  have c: "convert_logs (sync_id (w_sync s)) wp db (zip logs nums) = Some (Inr batch)" using assms(1) by (simp add: app_batch_def)
  obtain rec where r: "convertLogRecord (sync_id (w_sync s)) num e = Inr (Some rec)" "ObjId (Metadata rec) = key" "Delete (Metadata rec)"
    using assms(3) by (simp add: convertLogRecord_def)
  from convert_logs_mem[OF assms(2) c r(1) assms(4)] assms(5) r(2) have "rec \<in> set batch" by simp
  from fixup_fails[OF this r(3)] assms(6,7) r(2) obtain err where "fixupLogRecordBatch st batch True = Inl err" by metis
  then have "watch_tx db batch None (word_of_nat (length logs)) m s st = Some (s, Inl err)" by (simp add: watch_tx_def)
  then show ?thesis unfolding processWatchLogBatch_app[OF assms(1)] assms(8) run_in_tx_first by simp
qed

definition del1 :: LogEntry where
  "del1 = \<lparr>Op = DeleteOp row1, CommitTimestamp = 5, FromSync = False, Continued = False\<rparr>"

lemma unknown_row_deletion_stops_watcher_witness:
  "\<exists>err. processWatchLogBatch (\<lambda>_ _. None) [] False [3] [db1 \<mapsto> [(''c'', [''g''])]] mem1 db1 Map.empty [del1] ''m'' =
     Some ([db1 \<mapsto> [(''c'', [''g''])]], mem1, Map.empty, Some err)"
proof -
  let ?wp = "[db1 \<mapsto> [(''c'', [''g''])]]"
  have a: "app_batch ?wp db1 (sync_id (w_sync mem1)) [3] [del1] [rec1 (NewVersion 3) True]"
    by (simp add: app_batch_def del1_def convertLogRecord_def syncable_row1 rec1_def mem1_def)
  have b: "processWatchBlobRefs (\<lambda>_ _. None) ?wp db1 Map.empty [rec1 (NewVersion 3) True] = None"
    by (simp add: processWatchBlobRefs_def rec1_def)
  show ?thesis
    by (rule unknown_row_deletion_stops_watcher[OF a _ _ _ syncable_row1 _ _ b, of del1 3]) (simp_all add: del1_def)
qed

subsection \<open>Writing a row twice in a batch\<close>




lemma nodeKey_same_obj [simp]: "nodeKey oid a = nodeKey oid b \<longleftrightarrow> a = b"
  by (simp add: nodeKey_def JoinKeyParts_def)



end
