(* ===== verification/Go_Heap.thy ===== *)
theory Go_Heap
  imports Prelude "HOL-Library.Multiset"
begin

text \<open>
  The binary heap of Go's \<^verbatim>\<open>container/heap\<close>, on the slice of a type that implements \<^verbatim>\<open>heap.Interface\<close> by
  comparison (\<^verbatim>\<open>Less\<close>), exchange and growth at the end, as the responder's \<^verbatim>\<open>minHeap\<close> does. The locale
  \<open>heap_interface\<close> is the contract of \<^verbatim>\<open>Less\<close>.
\<close>

definition swap :: "nat \<Rightarrow> nat \<Rightarrow> 'a list \<Rightarrow> 'a list" where
  "swap i j h = h[i := h ! j, j := h ! i]"

function up :: "('a \<Rightarrow> 'a \<Rightarrow> bool) \<Rightarrow> 'a list \<Rightarrow> nat \<Rightarrow> 'a list" where
  "up lt h j =
     (let i = (j - 1) div 2 in
      if i = j \<or> \<not> lt (h ! j) (h ! i) then h else up lt (swap i j h) i)"
  by pat_completeness auto
termination by (relation "measure (\<lambda>(_, _, j). j)") auto

function down :: "('a \<Rightarrow> 'a \<Rightarrow> bool) \<Rightarrow> 'a list \<Rightarrow> nat \<Rightarrow> nat \<Rightarrow> 'a list" where
  "down lt h i n =
     (let j1 = 2 * i + 1 in
      if j1 \<ge> n then h
      else let j = (if j1 + 1 < n \<and> \<not> lt (h ! j1) (h ! (j1 + 1)) then j1 + 1 else j1) in
        if \<not> lt (h ! j) (h ! i) then h else down lt (swap i j h) j n)"
  by pat_completeness auto
termination by (relation "measure (\<lambda>(_, _, i, n). n - i)") (auto split: if_splits)

declare up.simps [simp del] down.simps [simp del]

definition heap_Init :: "('a \<Rightarrow> 'a \<Rightarrow> bool) \<Rightarrow> 'a list \<Rightarrow> 'a list" where
  "heap_Init lt h = fold (\<lambda>i h. down lt h i (length h)) (rev [0..<length h div 2]) h"

definition heap_Push :: "('a \<Rightarrow> 'a \<Rightarrow> bool) \<Rightarrow> 'a list \<Rightarrow> 'a \<Rightarrow> 'a list" where
  "heap_Push lt h x = up lt (h @ [x]) (length h)"

definition heap_Pop :: "('a \<Rightarrow> 'a \<Rightarrow> bool) \<Rightarrow> 'a list \<Rightarrow> 'a list \<times> 'a" where
  "heap_Pop lt h =
     (let n = length h - 1; h = down lt (swap 0 n h) 0 n in (butlast h, last h))"

lemma length_swap [simp]: "length (swap i j h) = length h"
  by (simp add: swap_def)

lemma nth_swap:
  "i < length h \<Longrightarrow> j < length h \<Longrightarrow> swap i j h ! k = (if k = j then h ! i else if k = i then h ! j else h ! k)"
  by (auto simp: swap_def nth_list_update)

lemma mset_swap_nth [simp]: "i < length h \<Longrightarrow> j < length h \<Longrightarrow> mset (swap i j h) = mset h"
  by (simp add: swap_def mset_swap)

text \<open>The parent of a node, and order along the edges whose parent is at least \<open>lo\<close>.\<close>

definition par :: "nat \<Rightarrow> nat" where "par j = (j - 1) div 2"

lemma par_less: "0 < j \<Longrightarrow> par j < j"
  by (auto simp: par_def)

lemma par_iff: "0 < j \<Longrightarrow> par j = i \<longleftrightarrow> j = 2 * i + 1 \<or> j = 2 * i + 2"
  by (auto simp: par_def)

locale heap_interface =
  fixes lt :: "'a \<Rightarrow> 'a \<Rightarrow> bool"
  assumes lt_asym: "lt a b \<Longrightarrow> \<not> lt b a"
    and not_lt_trans: "\<not> lt b a \<Longrightarrow> \<not> lt c b \<Longrightarrow> \<not> lt c a"
begin

definition le :: "'a \<Rightarrow> 'a \<Rightarrow> bool" where "le a b \<longleftrightarrow> \<not> lt b a"

lemma le_trans: "le a b \<Longrightarrow> le b c \<Longrightarrow> le a c"
  unfolding le_def by (rule not_lt_trans)

lemma le_refl: "le a a"
  unfolding le_def using lt_asym by blast

lemma lt_le: "lt a b \<Longrightarrow> le a b"
  unfolding le_def by (rule lt_asym)

definition heap_from :: "nat \<Rightarrow> nat \<Rightarrow> 'a list \<Rightarrow> bool" where
  "heap_from lo n h \<longleftrightarrow> (\<forall>j. 0 < j \<and> j < n \<and> lo \<le> par j \<longrightarrow> le (h ! par j) (h ! j))"

text \<open>Order except at the children of \<open>i\<close>, which are still above the parent of \<open>i\<close>.\<close>

definition hole_down :: "nat \<Rightarrow> nat \<Rightarrow> nat \<Rightarrow> 'a list \<Rightarrow> bool" where
  "hole_down lo n i h \<longleftrightarrow>
     (\<forall>j. 0 < j \<and> j < n \<and> lo \<le> par j \<and> par j \<noteq> i \<longrightarrow> le (h ! par j) (h ! j)) \<and>
     (\<forall>j. 0 < j \<and> j < n \<and> par j = i \<and> 0 < i \<and> lo \<le> par i \<longrightarrow> le (h ! par i) (h ! j))"

lemma hole_down_step:
  assumes h: "hole_down lo n i h" and n: "n \<le> length h" and j: "par j = i" "0 < j" "j < n" and lo: "lo \<le> i"
    and least: "\<And>k. 0 < k \<Longrightarrow> k < n \<Longrightarrow> par k = i \<Longrightarrow> le (h ! j) (h ! k)" and lt: "lt (h ! j) (h ! i)"
  shows "hole_down lo n j (swap i j h)"
proof -
  have ij: "i < j" using par_less[OF j(2)] j(1) by simp
  have nth: "swap i j h ! k = (if k = j then h ! i else if k = i then h ! j else h ! k)" for k
    using ij j(3) n by (intro nth_swap) auto
  have "le (swap i j h ! par k) (swap i j h ! k)" if k: "0 < k" "k < n" "lo \<le> par k" "par k \<noteq> j" for k
  proof (cases "par k = i")
    case True
    have "k \<noteq> i" using True k(1) par_less[OF k(1)] by auto
    then show ?thesis using True least[OF k(1,2) True] ij lt_le[OF lt] by (auto simp: nth)
  next
    case False
    note hk = h[unfolded hole_down_def, THEN conjunct1, rule_format, of k]
    show ?thesis
    proof (cases "k = i")
      case True
      then have "le (h ! par i) (h ! j)"
        using h[unfolded hole_down_def, THEN conjunct2, rule_format, of j] j k by auto
      then show ?thesis using True False k(4) ij by (auto simp: nth)
    next
      case no: False
      then have "k \<noteq> j" using False j(1) by auto
      then show ?thesis using hk k False no by (auto simp: nth)
    qed
  qed
  moreover have "le (swap i j h ! par j) (swap i j h ! k)" if k: "0 < k" "k < n" "par k = j" "lo \<le> par j" for k
  proof -
    have "k \<noteq> i" "k \<noteq> j" using k par_less[OF k(1)] ij by auto
    moreover have "le (h ! j) (h ! k)" using h[unfolded hole_down_def, THEN conjunct1, rule_format, of k] k lo ij by auto
    ultimately show ?thesis using j(1) ij by (simp add: nth)
  qed
  ultimately show ?thesis unfolding hole_down_def by blast
qed

lemma down_correct:
  assumes "hole_down lo n i h" "n \<le> length h" "lo \<le> i"
  shows "heap_from lo n (down lt h i n) \<and> mset (down lt h i n) = mset h \<and> (\<forall>k. n \<le> k \<longrightarrow> down lt h i n ! k = h ! k)"
  using assms
proof (induction "n - i" arbitrary: h i rule: less_induct)
  case less
  note unf = down.simps[of lt h i n]
  show ?case
  proof (cases "2 * i + 1 \<ge> n")
    case True
    then have "par k \<noteq> i" if "0 < k" "k < n" for k using that by (auto simp: par_iff)
    then have "heap_from lo n h" using less.prems(1) unfolding heap_from_def hole_down_def by blast
    then show ?thesis using unf True by simp
  next
    case False
    define j where "j = (if 2 * i + 1 + 1 < n \<and> \<not> lt (h ! (2 * i + 1)) (h ! (2 * i + 1 + 1)) then 2 * i + 1 + 1 else 2 * i + 1)"
    have j: "par j = i" "0 < j" "j < n" "i < j" using False by (auto simp: j_def par_def)
    have least: "le (h ! j) (h ! k)" if "0 < k" "k < n" "par k = i" for k
      using that le_refl lt_le by (auto simp: par_iff j_def le_def)
    have unf': "down lt h i n = (if \<not> lt (h ! j) (h ! i) then h else down lt (swap i j h) j n)"
      using unf False by (simp add: j_def Let_def)
    show ?thesis
    proof (cases "lt (h ! j) (h ! i)")
      case True
      have "hole_down lo n j (swap i j h)"
        using hole_down_step[OF less.prems(1,2) j(1-3) less.prems(3) least True] .
      then have IH: "heap_from lo n (down lt (swap i j h) j n) \<and> mset (down lt (swap i j h) j n) = mset (swap i j h) \<and>
          (\<forall>k. n \<le> k \<longrightarrow> down lt (swap i j h) j n ! k = swap i j h ! k)"
        using less.hyps[of j "swap i j h"] j less.prems(2,3) by simp
      have "mset (swap i j h) = mset h" "\<forall>k. n \<le> k \<longrightarrow> swap i j h ! k = h ! k"
        using j less.prems(2) by (auto simp: nth_swap)
      then show ?thesis using IH True unf' by simp
    next
      case False
      have "le (h ! i) (h ! k)" if "0 < k" "k < n" "par k = i" for k
        using least[OF that] False le_trans[of "h ! i" "h ! j"] by (auto simp: le_def)
      then have "heap_from lo n h" using less.prems(1) unfolding heap_from_def hole_down_def by metis
      then show ?thesis using False unf' by simp
    qed
  qed
qed

lemma length_down [simp]: "length (down lt h i n) = length h"
proof (induction "n - i" arbitrary: h i rule: less_induct)
  case less
  then show ?case by (subst down.simps) (auto simp: Let_def)
qed

definition heap :: "'a list \<Rightarrow> bool" where
  "heap h \<longleftrightarrow> heap_from 0 (length h) h"

lemma heap_from_least:
  assumes "heap_from 0 n h" "k < n"
  shows "le (h ! 0) (h ! k)"
  using assms(2)
proof (induction k rule: less_induct)
  case (less k)
  show ?case
  proof (cases "k = 0")
    case False
    then have "le (h ! 0) (h ! par k)" using less par_less[of k] by simp
    moreover have "le (h ! par k) (h ! k)" using assms(1) less.prems False by (simp add: heap_from_def)
    ultimately show ?thesis by (rule le_trans)
  qed (simp add: le_refl)
qed

text \<open>Order except between \<open>j\<close> and its parent, which is still below the children of \<open>j\<close>.\<close>

definition hole_up :: "nat \<Rightarrow> 'a list \<Rightarrow> bool" where
  "hole_up j h \<longleftrightarrow>
     (\<forall>k. 0 < k \<and> k < length h \<and> k \<noteq> j \<longrightarrow> le (h ! par k) (h ! k)) \<and>
     (\<forall>k. 0 < k \<and> k < length h \<and> par k = j \<and> 0 < j \<longrightarrow> le (h ! par j) (h ! k))"

lemma hole_up_step:
  assumes h: "hole_up j h" and j: "0 < j" "j < length h" and lt: "lt (h ! j) (h ! par j)"
  shows "hole_up (par j) (swap (par j) j h)"
proof -
  let ?i = "par j"
  have ij: "?i < j" using par_less[OF j(1)] .
  have nth: "swap ?i j h ! k = (if k = j then h ! ?i else if k = ?i then h ! j else h ! k)" for k
    using ij j(2) by (intro nth_swap) auto
  have edge: "le (h ! par k) (h ! k)" if "0 < k" "k < length h" "k \<noteq> j" for k
    using h that unfolding hole_up_def by blast
  have "le (swap ?i j h ! par k) (swap ?i j h ! k)" if k: "0 < k" "k < length h" "k \<noteq> ?i" for k
  proof -
    consider "k = j" | "k \<noteq> j" "par k = j" | "k \<noteq> j" "par k = ?i" | "k \<noteq> j" "par k \<noteq> j" "par k \<noteq> ?i" by blast
    then show ?thesis
    proof cases
      case 1
      then show ?thesis using lt_le[OF lt] ij by (simp add: nth)
    next
      case 2
      then have "le (h ! ?i) (h ! k)" using h k j unfolding hole_up_def by blast
      then show ?thesis using 2 k(3) by (simp add: nth)
    next
      case 3
      then have "le (h ! j) (h ! k)" using edge[OF k(1,2) 3(1)] lt_le[OF lt] le_trans by metis
      then show ?thesis using 3 k(3) ij by (simp add: nth)
    next
      case 4
      then show ?thesis using edge[OF k(1,2)] k(3) by (simp add: nth)
    qed
  qed
  moreover have "le (swap ?i j h ! par ?i) (swap ?i j h ! k)"
    if k: "0 < k" "k < length h" "par k = ?i" "0 < ?i" for k
  proof -
    have p: "par ?i < ?i" "le (h ! par ?i) (h ! ?i)" using par_less[OF k(4)] edge[of ?i] k(4) ij j(2) by auto
    have "k \<noteq> ?i" using par_less[OF k(1)] k(3) by auto
    show ?thesis
    proof (cases "k = j")
      case True
      then show ?thesis using p ij by (simp add: nth)
    next
      case False
      then have "le (h ! par ?i) (h ! k)" using edge[OF k(1,2)] k(3) le_trans[OF p(2)] by simp
      then show ?thesis using False \<open>k \<noteq> ?i\<close> p ij by (simp add: nth)
    qed
  qed
  ultimately show ?thesis unfolding hole_up_def by simp
qed

lemma up_correct: "hole_up j h \<Longrightarrow> j < length h \<Longrightarrow> heap (up lt h j) \<and> mset (up lt h j) = mset h"
proof (induction j arbitrary: h rule: less_induct)
  case (less j)
  have unf: "up lt h j = (if par j = j \<or> \<not> lt (h ! j) (h ! par j) then h else up lt (swap (par j) j h) (par j))"
    by (subst up.simps) (simp add: par_def Let_def)
  show ?case
  proof (cases "par j = j \<or> \<not> lt (h ! j) (h ! par j)")
    case True
    then have "j = 0 \<or> le (h ! par j) (h ! j)" using par_less[of j] by (auto simp: le_def)
    then have "le (h ! par k) (h ! k)" if "0 < k" "k < length h" for k
      using less.prems(1) that unfolding hole_up_def by (cases "k = j") auto
    then have "heap h" by (simp add: heap_def heap_from_def)
    then show ?thesis using True unf by simp
  next
    case False
    then have j: "0 < j" by (auto simp: par_def)
    have "hole_up (par j) (swap (par j) j h)" using hole_up_step[OF less.prems(1) j less.prems(2)] False by simp
    then show ?thesis using less.IH[of "par j" "swap (par j) j h"] par_less[OF j] less.prems(2) False unf by simp
  qed
qed

theorem heap_Push_correct:
  assumes "heap h"
  shows "heap (heap_Push lt h x) \<and> mset (heap_Push lt h x) = add_mset x (mset h)"
proof -
  have "le ((h @ [x]) ! par k) ((h @ [x]) ! k)" if "0 < k" "k < length h" for k
    using assms that par_less[OF that(1)] by (simp add: heap_def heap_from_def nth_append)
  moreover have "par k \<noteq> length h" if "0 < k" "k < Suc (length h)" for k using par_less[OF that(1)] that(2) by simp
  ultimately have "hole_up (length h) (h @ [x])" by (auto simp: hole_up_def less_Suc_eq)
  from up_correct[OF this] show ?thesis by (simp add: heap_Push_def)
qed

lemma heap_Init_loop:
  assumes "heap_from m (length h) h" "n = length h"
  shows "heap_from 0 n (fold (\<lambda>i h. down lt h i (length h)) (rev [0..<m]) h) \<and>
    mset (fold (\<lambda>i h. down lt h i (length h)) (rev [0..<m]) h) = mset h \<and>
    length (fold (\<lambda>i h. down lt h i (length h)) (rev [0..<m]) h) = n"
  using assms
proof (induction m arbitrary: h)
  case (Suc m)
  have "hole_down m (length h) m h"
    using Suc.prems(1) par_less unfolding heap_from_def hole_down_def
    by (metis Suc_leI le_neq_implies_less linorder_not_le)
  from down_correct[OF this] have "heap_from m (length h) (down lt h m (length h))" "mset (down lt h m (length h)) = mset h"
    by auto
  with Suc.IH[of "down lt h m (length h)"] Suc.prems(2) show ?case by simp
qed auto

theorem heap_Init_correct: "heap (heap_Init lt h) \<and> mset (heap_Init lt h) = mset h"
proof -
  have "heap_from (length h div 2) (length h) h" by (auto simp: heap_from_def par_def)
  from heap_Init_loop[OF this refl] show ?thesis by (simp add: heap_Init_def heap_def)
qed

theorem heap_Pop_correct:
  assumes "heap h" "h \<noteq> []" "heap_Pop lt h = (h', x)"
  shows "heap h' \<and> mset h = add_mset x (mset h') \<and> (\<forall>y\<in>set h'. le x y)"
proof -
  define n where "n = length h - 1"
  define d where "d = down lt (swap 0 n h) 0 n"
  have n: "n < length h" "length h = Suc n" using assms(2) by (simp_all add: n_def)
  have nth: "swap 0 n h ! k = (if k = n then h ! 0 else if k = 0 then h ! n else h ! k)" for k
    using n by (intro nth_swap) auto
  have "le (swap 0 n h ! par k) (swap 0 n h ! k)" if "0 < k" "k < n" "par k \<noteq> 0" for k
    using assms(1) that par_less[OF that(1)] by (simp add: heap_def heap_from_def nth n(2))
  then have "hole_down 0 n 0 (swap 0 n h)" by (simp add: hole_down_def)
  from down_correct[OF this] have d: "heap_from 0 n d" "mset d = mset h" "d ! n = h ! 0" "length d = Suc n"
    using n by (simp_all add: d_def nth)
  have r: "h' = butlast d" "x = last d" using assms(3) by (simp_all add: heap_Pop_def d_def n_def Let_def)
  have x: "x = h ! 0" using r(2) d(3,4) by (metis diff_Suc_1 last_conv_nth length_0_conv nat.simps(3))
  have ms: "mset h = add_mset x (mset h')"
    using d(2,4) r by (metis append_butlast_last_id length_0_conv mset_append nat.simps(3) add_mset_add_single mset.simps)
  have "length h' = n" using r(1) d(4) by simp
  then have "le (h' ! par k) (h' ! k)" if "0 < k" "k < length h'" for k
    using d(1,4) that par_less[OF that(1)] by (simp add: r(1) heap_from_def nth_butlast)
  then have "heap h'" by (simp add: heap_def heap_from_def)
  moreover have "le x y" if "y \<in> set h'" for y
  proof -
    have "y \<in> set h" using that ms by (metis insert_iff set_mset_add_mset_insert set_mset_mset)
    then obtain k where "k < length h" "y = h ! k" by (auto simp: in_set_conv_nth)
    then show ?thesis using heap_from_least[of "length h" h k] assms(1) x by (simp add: heap_def)
  qed
  ultimately show ?thesis using ms by blast
qed

end

end
