(* ===== verification/Responder.thy ===== *)
theory Responder
  imports Syncgroups Go_Heap
begin

text \<open>
  The responder of a sync exchange, \<^verbatim>\<open>src/services/syncbase/vsync/responder.go\<close>: it authorizes the initiator for
  the syncgroups it asks for, computes a bound on the generations the initiator misses, and sends the log
  records in that bound which the initiator is interested in and does not have, in the order of its own log.
  \<^term>\<open>None\<close> stands for a loop that does not end. What is sent on the stream of the RPC is a list.
\<close>

subsection \<open>Names\<close>

definition toCollectionPrefixStr :: "wire_Id \<Rightarrow> string" where
  "toCollectionPrefixStr c = JoinKeyParts [EncodeIdKeyPart c, []]"

definition syncbaseIdToName :: "64 word \<Rightarrow> string" where
  "syncbaseIdToName i = hex_digits (unat i)"

subsection \<open>State\<close>

record genRange =
  rg_min :: "64 word"
  rg_max :: "64 word"
  rg_cur :: "64 word"

type_synonym genRangeVector = "(64 word \<times> genRange) list"

datatype rawValue = RawSg Syncgroup | RawBytes string

record LogRec =
  lr_Metadata :: LogRecMetadata
  lr_Value :: "rawValue option"

datatype DeltaResp = DeltaRespRec LogRec | DeltaRespGvs Knowledge

datatype DeltaReq = DeltaReqData wire_Id "string list" Knowledge | DeltaReqSgs wire_Id Knowledge

record responderState =
  r_dbId :: wire_Id
  sgIds :: "string list"
  initVecs :: Knowledge
  r_sg :: bool
  blessings :: "string list"
  initiator :: string
  r_st :: dstore
  diff :: genRangeVector
  outVecs :: Knowledge

text \<open>The request for syncgroups names them by the keys of its vectors; a key of another form is fatal.\<close>

definition newResponderState :: "DeltaReq \<Rightarrow> string list \<Rightarrow> string \<Rightarrow> derr + responderState" where
  "newResponderState req bs init =
     (case req of
        DeltaReqData db sgids gvs \<Rightarrow>
          Inr \<lparr>r_dbId = db, sgIds = sgids, initVecs = gvs, r_sg = False, blessings = bs, initiator = init,
               r_st = Map.empty, diff = [], outVecs = []\<rparr>
      | DeltaReqSgs db gvs \<Rightarrow>
          if list_all (\<lambda>(oid, _). sgID oid \<noteq> None) gvs
          then Inr \<lparr>r_dbId = db, sgIds = remdups (map (\<lambda>(oid, _). the (sgID oid)) gvs), initVecs = gvs, r_sg = True,
                    blessings = bs, initiator = init, r_st = Map.empty, diff = [], outVecs = []\<rparr>
          else Inl ExitFatal)"

subsection \<open>Phase 1: authorization\<close>

definition authorize_sg :: "acl_includes \<Rightarrow> string \<Rightarrow> responderState \<times> string list \<Rightarrow> responderState \<times> string list" where
  "authorize_sg incl sgid = (\<lambda>(r, allowedPfxs).
     (case sbind (getSyncgroupByGid (r_st r) sgid)
             (\<lambda>sg. sbind (Authorize incl (blessings r) (TagAuthorizer ''Read'' (Perms (Spec sg)))) (\<lambda>_. Inr sg)) of
        Inr sg \<Rightarrow> (r, if \<not> r_sg r then allowedPfxs @ map toCollectionPrefixStr (Collections (Spec sg)) else allowedPfxs)
      | Inl _ \<Rightarrow>
          (r\<lparr>sgIds := removeAll sgid (sgIds r),
             initVecs := (if r_sg r then AList.delete sgid (initVecs r) else initVecs r)\<rparr>, allowedPfxs)))"

definition authorizeAndFilterSyncgroups :: "acl_includes \<Rightarrow> derr + dstore \<Rightarrow> responderState \<Rightarrow> derr + responderState" where
  "authorizeAndFilterSyncgroups incl dbst r =
     sbind dbst (\<lambda>st.
       let (r, allowedPfxs) = fold (authorize_sg incl) (sgIds r) (r\<lparr>r_st := st\<rparr>, []) in
       if r_sg r then Inr r
       else Inr (r\<lparr>initVecs := filter (\<lambda>(pfx, _). pfx \<in> set allowedPfxs \<or> (\<exists>p\<in>set allowedPfxs. prefix p pfx)) (initVecs r)\<rparr>))"

subsection \<open>Phase 2: the bound on missing generations\<close>

definition updateDevRange :: "64 word \<Rightarrow> 64 word \<Rightarrow> 64 word \<Rightarrow> genRangeVector \<Rightarrow> genRangeVector" where
  "updateDevRange devid rgen g gens =
     (if g < rgen then
        (case map_of gens devid of
           None \<Rightarrow> AList.update devid \<lparr>rg_min = g + 1, rg_max = rgen, rg_cur = 0\<rparr> gens
         | Some r \<Rightarrow>
             (let r = (if g + 1 < rg_min r then r\<lparr>rg_min := g + 1\<rparr> else r);
                  r = (if rg_max r < rgen then r\<lparr>rg_max := rgen\<rparr> else r)
              in AList.update devid r gens))
      else gens)"

definition diffGenVectors :: "genRangeVector \<Rightarrow> GenVector \<Rightarrow> GenVector \<Rightarrow> genRangeVector" where
  "diffGenVectors gens respVec initVec =
     (let gens = fold (\<lambda>(devid, g) gens. case map_of respVec devid of Some rgen \<Rightarrow> updateDevRange devid rgen g gens | None \<Rightarrow> gens)
                   initVec gens
      in fold (\<lambda>(devid, rgen) gens. if map_of initVec devid = None then updateDevRange devid rgen 0 gens else gens) respVec gens)"

definition extractAndSortPrefixes :: "Knowledge \<Rightarrow> string list" where
  "extractAndSortPrefixes vec = sort (map fst vec)"

definition kn_get :: "Knowledge \<Rightarrow> string \<Rightarrow> GenVector" where
  "kn_get k p = (case map_of k p of Some gv \<Rightarrow> gv | None \<Rightarrow> [])"

fun resp_prefixes :: "Knowledge \<Rightarrow> GenVector \<Rightarrow> string \<Rightarrow> string list \<Rightarrow> genRangeVector \<times> Knowledge \<times> string \<Rightarrow>
    genRangeVector \<times> Knowledge \<times> string" where
  "resp_prefixes respVecs initgv pfx [] acc = acc"
| "resp_prefixes respVecs initgv pfx (rp # rps) (gens, out, rpStart) =
     (if \<not> prefix pfx rp \<and> \<not> prefix rp pfx then resp_prefixes respVecs initgv pfx rps (gens, out, rpStart)
      else if prefix rp pfx then resp_prefixes respVecs initgv pfx rps (gens, out, rp)
      else (let respgv = kn_get respVecs rp in
            resp_prefixes respVecs initgv pfx rps (diffGenVectors gens respgv initgv, AList.update rp respgv out, rpStart)))"

fun init_prefixes :: "64 word \<Rightarrow> 64 word \<Rightarrow> Knowledge \<Rightarrow> Knowledge \<Rightarrow> string list \<Rightarrow> string \<Rightarrow>
    genRangeVector \<times> Knowledge \<Rightarrow> genRangeVector \<times> Knowledge" where
  "init_prefixes self respGen respVecs ivs [] pfx acc = acc"
| "init_prefixes self respGen respVecs ivs (p # ps) pfx (gens, out) =
     (if prefix pfx p \<and> p \<noteq> pfx then init_prefixes self respGen respVecs ivs ps pfx (gens, out)
      else
        (let pfx = p; initgv = kn_get ivs pfx;
             (gens, out, rpStart) = resp_prefixes respVecs initgv pfx (extractAndSortPrefixes respVecs) (gens, out, []);
             respgv = (if rpStart = [] then [(self, respGen)] else kn_get respVecs rpStart)
         in init_prefixes self respGen respVecs ivs ps pfx (diffGenVectors gens respgv initgv, AList.update pfx respgv out)))"

text \<open>The first prefix is taken before the loop: a request without prefixes would panic.\<close>

definition computeDataDeltas :: "syncService \<Rightarrow> responderState \<Rightarrow> derr + responderState" where
  "computeDataDeltas s r =
     sbind (copyDbGenInfo s (r_dbId r) []) (\<lambda>(respVecs, respGen).
       case extractAndSortPrefixes (initVecs r) of
         [] \<Rightarrow> Inl Panic
       | pfx # _ \<Rightarrow>
           (let (gens, out) = init_prefixes (sync_id s) respGen respVecs (initVecs r) (extractAndSortPrefixes (initVecs r)) pfx ([], [])
            in Inr (r\<lparr>diff := gens, outVecs := out\<rparr>)))"

subsection \<open>Phase 3: the records\<close>

partial_function (option) next_rec :: "dstore \<Rightarrow> string \<Rightarrow> 64 word \<Rightarrow> 64 word \<Rightarrow> 64 word \<Rightarrow> (derr + (LocalLogRec \<times> 64 word) option) option" where
  "next_rec st pfx dev i mx =
     (if i \<le> mx then
        (case getLogRec st pfx dev i of
           Inr rec \<Rightarrow> Some (Inr (Some (rec, i + 1)))
         | Inl e \<Rightarrow> if \<not> not_exist e then Some (Inl e) else next_rec st pfx dev (i + 1) mx)
      else Some (Inr None))"

definition getNextLogRec :: "dstore \<Rightarrow> string \<Rightarrow> 64 word \<Rightarrow> genRange \<Rightarrow> (derr + (LocalLogRec \<times> genRange) option) option" where
  "getNextLogRec st pfx dev r =
     map_option (map_sum (\<lambda>e. e) (map_option (\<lambda>(rec, i). (rec, r\<lparr>rg_cur := i\<rparr>)))) (next_rec st pfx dev (rg_cur r) (rg_max r))"

text \<open>Without a first key part to strip the process exits.\<close>

definition filterLogRec :: "LocalLogRec \<Rightarrow> Knowledge \<Rightarrow> string list \<Rightarrow> bool option" where
  "filterLogRec rec ivs initPfxs =
     map_option (\<lambda>key.
       let (filt, maxGen) = fold (\<lambda>p (filt, maxGen).
             if prefix p key then (False, let g = gv_get (kn_get ivs p) (Id (Metadata rec)) in if maxGen < g then g else maxGen)
             else (filt, maxGen)) initPfxs (True, 0)
       in if Gen (Metadata rec) \<le> maxGen then True else filt)
     (StripFirstKeyPartOrDie (ObjId (Metadata rec)))"

definition makeWireLogRec :: "responderState \<Rightarrow> LocalLogRec \<Rightarrow> derr + LogRec" where
  "makeWireLogRec r rec =
     (let key = ObjId (Metadata rec); version = CurVers (Metadata rec) in
      if r_sg r then
        sbind (getSGDataEntryByOID (r_st r) key version) (\<lambda>sg. Inr \<lparr>lr_Metadata = Metadata rec, lr_Value = Some (RawSg sg)\<rparr>)
      else if \<not> Delete (Metadata rec) \<and> RecType (Metadata rec) = 0 then
        sbind (getAtVersion (r_st r) key version) (\<lambda>value. Inr \<lparr>lr_Metadata = Metadata rec, lr_Value = Some (RawBytes value)\<rparr>)
      else Inr \<lparr>lr_Metadata = Metadata rec, lr_Value = None\<rparr>)"

text \<open>\<^verbatim>\<open>minHeap.Less\<close>: the heap is ordered by log position.\<close>

definition minHeap_Less :: "LocalLogRec \<Rightarrow> LocalLogRec \<Rightarrow> bool" where
  "minHeap_Less a b \<longleftrightarrow> Pos a < Pos b"

interpretation mh: heap_interface minHeap_Less
  by unfold_locales (auto simp: minHeap_Less_def)

text \<open>One record per device of the bound, except for the devices of the initiator.\<close>

fun init_heap :: "dstore \<Rightarrow> string \<Rightarrow> string \<Rightarrow> genRangeVector \<Rightarrow> genRangeVector \<Rightarrow> LocalLogRec list \<Rightarrow>
    (derr + genRangeVector \<times> LocalLogRec list) option" where
  "init_heap st pfx init [] gens heap = Some (Inr (gens, heap))"
| "init_heap st pfx init ((dev, r) # rs) gens heap =
     (if syncbaseIdToName dev = init then init_heap st pfx init rs gens heap
      else do {
        x \<leftarrow> getNextLogRec st pfx dev (r\<lparr>rg_cur := rg_min r\<rparr>);
        (case x of
           Inl e \<Rightarrow> Some (Inl e)
         | Inr None \<Rightarrow> init_heap st pfx init rs (AList.delete dev gens) heap
         | Inr (Some (rec, r')) \<Rightarrow> init_heap st pfx init rs (AList.update dev r' gens) (heap @ [rec]))
      })"

definition send_one :: "responderState \<Rightarrow> string list \<Rightarrow> LocalLogRec \<Rightarrow> derr + DeltaResp list" where
  "send_one r initPfxs rec =
     (if r_sg r then sbind (makeWireLogRec r rec) (\<lambda>w. Inr [DeltaRespRec w])
      else case filterLogRec rec (initVecs r) initPfxs of
        None \<Rightarrow> Inl ExitFatal
      | Some True \<Rightarrow> Inr []
      | Some False \<Rightarrow> sbind (makeWireLogRec r rec) (\<lambda>w. Inr [DeltaRespRec w]))"

text \<open>The loop returns what was sent and, in case of an error, the error.\<close>

partial_function (option) send_loop :: "responderState \<Rightarrow> string \<Rightarrow> string list \<Rightarrow> LocalLogRec list \<Rightarrow> genRangeVector \<Rightarrow>
    DeltaResp list \<Rightarrow> (DeltaResp list \<times> (derr + genRangeVector)) option" where
  "send_loop r pfx initPfxs heap gens out =
     (if heap = [] then Some (out, Inr gens)
      else let (heap, rec) = heap_Pop minHeap_Less heap in
        (case send_one r initPfxs rec of
           Inl e \<Rightarrow> Some (out, Inl e)
         | Inr sent \<Rightarrow>
             (let dev = Id (Metadata rec); out = out @ sent in
              (case map_of gens dev of
                 None \<Rightarrow> Some (out, Inl Panic)
               | Some rg \<Rightarrow> do {
                   x \<leftarrow> getNextLogRec (r_st r) pfx dev rg;
                   (case x of
                      Inl e \<Rightarrow> Some (out, Inl e)
                    | Inr None \<Rightarrow> send_loop r pfx initPfxs heap (AList.delete dev gens) out
                    | Inr (Some (rec', rg')) \<Rightarrow>
                        send_loop r pfx initPfxs (heap_Push minHeap_Less heap rec') (AList.update dev rg' gens) out)
                 }))))"

definition filterAndSendDeltas :: "responderState \<Rightarrow> string \<Rightarrow> (DeltaResp list \<times> (derr + responderState)) option" where
  "filterAndSendDeltas r pfx = do {
     x \<leftarrow> init_heap (r_st r) pfx (initiator r) (diff r) (diff r) [];
     (case x of
        Inl e \<Rightarrow> Some ([], Inl e)
      | Inr (gens, heap) \<Rightarrow>
          map_option (map_prod (\<lambda>out. out) (map_sum (\<lambda>e. e) (\<lambda>gens. r\<lparr>diff := gens\<rparr>)))
            (send_loop r pfx (if \<not> r_sg r then extractAndSortPrefixes (initVecs r) else [])
               (heap_Init minHeap_Less heap) gens []))
   }"

definition sendGenVecs :: "responderState \<Rightarrow> DeltaResp list" where
  "sendGenVecs r = [DeltaRespGvs (outVecs r)]"

subsection \<open>The exchange\<close>

fun sg_deltas :: "Knowledge \<Rightarrow> Knowledge \<Rightarrow> responderState \<Rightarrow> DeltaResp list \<Rightarrow> (DeltaResp list \<times> (derr + responderState)) option" where
  "sg_deltas respVecs [] r out = Some (out, Inr r)"
| "sg_deltas respVecs ((sg, initgv) # ivs) r out =
     (case map_of respVecs sg of
        None \<Rightarrow> sg_deltas respVecs ivs r out
      | Some respgv \<Rightarrow> do {
          x \<leftarrow> filterAndSendDeltas (r\<lparr>diff := diffGenVectors [] respgv initgv, outVecs := AList.update sg respgv (outVecs r)\<rparr>) sg;
          (case x of
             (sent, Inl e) \<Rightarrow> Some (out @ sent, Inl e)
           | (sent, Inr r') \<Rightarrow> sg_deltas respVecs ivs r' (out @ sent))
        })"

definition sendSgDeltas :: "syncService \<Rightarrow> responderState \<Rightarrow> (DeltaResp list \<times> derr option) option" where
  "sendSgDeltas s r =
     (case copyDbGenInfo s (r_dbId r) (sgIds r) of
        Inl e \<Rightarrow> Some ([], Some e)
      | Inr (respVecs, _) \<Rightarrow> do {
          x \<leftarrow> sg_deltas respVecs (initVecs r) (r\<lparr>outVecs := []\<rparr>) [];
          (case x of
             (out, Inl e) \<Rightarrow> Some (out, Some e)
           | (out, Inr r') \<Rightarrow> Some (out @ sendGenVecs r', None))
        })"

definition sendDataDeltas :: "syncService \<Rightarrow> responderState \<Rightarrow> (DeltaResp list \<times> derr option) option" where
  "sendDataDeltas s r =
     (case computeDataDeltas s r of
        Inl e \<Rightarrow> Some ([], Some e)
      | Inr r \<Rightarrow> do {
          x \<leftarrow> filterAndSendDeltas r logDataPrefix;
          (case x of
             (out, Inl e) \<Rightarrow> Some (out, Some e)
           | (out, Inr r') \<Rightarrow> Some (out @ sendGenVecs r', None))
        })"

definition sendDeltasPerDatabase :: "acl_includes \<Rightarrow> derr + dstore \<Rightarrow> syncService \<Rightarrow> responderState \<Rightarrow>
    syncService \<times> (DeltaResp list \<times> derr option) option" where
  "sendDeltasPerDatabase incl dbst s r =
     (let (s, ok) = isDbSyncable s (r_dbId r) in
      (s, if \<not> ok then Some ([], Some ErrDbOffline)
          else case authorizeAndFilterSyncgroups incl dbst r of
            Inl _ \<Rightarrow> Some ([], Some ErrDbOffline)
          | Inr r \<Rightarrow>
              if length (initVecs r) = 0 then Some ([], Some ErrDbOffline)
              else if r_sg r then sendSgDeltas s r else sendDataDeltas s r))"

end
