(* ===== verification/Responder_Props.thy ===== *)
theory Responder_Props
  imports Responder
begin

text \<open>
  What the responder sends: phase 3 sends the records of the computed bound in the order of the log, filtered
  exactly by what the initiator knows and asks for; phase 2 bounds everything that the vectors sent at the end
  claim. Together: the initiator may adopt the vectors it receives.
\<close>

subsection \<open>The records of a device\<close>

definition rec_at :: "dstore \<Rightarrow> string \<Rightarrow> 64 word \<Rightarrow> nat \<Rightarrow> LocalLogRec list" where
  "rec_at st pfx dev g = (case getLogRec st pfx dev (word_of_nat g) of Inr rec \<Rightarrow> [rec] | Inl _ \<Rightarrow> [])"

definition recs_from :: "dstore \<Rightarrow> string \<Rightarrow> 64 word \<Rightarrow> 64 word \<Rightarrow> 64 word \<Rightarrow> LocalLogRec list" where
  "recs_from st pfx dev i mx = concat (map (rec_at st pfx dev) [unat i..<Suc (unat mx)])"

text \<open>Log records are stored under their device and generation, and reading the log does not fail.\<close>

definition log_ok :: "dstore \<Rightarrow> string \<Rightarrow> bool" where
  "log_ok st pfx \<longleftrightarrow> (\<forall>dev g. case getLogRec st pfx dev g of
     Inr rec \<Rightarrow> Id (Metadata rec) = dev \<and> Gen (Metadata rec) = g | Inl e \<Rightarrow> not_exist e)"

text \<open>The records of one device are in the log in the order of their generations.\<close>

definition log_ordered :: "dstore \<Rightarrow> string \<Rightarrow> bool" where
  "log_ordered st pfx \<longleftrightarrow> (\<forall>dev g g' rec rec'. getLogRec st pfx dev g = Inr rec \<longrightarrow> getLogRec st pfx dev g' = Inr rec' \<longrightarrow>
     g \<le> g' \<longrightarrow> Pos rec \<le> Pos rec')"

lemma upt_rec_word: "i \<le> mx \<Longrightarrow> [unat i..<Suc (unat mx)] = unat i # [Suc (unat i)..<Suc (unat mx)]"
  by (simp add: upt_rec word_le_nat_alt)

lemma unat_inc: "i \<le> mx \<Longrightarrow> mx \<noteq> - 1 \<Longrightarrow> unat (i + 1 :: 64 word) = Suc (unat i)"
  by (rule word_inc_unat) (use word_order.extremum_uniqueI in blast)

lemma log_okD:
  assumes "log_ok st pfx"
  shows "getLogRec st pfx dev g = Inl e \<Longrightarrow> not_exist e"
    and "getLogRec st pfx dev g = Inr rec \<Longrightarrow> Id (Metadata rec) = dev \<and> Gen (Metadata rec) = g"
proof -
  have "case getLogRec st pfx dev g of Inr rec \<Rightarrow> Id (Metadata rec) = dev \<and> Gen (Metadata rec) = g | Inl e \<Rightarrow> not_exist e"
    using assms by (simp add: log_ok_def)
  then show "getLogRec st pfx dev g = Inl e \<Longrightarrow> not_exist e"
    and "getLogRec st pfx dev g = Inr rec \<Longrightarrow> Id (Metadata rec) = dev \<and> Gen (Metadata rec) = g" by simp_all
qed

lemma next_rec_spec:
  assumes "log_ok st pfx" "mx \<noteq> - 1"
  shows "(recs_from st pfx dev i mx = [] \<and> next_rec st pfx dev i mx = Some (Inr None)) \<or>
    (\<exists>rec. recs_from st pfx dev i mx = rec # recs_from st pfx dev (Gen (Metadata rec) + 1) mx \<and>
      next_rec st pfx dev i mx = Some (Inr (Some (rec, Gen (Metadata rec) + 1))))"
proof (induction "Suc (unat mx) - unat i" arbitrary: i rule: less_induct)
  case less
  note unf = next_rec.simps[of st pfx dev i mx]
  show ?case
  proof (cases "i \<le> mx")
    case False
    then have "recs_from st pfx dev i mx = []" by (simp add: recs_from_def word_le_nat_alt)
    then show ?thesis using unf False by simp
  next
    case True
    have inc: "unat (i + 1) = Suc (unat i)" using unat_inc[OF True assms(2)] .
    have rf: "recs_from st pfx dev i mx = rec_at st pfx dev (unat i) @ recs_from st pfx dev (i + 1) mx"
      by (simp only: recs_from_def upt_rec_word[OF True] inc list.map concat.simps)
    show ?thesis
    proof (cases "getLogRec st pfx dev i")
      case (Inr rec)
      then have "Gen (Metadata rec) = i" using log_okD(2)[OF assms(1)] by blast
      then show ?thesis using unf True rf Inr by (simp add: rec_at_def)
    next
      case (Inl e)
      then have "not_exist e" using log_okD(1)[OF assms(1)] by blast
      then have "next_rec st pfx dev i mx = next_rec st pfx dev (i + 1) mx" using unf True Inl by simp
      moreover have "recs_from st pfx dev i mx = recs_from st pfx dev (i + 1) mx" using rf Inl by (simp add: rec_at_def)
      moreover have "Suc (unat mx) - unat (i + 1) < Suc (unat mx) - unat i" using inc True by (simp add: word_le_nat_alt)
      ultimately show ?thesis using less[of "i + 1"] by simp
    qed
  qed
qed

lemma recs_from_iff:
  assumes "log_ok st pfx"
  shows "rec \<in> set (recs_from st pfx dev i mx) \<longleftrightarrow>
    i \<le> Gen (Metadata rec) \<and> Gen (Metadata rec) \<le> mx \<and> getLogRec st pfx dev (Gen (Metadata rec)) = Inr rec"
proof -
  let ?g = "Gen (Metadata rec)"
  have r: "rec \<in> set (rec_at st pfx dev g) \<longleftrightarrow> getLogRec st pfx dev (word_of_nat g) = Inr rec" for g
    by (auto simp: rec_at_def split: sum.split)
  show ?thesis
  proof
    assume "rec \<in> set (recs_from st pfx dev i mx)"
    then obtain g where g: "unat i \<le> g" "g \<le> unat mx" "getLogRec st pfx dev (word_of_nat g) = Inr rec"
      using r by (auto simp: recs_from_def)
    have "?g = word_of_nat g" using log_okD(2)[OF assms g(3)] by simp
    moreover have "unat mx < 2 ^ LENGTH(64)" by (rule unsigned_less)
    then have "unat (word_of_nat g :: 64 word) = g" using g(2) by (simp add: unat_of_nat take_bit_nat_eq_self)
    ultimately show "i \<le> ?g \<and> ?g \<le> mx \<and> getLogRec st pfx dev ?g = Inr rec" using g by (simp add: word_le_nat_alt)
  next
    assume a: "i \<le> ?g \<and> ?g \<le> mx \<and> getLogRec st pfx dev ?g = Inr rec"
    then have "rec \<in> set (rec_at st pfx dev (unat ?g))" using r by simp
    moreover have "unat ?g \<in> set [unat i..<Suc (unat mx)]" using a by (auto simp: word_le_nat_alt)
    ultimately show "rec \<in> set (recs_from st pfx dev i mx)" unfolding recs_from_def set_concat set_map by blast
  qed
qed

lemma recs_from_dev: "log_ok st pfx \<Longrightarrow> rec \<in> set (recs_from st pfx dev i mx) \<Longrightarrow> Id (Metadata rec) = dev"
  using recs_from_iff log_okD(2) by blast

lemma recs_from_sorted:
  assumes "log_ok st pfx" "log_ordered st pfx" "mx \<noteq> - 1"
    and "rec \<in> set (recs_from st pfx dev i mx)" "rec' \<in> set (recs_from st pfx dev (Gen (Metadata rec) + 1) mx)"
  shows "Pos rec \<le> Pos rec'"
proof -
  have g: "Gen (Metadata rec) \<le> mx" "getLogRec st pfx dev (Gen (Metadata rec)) = Inr rec"
      "Gen (Metadata rec) + 1 \<le> Gen (Metadata rec')" "getLogRec st pfx dev (Gen (Metadata rec')) = Inr rec'"
    using assms(4,5) unfolding recs_from_iff[OF assms(1)] by auto
  have "Gen (Metadata rec) \<le> Gen (Metadata rec')"
    using g(3) unat_inc[OF g(1) assms(3)] by (simp add: word_le_nat_alt)
  then show ?thesis using assms(2) g(2,4) unfolding log_ordered_def by blast
qed

subsection \<open>The merge of the devices\<close>

abbreviation dev_of :: "LocalLogRec \<Rightarrow> 64 word" where "dev_of rec \<equiv> Id (Metadata rec)"

definition pending :: "dstore \<Rightarrow> string \<Rightarrow> genRangeVector \<Rightarrow> LocalLogRec \<Rightarrow> LocalLogRec list" where
  "pending st pfx gens rec =
     (case map_of gens (dev_of rec) of None \<Rightarrow> [] | Some rg \<Rightarrow> recs_from st pfx (dev_of rec) (rg_cur rg) (rg_max rg))"

text \<open>The records still to come: those in the heap and those behind them.\<close>

definition remaining :: "dstore \<Rightarrow> string \<Rightarrow> LocalLogRec list \<Rightarrow> genRangeVector \<Rightarrow> LocalLogRec multiset" where
  "remaining st pfx heap gens = mset heap + (\<Sum>rec\<in>#mset heap. mset (pending st pfx gens rec))"

definition feed_ok :: "dstore \<Rightarrow> string \<Rightarrow> LocalLogRec list \<Rightarrow> genRangeVector \<Rightarrow> bool" where
  "feed_ok st pfx heap gens \<longleftrightarrow> distinct (map dev_of heap) \<and>
     (\<forall>rec\<in>set heap. (\<exists>rg. map_of gens (dev_of rec) = Some rg \<and> rg_max rg \<noteq> - 1) \<and>
        (\<forall>rec'\<in>set (pending st pfx gens rec). Pos rec \<le> Pos rec'))"

lemma feed_ok_mset: "mset heap' = mset heap \<Longrightarrow> feed_ok st pfx heap' gens = feed_ok st pfx heap gens"
proof -
  assume m: "mset heap' = mset heap"
  then have "mset (map dev_of heap') = mset (map dev_of heap)" by simp
  then have "distinct (map dev_of heap') = distinct (map dev_of heap)" by (rule mset_eq_imp_distinct_iff)
  moreover have "set heap' = set heap" using m by (rule mset_eq_setD)
  ultimately show ?thesis by (simp add: feed_ok_def)
qed

lemma remaining_mset: "mset heap' = mset heap \<Longrightarrow> remaining st pfx heap' gens = remaining st pfx heap gens"
  by (simp add: remaining_def)

lemma pending_other:
  "(\<And>d. d \<noteq> dev \<Longrightarrow> map_of gens' d = map_of gens d) \<Longrightarrow> dev_of rec \<noteq> dev \<Longrightarrow> pending st pfx gens' rec = pending st pfx gens rec"
  by (simp add: pending_def)

lemma remaining_other:
  assumes "\<And>d. d \<noteq> dev \<Longrightarrow> map_of gens' d = map_of gens d" "dev \<notin> dev_of ` set heap"
  shows "remaining st pfx heap gens' = remaining st pfx heap gens"
proof -
  have "pending st pfx gens' rec = pending st pfx gens rec" if "rec \<in># mset heap" for rec
    using that assms by (intro pending_other[of dev]) auto
  then show ?thesis unfolding remaining_def by (metis (no_types, lifting) image_mset_cong)
qed

lemma feed_ok_other:
  assumes "\<And>d. d \<noteq> dev \<Longrightarrow> map_of gens' d = map_of gens d" "dev \<notin> dev_of ` set heap"
  shows "feed_ok st pfx heap gens' = feed_ok st pfx heap gens"
proof -
  have "pending st pfx gens' rec = pending st pfx gens rec \<and> map_of gens' (dev_of rec) = map_of gens (dev_of rec)" if "rec \<in> set heap" for rec
  proof -
    have "dev_of rec \<noteq> dev" using that assms(2) by auto
    then show ?thesis using pending_other[of dev gens' gens] assms(1) by simp
  qed
  then show ?thesis by (auto simp: feed_ok_def)
qed

text \<open>Fetching the next record of a device: nothing is left of it, or the record enters the heap.\<close>

lemma fetch_spec:
  assumes "log_ok st pfx" "log_ordered st pfx" "rg_max rg \<noteq> - 1"
  obtains "recs_from st pfx dev (rg_cur rg) (rg_max rg) = []" "getNextLogRec st pfx dev rg = Some (Inr None)"
  | rec rg' where "recs_from st pfx dev (rg_cur rg) (rg_max rg) = rec # recs_from st pfx dev (rg_cur rg') (rg_max rg')"
      "getNextLogRec st pfx dev rg = Some (Inr (Some (rec, rg')))" "rg_max rg' = rg_max rg" "dev_of rec = dev"
      "\<forall>rec'\<in>set (recs_from st pfx dev (rg_cur rg') (rg_max rg')). Pos rec \<le> Pos rec'"
proof -
  consider "recs_from st pfx dev (rg_cur rg) (rg_max rg) = []" "next_rec st pfx dev (rg_cur rg) (rg_max rg) = Some (Inr None)"
    | rec where "recs_from st pfx dev (rg_cur rg) (rg_max rg) = rec # recs_from st pfx dev (Gen (Metadata rec) + 1) (rg_max rg)"
        "next_rec st pfx dev (rg_cur rg) (rg_max rg) = Some (Inr (Some (rec, Gen (Metadata rec) + 1)))"
    using next_rec_spec[OF assms(1,3)] by blast
  then show thesis
  proof cases
    case 1
    then show ?thesis using that(1) by (simp add: getNextLogRec_def)
  next
    case (2 rec)
    have rec: "rec \<in> set (recs_from st pfx dev (rg_cur rg) (rg_max rg))" using 2(1) by simp
    show ?thesis
      using that(2)[of rec "rg\<lparr>rg_cur := Gen (Metadata rec) + 1\<rparr>"] 2 recs_from_dev[OF assms(1) rec]
        recs_from_sorted[OF assms rec] by (simp add: getNextLogRec_def)
  qed
qed

lemma feed_ok_insert:
  assumes "feed_ok st pfx heap gens" "dev_of rec \<notin> dev_of ` set heap" "map_of gens' (dev_of rec) = Some rg" "rg_max rg \<noteq> - 1"
    and "\<And>d. d \<noteq> dev_of rec \<Longrightarrow> map_of gens' d = map_of gens d"
    and "\<forall>rec'\<in>set (recs_from st pfx (dev_of rec) (rg_cur rg) (rg_max rg)). Pos rec \<le> Pos rec'"
  shows "feed_ok st pfx (rec # heap) gens' \<and>
    remaining st pfx (rec # heap) gens' = add_mset rec (mset (recs_from st pfx (dev_of rec) (rg_cur rg) (rg_max rg))) + remaining st pfx heap gens"
proof
  have "feed_ok st pfx heap gens'" using feed_ok_other[of "dev_of rec" gens' gens heap st pfx] assms(1,2,5) by blast
  then show "feed_ok st pfx (rec # heap) gens'" using assms(2-4,6) by (auto simp: feed_ok_def pending_def)
  have "remaining st pfx heap gens' = remaining st pfx heap gens" using remaining_other[of "dev_of rec" gens' gens heap st pfx] assms(2,5) by blast
  then show "remaining st pfx (rec # heap) gens' = add_mset rec (mset (recs_from st pfx (dev_of rec) (rg_cur rg) (rg_max rg))) + remaining st pfx heap gens"
    using assms(3) by (simp add: remaining_def pending_def ac_simps)
qed

subsection \<open>Sending\<close>

definition sent_of :: "responderState \<Rightarrow> string list \<Rightarrow> LocalLogRec \<Rightarrow> DeltaResp list" where
  "sent_of r initPfxs rec = (case send_one r initPfxs rec of Inr ds \<Rightarrow> ds | Inl _ \<Rightarrow> [])"

lemma remaining_pos:
  assumes "feed_ok st pfx heap gens" "\<forall>y\<in>set heap. Pos x \<le> Pos y" "v \<in># remaining st pfx heap gens"
  shows "Pos x \<le> Pos v"
proof -
  from assms(3) consider "v \<in> set heap" | rec where "rec \<in> set heap" "v \<in> set (pending st pfx gens rec)"
    by (auto simp: remaining_def)
  then show ?thesis
  proof cases
    case 1
    then show ?thesis using assms(2) by blast
  next
    case (2 rec)
    then have "Pos rec \<le> Pos v" using assms(1) by (auto simp: feed_ok_def)
    then show ?thesis using assms(2) 2(1) by (meson order_trans)
  qed
qed

lemma pop_step:
  assumes log: "log_ok st pfx" "log_ordered st pfx" and f: "feed_ok st pfx heap gens" and h: "mh.heap heap" "heap \<noteq> []"
    and pop: "heap_Pop minHeap_Less heap = (heap', rec)"
  obtains rg where "map_of gens (dev_of rec) = Some rg" "getNextLogRec st pfx (dev_of rec) rg = Some (Inr None)"
      "mh.heap heap'" "feed_ok st pfx heap' (AList.delete (dev_of rec) gens)"
      "remaining st pfx heap gens = add_mset rec (remaining st pfx heap' (AList.delete (dev_of rec) gens))"
      "\<forall>v. v \<in># remaining st pfx heap gens \<longrightarrow> Pos rec \<le> Pos v"
  | rg rec' rg' where "map_of gens (dev_of rec) = Some rg" "getNextLogRec st pfx (dev_of rec) rg = Some (Inr (Some (rec', rg')))"
      "mh.heap (heap_Push minHeap_Less heap' rec')" "feed_ok st pfx (heap_Push minHeap_Less heap' rec') (AList.update (dev_of rec) rg' gens)"
      "remaining st pfx heap gens = add_mset rec (remaining st pfx (heap_Push minHeap_Less heap' rec') (AList.update (dev_of rec) rg' gens))"
      "\<forall>v. v \<in># remaining st pfx heap gens \<longrightarrow> Pos rec \<le> Pos v"
proof -
  let ?d = "dev_of rec"
  from mh.heap_Pop_correct[OF h pop] have p: "mh.heap heap'" "mset heap = mset (rec # heap')" "\<forall>y\<in>set heap'. Pos rec \<le> Pos y"
    by (auto simp: mh.le_def minHeap_Less_def)
  have f1: "feed_ok st pfx (rec # heap') gens" using f feed_ok_mset[OF p(2)] by simp
  then obtain rg where rg: "map_of gens ?d = Some rg" "rg_max rg \<noteq> - 1" by (auto simp: feed_ok_def)
  have f2: "feed_ok st pfx heap' gens" and nd: "?d \<notin> dev_of ` set heap'" using f1 by (auto simp: feed_ok_def)
  have rem: "remaining st pfx heap gens = add_mset rec (mset (recs_from st pfx ?d (rg_cur rg) (rg_max rg)) + remaining st pfx heap' gens)"
    using remaining_mset[OF p(2)] rg(1) by (simp add: remaining_def pending_def ac_simps)
  have "set heap = insert rec (set heap')" using mset_eq_setD[OF p(2)] by simp
  then have least: "\<forall>v. v \<in># remaining st pfx heap gens \<longrightarrow> Pos rec \<le> Pos v"
    using remaining_pos[OF f, of rec] p(3) by auto
  show ?thesis
  proof (rule fetch_spec[OF log rg(2), of ?d])
    assume n: "recs_from st pfx ?d (rg_cur rg) (rg_max rg) = []" "getNextLogRec st pfx ?d rg = Some (Inr None)"
    have o: "\<And>d. d \<noteq> ?d \<Longrightarrow> map_of (AList.delete ?d gens) d = map_of gens d" by (simp add: AList.delete_conv')
    show ?thesis
      using that(1)[OF rg(1) n(2) p(1) _ _ least] feed_ok_other[OF o nd, where st = st and pfx = pfx] f2
        remaining_other[OF o nd, where st = st and pfx = pfx] rem n(1) by simp
  next
    fix rec' rg'
    assume n: "recs_from st pfx ?d (rg_cur rg) (rg_max rg) = rec' # recs_from st pfx ?d (rg_cur rg') (rg_max rg')"
      "getNextLogRec st pfx ?d rg = Some (Inr (Some (rec', rg')))" "rg_max rg' = rg_max rg" "dev_of rec' = ?d"
      "\<forall>r\<in>set (recs_from st pfx ?d (rg_cur rg') (rg_max rg')). Pos rec' \<le> Pos r"
    from mh.heap_Push_correct[OF p(1), of rec']
    have push: "mh.heap (heap_Push minHeap_Less heap' rec')" "mset (heap_Push minHeap_Less heap' rec') = mset (rec' # heap')" by auto
    have "feed_ok st pfx (rec' # heap') (AList.update ?d rg' gens) \<and>
        remaining st pfx (rec' # heap') (AList.update ?d rg' gens) =
          add_mset rec' (mset (recs_from st pfx (dev_of rec') (rg_cur rg') (rg_max rg'))) + remaining st pfx heap' gens"
      using n(3-5) rg nd f2 by (intro feed_ok_insert) (simp_all add: AList.update_conv')
    then show ?thesis
      using that(2)[OF rg(1) n(2) push(1) _ _ least] feed_ok_mset[OF push(2)] remaining_mset[OF push(2)] rem n(1,4) by simp
  qed
qed

lemma send_loop_correct:
  assumes log: "log_ok (r_st r) pfx" "log_ordered (r_st r) pfx"
    and "feed_ok (r_st r) pfx heap gens" "mh.heap heap"
    and "\<forall>rec. rec \<in># remaining (r_st r) pfx heap gens \<longrightarrow> (\<exists>ds. send_one r ips rec = Inr ds)"
  shows "\<exists>vs gens'. send_loop r pfx ips heap gens out = Some (out @ concat (map (sent_of r ips) vs), Inr gens') \<and>
    mset vs = remaining (r_st r) pfx heap gens \<and> sorted (map Pos vs)"
  using assms(3-)
proof (induction "size (remaining (r_st r) pfx heap gens)" arbitrary: heap gens out rule: less_induct)
  case less
  note unf = send_loop.simps[of r pfx ips heap gens out]
  show ?case
  proof (cases "heap = []")
    case True
    then show ?thesis using unf by (auto simp: remaining_def)
  next
    case False
    obtain heap' rec where pop: "heap_Pop minHeap_Less heap = (heap', rec)" by fastforce
    have go: ?thesis
      if st: "send_loop r pfx ips heap gens out = send_loop r pfx ips heap1 gens1 (out @ sent_of r ips rec)"
        and h1: "mh.heap heap1" and f1: "feed_ok (r_st r) pfx heap1 gens1"
        and rem: "remaining (r_st r) pfx heap gens = add_mset rec (remaining (r_st r) pfx heap1 gens1)"
        and least: "\<forall>v. v \<in># remaining (r_st r) pfx heap gens \<longrightarrow> Pos rec \<le> Pos v" for heap1 gens1
    proof -
      from less.hyps[of heap1 gens1 "out @ sent_of r ips rec"] f1 h1 rem less.prems(3)
      obtain vs gens' where vs: "send_loop r pfx ips heap1 gens1 (out @ sent_of r ips rec) =
            Some ((out @ sent_of r ips rec) @ concat (map (sent_of r ips) vs), Inr gens')"
          "mset vs = remaining (r_st r) pfx heap1 gens1" "sorted (map Pos vs)" by auto
      have "\<forall>v\<in>set vs. Pos rec \<le> Pos v" using least rem vs(2) by (metis set_mset_mset union_iff add_mset_add_single)
      then show ?thesis using st vs rem by (intro exI[of _ "rec # vs"] exI[of _ gens']) simp
    qed
    show ?thesis
    proof (rule pop_step[OF log less.prems(1,2) False pop])
      fix rg assume a: "map_of gens (dev_of rec) = Some rg" "getNextLogRec (r_st r) pfx (dev_of rec) rg = Some (Inr None)"
        "mh.heap heap'" "feed_ok (r_st r) pfx heap' (AList.delete (dev_of rec) gens)"
        "remaining (r_st r) pfx heap gens = add_mset rec (remaining (r_st r) pfx heap' (AList.delete (dev_of rec) gens))"
        "\<forall>v. v \<in># remaining (r_st r) pfx heap gens \<longrightarrow> Pos rec \<le> Pos v"
      then obtain ds where ds: "send_one r ips rec = Inr ds" using less.prems(3) by auto
      then show ?thesis using a False pop unf by (intro go[OF _ a(3-6)]) (simp add: sent_of_def)
    next
      fix rg rec' rg' assume a: "map_of gens (dev_of rec) = Some rg"
        "getNextLogRec (r_st r) pfx (dev_of rec) rg = Some (Inr (Some (rec', rg')))"
        "mh.heap (heap_Push minHeap_Less heap' rec')" "feed_ok (r_st r) pfx (heap_Push minHeap_Less heap' rec') (AList.update (dev_of rec) rg' gens)"
        "remaining (r_st r) pfx heap gens = add_mset rec (remaining (r_st r) pfx (heap_Push minHeap_Less heap' rec') (AList.update (dev_of rec) rg' gens))"
        "\<forall>v. v \<in># remaining (r_st r) pfx heap gens \<longrightarrow> Pos rec \<le> Pos v"
      then obtain ds where ds: "send_one r ips rec = Inr ds" using less.prems(3) by auto
      then show ?thesis using a False pop unf by (intro go[OF _ a(3-6)]) (simp add: sent_of_def)
    qed
  qed
qed

text \<open>The records of the bound, without those of the initiator's own device.\<close>

definition bound_recs :: "dstore \<Rightarrow> string \<Rightarrow> string \<Rightarrow> genRangeVector \<Rightarrow> LocalLogRec list" where
  "bound_recs st pfx init gens =
     concat (map (\<lambda>(d, rg). if syncbaseIdToName d = init then [] else recs_from st pfx d (rg_min rg) (rg_max rg)) gens)"

lemma init_heap_spec:
  assumes log: "log_ok st pfx" "log_ordered st pfx"
    and "distinct (map fst rs)" "\<forall>(d, rg)\<in>set rs. rg_max rg \<noteq> - 1" "feed_ok st pfx heap gens"
    and "dev_of ` set heap \<inter> fst ` set rs = {}"
  shows "\<exists>gens' heap'. init_heap st pfx init rs gens heap = Some (Inr (gens', heap')) \<and> feed_ok st pfx heap' gens' \<and>
    remaining st pfx heap' gens' = remaining st pfx heap gens + mset (bound_recs st pfx init rs)"
  using assms(3-)
proof (induction rs arbitrary: gens heap)
  case (Cons x rs)
  obtain d rg where x: "x = (d, rg)" by fastforce
  have b: "bound_recs st pfx init (x # rs) =
      (if syncbaseIdToName d = init then [] else recs_from st pfx d (rg_min rg) (rg_max rg)) @ bound_recs st pfx init rs"
    by (simp add: bound_recs_def x)
  have nd: "d \<notin> dev_of ` set heap" and d: "distinct (map fst rs)" "\<forall>(d, rg)\<in>set rs. rg_max rg \<noteq> - 1" "d \<notin> fst ` set rs"
    using Cons.prems by (auto simp: x)
  show ?case
  proof (cases "syncbaseIdToName d = init")
    case True
    then show ?thesis using Cons.IH[OF d(1,2) Cons.prems(3)] Cons.prems(4) b by (auto simp: x)
  next
    case False
    let ?rg = "rg\<lparr>rg_cur := rg_min rg\<rparr>"
    have m: "rg_max ?rg \<noteq> - 1" using Cons.prems(2) by (simp add: x)
    show ?thesis
    proof (rule fetch_spec[OF log m, of d])
      assume n: "recs_from st pfx d (rg_cur ?rg) (rg_max ?rg) = []" "getNextLogRec st pfx d ?rg = Some (Inr None)"
      have o: "\<And>e. e \<noteq> d \<Longrightarrow> map_of (AList.delete d gens) e = map_of gens e" by (simp add: AList.delete_conv')
      have "feed_ok st pfx heap (AList.delete d gens)" using feed_ok_other[OF o nd] Cons.prems(3) by blast
      from Cons.IH[OF d(1,2) this] Cons.prems(4) show ?thesis
        using n b False remaining_other[OF o nd] by (auto simp: x)
    next
      fix rec rg'
      assume n: "recs_from st pfx d (rg_cur ?rg) (rg_max ?rg) = rec # recs_from st pfx d (rg_cur rg') (rg_max rg')"
        "getNextLogRec st pfx d ?rg = Some (Inr (Some (rec, rg')))" "rg_max rg' = rg_max ?rg" "dev_of rec = d"
        "\<forall>r\<in>set (recs_from st pfx d (rg_cur rg') (rg_max rg')). Pos rec \<le> Pos r"
      let ?g = "AList.update d rg' gens"
      have e: "mset (heap @ [rec]) = mset (rec # heap)" by simp
      have "feed_ok st pfx (rec # heap) ?g \<and> remaining st pfx (rec # heap) ?g =
          add_mset rec (mset (recs_from st pfx (dev_of rec) (rg_cur rg') (rg_max rg'))) + remaining st pfx heap gens"
        using Cons.prems(3) nd n(3-5) m by (intro feed_ok_insert) (simp_all add: AList.update_conv')
      then have i: "feed_ok st pfx (heap @ [rec]) ?g" "remaining st pfx (heap @ [rec]) ?g =
          add_mset rec (mset (recs_from st pfx d (rg_cur rg') (rg_max rg'))) + remaining st pfx heap gens"
        using feed_ok_mset[OF e] remaining_mset[OF e] n(4) by simp_all
      have "dev_of ` set (heap @ [rec]) \<inter> fst ` set rs = {}" using Cons.prems(4) d(3) n(4) by (auto simp: x)
      from Cons.IH[OF d(1,2) i(1) this] show ?thesis using n(1,2) b False i(2) by (auto simp: x ac_simps)
    qed
  qed
qed (simp add: bound_recs_def)

text \<open>
  Phase 3 terminates and sends exactly the records of the bound that are stored, belong to another device
  than the initiator's, and pass the filter, each once and in the order of the responder's log.
\<close>

lemma filterAndSendDeltas_sends:
  assumes "log_ok (r_st r) pfx" "log_ordered (r_st r) pfx" "distinct (map fst (diff r))"
    and "\<And>d rg. (d, rg) \<in> set (diff r) \<Longrightarrow> rg_max rg \<noteq> - 1"
    and "\<And>rec. rec \<in> set (bound_recs (r_st r) pfx (initiator r) (diff r)) \<Longrightarrow>
          \<exists>ds. send_one r (if r_sg r then [] else extractAndSortPrefixes (initVecs r)) rec = Inr ds"
  shows "\<exists>vs r'. filterAndSendDeltas r pfx =
      Some (concat (map (sent_of r (if r_sg r then [] else extractAndSortPrefixes (initVecs r))) vs), Inr r') \<and>
    outVecs r' = outVecs r \<and> mset vs = mset (bound_recs (r_st r) pfx (initiator r) (diff r)) \<and> sorted (map Pos vs)"
proof -
  let ?ips = "if r_sg r then [] else extractAndSortPrefixes (initVecs r)"
  have "feed_ok (r_st r) pfx [] (diff r)" by (simp add: feed_ok_def)
  from init_heap_spec[OF assms(1-3) _ this, of "initiator r"] assms(4)
  obtain gens heap where i: "init_heap (r_st r) pfx (initiator r) (diff r) (diff r) [] = Some (Inr (gens, heap))"
      "feed_ok (r_st r) pfx heap gens" "remaining (r_st r) pfx heap gens = mset (bound_recs (r_st r) pfx (initiator r) (diff r))"
    by (auto simp: remaining_def)
  have h: "mh.heap (heap_Init minHeap_Less heap)" "mset (heap_Init minHeap_Less heap) = mset heap"
    using mh.heap_Init_correct by blast+
  have f: "feed_ok (r_st r) pfx (heap_Init minHeap_Less heap) gens"
      "remaining (r_st r) pfx (heap_Init minHeap_Less heap) gens = mset (bound_recs (r_st r) pfx (initiator r) (diff r))"
    using i(2,3) feed_ok_mset[OF h(2)] remaining_mset[OF h(2)] by simp_all
  from send_loop_correct[OF assms(1,2) f(1) h(1), of ?ips "[]"] assms(5) f(2)
  obtain vs gens' where "send_loop r pfx ?ips (heap_Init minHeap_Less heap) gens [] = Some (concat (map (sent_of r ?ips) vs), Inr gens')"
      "mset vs = mset (bound_recs (r_st r) pfx (initiator r) (diff r))" "sorted (map Pos vs)"
    by auto
  then show ?thesis using i(1) by (intro exI[of _ vs] exI[of _ "r\<lparr>diff := gens'\<rparr>"]) (auto simp: filterAndSendDeltas_def)
qed

end
