(* ===== verification/Responder_Complete.thy ===== *)
theory Responder_Complete
  imports Responder_Props
begin

text \<open>
  The bound of phase 2 and the exchange as a whole: the vectors sent at the end claim nothing that the
  initiator was not sent and did not have.
\<close>

subsection \<open>The bound\<close>

definition covers :: "genRangeVector \<Rightarrow> 64 word \<Rightarrow> 64 word \<Rightarrow> bool" where
  "covers gens dev g \<longleftrightarrow> (\<exists>rg. map_of gens dev = Some rg \<and> rg_min rg \<le> g \<and> g \<le> rg_max rg)"

definition wf_diff :: "genRangeVector \<Rightarrow> bool" where
  "wf_diff gens \<longleftrightarrow> distinct (map fst gens) \<and> (\<forall>dev rg. map_of gens dev = Some rg \<longrightarrow> rg_max rg \<noteq> - 1)"

definition bounded_gv :: "GenVector \<Rightarrow> bool" where
  "bounded_gv gv \<longleftrightarrow> distinct (map fst gv) \<and> - 1 \<notin> snd ` set gv"

lemma less_imp_inc_le: "(a :: 64 word) < b \<Longrightarrow> a + 1 \<le> b"
proof -
  assume "a < b"
  moreover have "unat (a + 1) = Suc (unat a)"
    by (rule word_inc_unat) (use \<open>a < b\<close> word_order.extremum_strict in auto)
  ultimately show ?thesis by (simp add: word_le_nat_alt word_less_nat_alt)
qed

lemma updateDevRange_keeps:
  "covers gens dev g \<Longrightarrow> covers (updateDevRange devid rgen gen0 gens) dev g"
  by (auto simp: covers_def updateDevRange_def Let_def AList.update_conv' split: option.split intro: order_trans less_imp_le)

lemma updateDevRange_covers:
  "gen0 < g \<Longrightarrow> g \<le> rgen \<Longrightarrow> covers (updateDevRange dev rgen gen0 gens) dev g"
proof -
  assume a: "gen0 < g" "g \<le> rgen"
  then have "gen0 < rgen" "gen0 + 1 \<le> g" using less_imp_inc_le by auto
  then show ?thesis using a
    by (auto simp: covers_def updateDevRange_def Let_def AList.update_conv' split: option.split)
qed

lemma updateDevRange_wf: "wf_diff gens \<Longrightarrow> rgen \<noteq> - 1 \<Longrightarrow> wf_diff (updateDevRange devid rgen gen0 gens)"
proof -
  assume w: "wf_diff gens" and r: "rgen \<noteq> - 1"
  have "rg_max x \<noteq> - 1" if "map_of gens devid = Some x" for x using w that unfolding wf_diff_def by blast
  then have "updateDevRange devid rgen gen0 gens = gens \<or>
      (\<exists>x. updateDevRange devid rgen gen0 gens = AList.update devid x gens \<and> rg_max x \<noteq> - 1)"
    using r by (cases "map_of gens devid") (auto simp: updateDevRange_def Let_def)
  then show ?thesis using w by (auto simp: wf_diff_def AList.update_conv' AList.distinct_update simp del: map_of_eq_Some_iff split: if_splits)
qed

lemma fold_keeps: "(\<And>x s. x \<in> set xs \<Longrightarrow> P s \<Longrightarrow> P (f x s)) \<Longrightarrow> P s \<Longrightarrow> P (fold f xs s)"
  by (induction xs arbitrary: s) auto

lemma fold_reaches:
  assumes "\<And>x s. P s \<Longrightarrow> P (f x s)" "y \<in> set xs" "\<And>s. P (f y s)"
  shows "P (fold f xs s)"
  using assms(2)
proof (induction xs arbitrary: s)
  case (Cons x xs)
  then show ?case using fold_keeps[of xs P f] assms(1,3) by (cases "y = x") auto
qed simp

lemma gv_get_pos: "g \<le> gv_get gv dev \<Longrightarrow> 0 < g \<Longrightarrow> map_of gv dev = Some (gv_get gv dev)"
  by (auto simp: gv_get_def split: option.splits)

lemma diffGenVectors_keeps: "covers gens dev g \<Longrightarrow> covers (diffGenVectors gens respVec initVec) dev g"
  unfolding diffGenVectors_def Let_def
  by (intro fold_keeps[where P = "\<lambda>s. covers s dev g"]) (auto intro: updateDevRange_keeps split: option.split)

lemma diffGenVectors_covers:
  assumes "gv_get initVec dev < g" "g \<le> gv_get respVec dev"
  shows "covers (diffGenVectors gens respVec initVec) dev g"
proof -
  have "0 < g" using assms(1) by (rule le_less_trans[rotated]) simp
  with assms(2) have r: "map_of respVec dev = Some (gv_get respVec dev)" by (rule gv_get_pos)
  show ?thesis
  proof (cases "map_of initVec dev")
    case None
    then have "gv_get initVec dev = 0" by (simp add: gv_get_def)
    then show ?thesis unfolding diffGenVectors_def Let_def
      using None assms map_of_SomeD[OF r]
      by (intro fold_reaches[where P = "\<lambda>s. covers s dev g" and y = "(dev, gv_get respVec dev)"])
         (auto intro: updateDevRange_keeps updateDevRange_covers)
  next
    case (Some g0)
    then have "gv_get initVec dev = g0" by (simp add: gv_get_def)
    then have "covers (fold (\<lambda>(devid, g) gens. case map_of respVec devid of Some rgen \<Rightarrow> updateDevRange devid rgen g gens | None \<Rightarrow> gens)
        initVec gens) dev g"
      using assms r map_of_SomeD[OF Some]
      by (intro fold_reaches[where P = "\<lambda>s. covers s dev g" and y = "(dev, g0)"])
         (auto intro: updateDevRange_keeps updateDevRange_covers split: option.split)
    then show ?thesis unfolding diffGenVectors_def Let_def
      by (rule fold_keeps[where P = "\<lambda>s. covers s dev g", rotated]) (auto intro: updateDevRange_keeps)
  qed
qed

lemma diffGenVectors_wf:
  assumes "wf_diff gens" "bounded_gv respVec"
  shows "wf_diff (diffGenVectors gens respVec initVec)"
proof -
  have "(d, - 1) \<notin> set respVec" for d using assms(2) by (force simp: bounded_gv_def)
  moreover from this have "map_of respVec d \<noteq> Some (- 1)" for d using map_of_SomeD by fastforce
  ultimately show ?thesis unfolding diffGenVectors_def Let_def
    using assms(1) by (intro fold_keeps[where P = wf_diff]) (auto intro!: updateDevRange_wf split: option.split dest: map_of_SomeD)
qed

subsection \<open>What the vectors claim\<close>

text \<open>Every vector sent belongs below a prefix of the request, and the bound covers what it adds there.\<close>

definition justified :: "Knowledge \<Rightarrow> genRangeVector \<Rightarrow> Knowledge \<Rightarrow> bool" where
  "justified ivs gens out \<longleftrightarrow> (\<forall>p gv. map_of out p = Some gv \<longrightarrow>
     (\<exists>q\<in>fst ` set ivs. prefix q p \<and> (\<forall>dev g. gv_get (kn_get ivs q) dev < g \<and> g \<le> gv_get gv dev \<longrightarrow> covers gens dev g)))"

lemma justified_step:
  assumes "justified ivs gens out" "q \<in> fst ` set ivs" "prefix q p"
  shows "justified ivs (diffGenVectors gens gv (kn_get ivs q)) (AList.update p gv out)"
  unfolding justified_def
proof (intro allI impI)
  fix p' gv' assume m: "map_of (AList.update p gv out) p' = Some gv'"
  let ?G = "diffGenVectors gens gv (kn_get ivs q)"
  show "\<exists>q\<in>fst ` set ivs. prefix q p' \<and> (\<forall>dev g. gv_get (kn_get ivs q) dev < g \<and> g \<le> gv_get gv' dev \<longrightarrow> covers ?G dev g)"
  proof (cases "p' = p")
    case True
    then have "gv' = gv" using m by (simp add: AList.update_conv')
    then show ?thesis using True assms(2,3) diffGenVectors_covers by blast
  next
    case False
    then have "map_of out p' = Some gv'" using m by (simp add: AList.update_conv')
    then obtain q' where "q' \<in> fst ` set ivs" "prefix q' p'" "\<forall>dev g. gv_get (kn_get ivs q') dev < g \<and> g \<le> gv_get gv' dev \<longrightarrow> covers gens dev g"
      using assms(1) unfolding justified_def by blast
    then show ?thesis using diffGenVectors_keeps by blast
  qed
qed

lemma bounded_kn_get: "\<forall>(p, gv)\<in>set k. bounded_gv gv \<Longrightarrow> bounded_gv (kn_get k p)"
  by (auto simp: kn_get_def bounded_gv_def split: option.split dest: map_of_SomeD)

lemma resp_prefixes_ok:
  assumes "\<forall>(p, gv)\<in>set respVecs. bounded_gv gv" "pfx \<in> fst ` set ivs"
    and "justified ivs gens out" "wf_diff gens"
    and "resp_prefixes respVecs (kn_get ivs pfx) pfx rps (gens, out, st) = (gens', out', st')"
  shows "justified ivs gens' out' \<and> wf_diff gens'"
  using assms(3-)
proof (induction rps arbitrary: gens out st)
  case (Cons rp rps)
  consider "\<not> prefix pfx rp" "\<not> prefix rp pfx" | "prefix rp pfx" | "prefix pfx rp" "\<not> prefix rp pfx" by blast
  then show ?case
  proof cases
    case 1
    then show ?thesis using Cons.IH[OF Cons.prems(1,2)] Cons.prems(3) by simp
  next
    case 2
    then show ?thesis using Cons.IH[OF Cons.prems(1,2)] Cons.prems(3) by simp
  next
    case 3
    then show ?thesis
      using Cons.IH[OF justified_step[OF Cons.prems(1) assms(2) 3(1)] diffGenVectors_wf[OF Cons.prems(2) bounded_kn_get[OF assms(1)]]]
        Cons.prems(3) by (simp add: Let_def)
  qed
qed simp

lemma init_prefixes_ok:
  assumes "\<forall>(p, gv)\<in>set respVecs. bounded_gv gv" "respGen \<noteq> - 1" "set ps \<subseteq> fst ` set ivs"
    and "justified ivs gens out" "wf_diff gens" "init_prefixes self respGen respVecs ivs ps pfx (gens, out) = (gens', out')"
  shows "justified ivs gens' out' \<and> wf_diff gens'"
  using assms(3-)
proof (induction ps arbitrary: pfx gens out)
  case (Cons p ps)
  show ?case
  proof (cases "prefix pfx p \<and> p \<noteq> pfx")
    case True
    then show ?thesis using Cons by simp
  next
    case False
    obtain gens1 out1 rpStart where r: "resp_prefixes respVecs (kn_get ivs p) p (extractAndSortPrefixes respVecs) (gens, out, []) = (gens1, out1, rpStart)"
      by (metis prod_cases3)
    have p: "p \<in> fst ` set ivs" using Cons.prems(1) by simp
    have j: "justified ivs gens1 out1" "wf_diff gens1"
      using resp_prefixes_ok[OF assms(1) p Cons.prems(2,3) r] by blast+
    let ?gv = "if rpStart = [] then [(self, respGen)] else kn_get respVecs rpStart"
    have "bounded_gv ?gv" using bounded_kn_get[OF assms(1)] assms(2) by (simp add: bounded_gv_def)
    then have "wf_diff (diffGenVectors gens1 ?gv (kn_get ivs p))" using diffGenVectors_wf[OF j(2)] by blast
    moreover have "justified ivs (diffGenVectors gens1 ?gv (kn_get ivs p)) (AList.update p ?gv out1)"
      using justified_step[OF j(1) p] by simp
    ultimately show ?thesis using Cons.IH Cons.prems(1,4) False r by (simp add: Let_def)
  qed
qed simp

subsection \<open>The filter\<close>

text \<open>The initiator asks for the key, and none of its vectors for prefixes of the key has the record.\<close>

definition wanted :: "Knowledge \<Rightarrow> LocalLogRec \<Rightarrow> bool" where
  "wanted ivs rec = (case StripFirstKeyPartOrDie (ObjId (Metadata rec)) of
     None \<Rightarrow> False
   | Some key \<Rightarrow> (\<exists>q\<in>fst ` set ivs. prefix q key) \<and>
       (\<forall>q\<in>fst ` set ivs. prefix q key \<longrightarrow> gv_get (kn_get ivs q) (dev_of rec) < Gen (Metadata rec)))"

lemma filter_fold:
  assumes "fold (\<lambda>p (filt, maxGen). if prefix p key then (False, if maxGen < G p then G p else maxGen) else (filt, maxGen)) ips (f, m) = (f', m')"
  shows "f' = (f \<and> \<not> (\<exists>p\<in>set ips. prefix p key)) \<and> (x \<le> m' \<longleftrightarrow> x \<le> m \<or> (\<exists>p\<in>set ips. prefix p key \<and> x \<le> (G p :: 64 word)))"
  using assms
proof (induction ips arbitrary: f m)
  case (Cons p ips)
  show ?case
  proof (cases "prefix p key")
    case True
    have "x \<le> (if m < G p then G p else m) \<longleftrightarrow> x \<le> m \<or> x \<le> G p" by auto
    then show ?thesis using Cons.IH[of False "if m < G p then G p else m"] Cons.prems True by auto
  next
    case False
    then show ?thesis using Cons.IH[of f m] Cons.prems by auto
  qed
qed auto

lemma filterLogRec_iff:
  assumes "StripFirstKeyPartOrDie (ObjId (Metadata rec)) = Some key"
  shows "filterLogRec rec ivs (extractAndSortPrefixes ivs) = Some (\<not> wanted ivs rec)"
proof -
  let ?G = "\<lambda>p. gv_get (kn_get ivs p) (dev_of rec)" and ?x = "Gen (Metadata rec)"
  obtain f m where fm: "fold (\<lambda>p (filt, maxGen). if prefix p key then (False, if maxGen < ?G p then ?G p else maxGen) else (filt, maxGen))
      (extractAndSortPrefixes ivs) (True, 0) = (f, m)" by fastforce
  note ff = filter_fold[OF fm, of ?x]
  have set: "set (extractAndSortPrefixes ivs) = fst ` set ivs" by (simp add: extractAndSortPrefixes_def)
  have "filterLogRec rec ivs (extractAndSortPrefixes ivs) = Some (if ?x \<le> m then True else f)"
    unfolding filterLogRec_def Let_def assms option.map fm by simp
  also have "(if ?x \<le> m then True else f) = (\<not> wanted ivs rec)"
    using ff unfolding set by (auto simp: wanted_def assms not_less)
  finally show ?thesis .
qed

subsection \<open>The vectors of the responder\<close>

lemma AList_update_values: "snd ` set (AList.update k v al) \<subseteq> insert v (snd ` set al)"
  by (induction al) auto

lemma fold_update_values:
  "snd ` set (fold (\<lambda>(k, v) out. AList.update k (f v) out) xs out) \<subseteq> f ` snd ` set xs \<union> snd ` set out"
proof (induction xs arbitrary: out)
  case (Cons x xs)
  obtain k v where x: "x = (k, v)" by fastforce
  have "snd ` set (fold (\<lambda>(k, v) out. AList.update k (f v) out) xs (AList.update k (f v) out))
      \<subseteq> f ` snd ` set xs \<union> insert (f v) (snd ` set out)"
    using Cons[of "AList.update k (f v) out"] AList_update_values[of k "f v" out] by (rule order_trans[OF _ Un_mono[OF order_refl]])
  then show ?case by (simp add: x)
qed simp

lemma fold_update_distinct:
  "distinct (map fst out) \<Longrightarrow> distinct (map fst (fold (\<lambda>(k, v) out. AList.update k (f v) out) xs out))"
  by (induction xs arbitrary: out) (auto simp: AList.distinct_update)

lemma GenVector_DeepCopy_bounded: "- 1 \<notin> snd ` set gv \<Longrightarrow> bounded_gv (GenVector_DeepCopy gv)"
  using fold_update_values[of "\<lambda>x. x" gv "[]"] fold_update_distinct[of "[]" "\<lambda>x. x" gv]
  by (auto simp: bounded_gv_def GenVector_DeepCopy_def)

lemma copyDbGenInfo_bounded:
  assumes "syncState s db = Some ds" "checkptGen (data ds) \<noteq> - 1" "\<forall>(p, gv)\<in>set (genvecs ds). - 1 \<notin> snd ` set gv"
    and "copyDbGenInfo s db [] = Inr (rv, rg)"
  shows "rg \<noteq> - 1 \<and> (\<forall>(p, gv)\<in>set rv. bounded_gv gv)"
proof -
  have "bounded_gv gv" if "(p, gv) \<in> set (Knowledge_DeepCopy (genvecs ds))" for p gv
  proof -
    have "gv \<in> snd ` set (Knowledge_DeepCopy (genvecs ds))" using that by force
    then have "gv \<in> GenVector_DeepCopy ` snd ` set (genvecs ds)"
      using fold_update_values[of GenVector_DeepCopy "genvecs ds" "[]"] by (auto simp: Knowledge_DeepCopy_def)
    then show ?thesis using assms(3) GenVector_DeepCopy_bounded by fastforce
  qed
  moreover have "bounded_gv (AList.update d g gv)" if "bounded_gv gv" "g \<noteq> - 1" for d g gv
    using that AList_update_values[of d g gv] by (auto simp: bounded_gv_def AList.distinct_update)
  ultimately show ?thesis using assms(1,2,4) by (auto simp: copyDbGenInfo_def)
qed

subsection \<open>The exchange\<close>

text \<open>Every log record names a key below a managed prefix, and its value is in the store.\<close>

definition readable :: "responderState \<Rightarrow> bool" where
  "readable r \<longleftrightarrow> (\<forall>dev g rec. getLogRec (r_st r) logDataPrefix dev g = Inr rec \<longrightarrow>
     StripFirstKeyPartOrDie (ObjId (Metadata rec)) \<noteq> None \<and> (\<exists>w. makeWireLogRec r rec = Inr w))"

lemma makeWireLogRec_metadata: "makeWireLogRec r rec = Inr w \<Longrightarrow> lr_Metadata w = Metadata rec"
  by (auto simp: makeWireLogRec_def Let_def split: if_splits elim!: sbind.elims)

lemma send_one_data:
  assumes "readable r" "\<not> r_sg r" "getLogRec (r_st r) logDataPrefix dev g = Inr rec"
  obtains w where "send_one r (extractAndSortPrefixes (initVecs r)) rec = Inr (if wanted (initVecs r) rec then [DeltaRespRec w] else [])"
    "lr_Metadata w = Metadata rec"
proof -
  from assms(1,3) obtain key w where k: "StripFirstKeyPartOrDie (ObjId (Metadata rec)) = Some key" "makeWireLogRec r rec = Inr w"
    unfolding readable_def by blast
  then show ?thesis
    using that[of w] assms(2) filterLogRec_iff[OF k(1), of "initVecs r"] makeWireLogRec_metadata[OF k(2)]
    by (simp add: send_one_def split: bool.split)
qed

lemma sent_records:
  assumes "readable r" "\<not> r_sg r" "\<forall>rec\<in>set vs. \<exists>dev g. getLogRec (r_st r) logDataPrefix dev g = Inr rec"
  shows "\<exists>recs. concat (map (sent_of r (extractAndSortPrefixes (initVecs r))) vs) = map DeltaRespRec recs \<and>
    map lr_Metadata recs = map Metadata (filter (wanted (initVecs r)) vs)"
  using assms(3)
proof (induction vs)
  case (Cons rec vs)
  then obtain recs dev g where r: "concat (map (sent_of r (extractAndSortPrefixes (initVecs r))) vs) = map DeltaRespRec recs"
      "map lr_Metadata recs = map Metadata (filter (wanted (initVecs r)) vs)" "getLogRec (r_st r) logDataPrefix dev g = Inr rec" by auto
  obtain w where w: "send_one r (extractAndSortPrefixes (initVecs r)) rec = Inr (if wanted (initVecs r) rec then [DeltaRespRec w] else [])"
      "lr_Metadata w = Metadata rec" using send_one_data[OF assms(1,2) r(3)] .
  have "concat (map (sent_of r (extractAndSortPrefixes (initVecs r))) (rec # vs)) =
      map DeltaRespRec ((if wanted (initVecs r) rec then [w] else []) @ recs)"
    using r(1) w(1) by (simp add: sent_of_def)
  moreover have "map lr_Metadata ((if wanted (initVecs r) rec then [w] else []) @ recs) =
      map Metadata (filter (wanted (initVecs r)) (rec # vs))" using r(2) w(2) by simp
  ultimately show ?case by blast
qed simp

lemma bound_recs_iff:
  assumes "log_ok st pfx"
  shows "rec \<in> set (bound_recs st pfx init gens) \<longleftrightarrow>
    (\<exists>rg. (dev_of rec, rg) \<in> set gens \<and> rg_min rg \<le> Gen (Metadata rec) \<and> Gen (Metadata rec) \<le> rg_max rg) \<and>
    syncbaseIdToName (dev_of rec) \<noteq> init \<and> getLogRec st pfx (dev_of rec) (Gen (Metadata rec)) = Inr rec"
  using recs_from_iff[OF assms, of rec] recs_from_dev[OF assms, of rec]
  by (auto simp: bound_recs_def split: if_splits)

lemma computeDataDeltas_ok:
  assumes "syncState s (r_dbId r) = Some ds" "checkptGen (data ds) \<noteq> - 1" "\<forall>(p, gv)\<in>set (genvecs ds). - 1 \<notin> snd ` set gv"
    and "initVecs r \<noteq> []"
  obtains gens out where "computeDataDeltas s r = Inr (r\<lparr>diff := gens, outVecs := out\<rparr>)" "justified (initVecs r) gens out" "wf_diff gens"
proof -
  obtain rv rg where c: "copyDbGenInfo s (r_dbId r) [] = Inr (rv, rg)" using assms(1) by (simp add: copyDbGenInfo_def)
  note b = copyDbGenInfo_bounded[OF assms(1-3) c]
  have set: "set (extractAndSortPrefixes (initVecs r)) \<subseteq> fst ` set (initVecs r)" by (simp add: extractAndSortPrefixes_def)
  obtain pfx ps where p: "extractAndSortPrefixes (initVecs r) = pfx # ps"
    using assms(4) by (cases "extractAndSortPrefixes (initVecs r)") (auto simp: extractAndSortPrefixes_def dest: arg_cong[where f = set])
  obtain gens out where i: "init_prefixes (sync_id s) rg rv (initVecs r) (extractAndSortPrefixes (initVecs r)) pfx ([], []) = (gens, out)"
    by fastforce
  have "justified (initVecs r) [] []" "wf_diff []" by (simp_all add: justified_def wf_diff_def)
  from init_prefixes_ok[OF _ _ set this i] b have "justified (initVecs r) gens out" "wf_diff gens" by auto
  moreover have "computeDataDeltas s r = Inr (r\<lparr>diff := gens, outVecs := out\<rparr>)"
    using c p i by (simp add: computeDataDeltas_def)
  ultimately show ?thesis using that by blast
qed

lemma sendDataDeltas_sends:
  assumes "syncState s (r_dbId r) = Some ds" "checkptGen (data ds) \<noteq> - 1" "\<forall>(p, gv)\<in>set (genvecs ds). - 1 \<notin> snd ` set gv"
    and "initVecs r \<noteq> []" "\<not> r_sg r" "log_ok (r_st r) logDataPrefix" "log_ordered (r_st r) logDataPrefix" "readable r"
  shows "\<exists>recs vs out. sendDataDeltas s r = Some (map DeltaRespRec recs @ [DeltaRespGvs out], None) \<and>
    map lr_Metadata recs = map Metadata vs \<and> sorted (map Pos vs) \<and>
    (\<forall>rec\<in>set vs. getLogRec (r_st r) logDataPrefix (dev_of rec) (Gen (Metadata rec)) = Inr rec \<and>
       wanted (initVecs r) rec \<and> syncbaseIdToName (dev_of rec) \<noteq> initiator r) \<and>
    (\<forall>p gv rec key. map_of out p = Some gv \<longrightarrow> getLogRec (r_st r) logDataPrefix (dev_of rec) (Gen (Metadata rec)) = Inr rec \<longrightarrow>
       syncbaseIdToName (dev_of rec) \<noteq> initiator r \<longrightarrow> StripFirstKeyPartOrDie (ObjId (Metadata rec)) = Some key \<longrightarrow>
       prefix p key \<longrightarrow> Gen (Metadata rec) \<le> gv_get gv (dev_of rec) \<longrightarrow>
       rec \<in> set vs \<or> (\<exists>q\<in>fst ` set (initVecs r). prefix q key \<and> Gen (Metadata rec) \<le> gv_get (kn_get (initVecs r) q) (dev_of rec)))"
proof -
  from computeDataDeltas_ok[OF assms(1-4)] obtain gens out where c: "computeDataDeltas s r = Inr (r\<lparr>diff := gens, outVecs := out\<rparr>)"
      "justified (initVecs r) gens out" "wf_diff gens" by blast
  let ?r = "r\<lparr>diff := gens, outVecs := out\<rparr>"
  let ?B = "bound_recs (r_st r) logDataPrefix (initiator r) gens"
  have w: "distinct (map fst gens)" "\<And>d rg. (d, rg) \<in> set gens \<Longrightarrow> rg_max rg \<noteq> - 1"
    using c(3) by (auto simp: wf_diff_def)
  have "makeWireLogRec ?r = makeWireLogRec r" by (rule ext) (simp add: makeWireLogRec_def Let_def)
  then have rd: "readable ?r" using assms(8) by (simp add: readable_def)
  note B = bound_recs_iff[OF assms(6)]
  have "\<exists>ds. send_one ?r (extractAndSortPrefixes (initVecs r)) rec = Inr ds" if "rec \<in> set ?B" for rec
  proof -
    have g: "getLogRec (r_st ?r) logDataPrefix (dev_of rec) (Gen (Metadata rec)) = Inr rec" using that unfolding B by simp
    show ?thesis by (rule send_one_data[OF rd _ g]) (use assms(5) in auto)
  qed
  then obtain vs r' where f: "filterAndSendDeltas ?r logDataPrefix = Some (concat (map (sent_of ?r (extractAndSortPrefixes (initVecs r))) vs), Inr r')"
      "outVecs r' = out" "mset vs = mset ?B" "sorted (map Pos vs)"
    using filterAndSendDeltas_sends[of ?r logDataPrefix] assms(5-7) w by auto
  have vs: "set vs = set ?B" using f(3) by (rule mset_eq_setD)
  have "\<forall>rec\<in>set vs. \<exists>dev g. getLogRec (r_st ?r) logDataPrefix dev g = Inr rec" using vs B by simp blast
  then obtain recs where recs: "concat (map (sent_of ?r (extractAndSortPrefixes (initVecs r))) vs) = map DeltaRespRec recs"
      "map lr_Metadata recs = map Metadata (filter (wanted (initVecs r)) vs)"
    using sent_records[OF rd, of vs] assms(5) by auto
  have res: "sendDataDeltas s r = Some (map DeltaRespRec recs @ [DeltaRespGvs out], None)"
    using c(1) f(1,2) recs(1) by (simp add: sendDataDeltas_def sendGenVecs_def)
  have sorted: "sorted (map Pos (filter (wanted (initVecs r)) vs))" using f(4) by (rule sorted_filter)
  have complete: "rec \<in> set (filter (wanted (initVecs r)) vs) \<or>
      (\<exists>q\<in>fst ` set (initVecs r). prefix q key \<and> Gen (Metadata rec) \<le> gv_get (kn_get (initVecs r) q) (dev_of rec))"
    if a: "map_of out p = Some gv" "getLogRec (r_st r) logDataPrefix (dev_of rec) (Gen (Metadata rec)) = Inr rec"
      "syncbaseIdToName (dev_of rec) \<noteq> initiator r" "StripFirstKeyPartOrDie (ObjId (Metadata rec)) = Some key"
      "prefix p key" "Gen (Metadata rec) \<le> gv_get gv (dev_of rec)" for p gv rec key
  proof (rule disjCI)
    assume n: "\<not> (\<exists>q\<in>fst ` set (initVecs r). prefix q key \<and> Gen (Metadata rec) \<le> gv_get (kn_get (initVecs r) q) (dev_of rec))"
    obtain q where q: "q \<in> fst ` set (initVecs r)" "prefix q p"
        "\<forall>dev g. gv_get (kn_get (initVecs r) q) dev < g \<and> g \<le> gv_get gv dev \<longrightarrow> covers gens dev g"
      using c(2)[unfolded justified_def, THEN spec, THEN spec, THEN mp, OF a(1)] by (elim bexE conjE)
    have "prefix q key" using q(2) a(5) by (rule prefix_order.trans)
    then have wa: "wanted (initVecs r) rec" using n q(1) by (auto simp: wanted_def a(4) not_le)
    have "covers gens (dev_of rec) (Gen (Metadata rec))" using q(3) a(6) n q(1) \<open>prefix q key\<close> by (meson not_le)
    then have "rec \<in> set ?B" unfolding B covers_def using a(2,3) by (blast dest: map_of_SomeD)
    then show "rec \<in> set (filter (wanted (initVecs r)) vs)" using wa vs by simp
  qed
  have minimal: "\<forall>rec\<in>set (filter (wanted (initVecs r)) vs). getLogRec (r_st r) logDataPrefix (dev_of rec) (Gen (Metadata rec)) = Inr rec \<and>
      wanted (initVecs r) rec \<and> syncbaseIdToName (dev_of rec) \<noteq> initiator r"
    using vs by (simp add: B)
  show ?thesis
    by (intro exI[of _ recs] exI[of _ "filter (wanted (initVecs r)) vs"] exI[of _ out] conjI res recs(2) sorted minimal)
       (intro allI impI, erule (5) complete)
qed

text \<open>
  C3: the answer to a request for data is complete and minimal. Whatever a vector sent at the end claims for a
  prefix, the initiator has: each log record of another device under that prefix, up to the generation that
  the vector gives for its device, was sent, or a vector of the request covers it. Only records of the log that
  the initiator asked for and does not have are sent, in the order of the log.
\<close>

theorem sendDataDeltas_complete:
  assumes "syncState s (r_dbId r) = Some ds" "checkptGen (data ds) \<noteq> - 1" "\<forall>(p, gv)\<in>set (genvecs ds). - 1 \<notin> snd ` set gv"
    and "initVecs r \<noteq> []" "\<not> r_sg r" "log_ok (r_st r) logDataPrefix" "log_ordered (r_st r) logDataPrefix" "readable r"
  shows "\<exists>recs vs out. sendDataDeltas s r = Some (map DeltaRespRec recs @ [DeltaRespGvs out], None) \<and>
    map lr_Metadata recs = map Metadata vs \<and> sorted (map Pos vs) \<and>
    (\<forall>rec\<in>set vs. getLogRec (r_st r) logDataPrefix (dev_of rec) (Gen (Metadata rec)) = Inr rec \<and>
       wanted (initVecs r) rec \<and> syncbaseIdToName (dev_of rec) \<noteq> initiator r) \<and>
    (\<forall>p gv rec key. map_of out p = Some gv \<longrightarrow> getLogRec (r_st r) logDataPrefix (dev_of rec) (Gen (Metadata rec)) = Inr rec \<longrightarrow>
       syncbaseIdToName (dev_of rec) \<noteq> initiator r \<longrightarrow> StripFirstKeyPartOrDie (ObjId (Metadata rec)) = Some key \<longrightarrow>
       prefix p key \<longrightarrow> Gen (Metadata rec) \<le> gv_get gv (dev_of rec) \<longrightarrow>
       rec \<in> set vs \<or> (\<exists>q\<in>fst ` set (initVecs r). prefix q key \<and> Gen (Metadata rec) \<le> gv_get (kn_get (initVecs r) q) (dev_of rec)))"
  using sendDataDeltas_sends[OF assms] .

definition sample_rec :: LocalLogRec where
  "sample_rec = \<lparr>Metadata = \<lparr>Id = 5, Gen = 1, RecType = 0, ObjId = JoinKeyParts [RowPrefix, ''cx''], CurVers = ''1'', rec_Parents = [],
     UpdTime = 0, Delete = True, rec_BatchId = 0, BatchCount = 0\<rparr>, Pos = 0\<rparr>"

definition sample_service :: syncService where
  "sample_service = \<lparr>sync_id = 7, syncState = [\<lparr>Blessing = [], Name = ''d''\<rparr> \<mapsto>
     new_dbSync\<lparr>genvecs := [(''c'', [(5, 1)])]\<rparr>], sgPublishQueue = []\<rparr>"

definition sample_request :: responderState where
  "sample_request = \<lparr>r_dbId = \<lparr>Blessing = [], Name = ''d''\<rparr>, sgIds = [], initVecs = [(''c'', [(9, 0)])], r_sg = False, blessings = [],
     initiator = ''9'', r_st = putLogRec Map.empty logDataPrefix sample_rec, diff = [], outVecs = []\<rparr>"

lemma sample_log:
  "getLogRec (r_st sample_request) logDataPrefix dev g = (if dev = 5 \<and> g = 1 then Inr sample_rec else Inl (ErrNoExist (logRecKey logDataPrefix dev g)))"
  by (simp add: sample_request_def getLogRec_put) (simp add: sample_rec_def getLogRec_def getLogRecByKey_def)

lemma sample_key: "StripFirstKeyPartOrDie (ObjId (Metadata sample_rec)) = Some ''cx''"
  by (simp add: sample_rec_def StripFirstKeyPartOrDie_def SplitNKeyParts_def JoinKeyParts_def RowPrefix_def KeyPartSep_def numeral_2_eq_2
      split_n.simps(3) Let_def)

lemma sample_request_ok:
  "syncState sample_service (r_dbId sample_request) = Some (new_dbSync\<lparr>genvecs := [(''c'', [(5, 1)])]\<rparr>)"
  "checkptGen (data (new_dbSync\<lparr>genvecs := [(''c'', [(5, 1)])]\<rparr>)) \<noteq> - 1"
  "\<forall>(p, gv)\<in>set (genvecs (new_dbSync\<lparr>genvecs := [(''c'', [(5, 1)])]\<rparr>)). - 1 \<notin> snd ` set gv"
  "initVecs sample_request \<noteq> []" "\<not> r_sg sample_request" "log_ok (r_st sample_request) logDataPrefix" "log_ordered (r_st sample_request) logDataPrefix"
  "readable sample_request"
proof -
  have "\<exists>w. makeWireLogRec sample_request sample_rec = Inr w" by (simp add: makeWireLogRec_def sample_request_def) (simp add: sample_rec_def)
  then show "readable sample_request" by (simp add: readable_def sample_log sample_key)
  show "log_ok (r_st sample_request) logDataPrefix" by (simp add: log_ok_def sample_log not_exist_def) (simp add: sample_rec_def)
  show "log_ordered (r_st sample_request) logDataPrefix" by (simp add: log_ordered_def sample_log)
qed (simp_all add: sample_service_def sample_request_def new_dbSync_def new_genInfo_def)

lemma sendDataDeltas_complete_witness:
  "\<exists>recs (vs :: LocalLogRec list) out. sendDataDeltas sample_service sample_request = Some (map DeltaRespRec recs @ [DeltaRespGvs out], None) \<and>
     map lr_Metadata recs = map Metadata vs \<and> sorted (map Pos vs)"
  using sendDataDeltas_complete[OF sample_request_ok] by (elim exE conjE) (intro exI conjI; assumption)

end
