(* ===== verification/Cr_Policy.thy ===== *)
theory Cr_Policy
  imports Dag Sync_State
begin

text \<open>
  Conflict resolution, \<^verbatim>\<open>src/services/syncbase/vsync/cr_last_wins.go\<close>, \<^verbatim>\<open>cr_policy_filter.go\<close> and \<^verbatim>\<open>getLogRecsBatch\<close> of
  \<^verbatim>\<open>conflict_resolution.go\<close>: the rule that applies to an object, and the resolution by time of update. Schemas
  and rules are types of the v23 API.
\<close>

subsection \<open>Data\<close>

datatype resolutionType = pickLocal | pickRemote | createNew

record conflictResolution =
  cr_batchId :: "64 word"
  cr_batchCount :: "64 word"
  cr_ty :: resolutionType
  cr_rec :: "LocalLogRec option"
  cr_val :: string

record objConflictState =
  isAddedByCr :: bool
  isConflict :: bool
  newHead :: string
  oldHead :: string
  ancestor :: string
  res :: "conflictResolution option"

datatype ResolverType = LastWins | AppResolves | Defer

record CrRule =
  CollectionId :: wire_Id
  KeyPrefix :: string
  Type :: string
  Resolver :: ResolverType

subsection \<open>Resolution by time\<close>

fun getLogRecsBatch :: "dstore \<Rightarrow> string \<Rightarrow> string list \<Rightarrow> derr + LocalLogRec option list" where
  "getLogRecsBatch tx obj [] = Inr []"
| "getLogRecsBatch tx obj (v # vs) =
     (if v = NoVersion then sbind (getLogRecsBatch tx obj vs) (\<lambda>rs. Inr (None # rs))
      else sbind (getLogRecKey tx obj v) (\<lambda>logKey.
           sbind (getLogRecByKey tx logKey) (\<lambda>rec.
           sbind (getLogRecsBatch tx obj vs) (\<lambda>rs. Inr (Some rec # rs)))))"

text \<open>Missing records and two different versions that cannot be told apart are fatal.\<close>

definition resolveObjConflict :: "dstore \<Rightarrow> string \<Rightarrow> string \<Rightarrow> string \<Rightarrow> string \<Rightarrow> derr + conflictResolution" where
  "resolveObjConflict tx oid local remote anc =
     sbind (getLogRecsBatch tx oid [local, remote]) (\<lambda>lrecs.
       case (lrecs ! 0, lrecs ! 1) of
         (Some locRec, Some remRec) \<Rightarrow>
           (let pick = (\<lambda>t. Inr \<lparr>cr_batchId = NoBatchId, cr_batchCount = 0, cr_ty = t, cr_rec = None, cr_val = []\<rparr>) in
            if UpdTime (Metadata remRec) < UpdTime (Metadata locRec) then pick pickLocal
            else if UpdTime (Metadata locRec) < UpdTime (Metadata remRec) then pick pickRemote
            else if CurVers (Metadata remRec) < CurVers (Metadata locRec) then pick pickLocal
            else if CurVers (Metadata locRec) < CurVers (Metadata remRec) then pick pickRemote
            else Inl ExitFatal)
       | _ \<Rightarrow> Inl ExitFatal)"

text \<open>An error ends the loop; the objects before it keep their resolutions.\<close>

fun resolveViaTimestamp :: "dstore \<Rightarrow> (string \<times> objConflictState) list \<Rightarrow> (string \<times> objConflictState) list \<times> derr option" where
  "resolveViaTimestamp tx [] = ([], None)"
| "resolveViaTimestamp tx ((obj, c) # cs) =
     (if \<not> isConflict c \<or> res c \<noteq> None then
        (let (cs', e) = resolveViaTimestamp tx cs in ((obj, c) # cs', e))
      else case resolveObjConflict tx obj (oldHead c) (newHead c) (ancestor c) of
        Inl e \<Rightarrow> ((obj, c\<lparr>res := None\<rparr>) # cs, Some e)
      | Inr r \<Rightarrow> (let (cs', e) = resolveViaTimestamp tx cs in ((obj, c\<lparr>res := Some r\<rparr>) # cs', e)))"

subsection \<open>The rule for an object\<close>

definition zero_Id :: wire_Id where "zero_Id = \<lparr>Blessing = [], Name = []\<rparr>"

text \<open>\<^term>\<open>None\<close> is the fatal exit for a row key that does not parse.\<close>

definition isRuleApplicable :: "string \<Rightarrow> CrRule \<Rightarrow> bool option" where
  "isRuleApplicable oid rule = do {
     (collection, rowKey) \<leftarrow> ParseRowKey oid;
     Some (if CollectionId rule \<noteq> zero_Id \<and> collection \<noteq> CollectionId rule then False
           else if KeyPrefix rule \<noteq> [] \<and> CollectionId rule = zero_Id then False
           else prefix (KeyPrefix rule) rowKey)
   }"

definition isRuleMoreSpecific :: "CrRule \<Rightarrow> CrRule option \<Rightarrow> bool" where
  "isRuleMoreSpecific rule other =
     (case other of
        None \<Rightarrow> True
      | Some o' \<Rightarrow>
          if CollectionId o' = zero_Id then True
          else if CollectionId rule \<noteq> CollectionId o' then False
          else prefix (KeyPrefix o') (KeyPrefix rule))"

fun select_rule :: "string \<Rightarrow> CrRule list \<Rightarrow> CrRule option \<Rightarrow> CrRule option option" where
  "select_rule oid [] selected = Some selected"
| "select_rule oid (rule # rules) selected = do {
     applicable \<leftarrow> isRuleApplicable oid rule;
     if \<not> applicable then select_rule oid rules selected
     else select_rule oid rules (if isRuleMoreSpecific rule selected then Some rule else selected)
   }"

definition getResolutionType :: "string \<Rightarrow> CrRule list \<Rightarrow> ResolverType option" where
  "getResolutionType oid rules =
     (if \<not> IsRowKey oid then Some LastWins
      else map_option (\<lambda>selected. case selected of Some rule \<Rightarrow> Resolver rule | None \<Rightarrow> LastWins) (select_rule oid rules None))"

fun groupConflictsByType :: "CrRule list \<Rightarrow> (string \<times> objConflictState) list \<Rightarrow>
    (ResolverType \<times> (string \<times> objConflictState) list) list \<Rightarrow> (ResolverType \<times> (string \<times> objConflictState) list) list option" where
  "groupConflictsByType rules [] grouped = Some grouped"
| "groupConflictsByType rules ((oid, c) # cs) grouped =
     (if \<not> isConflict c then groupConflictsByType rules cs grouped
      else do {
        crType \<leftarrow> getResolutionType oid rules;
        let crGroup = (case map_of grouped crType of Some g \<Rightarrow> g | None \<Rightarrow> []);
        groupConflictsByType rules cs (AList.update crType (AList.update oid c crGroup) grouped)
      })"

subsection \<open>Convergence of the resolution by time\<close>

definition winner :: "derr + conflictResolution \<Rightarrow> string \<Rightarrow> string \<Rightarrow> string option" where
  "winner r local remote = (case r of
     Inr c \<Rightarrow> (case cr_ty c of pickLocal \<Rightarrow> Some local | pickRemote \<Rightarrow> Some remote | createNew \<Rightarrow> None)
   | Inl _ \<Rightarrow> None)"

text \<open>
  C14: the resolution by time converges: two devices that hold the records of two versions of an object, and
  see them with the roles of local and remote exchanged, pick the same version. If the versions carry
  different times or different version numbers, both do pick one.
\<close>

theorem last_wins_converges:
  assumes "getLogRecsBatch tx oid [a, b] = Inr [Some ra, Some rb]" "getLogRecsBatch tx' oid [b, a] = Inr [Some rb, Some ra]"
  shows "winner (resolveObjConflict tx oid a b anc) a b = winner (resolveObjConflict tx' oid b a anc') b a \<and>
    (UpdTime (Metadata ra) \<noteq> UpdTime (Metadata rb) \<or> CurVers (Metadata ra) \<noteq> CurVers (Metadata rb) \<longrightarrow>
      winner (resolveObjConflict tx oid a b anc) a b =
        Some (if UpdTime (Metadata rb) < UpdTime (Metadata ra) \<or>
                UpdTime (Metadata ra) = UpdTime (Metadata rb) \<and> CurVers (Metadata rb) < CurVers (Metadata ra) then a else b))"
  using assms by (auto simp: resolveObjConflict_def winner_def Let_def)

definition sample_node :: "string \<Rightarrow> DagNode" where
  "sample_node lr = \<lparr>Level = 0, Parents = [], Logrec = lr, BatchId = 0, Deleted = False, PermId = [], PermVers = []\<rparr>"

definition sample_log :: "string \<Rightarrow> int \<Rightarrow> LocalLogRec" where
  "sample_log v t = \<lparr>Metadata = \<lparr>Id = 5, Gen = 1, RecType = 0, ObjId = ''o'', CurVers = v, rec_Parents = [], UpdTime = t,
     Delete = False, rec_BatchId = 0, BatchCount = 0\<rparr>, Pos = 0\<rparr>"

definition sample_store :: dstore where
  "sample_store = Map.empty(nodeKey ''o'' ''1'' \<mapsto> NodeVal (sample_node ''p''), nodeKey ''o'' ''2'' \<mapsto> NodeVal (sample_node ''q''),
     ''p'' \<mapsto> RecVal (sample_log ''1'' 10), ''q'' \<mapsto> RecVal (sample_log ''2'' 20))"

lemma last_wins_converges_witness:
  "winner (resolveObjConflict sample_store ''o'' ''1'' ''2'' []) ''1'' ''2'' = Some ''2'' \<and>
   winner (resolveObjConflict sample_store ''o'' ''2'' ''1'' []) ''2'' ''1'' = Some ''2''"
proof -
  have r: "getLogRecsBatch sample_store ''o'' [''1'', ''2''] = Inr [Some (sample_log ''1'' 10), Some (sample_log ''2'' 20)]"
    "getLogRecsBatch sample_store ''o'' [''2'', ''1''] = Inr [Some (sample_log ''2'' 20), Some (sample_log ''1'' 10)]"
    by (simp_all add: sample_store_def sample_node_def getLogRecKey_def getNode_def getLogRecByKey_def NoVersion_def nodeKey_def
        JoinKeyParts_def dagNodePrefix_def SyncPrefix_def)
  show ?thesis using last_wins_converges[OF r, of "[]" "[]"] by (auto simp: sample_log_def)
qed

subsection \<open>The most specific rule\<close>

definition applies :: "string \<Rightarrow> CrRule \<Rightarrow> bool" where
  "applies oid rule \<longleftrightarrow> isRuleApplicable oid rule = Some True"

definition specificity :: "CrRule \<Rightarrow> nat" where
  "specificity rule = (if CollectionId rule = zero_Id then 0 else Suc (length (KeyPrefix rule)))"

lemma more_specific_iff:
  assumes "applies oid rule" "applies oid other"
  shows "isRuleMoreSpecific rule (Some other) \<longleftrightarrow> specificity other \<le> specificity rule"
proof -
  from assms obtain c k where p: "ParseRowKey oid = Some (c, k)" by (cases "ParseRowKey oid") (auto simp: applies_def isRuleApplicable_def)
  then have a: "CollectionId rule \<noteq> zero_Id \<Longrightarrow> CollectionId rule = c" "CollectionId other \<noteq> zero_Id \<Longrightarrow> CollectionId other = c"
      "prefix (KeyPrefix rule) k" "prefix (KeyPrefix other) k"
    using assms by (auto simp: applies_def isRuleApplicable_def split: if_splits)
  have "prefix (KeyPrefix other) (KeyPrefix rule) \<longleftrightarrow> length (KeyPrefix other) \<le> length (KeyPrefix rule)"
    using a(3,4) by (meson prefix_length_le prefix_length_prefix)
  then show ?thesis using a(1,2) by (auto simp: isRuleMoreSpecific_def specificity_def)
qed

text \<open>The last of the rules with the largest specificity.\<close>

definition best_rule :: "CrRule list \<Rightarrow> CrRule option" where
  "best_rule rs = (if rs = [] then None else Some (last (filter (\<lambda>r. \<forall>r'\<in>set rs. specificity r' \<le> specificity r) rs)))"

lemma best_rule_mem: "best_rule rs = Some r \<Longrightarrow> r \<in> set rs \<and> (\<forall>r'\<in>set rs. specificity r' \<le> specificity r)"
proof -
  assume b: "best_rule rs = Some r"
  then have ne: "rs \<noteq> []" by (auto simp: best_rule_def split: if_splits)
  then have "Max (specificity ` set rs) \<in> specificity ` set rs" by (intro Max_in) auto
  then obtain m where "m \<in> set rs" "Max (specificity ` set rs) = specificity m" by blast
  then have "m \<in> set rs" "\<forall>r'\<in>set rs. specificity r' \<le> specificity m" by (auto simp flip: \<open>Max _ = _\<close>)
  then have "filter (\<lambda>r. \<forall>r'\<in>set rs. specificity r' \<le> specificity r) rs \<noteq> []" by (auto simp: filter_empty_conv)
  from last_in_set[OF this] show ?thesis using b ne by (auto simp: best_rule_def)
qed

lemma best_rule_snoc:
  "best_rule (rs @ [r]) = (case best_rule rs of None \<Rightarrow> Some r | Some b \<Rightarrow> if specificity b \<le> specificity r then Some r else Some b)"
proof (cases "best_rule rs")
  case None
  then show ?thesis by (auto simp: best_rule_def split: if_splits)
next
  case (Some b)
  note m = best_rule_mem[OF Some]
  show ?thesis
  proof (cases "specificity b \<le> specificity r")
    case True
    then show ?thesis using Some m by (auto simp: best_rule_def)
  next
    case False
    have "filter (\<lambda>x. \<forall>y\<in>set (rs @ [r]). specificity y \<le> specificity x) (rs @ [r]) = filter (\<lambda>x. \<forall>y\<in>set rs. specificity y \<le> specificity x) rs"
      using False m by (auto intro!: filter_cong intro: order_trans[of "specificity r" "specificity b"])
    then show ?thesis using Some False by (auto simp: best_rule_def split: if_splits)
  qed
qed

lemma select_rule_best:
  assumes "ParseRowKey oid \<noteq> None" "\<forall>r\<in>set done. applies oid r"
  shows "select_rule oid rules (best_rule done) = Some (best_rule (done @ filter (applies oid) rules))"
  using assms(2)
proof (induction rules arbitrary: "done")
  case (Cons rule rules)
  obtain b where b: "isRuleApplicable oid rule = Some b" using assms(1) by (auto simp: isRuleApplicable_def)
  show ?case
  proof (cases b)
    case True
    then have ap: "applies oid rule" using b by (simp add: applies_def)
    have "(if isRuleMoreSpecific rule (best_rule done) then Some rule else best_rule done) = best_rule (done @ [rule])"
    proof (cases "best_rule done")
      case (Some o')
      then have "applies oid o'" using best_rule_mem Cons.prems by blast
      then show ?thesis using Some more_specific_iff[OF ap] by (simp add: best_rule_snoc)
    qed (simp add: best_rule_snoc isRuleMoreSpecific_def)
    then show ?thesis using Cons.IH[of "done @ [rule]"] Cons.prems ap b True by simp
  next
    case False
    then show ?thesis using Cons b by (simp add: applies_def)
  qed
qed simp

text \<open>
  a row is resolved by the last of the most specific rules that apply to it, where a rule for the row's
  collection is more specific than one for all collections, and the more so the longer its prefix; without
  such a rule, and for objects that are not rows, the last write wins.
\<close>

theorem getResolutionType_best:
  assumes "IsRowKey oid \<longrightarrow> ParseRowKey oid \<noteq> None"
  shows "getResolutionType oid rules = Some (if IsRowKey oid
    then (case best_rule (filter (applies oid) rules) of Some rule \<Rightarrow> Resolver rule | None \<Rightarrow> LastWins) else LastWins)"
  using assms select_rule_best[of oid "[]" rules] by (auto simp: getResolutionType_def best_rule_def)

lemma getResolutionType_best_witness:
  "getResolutionType (JoinKeyParts [RowPrefix, EncodeIdKeyPart \<lparr>Blessing = ''u'', Name = ''c''\<rparr>, ''row''])
     [\<lparr>CollectionId = zero_Id, KeyPrefix = [], Type = [], Resolver = Defer\<rparr>] =
   Some (case best_rule (filter (applies (JoinKeyParts [RowPrefix, EncodeIdKeyPart \<lparr>Blessing = ''u'', Name = ''c''\<rparr>, ''row'']))
       [\<lparr>CollectionId = zero_Id, KeyPrefix = [], Type = [], Resolver = Defer\<rparr>]) of Some rule \<Rightarrow> Resolver rule | None \<Rightarrow> LastWins)"
proof -
  let ?k = "JoinKeyParts [RowPrefix, EncodeIdKeyPart \<lparr>Blessing = ''u'', Name = ''c''\<rparr>, ''row'']"
  have k: "?k = ''r'' @ KeyPartSep # (''u'' @ IdPartSep # ''c'' @ [IdPartSep]) @ KeyPartSep # ''row''"
    by (simp add: JoinKeyParts_def RowPrefix_def EncodeIdKeyPart_def)
  have "ParseRowKey ?k \<noteq> None" "IsRowKey ?k" unfolding k
    by (simp_all add: ParseRowKey_def IsRowKey_def FirstKeyPart_def SplitNKeyParts_def numeral_2_eq_2 numeral_3_eq_3 RowPrefix_def
        split_n.simps(3) DecodeIdKeyPart_def KeyPartSep_def IdPartSep_def Let_def)
  then show ?thesis using getResolutionType_best[of ?k] by simp
qed

end
