(* ===== verification/Initiator_State.thy ===== *)
theory Initiator_State
  imports Responder Sync_Watcher Cr_Policy
begin

text \<open>
  The state of a sync round on the side of the initiator, \<^verbatim>\<open>src/services/syncbase/vsync/initiator.go\<close>: the
  configuration shared by the two rounds for a database, the state accumulated in a round, and the calls that reach
  the peer. Handles of the database and its store are arguments of the operations that use them.
\<close>

subsection \<open>Peers\<close>

text \<open>The pinned connection and the time of its creation matter to the peer manager only. \<^term>\<open>None\<close> is a nil list of addresses.\<close>

record connInfo =
  relName :: string
  mtTbls :: "string list"
  addrs :: "string list option"

definition no_addrs :: "connInfo \<Rightarrow> bool" where
  "no_addrs peer = (mtTbls peer = [] \<and> (case addrs peer of None \<Rightarrow> True | Some as \<Rightarrow> as = []))"

definition conn_failed :: "derr + 'r \<Rightarrow> bool" where
  "conn_failed r = (case r of Inl e \<Rightarrow> e = ErrConnFail | Inr _ \<Rightarrow> False)"

text \<open>
  An operation on the peer answers for the name it is called at; an error that is neither a refusal nor a failure to get the time
  counts as a failed connection.
\<close>

definition runRemoteOp :: "(string \<Rightarrow> derr + 'r) \<Rightarrow> string \<Rightarrow> derr + 'r" where
  "runRemoteOp rpc absName =
     (case rpc absName of
        Inr r \<Rightarrow> Inr r
      | Inl e \<Rightarrow> if e \<noteq> ErrNoAccess \<and> e \<noteq> ErrGetTimeFailed then Inl ErrConnFail else Inl e)"

text \<open>The names are tried in turn until one does not fail to connect: the names from that one on, and its answer.\<close>

fun try_names :: "(string \<Rightarrow> derr + 'r) \<Rightarrow> (string \<Rightarrow> string) \<Rightarrow> string list \<Rightarrow> (string list \<times> (derr + 'r)) option" where
  "try_names rpc absName [] = None"
| "try_names rpc absName (a # as) =
     (let r = runRemoteOp rpc (absName a) in
      if \<not> conn_failed r then Some (a # as, r) else try_names rpc absName as)"

definition runAtPeer :: "(string list \<Rightarrow> string) \<Rightarrow> string \<Rightarrow> connInfo \<Rightarrow> (string \<Rightarrow> derr + 'r) \<Rightarrow> connInfo \<times> (derr + 'r)" where
  "runAtPeer join sfx peer rpc =
     (if no_addrs peer then (peer, Inl (ErrInternal ''no mount tables or endpoints found''))
      else case addrs peer of
        Some as \<Rightarrow>
          (case try_names rpc (\<lambda>addr. join [addr, sfx]) as of
             Some (as', r) \<Rightarrow> (peer\<lparr>addrs := Some as'\<rparr>, r)
           | None \<Rightarrow> (peer\<lparr>addrs := None\<rparr>, Inl ErrConnFail))
      | None \<Rightarrow>
          (case try_names rpc (\<lambda>mt. join [mt, relName peer, sfx]) (mtTbls peer) of
             Some (ms', r) \<Rightarrow> (peer\<lparr>mtTbls := ms'\<rparr>, r)
           | None \<Rightarrow> (peer\<lparr>mtTbls := []\<rparr>, Inl ErrConnFail)))"

text \<open>The peer must still present all the names that it was identified by.\<close>

definition names_Authorize :: "string list \<Rightarrow> string list \<Rightarrow> derr option" where
  "names_Authorize expNames peerBlessingNames =
     (if \<not> list_all (\<lambda>n. n \<in> set peerBlessingNames) expNames then Some (ErrInternal ''server blessings changed'') else None)"

subsection \<open>Configuration\<close>

type_synonym prefixMap = "(string \<times> string list) list"

record initiationConfig =
  ic_peer :: connInfo
  ic_sgIds :: "string list"
  sharedSgPfxs :: prefixMap
  allSgPfxs :: prefixMap
  ic_dbId :: wire_Id
  ic_auth :: "string list"

definition newInitiationConfig :: "derr option \<Rightarrow> wire_Id \<Rightarrow> sgMember \<Rightarrow> connInfo \<Rightarrow> derr + initiationConfig" where
  "newInitiationConfig dbErr db info peer =
     (if info = [] then Inl (ErrInternal ''no syncgroups found'')
      else case dbErr of
        Some e \<Rightarrow> Inl e
      | None \<Rightarrow> Inr \<lparr>ic_peer = peer, ic_sgIds = remdups (map fst info), sharedSgPfxs = [], allSgPfxs = [], ic_dbId = db, ic_auth = []\<rparr>)"

definition addPrefixesToMap :: "string \<Rightarrow> Syncgroup \<Rightarrow> prefixMap \<Rightarrow> prefixMap" where
  "addPrefixesToMap gid sg m =
     fold (\<lambda>c m. let pfxStr = toCollectionPrefixStr c; gids = (case map_of m pfxStr of Some g \<Rightarrow> g | None \<Rightarrow> []) in
                 AList.update pfxStr (List.insert gid gids) m) (Collections (Spec sg)) m"

definition isAuthorizedForTag :: "acl_includes \<Rightarrow> Permissions \<Rightarrow> string \<Rightarrow> string list \<Rightarrow> bool" where
  "isAuthorizedForTag incl perms tag names = (case map_of perms tag of Some acl \<Rightarrow> incl acl names | None \<Rightarrow> False)"

text \<open>The syncgroups to which the peer belongs and whose access list lets it read, in the order of the loop.\<close>

fun filter_sgs :: "acl_includes \<Rightarrow> dstore \<Rightarrow> string \<Rightarrow> string list \<Rightarrow> string list \<Rightarrow> string list \<times> prefixMap \<Rightarrow> string list \<times> prefixMap" where
  "filter_sgs incl st peer names [] acc = acc"
| "filter_sgs incl st peer names (gid # gids) (rem, pfxs) =
     filter_sgs incl st peer names gids
       (case getSyncgroupByGid st gid of
          Inl _ \<Rightarrow> (rem, pfxs)
        | Inr sg \<Rightarrow>
            if map_of (Joiners sg) peer = None \<or> \<not> isAuthorizedForTag incl (Perms (Spec sg)) ''Read'' names then (rem, pfxs)
            else (List.insert gid rem, addPrefixesToMap gid sg pfxs))"

definition filterSyncgroups :: "acl_includes \<Rightarrow> dstore \<Rightarrow> string list \<Rightarrow> initiationConfig \<Rightarrow> string list \<Rightarrow> initiationConfig \<times> derr option" where
  "filterSyncgroups incl st sgKeys c blessingNames =
     (if blessingNames = [] then (c, Some ErrNoAccess)
      else
        (let (rem, pfxs) = filter_sgs incl st (relName (ic_peer c)) blessingNames (ic_sgIds c) ([], []);
             c = c\<lparr>allSgPfxs := fold (\<lambda>(gid, sg). addPrefixesToMap gid sg) (forEachSyncgroup st sgKeys) [],
                   sharedSgPfxs := pfxs, ic_sgIds := rem\<rparr>
         in if rem = [] then (c, Some (ErrInternal ''no syncgroups found after filtering''))
            else if pfxs = [] then (c, Some (ErrInternal ''no syncgroup prefixes found''))
            else (c\<lparr>ic_auth := sort blessingNames\<rparr>, None)))"

subsection \<open>The state of a round\<close>

type_synonym updMap = "(string \<times> objConflictState) list"

definition new_confSt :: objConflictState where
  "new_confSt = \<lparr>isAddedByCr = False, isConflict = False, newHead = [], oldHead = [], ancestor = [], res = None\<rparr>"

record initiationState =
  config :: initiationConfig
  is_local :: Knowledge
  is_remote :: Knowledge
  updLocal :: Knowledge
  updObjects :: updMap
  dagGraft :: graftMap
  is_sg :: bool
  is_tx :: wTransaction

definition newInitiationState :: "wStore \<Rightarrow> initiationConfig \<Rightarrow> bool \<Rightarrow> initiationState" where
  "newInitiationState st c sg =
     \<lparr>config = c, is_local = [], is_remote = [], updLocal = [], updObjects = [], dagGraft = newGraft (Some (ist st)),
      is_sg = sg, is_tx = wtx_newTransaction (s_managed st) (ist st)\<rparr>"

text \<open>
  The sync module works on its own keys, which no prefix manages, so that they reach the wrapped transaction as they are:
  \<open>tview\<close> is what it reads through a transaction, \<open>tset\<close> makes a change of that view the writes of the transaction.
\<close>

definition tview :: "wTransaction \<Rightarrow> dstore" where
  "tview tx = view (itx tx)"

definition tset :: "wTransaction \<Rightarrow> dstore \<Rightarrow> wTransaction" where
  "tset tx d = tx\<lparr>itx := (itx tx)\<lparr>writes := (\<lambda>k. if d k = tview tx k then writes (itx tx) k else Some (d k))\<rparr>\<rparr>"

lemma tview_tset [simp]: "tview (tset tx d) = d"
  by (rule ext) (simp add: tset_def tview_def view_def split: option.split)

lemma tset_fields [simp]: "t_err (tset tx d) = t_err tx" "ops (tset tx d) = ops tx" "managed (tset tx d) = managed tx"
  "fromSync (tset tx d) = fromSync tx" "snap (itx (tset tx d)) = snap (itx tx)"
  by (simp_all add: tset_def)

definition log_space :: "initiationState \<Rightarrow> string \<Rightarrow> string" where
  "log_space i oid = (if is_sg i then oid else logDataPrefix)"

definition gen_space :: "initiationState \<Rightarrow> string \<Rightarrow> string" where
  "gen_space i oid = (if is_sg i then oid else [])"

end
