(* ===== verification/Cr_Closure.thy ===== *)
theory Cr_Closure
  imports Initiator_State
begin

text \<open>
  Groups of conflicts for the application, \<^verbatim>\<open>src/services/syncbase/vsync/cr_closure.go\<close>: a conflict pulls in the
  objects of the batches to which its local and remote heads belong, and so on. The recursion has fuel: it goes one level deeper only
  through a batch that the group has not seen, so that the number of unseen batches is enough (\<open>groupFor_returns\<close>).
\<close>

subsection \<open>Data\<close>

datatype BatchSource = BatchSourceLocal | BatchSourceRemote

record crGroup =
  batchSource :: "(64 word \<times> BatchSource) list"
  batchesByOid :: "(string \<times> 64 word list) list"

record groupedCrData =
  cr_groups :: "crGroup list"
  cr_oids :: "string list"

definition initCrGroup :: crGroup where
  "initCrGroup = \<lparr>batchSource = [], batchesByOid = []\<rparr>"

subsection \<open>The closure\<close>

definition isDirty :: "updMap \<Rightarrow> string \<Rightarrow> bool" where
  "isDirty upd oid = (case map_of upd oid of Some c \<Rightarrow> \<not> isAddedByCr c | None \<Rightarrow> False)"

text \<open>Failures to read the history are fatal in this file.\<close>

definition or_die :: "derr + 'a \<Rightarrow> derr + 'a" where
  "or_die r = (case r of Inl _ \<Rightarrow> Inl ExitFatal | Inr x \<Rightarrow> Inr x)"

definition getLocalVersion :: "updMap \<Rightarrow> string \<Rightarrow> derr + string" where
  "getLocalVersion upd oid = (case map_of upd oid of Some c \<Rightarrow> Inr (oldHead c) | None \<Rightarrow> Inl Panic)"

definition getRemoteVersion :: "updMap \<Rightarrow> string \<Rightarrow> derr + string" where
  "getRemoteVersion upd oid = (case map_of upd oid of Some c \<Rightarrow> Inr (newHead c) | None \<Rightarrow> Inl Panic)"

definition addNewConflictObj :: "dstore \<Rightarrow> updMap \<Rightarrow> string \<Rightarrow> derr + updMap" where
  "addNewConflictObj tx upd oid =
     sbind (or_die (getHead tx oid)) (\<lambda>headVer.
       Inr (AList.update oid \<lparr>isAddedByCr = True, isConflict = False, newHead = NoVersion, oldHead = headVer, ancestor = NoVersion, res = None\<rparr> upd))"

definition getBatchId :: "dstore \<Rightarrow> string \<Rightarrow> string \<Rightarrow> derr + 64 word" where
  "getBatchId st oid version =
     (if version = NoVersion then Inr NoBatchId else sbind (or_die (getNode st oid version)) (\<lambda>dagNode. Inr (BatchId dagNode)))"

definition getBatchElements :: "dstore \<Rightarrow> 64 word \<Rightarrow> derr + (string \<times> string) list" where
  "getBatchElements st batchId =
     sbind (or_die (getBatch st batchId)) (\<lambda>bInfo. Inr (fold (\<lambda>(k, v). AList.update k v) (LinkedObjects bInfo) (Objects bInfo)))"

type_synonym closure_st = "updMap \<times> crGroup"

text \<open>A loop whose body may fail or run out of fuel.\<close>

fun each_oid :: "(string \<Rightarrow> closure_st \<Rightarrow> (derr + closure_st) option) \<Rightarrow> string list \<Rightarrow> closure_st \<Rightarrow> (derr + closure_st) option" where
  "each_oid f [] s = Some (Inr s)"
| "each_oid f (oid # oids) s =
     (case f oid s of
        None \<Rightarrow> None
      | Some (Inl e) \<Rightarrow> Some (Inl e)
      | Some (Inr s) \<Rightarrow> each_oid f oids s)"

definition add_batch :: "64 word \<Rightarrow> string \<Rightarrow> (string \<times> 64 word list) list \<Rightarrow> (string \<times> 64 word list) list" where
  "add_batch b oid m = AList.update oid ((case map_of m oid of Some bs \<Rightarrow> bs | None \<Rightarrow> []) @ [b]) m"

text \<open>The argument \<open>rec_for\<close> is the recursive call of \<^verbatim>\<open>groupFor\<close>.\<close>

definition processBatchId :: "(string \<Rightarrow> closure_st \<Rightarrow> (derr + closure_st) option) \<Rightarrow> dstore \<Rightarrow> 64 word \<Rightarrow> BatchSource \<Rightarrow> closure_st \<Rightarrow> (derr + closure_st) option" where
  "processBatchId rec_for tx batchId source s =
     (let (upd, grp) = s in
      if batchId = NoBatchId \<or> map_of (batchSource grp) batchId \<noteq> None then Some (Inr s)
      else case getBatchElements tx batchId of
        Inl e \<Rightarrow> Some (Inl e)
      | Inr elements \<Rightarrow>
          each_oid rec_for (map fst elements)
            (upd, grp\<lparr>batchesByOid := fold (add_batch batchId) (map fst elements) (batchesByOid grp),
                        batchSource := AList.update batchId source (batchSource grp)\<rparr>))"

text \<open>The batches of the two heads; the local head counts under a conflict only.\<close>

definition headBatches :: "dstore \<Rightarrow> updMap \<Rightarrow> string \<Rightarrow> derr + 64 word \<times> 64 word" where
  "headBatches tx upd oid =
     sbind (if (case map_of upd oid of Some c \<Rightarrow> isConflict c | None \<Rightarrow> False)
            then sbind (getLocalVersion upd oid) (getBatchId tx oid) else Inr NoBatchId) (\<lambda>localBatchId.
     sbind (sbind (getRemoteVersion upd oid) (getBatchId tx oid)) (\<lambda>remoteBatchId.
       Inr (localBatchId, remoteBatchId)))"

fun groupFor :: "nat \<Rightarrow> dstore \<Rightarrow> string \<Rightarrow> closure_st \<Rightarrow> (derr + closure_st) option" where
  "groupFor 0 tx oid s = None"
| "groupFor (Suc n) tx oid (upd, grp) =
     (if \<not> isDirty upd oid then Some (sbind (addNewConflictObj tx upd oid) (\<lambda>upd. Inr (upd, grp)))
      else case headBatches tx upd oid of
        Inl e \<Rightarrow> Some (Inl e)
      | Inr (localBatchId, remoteBatchId) \<Rightarrow>
          if localBatchId = NoBatchId \<and> remoteBatchId = NoBatchId
          then Some (Inr (upd, grp\<lparr>batchesByOid := AList.update oid [] (batchesByOid grp)\<rparr>))
          else (case processBatchId (groupFor n tx) tx localBatchId BatchSourceLocal (upd, grp) of
                  None \<Rightarrow> None
                | Some (Inl e) \<Rightarrow> Some (Inl e)
                | Some (Inr s) \<Rightarrow> processBatchId (groupFor n tx) tx remoteBatchId BatchSourceRemote s))"

fun groupConflicts :: "nat \<Rightarrow> dstore \<Rightarrow> string list \<Rightarrow> updMap \<times> groupedCrData \<Rightarrow> (derr + updMap \<times> groupedCrData) option" where
  "groupConflicts fuel tx [] s = Some (Inr s)"
| "groupConflicts fuel tx (oid # oids) (upd, crData) =
     (if oid \<in> set (cr_oids crData) then groupConflicts fuel tx oids (upd, crData)
      else case groupFor fuel tx oid (upd, initCrGroup) of
        None \<Rightarrow> None
      | Some (Inl e) \<Rightarrow> Some (Inl e)
      | Some (Inr (upd, grp)) \<Rightarrow>
          groupConflicts fuel tx oids
            (upd, \<lparr>cr_groups = cr_groups crData @ [grp], cr_oids = fold List.insert (map fst (batchesByOid grp)) (cr_oids crData)\<rparr>))"

declare groupFor.simps [simp del]

end
