(* ===== verification/Cr_App.thy ===== *)
theory Cr_App
  imports Cr_Closure
begin

text \<open>
  Resolution of conflicts by the application, \<^verbatim>\<open>src/services/syncbase/vsync/cr_app_resolves.go\<close>, and the choice of the resolver for a round,
  \<^verbatim>\<open>resolveConflicts\<close> of \<^verbatim>\<open>conflict_resolution.go\<close>. The stream of the application is what it will deliver, what was sent on it, and which sends
  succeed. Encoding and decoding of values, the clock and the random numbers of versions are arguments. \<^verbatim>\<open>Fatalf\<close> is \<^term>\<open>ExitFatal\<close>, the use of a
  missing object is \<^term>\<open>Panic\<close>.
\<close>

subsection \<open>Messages\<close>

datatype ValueState = ValueStateNoExists | ValueStateUnknown | ValueStateDeleted | ValueStateExists

record wire_Value =
  vs_State :: ValueState
  vs_Bytes :: "string option"
  WriteTs :: int

record RowOp =
  op_Key :: string
  LocalValue :: wire_Value
  RemoteValue :: wire_Value
  AncestorValue :: wire_Value

datatype ConflictData = ConflictDataBatch "64 word" BatchSource | ConflictDataRow RowOp "64 word list"

record ConflictInfo =
  ci_Data :: ConflictData
  ci_Continued :: bool

datatype ValueSelection = ValueSelectionLocal | ValueSelectionRemote | ValueSelectionOther

text \<open>A result that is not nil and has no bytes is a deletion.\<close>

record ResolutionInfo =
  ri_Key :: string
  Selection :: ValueSelection
  Result :: "string option option"
  ri_Continued :: bool

record crConn =
  cr_recv :: "ResolutionInfo list"
  cr_recvErr :: "derr option"
  cr_sendOk :: "nat \<Rightarrow> bool"
  cr_sent :: "ConflictInfo list"

definition crSend :: "crConn \<Rightarrow> ConflictInfo \<Rightarrow> crConn option" where
  "crSend conn ci = (if cr_sendOk conn (length (cr_sent conn)) then Some (conn\<lparr>cr_sent := cr_sent conn @ [ci]\<rparr>) else None)"

subsection \<open>Sending a group\<close>

definition createBatchConflictInfo :: "64 word \<Rightarrow> BatchSource \<Rightarrow> ConflictInfo" where
  "createBatchConflictInfo batchId source = \<lparr>ci_Data = ConflictDataBatch batchId source, ci_Continued = True\<rparr>"

fun sendBatches :: "crConn \<Rightarrow> (64 word \<times> BatchSource) list \<Rightarrow> crConn option" where
  "sendBatches conn [] = Some conn"
| "sendBatches conn ((batchId, source) # bs) =
     (case crSend conn (createBatchConflictInfo batchId source) of None \<Rightarrow> None | Some conn \<Rightarrow> sendBatches conn bs)"

definition getObjectAtVer :: "wTransaction \<Rightarrow> string \<Rightarrow> string \<Rightarrow> derr + string" where
  "getObjectAtVer tx oid ver = or_die (wtx_GetAtVersion tx oid ver)"

definition getLocalLogRec :: "dstore \<Rightarrow> string \<Rightarrow> string \<Rightarrow> derr + LocalLogRec" where
  "getLocalLogRec tx oid version =
     sbind (or_die (getLogRecsBatch tx oid [version])) (\<lambda>lrecs.
       case lrecs of Some rec # _ \<Rightarrow> Inr rec | _ \<Rightarrow> Inl ExitFatal)"

definition createValueObj :: "(string \<Rightarrow> string option) \<Rightarrow> wTransaction \<Rightarrow> string \<Rightarrow> string \<Rightarrow> bool \<Rightarrow> derr + wire_Value" where
  "createValueObj dec tx oid ver isAncestor =
     (if ver = NoVersion then
        Inr \<lparr>vs_State = (if isAncestor then ValueStateNoExists else ValueStateUnknown), vs_Bytes = None, WriteTs = 0\<rparr>
      else
        sbind (or_die (getNode (tview tx) oid ver)) (\<lambda>dagNode.
        sbind (if \<not> Deleted dagNode then sbind (getObjectAtVer tx oid ver) (\<lambda>bytes. Inr (ValueStateExists, dec bytes))
               else Inr (ValueStateDeleted, None)) (\<lambda>(valueState, rawBytes).
        sbind (getLocalLogRec (tview tx) oid ver) (\<lambda>rec.
          Inr \<lparr>vs_State = valueState, vs_Bytes = rawBytes, WriteTs = UpdTime (Metadata rec)\<rparr>))))"

definition createRowConflictInfo :: "(string \<Rightarrow> string option) \<Rightarrow> wTransaction \<Rightarrow> updMap \<Rightarrow> string \<Rightarrow> 64 word list \<Rightarrow> bool \<Rightarrow> derr + ConflictInfo" where
  "createRowConflictInfo dec tx upd oid batches contd =
     (case StripFirstKeyPartOrDie oid of
        None \<Rightarrow> Inl ExitFatal
      | Some key \<Rightarrow>
          (case map_of upd oid of
             None \<Rightarrow> Inl Panic
           | Some objSt \<Rightarrow>
               sbind (createValueObj dec tx oid (ancestor objSt) True) (\<lambda>anc.
               sbind (createValueObj dec tx oid (oldHead objSt) False) (\<lambda>loc.
               sbind (createValueObj dec tx oid (newHead objSt) False) (\<lambda>rem.
                 Inr \<lparr>ci_Data = ConflictDataRow \<lparr>op_Key = key, LocalValue = loc, RemoteValue = rem, AncestorValue = anc\<rparr> batches,
                      ci_Continued = contd\<rparr>)))))"

text \<open>The last row is the one that is not continued. A send that fails gives no connection back.\<close>

fun sendConflictRows :: "(string \<Rightarrow> string option) \<Rightarrow> wTransaction \<Rightarrow> updMap \<Rightarrow> crConn \<Rightarrow> (string \<times> 64 word list) list \<Rightarrow> derr + crConn option" where
  "sendConflictRows dec tx upd conn [] = Inr (Some conn)"
| "sendConflictRows dec tx upd conn ((oid, batches) # rows) =
     sbind (createRowConflictInfo dec tx upd oid batches (rows \<noteq> [])) (\<lambda>ci.
       case crSend conn ci of None \<Rightarrow> Inr None | Some conn \<Rightarrow> sendConflictRows dec tx upd conn rows)"

subsection \<open>Receiving the resolutions\<close>

definition toRowKey :: "string \<Rightarrow> string" where
  "toRowKey collectionRow = JoinKeyParts [RowPrefix, collectionRow]"

type_synonym resMap = "(string \<times> ResolutionInfo) list"

fun receiveResolutions :: "ResolutionInfo list \<Rightarrow> derr option \<Rightarrow> resMap \<Rightarrow> ResolutionInfo list \<times> (derr + resMap)" where
  "receiveResolutions [] recvErr results = ([], Inl (case recvErr of Some e \<Rightarrow> e | None \<Rightarrow> ErrInternal []))"
| "receiveResolutions (resp # resps) recvErr results =
     (let results = AList.update (toRowKey (ri_Key resp)) resp results in
      if \<not> ri_Continued resp then (resps, Inr results) else receiveResolutions resps recvErr results)"

subsection \<open>From resolutions to records\<close>

definition createsCycle :: "string \<Rightarrow> objConflictState \<Rightarrow> bool" where
  "createsCycle resVer c =
     (if \<not> isConflict c \<and> newHead c \<noteq> NoVersion \<and> oldHead c \<noteq> newHead c then resVer = oldHead c else False)"

definition getResolutionParents :: "updMap \<Rightarrow> string \<Rightarrow> derr + string list" where
  "getResolutionParents upd oid =
     (case map_of upd oid of
        None \<Rightarrow> Inl ExitFatal
      | Some c \<Rightarrow>
          if isConflict c then Inr [oldHead c, newHead c]
          else if isDirty upd oid then Inr [newHead c]
          else Inr [oldHead c])"

definition createLocalLogRec :: "64 word \<Rightarrow> string \<Rightarrow> string list \<Rightarrow> bool \<Rightarrow> int \<Rightarrow> 64 word \<Rightarrow> 64 word \<Rightarrow> 64 word \<Rightarrow> 64 word \<Rightarrow> 64 word \<Rightarrow> derr + LocalLogRec" where
  "createLocalLogRec num oid parents deleted timestamp sId g p batchId cnt =
     (if length parents = 0 then Inl ExitFatal
      else Inr \<lparr>Metadata = \<lparr>Id = sId, Gen = g, RecType = 0, ObjId = oid, CurVers = NewVersion num, rec_Parents = parents,
                  UpdTime = timestamp, Delete = deleted, rec_BatchId = batchId, BatchCount = cnt\<rparr>, Pos = p\<rparr>)"

text \<open>The batch of the resolution holds no objects yet: it only gets an id.\<close>

definition newBatch :: "sync_mem \<Rightarrow> wTransaction \<Rightarrow> 64 word \<Rightarrow> (sync_mem \<times> (derr + wTransaction \<times> 64 word)) option" where
  "newBatch s tx cnt =
     (if cnt < 2 then Some (s, Inr (tx, NoBatchId))
      else do {
        (bs, resBatchId, rands) \<leftarrow> startBatch (w_batches s) (w_rands s) (tview tx) NoBatchId;
        let s = s\<lparr>w_batches := bs, w_rands := rands\<rparr>;
        (if resBatchId = NoBatchId then Some (s, Inl ExitFatal)
         else case endBatch bs (tview tx) resBatchId cnt of
           Inl e \<Rightarrow> Some (s, Inl ExitFatal)
         | Inr (bs, d) \<Rightarrow> Some (s\<lparr>w_batches := bs\<rparr>, Inr (tset tx d, resBatchId)))
      })"

text \<open>
  One resolution: the new state of the conflict, and whether a generation was used. \<open>num\<close> is the random number of a new version, \<open>now\<close> the
  time.
\<close>

definition processResInfo :: "(string option \<Rightarrow> string) \<Rightarrow> wTransaction \<Rightarrow> updMap \<Rightarrow> 64 word \<Rightarrow> int \<Rightarrow> 64 word \<Rightarrow> 64 word \<Rightarrow> 64 word \<Rightarrow> 64 word \<Rightarrow> 64 word \<Rightarrow>
    string \<Rightarrow> ResolutionInfo \<Rightarrow> derr + objConflictState \<times> bool" where
  "processResInfo enc tx upd num now sId g p resBatchId batchCount oid rInfo =
     (let mk = (\<lambda>c t rec val. c\<lparr>res := Some \<lparr>cr_batchId = resBatchId, cr_batchCount = batchCount, cr_ty = t, cr_rec = rec, cr_val = val\<rparr>\<rparr>) in
      case Selection rInfo of
        ValueSelectionLocal \<Rightarrow>
          (case map_of upd oid of
             None \<Rightarrow> Inl Panic
           | Some c \<Rightarrow>
               if createsCycle (oldHead c) c then
                 sbind (or_die (getNode (tview tx) oid (oldHead c))) (\<lambda>dagNode.
                 sbind (if \<not> Deleted dagNode then getObjectAtVer tx oid (oldHead c) else Inr []) (\<lambda>val.
                 sbind (createLocalLogRec num oid [newHead c] (Deleted dagNode) now sId g p resBatchId batchCount) (\<lambda>rec.
                   Inr (mk c createNew (Some rec) val, True))))
               else Inr (mk c pickLocal None [], False))
      | ValueSelectionRemote \<Rightarrow>
          (case map_of upd oid of
             None \<Rightarrow> Inl Panic
           | Some c \<Rightarrow> Inr (mk c (if oldHead c = newHead c then pickLocal else pickRemote) None [], False))
      | ValueSelectionOther \<Rightarrow>
          (case Result rInfo of
             None \<Rightarrow> Inl Panic
           | Some bytes \<Rightarrow>
               sbind (getResolutionParents upd oid) (\<lambda>parents.
               sbind (createLocalLogRec num oid parents (bytes = None) now sId g p resBatchId batchCount) (\<lambda>rec.
                 case map_of upd oid of
                   None \<Rightarrow> Inl Panic
                 | Some c \<Rightarrow> Inr (mk c createNew (Some rec) (enc bytes), True)))))"

fun process_results :: "(string option \<Rightarrow> string) \<Rightarrow> wTransaction \<Rightarrow> (nat \<Rightarrow> 64 word) \<Rightarrow> int \<Rightarrow> 64 word \<Rightarrow> 64 word \<Rightarrow> 64 word \<Rightarrow> 64 word \<Rightarrow> 64 word \<Rightarrow>
    resMap \<Rightarrow> updMap \<Rightarrow> derr + updMap" where
  "process_results enc tx nums now sId g p resBatchId batchCount [] upd = Inr upd"
| "process_results enc tx nums now sId g p resBatchId batchCount ((oid, rInfo) # results) upd =
     sbind (processResInfo enc tx upd (nums (unat g)) now sId g p resBatchId batchCount oid rInfo) (\<lambda>(c, used).
       process_results enc tx nums now sId (if used then g + 1 else g) (if used then p + 1 else p) resBatchId batchCount results
         (AList.update oid c upd))"

definition processResInfos :: "(string option \<Rightarrow> string) \<Rightarrow> (nat \<Rightarrow> 64 word) \<Rightarrow> int \<Rightarrow> sync_mem \<Rightarrow> wTransaction \<Rightarrow> updMap \<Rightarrow> resMap \<Rightarrow> 64 word \<Rightarrow> 64 word \<Rightarrow>
    (sync_mem \<times> (derr + wTransaction \<times> updMap)) option" where
  "processResInfos enc nums now s tx upd results g p =
     (let batchCount = word_of_nat (length results) in do {
        (s, r) \<leftarrow> newBatch s tx batchCount;
        Some (s, sbind r (\<lambda>(tx, resBatchId).
          sbind (process_results enc tx nums now (sync_id (w_sync s)) g p resBatchId batchCount results upd) (\<lambda>upd. Inr (tx, upd))))
      })"

subsection \<open>The application's turn\<close>

record app_env =
  a_dec :: "string \<Rightarrow> string option"
  a_enc :: "string option \<Rightarrow> string"
  a_nums :: "nat \<Rightarrow> 64 word"
  a_now :: int

text \<open>
  One group: send it, receive the answers, check that every object of the group has one, and process them. The result is the memory,
  the connection (\<^term>\<open>None\<close> after a failed send), and the transaction with the updated objects or an error.
\<close>

definition resolve_group :: "app_env \<Rightarrow> wire_Id \<Rightarrow> sync_mem \<Rightarrow> crConn \<Rightarrow> wTransaction \<Rightarrow> updMap \<Rightarrow> crGroup \<Rightarrow>
    (sync_mem \<times> crConn option \<times> (derr + wTransaction \<times> updMap)) option" where
  "resolve_group env db s conn tx upd grp =
     (case sendBatches conn (batchSource grp) of
        None \<Rightarrow> Some (s, None, Inl ErrBrokenCrConnection)
      | Some conn \<Rightarrow>
          (case sendConflictRows (a_dec env) tx upd conn (batchesByOid grp) of
             Inl e \<Rightarrow> Some (s, Some conn, Inl e)
           | Inr None \<Rightarrow> Some (s, None, Inl ErrBrokenCrConnection)
           | Inr (Some conn) \<Rightarrow>
               (let (rest, r) = receiveResolutions (cr_recv conn) (cr_recvErr conn) []; conn = conn\<lparr>cr_recv := rest\<rparr> in
                case r of
                  Inl e \<Rightarrow> Some (s, Some conn, Inl e)
                | Inr results \<Rightarrow>
                    if \<not> list_all (\<lambda>(oid, _). map_of results oid \<noteq> None) (batchesByOid grp)
                    then Some (s, Some conn, Inl (ErrInternal ''Resolution expected but not received''))
                    else (let (sync, g, p) = reserveGenAndPosInDbLog (w_sync s) db [] (word_of_nat (length results)) in do {
                            (s, r) \<leftarrow> processResInfos (a_enc env) (a_nums env) (a_now env) (s\<lparr>w_sync := sync\<rparr>) tx upd results g p;
                            Some (s, Some conn, r)
                          }))))"

fun resolve_groups :: "app_env \<Rightarrow> wire_Id \<Rightarrow> sync_mem \<Rightarrow> crConn \<Rightarrow> wTransaction \<Rightarrow> updMap \<Rightarrow> crGroup list \<Rightarrow>
    (sync_mem \<times> crConn option \<times> (derr + wTransaction \<times> updMap)) option" where
  "resolve_groups env db s conn tx upd [] = Some (s, Some conn, Inr (tx, upd))"
| "resolve_groups env db s conn tx upd (grp # grps) = do {
     (s, c, r) \<leftarrow> resolve_group env db s conn tx upd grp;
     (case (c, r) of
        (Some conn, Inr (tx, upd)) \<Rightarrow> resolve_groups env db s conn tx upd grps
      | _ \<Rightarrow> Some (s, c, r))
   }"

definition resolveViaApp :: "app_env \<Rightarrow> wire_Id \<Rightarrow> sync_mem \<Rightarrow> crConn option \<Rightarrow> wTransaction \<Rightarrow> updMap \<Rightarrow> groupedCrData \<Rightarrow>
    (sync_mem \<times> crConn option \<times> (derr + wTransaction \<times> updMap)) option" where
  "resolveViaApp env db s appConn tx upd groupedConflicts =
     (case appConn of
        None \<Rightarrow> Some (s, None, Inl ErrBrokenCrConnection)
      | Some conn \<Rightarrow> resolve_groups env db s conn tx upd (cr_groups groupedConflicts))"

subsection \<open>All conflicts of a round\<close>

text \<open>The objects of a type, in their current states; the states are shared, so that changes are written back.\<close>

definition conflicts_of_type :: "(ResolverType \<times> updMap) list \<Rightarrow> updMap \<Rightarrow> ResolverType \<Rightarrow> updMap" where
  "conflicts_of_type byType upd t =
     filter (\<lambda>(oid, _). (case map_of byType t of Some grp \<Rightarrow> map_of grp oid \<noteq> None | None \<Rightarrow> False)) upd"

definition write_back :: "updMap \<Rightarrow> updMap \<Rightarrow> updMap" where
  "write_back upd resolved = map (\<lambda>(oid, c). (oid, case map_of resolved oid of Some c' \<Rightarrow> c' | None \<Rightarrow> c)) upd"

text \<open>
  \<open>schema\<close> is the answer of \<^verbatim>\<open>getDbSchema\<close>; \<open>fuel\<close> is for the groups. The outer option is \<^term>\<open>None\<close> if fuel or random numbers run out.
\<close>

definition resolveConflicts :: "nat \<Rightarrow> app_env \<Rightarrow> derr + CrRule list \<Rightarrow> wire_Id \<Rightarrow> sync_mem \<Rightarrow> crConn option \<Rightarrow> wTransaction \<Rightarrow> updMap \<Rightarrow>
    (sync_mem \<times> crConn option \<times> (derr + wTransaction \<times> updMap)) option" where
  "resolveConflicts fuel env schema db s appConn tx upd =
     (let by_time = (\<lambda>tx upd objs. let (objs', e) = resolveViaTimestamp (tview tx) objs in
                       case e of Some e \<Rightarrow> Inl e | None \<Rightarrow> Inr (tx, write_back upd objs')) in
      case schema of
        Inl e \<Rightarrow> Some (s, appConn, if not_exist e then by_time tx upd upd else Inl e)
      | Inr rules \<Rightarrow>
          (case groupConflictsByType rules upd [] of
             None \<Rightarrow> Some (s, appConn, Inl ExitFatal)
           | Some byType \<Rightarrow> do {
               r \<leftarrow> groupConflicts fuel (tview tx) (map fst (conflicts_of_type byType upd AppResolves)) (upd, \<lparr>cr_groups = [], cr_oids = []\<rparr>);
               (case r of
                  Inl e \<Rightarrow> Some (s, appConn, Inl e)
                | Inr (upd, grouped) \<Rightarrow> do {
                    (s, conn, r) \<leftarrow> resolveViaApp env db s appConn tx upd grouped;
                    Some (s, conn, sbind r (\<lambda>(tx, upd). by_time tx upd (conflicts_of_type byType upd LastWins)))
                  })
             }))"

end
