(* ===== verification/Initiator.thy ===== *)
theory Initiator
  imports Cr_App
begin

text \<open>
  The initiator of a sync exchange, \<^verbatim>\<open>src/services/syncbase/vsync/initiator.go\<close>: it asks a peer for what it lacks, replays the records it
  receives into log and history, detects and resolves conflicts, moves the database to the new heads, and merges the vectors of the
  peer into its own. What the peer sends is a list of responses and the error with which its stream ends. The outer option of a result is
  \<^term>\<open>None\<close> for a loop that does not end or random numbers that run out.
\<close>

subsection \<open>Requests\<close>

text \<open>The local prefixes related to a prefix of the request: shorter ones start it, longer ones are sent as they are.\<close>

fun local_prefixes :: "Knowledge \<Rightarrow> string \<Rightarrow> string list \<Rightarrow> Knowledge \<times> string \<Rightarrow> Knowledge \<times> string" where
  "local_prefixes local pfx [] acc = acc"
| "local_prefixes local pfx (lp # lps) (out, lpStart) =
     (if \<not> prefix pfx lp \<and> \<not> prefix lp pfx then local_prefixes local pfx lps (out, lpStart)
      else if prefix lp pfx then local_prefixes local pfx lps (out, lp)
      else local_prefixes local pfx lps (AList.update lp (kn_get local lp) out, lpStart))"

fun request_prefixes :: "64 word \<Rightarrow> 64 word \<Rightarrow> Knowledge \<Rightarrow> string list \<Rightarrow> string \<Rightarrow> Knowledge \<Rightarrow> Knowledge" where
  "request_prefixes self lgen local [] pfx out = out"
| "request_prefixes self lgen local (p # ps) pfx out =
     (if prefix pfx p \<and> p \<noteq> pfx then request_prefixes self lgen local ps pfx out
      else
        (let pfx = p; (out, lpStart) = local_prefixes local pfx (extractAndSortPrefixes local) (out, []) in
         request_prefixes self lgen local ps pfx
           (AList.update pfx (if lpStart = [] then [(self, lgen)] else kn_get local lpStart) out)))"

definition prepareDataDeltaReq :: "sync_mem \<Rightarrow> initiationState \<Rightarrow> sync_mem \<times> (derr + initiationState \<times> DeltaReq)" where
  "prepareDataDeltaReq s i =
     (let db = ic_dbId (config i); (sync, ok) = isDbSyncable (w_sync s) db; s = s\<lparr>w_sync := sync\<rparr> in
      if \<not> ok then (s, Inl ErrDbOffline)
      else (s, sbind (copyDbGenInfo sync db []) (\<lambda>(local, lgen).
        (case sort (map fst (sharedSgPfxs (config i))) of
           [] \<Rightarrow> Inl (ErrInternal ''no syncgroups for syncing'')
         | pfx # ps \<Rightarrow>
             (let out = request_prefixes (sync_id sync) lgen local (pfx # ps) pfx [] in
              Inr (i\<lparr>is_local := out\<rparr>, DeltaReqData db (ic_sgIds (config i)) out))))))"

definition prepareSGDeltaReq :: "sync_mem \<Rightarrow> initiationState \<Rightarrow> sync_mem \<times> (derr + initiationState \<times> DeltaReq)" where
  "prepareSGDeltaReq s i =
     (let db = ic_dbId (config i); (sync, ok) = isDbSyncable (w_sync s) db; s = s\<lparr>w_sync := sync\<rparr> in
      if \<not> ok then (s, Inl ErrDbOffline)
      else (s, sbind (copyDbGenInfo sync db (ic_sgIds (config i))) (\<lambda>(local, _).
        Inr (i\<lparr>is_local := local\<rparr>, DeltaReqSgs db local))))"

subsection \<open>Receiving records\<close>

text \<open>The record goes to the log, its node or link to the history.\<close>

definition insertRecInLogAndDag :: "bool \<Rightarrow> batchSet \<Rightarrow> dstore \<Rightarrow> graftMap \<Rightarrow> LocalLogRec \<Rightarrow> 64 word \<Rightarrow>
    (batchSet \<times> (derr + dstore \<times> graftMap)) option" where
  "insertRecInLogAndDag sg batches tx graft rec batchId =
     (let m = Metadata rec; pfx = (if sg then ObjId m else logDataPrefix); tx = putLogRec tx pfx rec; logKey = logRecKey pfx (Id m) (Gen m) in
      if RecType m = 0 then
        Some (case addNode batches tx (ObjId m) (CurVers m) logKey (Delete m) (rec_Parents m) (rec_BatchId m) (Some graft) of
                Inl e \<Rightarrow> (batches, Inl e)
              | Inr (batches, tx, g) \<Rightarrow> (batches, Inr (tx, the g)))
      else if RecType m = 1 then
        (case rec_Parents m of
           [] \<Rightarrow> Some (batches, Inl Panic)
         | parent # _ \<Rightarrow> do {
             (batches, r) \<leftarrow> addParent batches tx (ObjId m) (CurVers m) parent (rec_BatchId m) (Some graft);
             Some (batches, sbind r (\<lambda>(tx, g). Inr (tx, the g)))
           })
      else Some (batches, Inl (ErrInternal ''unknown log record type'')))"

definition insertSgRecInDb :: "dstore \<Rightarrow> LogRecMetadata \<Rightarrow> rawValue option \<Rightarrow> derr + dstore" where
  "insertSgRecInDb tx m rawValue =
     (case rawValue of
        Some (RawSg sg) \<Rightarrow> Inr (setSGDataEntryByOID tx (ObjId m) (CurVers m) sg)
      | _ \<Rightarrow> Inl (ErrInternal ''value''))"

definition insertRecInDb :: "(rawValue option \<Rightarrow> derr + string) \<Rightarrow> wTransaction \<Rightarrow> LogRecMetadata \<Rightarrow> rawValue option \<Rightarrow> derr + wTransaction" where
  "insertRecInDb vomEncode tx m rawValue =
     (if \<not> Delete m \<and> RecType m = 0 then
        sbind (vomEncode rawValue) (\<lambda>valbuf.
          case PutAtVersion tx (ObjId m) valbuf (CurVers m) of (tx, None) \<Rightarrow> Inr tx | (tx, Some e) \<Rightarrow> Inl e)
      else Inr tx)"

type_synonym batchMap = "(64 word \<times> 64 word) list"

text \<open>The first record of a batch starts it, later ones must agree on its size.\<close>

definition track_batch :: "batchSet \<Rightarrow> 64 word list \<Rightarrow> dstore \<Rightarrow> batchMap \<Rightarrow> 64 word \<Rightarrow> 64 word \<Rightarrow> (batchSet \<times> (derr + batchMap)) option" where
  "track_batch batches rands tx bm batchId cnt =
     (if batchId = NoBatchId then Some (batches, Inr bm)
      else case map_of bm batchId of
        None \<Rightarrow> do {
          (batches, b, _) \<leftarrow> startBatch batches rands tx batchId;
          Some (batches, if b \<noteq> batchId then Inl (ErrInternal ''failed to create batch info'') else Inr (AList.update batchId cnt bm))
        }
      | Some c \<Rightarrow> Some (batches, if c \<noteq> cnt then Inl (ErrInternal ''inconsistent counts for tid'') else Inr bm))"

text \<open>What a record changes: memory, transaction, state of the round and the batches begun.\<close>

type_synonym recv_st = "sync_mem \<times> wTransaction \<times> initiationState \<times> batchMap"

record recv_env =
  e_blobs :: "LogRecMetadata \<Rightarrow> rawValue option \<Rightarrow> derr option"
  e_encode :: "rawValue option \<Rightarrow> derr + string"

definition insert_value :: "recv_env \<Rightarrow> bool \<Rightarrow> wTransaction \<Rightarrow> LogRecMetadata \<Rightarrow> rawValue option \<Rightarrow> derr + wTransaction" where
  "insert_value env sg tx m rawValue =
     (if sg then sbind (insertSgRecInDb (tview tx) m rawValue) (\<lambda>d. Inr (tset tx d))
      else sbind (insertRecInDb (e_encode env) tx m rawValue) (\<lambda>tx.
             case e_blobs env m rawValue of Some e \<Rightarrow> Inl e | None \<Rightarrow> Inr tx))"

definition recv_rec :: "recv_env \<Rightarrow> recv_st \<Rightarrow> LogRec \<Rightarrow> (sync_mem \<times> (derr + recv_st)) option" where
  "recv_rec env = (\<lambda>(s, tx, i, bm) v.
     let m = lr_Metadata v;
         (sync, p) = reservePosInDbLog (w_sync s) (ic_dbId (config i)) (gen_space i (ObjId m)) 1;
         s = s\<lparr>w_sync := sync\<rparr>; rec = \<lparr>Metadata = m, Pos = p\<rparr> in do {
       (bs, r) \<leftarrow> track_batch (w_batches s) (w_rands s) (tview tx) bm (rec_BatchId m) (BatchCount m);
       let s = s\<lparr>w_batches := bs\<rparr>;
       (case r of
          Inl e \<Rightarrow> Some (s, Inl e)
        | Inr bm \<Rightarrow> do {
            (bs, r) \<leftarrow> insertRecInLogAndDag (is_sg i) (w_batches s) (tview tx) (dagGraft i) rec (rec_BatchId m);
            let s = s\<lparr>w_batches := bs\<rparr>;
            Some (s, sbind r (\<lambda>(d, g). sbind (insert_value env (is_sg i) (tset tx d) m (lr_Value v)) (\<lambda>tx.
              Inr (s, tx, i\<lparr>dagGraft := g, updObjects := AList.update (ObjId m) new_confSt (updObjects i)\<rparr>, bm))))
          })
     })"

fun recv_loop :: "recv_env \<Rightarrow> DeltaResp list \<Rightarrow> recv_st \<Rightarrow> (sync_mem \<times> (derr + recv_st)) option" where
  "recv_loop env [] (s, tx, i, bm) = Some (s, Inr (s, tx, i, bm))"
| "recv_loop env (DeltaRespGvs gvs # rs) (s, tx, i, bm) = recv_loop env rs (s, tx, i\<lparr>is_remote := gvs\<rparr>, bm)"
| "recv_loop env (DeltaRespRec v # rs) st = do {
     (s, r) \<leftarrow> recv_rec env st v;
     (case r of Inl e \<Rightarrow> Some (s, Inl e) | Inr st \<Rightarrow> recv_loop env rs st)
   }"

fun end_batches :: "batchMap \<Rightarrow> batchSet \<Rightarrow> dstore \<Rightarrow> batchSet \<times> (derr + dstore)" where
  "end_batches [] batches tx = (batches, Inr tx)"
| "end_batches ((bid, cnt) # bm) batches tx =
     (case endBatch batches tx bid cnt of Inl e \<Rightarrow> (batches, Inl e) | Inr (batches, tx) \<Rightarrow> end_batches bm batches tx)"

text \<open>How a commit ends: the store at that time, the clock, and the error of the engine.\<close>

record commit_env =
  ce_store :: wStore
  ce_clock :: "derr + int"
  ce_err :: "derr option"

text \<open>A concurrent transaction is not expected here and is fatal.\<close>

definition recvAndProcessDeltas :: "recv_env \<Rightarrow> commit_env \<Rightarrow> DeltaResp list \<Rightarrow> derr option \<Rightarrow> sync_mem \<Rightarrow> wStore \<Rightarrow> initiationState \<Rightarrow>
    (sync_mem \<times> wStore \<times> (derr + initiationState)) option" where
  "recvAndProcessDeltas env ce resps rcvErr s st i = do {
     (s, r) \<leftarrow> recv_loop env resps (s, wtx_newTransaction (s_managed st) (ist st), i, []);
     (case (r, rcvErr) of
        (Inl e, _) \<Rightarrow> Some (s, ce_store ce, Inl e)
      | (Inr _, Some e) \<Rightarrow> Some (s, ce_store ce, Inl e)
      | (Inr (s, tx, i, bm), None) \<Rightarrow>
          (case end_batches bm (w_batches s) (tview tx) of
             (bs, Inl e) \<Rightarrow> Some (s\<lparr>w_batches := bs\<rparr>, ce_store ce, Inl e)
           | (bs, Inr d) \<Rightarrow>
               (let (st', _, e) = wtx_Commit (ce_clock ce) (ce_err ce) (ce_store ce) (tset tx d) in
                Some (s\<lparr>w_batches := bs\<rparr>, st',
                      case e of None \<Rightarrow> Inr i | Some e \<Rightarrow> Inl (if e = ErrConcurrentTransaction then ExitFatal else e)))))
   }"

subsection \<open>Conflicts\<close>

definition detect_one :: "dstore \<Rightarrow> graftMap \<Rightarrow> string \<Rightarrow> objConflictState \<Rightarrow> derr + objConflictState" where
  "detect_one tx graft oid c =
     sbind (hasConflict tx oid (Some graft)) (\<lambda>(conflict, newH, oldH, anc).
       let c = c\<lparr>isConflict := conflict, newHead := newH, oldHead := oldH, ancestor := anc\<rparr> in
       Inr (if conflict then c
            else c\<lparr>res := Some \<lparr>cr_batchId = 0, cr_batchCount = 0, cr_ty = (if newH = oldH then pickLocal else pickRemote), cr_rec = None, cr_val = []\<rparr>\<rparr>))"

fun detectConflicts :: "dstore \<Rightarrow> graftMap \<Rightarrow> updMap \<Rightarrow> derr + updMap" where
  "detectConflicts tx graft [] = Inr []"
| "detectConflicts tx graft ((oid, c) # upd) =
     sbind (detect_one tx graft oid c) (\<lambda>c. sbind (detectConflicts tx graft upd) (\<lambda>upd. Inr ((oid, c) # upd)))"

text \<open>Before a retry the objects that the resolution has added are dropped, the others start afresh.\<close>

definition resetConflictResolutionState :: "updMap \<Rightarrow> updMap" where
  "resetConflictResolutionState upd = map (\<lambda>(oid, _). (oid, new_confSt)) (filter (\<lambda>(_, c). \<not> isAddedByCr c) upd)"

subsection \<open>Log and history\<close>

definition createLocalLinkLogRec :: "int \<Rightarrow> sync_mem \<Rightarrow> initiationState \<Rightarrow> string \<Rightarrow> string \<Rightarrow> string \<Rightarrow> 64 word \<Rightarrow> 64 word \<Rightarrow> sync_mem \<times> LocalLogRec" where
  "createLocalLinkLogRec now s i oid vers parent batchId batchCount =
     (let (sync, g, p) = reserveGenAndPosInDbLog (w_sync s) (ic_dbId (config i)) (gen_space i oid) 1 in
      (s\<lparr>w_sync := sync\<rparr>,
       \<lparr>Metadata = \<lparr>Id = sync_id sync, Gen = g, RecType = 1, ObjId = oid, CurVers = vers, rec_Parents = [parent], UpdTime = now,
          Delete = False, rec_BatchId = batchId, BatchCount = batchCount\<rparr>, Pos = p\<rparr>))"

text \<open>The record of a resolution, if it needs one, and the version that becomes the head.\<close>

definition resolution_rec :: "int \<Rightarrow> sync_mem \<Rightarrow> initiationState \<Rightarrow> string \<Rightarrow> objConflictState \<Rightarrow> sync_mem \<times> (derr + LocalLogRec option \<times> string)" where
  "resolution_rec now s i oid c =
     (case res c of
        None \<Rightarrow> (s, Inl Panic)
      | Some r \<Rightarrow>
          (case cr_ty r of
             pickLocal \<Rightarrow>
               if isConflict c then
                 (let (s, rec) = createLocalLinkLogRec now s i oid (oldHead c) (newHead c) (cr_batchId r) (cr_batchCount r) in
                  (s, Inr (Some rec, oldHead c)))
               else (s, Inr (None, oldHead c))
           | pickRemote \<Rightarrow>
               (let (s, rec) = (if isConflict c
                      then (case createLocalLinkLogRec now s i oid (newHead c) (oldHead c) (cr_batchId r) (cr_batchCount r) of (s, rec) \<Rightarrow> (s, Some rec))
                      else (s, None)) in
                (s, if isAddedByCr c then Inl ExitFatal else Inr (rec, newHead c)))
           | createNew \<Rightarrow>
               (s, case cr_rec r of None \<Rightarrow> Inl Panic | Some rec \<Rightarrow> Inr (Some rec, CurVers (Metadata rec)))))"

text \<open>A node is added without its batch, a link with it.\<close>

definition add_resolution :: "batchSet \<Rightarrow> dstore \<Rightarrow> string \<Rightarrow> string \<Rightarrow> LogRecMetadata \<Rightarrow> (batchSet \<times> (derr + dstore)) option" where
  "add_resolution batches tx pfx oid m =
     (if RecType m = 0 then
        Some (case addNode batches tx oid (CurVers m) (logRecKey pfx (Id m) (Gen m)) (Delete m) (rec_Parents m) NoBatchId None of
                Inl e \<Rightarrow> (batches, Inl e)
              | Inr (batches, tx, _) \<Rightarrow> (batches, Inr tx))
      else if RecType m = 1 then
        (case rec_Parents m of
           [] \<Rightarrow> Some (batches, Inl Panic)
         | parent # _ \<Rightarrow> do {
             (batches, r) \<leftarrow> addParent batches tx oid (CurVers m) parent (rec_BatchId m) None;
             Some (batches, sbind r (\<lambda>(tx, _). Inr tx))
           })
      else Some (batches, Inl (ErrInternal ''unknown log record type'')))"

definition record_resolution :: "sync_mem \<Rightarrow> dstore \<Rightarrow> string \<Rightarrow> string \<Rightarrow> batchMap \<Rightarrow> LocalLogRec \<Rightarrow> (sync_mem \<times> (derr + dstore \<times> batchMap)) option" where
  "record_resolution s tx pfx oid bm rec =
     (let m = Metadata rec; tx = putLogRec tx pfx rec in do {
        (bs, r) \<leftarrow> track_batch (w_batches s) (w_rands s) tx bm (rec_BatchId m) (BatchCount m);
        let s = s\<lparr>w_batches := bs\<rparr>;
        (case r of
           Inl e \<Rightarrow> Some (s, Inl e)
         | Inr bm \<Rightarrow> do {
             (bs, r) \<leftarrow> add_resolution (w_batches s) tx pfx oid m;
             Some (s\<lparr>w_batches := bs\<rparr>, sbind r (\<lambda>tx. Inr (tx, bm)))
           })
      })"

definition updateLogAndDag :: "int \<Rightarrow> sync_mem \<Rightarrow> initiationState \<Rightarrow> string \<Rightarrow> objConflictState \<Rightarrow> dstore \<Rightarrow> batchMap \<Rightarrow> (sync_mem \<times> (derr + dstore \<times> batchMap)) option" where
  "updateLogAndDag now s i oid c tx bm =
     (let (s, r) = resolution_rec now s i oid c in
      case r of
        Inl e \<Rightarrow> Some (s, Inl e)
      | Inr (rec, newVersion) \<Rightarrow> do {
          (s, r) \<leftarrow> (case rec of
             None \<Rightarrow> Some (s, Inr (tx, bm))
           | Some rec \<Rightarrow> record_resolution s tx (log_space i oid) oid bm rec);
          Some (s, sbind r (\<lambda>(tx, bm). sbind (moveHead tx oid newVersion) (\<lambda>tx. Inr (tx, bm))))
        })"

subsection \<open>The database\<close>

text \<open>
  The version that the database shows must be the head that the resolution started from. \<open>version_deleted\<close> treats no version as a deleted one.
\<close>

definition version_deleted :: "dstore \<Rightarrow> string \<Rightarrow> string \<Rightarrow> derr + bool" where
  "version_deleted tx oid version = (if version = NoVersion then Inr True else sbind (getNode tx oid version) (\<lambda>n. Inr (Deleted n)))"

definition check_unchanged :: "wTransaction \<Rightarrow> string \<Rightarrow> string \<Rightarrow> bool \<Rightarrow> derr option" where
  "check_unchanged tx oid oldH oldVersDeleted =
     (if \<not> oldVersDeleted then
        (case wtx_GetVersion tx oid of
           Inl e \<Rightarrow> Some e
         | Inr version \<Rightarrow> if version \<noteq> oldH then Some ErrConcurrentTransaction else None)
      else (case wtx_GetVersion tx oid of Inl (ErrUnknownKey _) \<Rightarrow> None | _ \<Rightarrow> Some ErrConcurrentTransaction))"

definition lift_tx :: "wTransaction \<times> derr option \<Rightarrow> derr + wTransaction" where
  "lift_tx = (\<lambda>(tx, e). case e of None \<Rightarrow> Inr tx | Some e \<Rightarrow> Inl e)"

definition show_version :: "wTransaction \<Rightarrow> string \<Rightarrow> conflictResolution \<Rightarrow> string \<Rightarrow> bool \<Rightarrow> bool \<Rightarrow> derr + wTransaction" where
  "show_version tx oid r newVersion oldVersDeleted newVersDeleted =
     (if oldVersDeleted \<and> newVersDeleted then Inr tx
      else if \<not> newVersDeleted then
        sbind (if cr_ty r = createNew then lift_tx (PutAtVersion tx oid (cr_val r) newVersion) else Inr tx) (\<lambda>tx.
          lift_tx (PutVersion tx oid newVersion))
      else lift_tx (wtx_Delete tx oid))"

definition update_db :: "wTransaction \<Rightarrow> string \<Rightarrow> objConflictState \<Rightarrow> derr + wTransaction" where
  "update_db tx oid c =
     sbind (version_deleted (tview tx) oid (oldHead c)) (\<lambda>oldVersDeleted.
       case check_unchanged tx oid (oldHead c) oldVersDeleted of
         Some e \<Rightarrow> Inl e
       | None \<Rightarrow>
           (case res c of
              None \<Rightarrow> Inl Panic
            | Some r \<Rightarrow>
                (case cr_ty r of
                   pickLocal \<Rightarrow> Inr tx
                 | pickRemote \<Rightarrow>
                     sbind (getNode (tview tx) oid (newHead c)) (\<lambda>newDagNode.
                       show_version tx oid r (newHead c) oldVersDeleted (Deleted newDagNode))
                 | createNew \<Rightarrow>
                     (case cr_rec r of
                        None \<Rightarrow> Inl Panic
                      | Some rec \<Rightarrow> show_version tx oid r (CurVers (Metadata rec)) oldVersDeleted (Delete (Metadata rec))))))"

fun update_objs :: "int \<Rightarrow> sync_mem \<Rightarrow> initiationState \<Rightarrow> updMap \<Rightarrow> wTransaction \<Rightarrow> batchMap \<Rightarrow> (sync_mem \<times> (derr + wTransaction \<times> batchMap)) option" where
  "update_objs now s i [] tx bm = Some (s, Inr (tx, bm))"
| "update_objs now s i ((oid, c) # upd) tx bm = do {
     (s, r) \<leftarrow> updateLogAndDag now s i oid c (tview tx) bm;
     (case sbind r (\<lambda>(d, bm). sbind (if is_sg i then Inr (tset tx d) else update_db (tset tx d) oid c) (\<lambda>tx. Inr (tx, bm))) of
        Inl e \<Rightarrow> Some (s, Inl e)
      | Inr (tx, bm) \<Rightarrow> update_objs now s i upd tx bm)
   }"

subsection \<open>Generation vectors\<close>

definition mergeGenVectors :: "GenVector \<Rightarrow> GenVector \<Rightarrow> GenVector" where
  "mergeGenVectors lpgv respgv =
     fold (\<lambda>(devid, rgen) gv. case map_of gv devid of
             None \<Rightarrow> AList.update devid rgen gv
           | Some g \<Rightarrow> if g < rgen then AList.update devid rgen gv else gv) respgv lpgv"

definition merge_prefix :: "string \<Rightarrow> GenVector \<Rightarrow> Knowledge \<Rightarrow> Knowledge" where
  "merge_prefix rpfx respgv gvs =
     (let gvs = map (\<lambda>(lpfx, lpgv). (lpfx, if prefix rpfx lpfx then mergeGenVectors lpgv respgv else lpgv)) gvs in
      if map_of gvs rpfx = None then AList.update rpfx respgv gvs else gvs)"

text \<open>A syncgroup is no longer pending once its vector is not below the pending one.\<close>

definition flip_pending :: "dstore \<Rightarrow> string \<Rightarrow> GenVector \<Rightarrow> derr + dstore" where
  "flip_pending tx rpfx curgv =
     (case sgID rpfx of
        None \<Rightarrow> Inl (ErrInternal rpfx)
      | Some gid \<Rightarrow>
          sbind (getSGIdEntry tx gid) (\<lambda>state.
            Inr (if SyncPending state \<and> GenVector_Compare curgv (PendingGenVec state) \<ge> 0
                 then setSGIdEntry tx gid (state\<lparr>SyncPending := False\<rparr>) else tx)))"

fun merge_remote :: "bool \<Rightarrow> Knowledge \<Rightarrow> Knowledge \<Rightarrow> dstore \<Rightarrow> derr + Knowledge \<times> dstore" where
  "merge_remote sg [] gvs tx = Inr (gvs, tx)"
| "merge_remote sg ((rpfx, respgv) # rem) gvs tx =
     (let gvs = merge_prefix rpfx respgv gvs in
      sbind (if sg then flip_pending tx rpfx (kn_get gvs rpfx) else Inr tx) (\<lambda>tx. merge_remote sg rem gvs tx))"

text \<open>
  A vector of the peer that is adopted for a new prefix is shared with the state of the round, which sees its later changes.
\<close>

definition updateSyncSt :: "sync_mem \<Rightarrow> initiationState \<Rightarrow> dstore \<Rightarrow> derr + initiationState \<times> dstore" where
  "updateSyncSt s i tx =
     sbind (copyDbSyncStateInMem (w_sync s) (ic_dbId (config i))) (\<lambda>ds.
       let gvs0 = (if is_sg i then sggenvecs ds else genvecs ds) in
       sbind (merge_remote (is_sg i) (is_remote i) gvs0 tx) (\<lambda>(gvs, tx).
         let gvs = map (\<lambda>(p, gv). (p, AList.delete (sync_id (w_sync s)) gv)) gvs;
             rem = map (\<lambda>(p, gv). (p, if map_of gvs0 p = None then kn_get gvs p else gv)) (is_remote i);
             i = i\<lparr>updLocal := gvs, is_remote := rem\<rparr> in
         sbind (case getDbSyncState tx of
                  Inr d \<Rightarrow> Inr (IsPaused d)
                | Inl e \<Rightarrow> if \<not> not_exist e then Inl e else Inr False) (\<lambda>paused.
           Inr (i, putDbSyncState tx
             (if is_sg i then \<lparr>GenVecs = genvecs ds, SgGenVecs = gvs, IsPaused = paused\<rparr>
              else \<lparr>GenVecs = gvs, SgGenVecs = sggenvecs ds, IsPaused = paused\<rparr>)))))"

definition updateDbAndSyncSt :: "int \<Rightarrow> sync_mem \<Rightarrow> initiationState \<Rightarrow> (sync_mem \<times> (derr + initiationState)) option" where
  "updateDbAndSyncSt now s i = do {
     (s, r) \<leftarrow> update_objs now s i (updObjects i) (is_tx i) [];
     (case r of
        Inl e \<Rightarrow> Some (s, Inl e)
      | Inr (tx, bm) \<Rightarrow>
          (case end_batches bm (w_batches s) (tview tx) of
             (bs, Inl e) \<Rightarrow> Some (s\<lparr>w_batches := bs\<rparr>, Inl e)
           | (bs, Inr d) \<Rightarrow>
               (let s = s\<lparr>w_batches := bs\<rparr> in
                Some (s, sbind (updateSyncSt s i d) (\<lambda>(i, d). Inr (i\<lparr>is_tx := tset tx d\<rparr>))))))
   }"

subsection \<open>A round\<close>

text \<open>An attempt: the store when it begins, how the commit ends, and the time.\<close>

record attempt_env =
  at_begin :: wStore
  at_commit :: commit_env
  at_now :: int

record round_env =
  ro_fuel :: nat
  ro_app :: app_env
  ro_schema :: "derr + CrRule list"

text \<open>What an attempt leaves behind: the memory, the connection, the state of the round, the store, and the error.\<close>

definition process_attempt :: "round_env \<Rightarrow> attempt_env \<Rightarrow> sync_mem \<Rightarrow> crConn option \<Rightarrow> initiationState \<Rightarrow>
    (sync_mem \<times> crConn option \<times> initiationState \<times> wStore \<times> derr option) option" where
  "process_attempt env at s conn i =
     (let st = ce_store (at_commit at);
          i = i\<lparr>is_tx := SetTransactionFromSync (wtx_newTransaction (s_managed (at_begin at)) (ist (at_begin at)))\<rparr> in
      case detectConflicts (tview (is_tx i)) (dagGraft i) (updObjects i) of
        Inl e \<Rightarrow> Some (s, conn, i, st, Some e)
      | Inr upd \<Rightarrow> do {
          (s, conn, r) \<leftarrow> resolveConflicts (ro_fuel env) (ro_app env) (ro_schema env) (ic_dbId (config i)) s conn (is_tx i) upd;
          (case r of
             Inl e \<Rightarrow> Some (s, conn, i, st, Some e)
           | Inr (tx, upd) \<Rightarrow>
               (let i = i\<lparr>is_tx := tx, updObjects := upd\<rparr> in do {
                  (s, r) \<leftarrow> updateDbAndSyncSt (at_now at) s i;
                  (case r of
                     Inl e \<Rightarrow> Some (s, conn, i, st, Some e)
                   | Inr i \<Rightarrow>
                       (let (st, tx, e) = wtx_Commit (ce_clock (at_commit at)) (ce_err (at_commit at)) st (is_tx i) in
                        Some (s, conn, i\<lparr>is_tx := tx\<rparr>, st, e)))
                }))
        })"

text \<open>
  Attempts are repeated while they meet a concurrent transaction; the list holds what they meet, and a list that ends too early gives
  \<^term>\<open>None\<close>. A failure to keep the vectors in memory after the commit is fatal.
\<close>

fun processUpdatedObjects :: "round_env \<Rightarrow> attempt_env list \<Rightarrow> sync_mem \<Rightarrow> crConn option \<Rightarrow> initiationState \<Rightarrow>
    (sync_mem \<times> crConn option \<times> initiationState \<times> wStore \<times> derr option) option" where
  "processUpdatedObjects env [] s conn i = None"
| "processUpdatedObjects env (at # ats) s conn i = do {
     (s, conn, i, st, e) \<leftarrow> process_attempt env at s conn i;
     (case e of
        None \<Rightarrow>
          (let (sync, e) = putDbGenInfoRemote (w_sync s) (ic_dbId (config i)) (is_sg i) (updLocal i) in
           Some (s\<lparr>w_sync := sync\<rparr>, conn, i, st, if e = None then None else Some ExitFatal))
      | Some e \<Rightarrow>
          if e \<noteq> ErrConcurrentTransaction then Some (s, conn, i, st, Some e)
          else processUpdatedObjects env ats s conn (i\<lparr>updObjects := resetConflictResolutionState (updObjects i)\<rparr>))
   }"

subsection \<open>An exchange with a peer\<close>

text \<open>
  What the peer sends in answer to a request: its responses, the error that ends the stream, and the error of the call. The names and calls of
  the peer, and what happens to the store meanwhile, are arguments; \<open>x_handoff\<close> is the call that offers blobs to the peer, if there are any.
\<close>

record peer_stream =
  ps_resps :: "DeltaResp list"
  ps_err :: "derr option"
  ps_finish :: "derr option"

record exchange_env =
  x_join :: "string list \<Rightarrow> string"
  x_suffix :: string
  x_GetDeltas :: "DeltaReq \<Rightarrow> string \<Rightarrow> derr + peer_stream"
  x_handoff :: "(string \<Rightarrow> derr + unit) option"
  x_recv :: recv_env
  x_commit :: "wStore \<Rightarrow> commit_env"
  x_round :: round_env
  x_attempts :: "wStore \<Rightarrow> attempt_env list"

definition offer_blobs :: "exchange_env \<Rightarrow> bool \<Rightarrow> initiationConfig \<Rightarrow> initiationConfig" where
  "offer_blobs x sg c =
     (case x_handoff x of
        Some take_blobs \<Rightarrow> if \<not> sg then c\<lparr>ic_peer := fst (runAtPeer (x_join x) (x_suffix x) (ic_peer c) take_blobs)\<rparr> else c
      | None \<Rightarrow> c)"

definition getDeltas :: "exchange_env \<Rightarrow> sync_mem \<Rightarrow> crConn option \<Rightarrow> wStore \<Rightarrow> initiationConfig \<Rightarrow> bool \<Rightarrow>
    (sync_mem \<times> crConn option \<times> wStore \<times> initiationConfig \<times> derr option) option" where
  "getDeltas x s conn st c sg =
     (let i = newInitiationState st c sg; (s, r) = (if sg then prepareSGDeltaReq s i else prepareDataDeltaReq s i) in
      case r of
        Inl e \<Rightarrow> Some (s, conn, st, c, Some e)
      | Inr (i, req) \<Rightarrow>
          (let (peer, r) = runAtPeer (x_join x) (x_suffix x) (ic_peer c) (x_GetDeltas x req); c = c\<lparr>ic_peer := peer\<rparr> in
           case r of
             Inl e \<Rightarrow> Some (s, conn, st, c, Some e)
           | Inr ps \<Rightarrow> do {
               (s, st, r) \<leftarrow> recvAndProcessDeltas (x_recv x) (x_commit x st) (ps_resps ps) (ps_err ps) s st i;
               (case r of
                  Inl e \<Rightarrow> Some (s, conn, st, c, Some e)
                | Inr i \<Rightarrow>
                    (case ps_finish ps of
                       Some e \<Rightarrow> Some (s, conn, st, c, Some e)
                     | None \<Rightarrow> do {
                         let c = offer_blobs x sg c;
                         (s, conn, _, st, e) \<leftarrow> processUpdatedObjects (x_round x) (x_attempts x st) s conn i;
                         Some (s, conn, st, c, e)
                       }))
             }))"

definition getDBDeltas :: "acl_includes \<Rightarrow> string list \<Rightarrow> string list \<Rightarrow> derr option \<Rightarrow> exchange_env \<Rightarrow> sync_mem \<Rightarrow> crConn option \<Rightarrow> wStore \<Rightarrow> wire_Id \<Rightarrow> sgMember \<Rightarrow> connInfo \<Rightarrow>
    (sync_mem \<times> crConn option \<times> wStore \<times> connInfo \<times> derr option) option" where
  "getDBDeltas incl blessingNames sgKeys dbErr x s conn st db info peer =
     (case newInitiationConfig dbErr db info peer of
        Inl e \<Rightarrow> Some (s, conn, st, peer, Some e)
      | Inr c \<Rightarrow>
          (case filterSyncgroups incl (ist st) sgKeys c blessingNames of
             (c, Some e) \<Rightarrow> Some (s, conn, st, ic_peer c, Some e)
           | (c, None) \<Rightarrow> do {
               (s, conn, st, c, e) \<leftarrow> getDeltas x s conn st c True;
               (case e of
                  Some e \<Rightarrow> Some (s, conn, st, ic_peer c, Some e)
                | None \<Rightarrow> do {
                    (s, conn, st, c, e) \<leftarrow> getDeltas x s conn st c False;
                    Some (s, conn, st, ic_peer c, e)
                  })
             }))"

text \<open>
  All databases in common with the peer, one after the other: an error of the connection ends the loop, any other error is kept and the
  loop goes on. The round for one database is an argument here, in a state that holds the memory and the stores of all databases.
\<close>

fun sync_dbs :: "(wire_Id \<Rightarrow> sgMember \<Rightarrow> 's \<Rightarrow> connInfo \<Rightarrow> ('s \<times> connInfo \<times> derr option) option) \<Rightarrow> (wire_Id \<times> sgMember) list \<Rightarrow> 's \<Rightarrow> connInfo \<Rightarrow> derr option \<Rightarrow>
    ('s \<times> derr option) option" where
  "sync_dbs db_round [] s peer errFinal = Some (s, errFinal)"
| "sync_dbs db_round ((db, info) # dbs) s peer errFinal =
     (if no_addrs peer then Some (s, Some (ErrInternal ''all mount tables failed''))
      else do {
        (s, peer, e) \<leftarrow> db_round db info s peer;
        (if e = Some ErrConnFail then Some (s, e)
         else sync_dbs db_round dbs s peer (if e \<noteq> None then e else errFinal))
      })"

definition getDeltasFromPeer :: "(wire_Id \<Rightarrow> sgMember \<Rightarrow> 's \<Rightarrow> connInfo \<Rightarrow> ('s \<times> connInfo \<times> derr option) option) \<Rightarrow> memberView \<Rightarrow> 's \<Rightarrow> connInfo \<Rightarrow>
    ('s \<times> derr option) option" where
  "getDeltasFromPeer db_round v s peer =
     (case copyMemberInfo v (relName peer) of
        None \<Rightarrow> Some (s, Some (ErrInternal ''no member info found''))
      | Some info \<Rightarrow> sync_dbs db_round (db2sg info) s peer None)"

end
