(* ===== verification/Initiator_Vectors.thy ===== *)
theory Initiator_Vectors
  imports Initiator
begin

text \<open>
  What the initiator knows after a round: the vectors of the peer are merged into its own, and nothing else is claimed. A vector that is only
  not comparable with the pending one of a syncgroup ends the pending state too early.
\<close>

subsection \<open>Merging vectors\<close>

definition merge_gen :: "64 word option \<Rightarrow> 64 word option \<Rightarrow> 64 word option" where
  "merge_gen x y = (case y of None \<Rightarrow> x | Some r \<Rightarrow> (case x of None \<Rightarrow> Some r | Some l \<Rightarrow> Some (max l r)))"

lemma mergeGenVectors_map_of:
  "distinct (map fst r) \<Longrightarrow> map_of (mergeGenVectors l r) d = merge_gen (map_of l d) (map_of r d)"
proof (induction r arbitrary: l)
  case Nil
  then show ?case by (simp add: mergeGenVectors_def merge_gen_def)
next
  case (Cons e r)
  obtain dev g where e: "e = (dev, g)" by (cases e)
  let ?l = "case map_of l dev of None \<Rightarrow> AList.update dev g l | Some x \<Rightarrow> if x < g then AList.update dev g l else l"
  have s: "mergeGenVectors l (e # r) = mergeGenVectors ?l r" by (simp add: mergeGenVectors_def e)
  have l: "map_of ?l d = (if d = dev then merge_gen (map_of l d) (Some g) else map_of l d)"
    by (auto simp: merge_gen_def update_conv' max_def split: option.split)
  have "map_of r dev = None" using Cons.prems by (simp add: e map_of_eq_None_iff)
  then show ?case unfolding s using Cons.IH[of ?l] Cons.prems l by (auto simp: e merge_gen_def)
qed

text \<open>The generation that a set of vectors gives for a prefix and a device.\<close>

definition kn_at :: "Knowledge \<Rightarrow> string \<Rightarrow> 64 word \<Rightarrow> 64 word option" where
  "kn_at k p d = (case map_of k p of None \<Rightarrow> None | Some gv \<Rightarrow> map_of gv d)"

lemma map_of_map_key: "map_of (map (\<lambda>(p, gv). (p, f p gv)) k) q = map_option (f q) (map_of k q)"
  by (induction k) auto

lemma merge_prefix_at:
  assumes "distinct (map fst gv)"
  shows "kn_at (merge_prefix r gv k) p d =
    (if p = r \<and> map_of k r = None then map_of gv d else if prefix r p \<and> map_of k p \<noteq> None then merge_gen (kn_at k p d) (map_of gv d) else kn_at k p d)"
  using mergeGenVectors_map_of[OF assms]
  by (auto simp: merge_prefix_def kn_at_def map_of_map_key update_conv' Let_def split: option.split)

lemma merge_prefix_dom: "dom (map_of (merge_prefix r gv k)) = insert r (dom (map_of k))"
  by (auto simp: merge_prefix_def map_of_map_key update_conv' Let_def)

definition at_least :: "64 word option \<Rightarrow> 64 word \<Rightarrow> bool" where
  "at_least y x \<longleftrightarrow> (\<exists>z. y = Some z \<and> x \<le> z)"

lemma merge_gen_at_least: "at_least (merge_gen x y) z \<longleftrightarrow> at_least x z \<or> at_least y z"
  by (auto simp: at_least_def merge_gen_def max_def split: option.split)

lemma merge_gen_from: "merge_gen x y = Some z \<Longrightarrow> x = Some z \<or> y = Some z"
  by (auto simp: merge_gen_def max_def split: option.splits if_splits)

lemma merge_prefix_keeps: "distinct (map fst gv) \<Longrightarrow> at_least (kn_at k p d) x \<Longrightarrow> at_least (kn_at (merge_prefix r gv k) p d) x"
  by (auto simp: merge_prefix_at merge_gen_at_least) (auto simp: kn_at_def at_least_def)

lemma merge_prefix_adopts:
  assumes "distinct (map fst gv)" "map_of gv d = Some x" "p = r \<or> prefix r p \<and> map_of k p \<noteq> None"
  shows "at_least (kn_at (merge_prefix r gv k) p d) x"
  using assms by (auto simp: merge_prefix_at merge_gen_at_least) (auto simp: at_least_def)

lemma merge_remote_spec:
  assumes "\<forall>(r, gv)\<in>set rem. distinct (map fst gv)" "merge_remote sg rem k tx = Inr (k', tx')"
  shows "dom (map_of k') = dom (map_of k) \<union> fst ` set rem \<and>
    (\<forall>p d x. at_least (kn_at k p d) x \<longrightarrow> at_least (kn_at k' p d) x) \<and>
    (\<forall>r gv d x p. (r, gv) \<in> set rem \<longrightarrow> map_of gv d = Some x \<longrightarrow> p = r \<or> prefix r p \<and> map_of k p \<noteq> None \<longrightarrow> at_least (kn_at k' p d) x) \<and>
    (\<forall>p d y. kn_at k' p d = Some y \<longrightarrow> kn_at k p d = Some y \<or> (\<exists>r gv. (r, gv) \<in> set rem \<and> prefix r p \<and> map_of gv d = Some y))"
  using assms
proof (induction rem arbitrary: k tx)
  case (Cons e rem)
  obtain r gv where e: "e = (r, gv)" by (cases e)
  let ?k = "merge_prefix r gv k"
  have dg: "distinct (map fst gv)" using Cons.prems(1) e by simp
  from Cons.prems(2) obtain t where t: "merge_remote sg rem ?k t = Inr (k', tx')" by (auto simp: e Let_def elim!: sbindE)
  have "\<forall>(r, gv)\<in>set rem. distinct (map fst gv)" using Cons.prems(1) by simp
  note ih = Cons.IH[OF this t]
  have IH: "dom (map_of k') = dom (map_of ?k) \<union> fst ` set rem"
    "\<And>p d x. at_least (kn_at ?k p d) x \<Longrightarrow> at_least (kn_at k' p d) x"
    "\<And>r gv d x p. (r, gv) \<in> set rem \<Longrightarrow> map_of gv d = Some x \<Longrightarrow> p = r \<or> prefix r p \<and> map_of ?k p \<noteq> None \<Longrightarrow> at_least (kn_at k' p d) x"
    "\<And>p d y. kn_at k' p d = Some y \<Longrightarrow> kn_at ?k p d = Some y \<or> (\<exists>r gv. (r, gv) \<in> set rem \<and> prefix r p \<and> map_of gv d = Some y)"
    using ih by blast+
  have dom: "map_of k p \<noteq> None \<Longrightarrow> map_of ?k p \<noteq> None" for p using merge_prefix_dom[of r gv k] by blast
  have "at_least (kn_at k' p d) x" if "(q, gv') \<in> set (e # rem)" "map_of gv' d = Some x" "p = q \<or> prefix q p \<and> map_of k p \<noteq> None" for q gv' d x p
  proof (cases "(q, gv') = e")
    case True
    then show ?thesis using that(2,3) IH(2) merge_prefix_adopts[OF dg] e by auto
  next
    case False
    then show ?thesis using that IH(3) dom by auto
  qed
  moreover have "kn_at k p d = Some y \<or> (\<exists>r gv. (r, gv) \<in> set (e # rem) \<and> prefix r p \<and> map_of gv d = Some y)" if "kn_at k' p d = Some y" for p d y
  proof -
    have "kn_at ?k p d = Some y \<Longrightarrow> kn_at k p d = Some y \<or> prefix r p \<and> map_of gv d = Some y"
      by (auto simp: merge_prefix_at[OF dg] split: if_splits dest: merge_gen_from)
    then show ?thesis using IH(4)[OF that] e by auto
  qed
  moreover have "at_least (kn_at k' p d) x" if "at_least (kn_at k p d) x" for p d x
    using IH(2) merge_prefix_keeps[OF dg that] by blast
  moreover have "dom (map_of k') = dom (map_of k) \<union> fst ` set (e # rem)" using IH(1) merge_prefix_dom[of r gv k] e by auto
  ultimately show ?case by blast
qed simp

subsection \<open>The state of sync after a round\<close>

definition own_gvs :: "initiationState \<Rightarrow> dbSyncStateInMem \<Rightarrow> Knowledge" where
  "own_gvs i ds = (if is_sg i then sggenvecs ds else genvecs ds)"

lemma kn_at_delete: "kn_at (map (\<lambda>(p, gv). (p, AList.delete self gv)) k) p d = (if d = self then None else kn_at k p d)"
  by (auto simp: kn_at_def map_of_map_key delete_conv' split: option.split)

lemma updateSyncSt_steps:
  assumes "updateSyncSt s i tx = Inr (i', tx')" "copyDbSyncStateInMem (w_sync s) (ic_dbId (config i)) = Inr ds"
  shows "\<exists>k t paused. merge_remote (is_sg i) (is_remote i) (own_gvs i ds) tx = Inr (k, t) \<and>
    updLocal i' = map (\<lambda>(p, gv). (p, AList.delete (sync_id (w_sync s)) gv)) k \<and>
    (case getDbSyncState t of Inr d \<Rightarrow> paused = IsPaused d | Inl e \<Rightarrow> not_exist e \<and> \<not> paused) \<and>
    tx' = putDbSyncState t (if is_sg i then \<lparr>GenVecs = genvecs ds, SgGenVecs = updLocal i', IsPaused = paused\<rparr>
                            else \<lparr>GenVecs = updLocal i', SgGenVecs = sggenvecs ds, IsPaused = paused\<rparr>)"
proof -
  from assms obtain k t paused where "merge_remote (is_sg i) (is_remote i) (own_gvs i ds) tx = Inr (k, t)"
      "(case getDbSyncState t of Inr d \<Rightarrow> Inr (IsPaused d) | Inl e \<Rightarrow> if \<not> not_exist e then Inl e else Inr False) = Inr paused"
      "updLocal i' = map (\<lambda>(p, gv). (p, AList.delete (sync_id (w_sync s)) gv)) k"
      "tx' = putDbSyncState t (if is_sg i then \<lparr>GenVecs = genvecs ds, SgGenVecs = updLocal i', IsPaused = paused\<rparr>
                            else \<lparr>GenVecs = updLocal i', SgGenVecs = sggenvecs ds, IsPaused = paused\<rparr>)"
    unfolding updateSyncSt_def Let_def own_gvs_def by (elim sbindE) (auto simp: split_beta elim!: sbindE split: if_splits)
  then show ?thesis by (cases "getDbSyncState t") (auto split: if_splits)
qed

text \<open>
  C18: what the initiator claims to know after a round. Every vector it had is kept or grows, every vector of the peer is reached, at its own
  prefix and at the longer prefixes that the initiator already had, and every claim of the result is one of the initiator or one of the peer for
  that prefix or a shorter one. Own generations are not kept in the vectors, and what is stored is what is kept in memory.
\<close>

theorem updateSyncSt_merges:
  assumes "updateSyncSt s i tx = Inr (i', tx')" "copyDbSyncStateInMem (w_sync s) (ic_dbId (config i)) = Inr ds"
    and "\<forall>(r, gv)\<in>set (is_remote i). distinct (map fst gv)"
  shows "(\<forall>p d x. d \<noteq> sync_id (w_sync s) \<longrightarrow> at_least (kn_at (own_gvs i ds) p d) x \<longrightarrow> at_least (kn_at (updLocal i') p d) x) \<and>
    (\<forall>r gv d x p. d \<noteq> sync_id (w_sync s) \<longrightarrow> (r, gv) \<in> set (is_remote i) \<longrightarrow> map_of gv d = Some x \<longrightarrow>
       p = r \<or> prefix r p \<and> map_of (own_gvs i ds) p \<noteq> None \<longrightarrow> at_least (kn_at (updLocal i') p d) x) \<and>
    (\<forall>p d y. kn_at (updLocal i') p d = Some y \<longrightarrow> d \<noteq> sync_id (w_sync s) \<and>
       (kn_at (own_gvs i ds) p d = Some y \<or> (\<exists>r gv. (r, gv) \<in> set (is_remote i) \<and> prefix r p \<and> map_of gv d = Some y))) \<and>
    (\<exists>d. getDbSyncState tx' = Inr d \<and> (if is_sg i then SgGenVecs d else GenVecs d) = updLocal i' \<and>
       (if is_sg i then GenVecs d else SgGenVecs d) = (if is_sg i then genvecs ds else sggenvecs ds))"
proof -
  obtain k t paused where k: "merge_remote (is_sg i) (is_remote i) (own_gvs i ds) tx = Inr (k, t)"
      "updLocal i' = map (\<lambda>(p, gv). (p, AList.delete (sync_id (w_sync s)) gv)) k"
      "tx' = putDbSyncState t (if is_sg i then \<lparr>GenVecs = genvecs ds, SgGenVecs = updLocal i', IsPaused = paused\<rparr>
                            else \<lparr>GenVecs = updLocal i', SgGenVecs = sggenvecs ds, IsPaused = paused\<rparr>)"
    using updateSyncSt_steps[OF assms(1,2)] by blast
  have at: "kn_at (updLocal i') p d = (if d = sync_id (w_sync s) then None else kn_at k p d)" for p d
    unfolding k(2) by (rule kn_at_delete)
  note spec = merge_remote_spec[OF assms(3) k(1)]
  have adopted: "(r, gv) \<in> set (is_remote i) \<Longrightarrow> map_of gv d = Some x \<Longrightarrow> p = r \<or> prefix r p \<and> map_of (own_gvs i ds) p \<noteq> None \<Longrightarrow> at_least (kn_at k p d) x"
    and merged: "kn_at k p d = Some y \<Longrightarrow> kn_at (own_gvs i ds) p d = Some y \<or> (\<exists>r gv. (r, gv) \<in> set (is_remote i) \<and> prefix r p \<and> map_of gv d = Some y)"
    for r gv d x p y using spec by blast+
  have "\<exists>d. getDbSyncState tx' = Inr d \<and> (if is_sg i then SgGenVecs d else GenVecs d) = updLocal i' \<and>
       (if is_sg i then GenVecs d else SgGenVecs d) = (if is_sg i then genvecs ds else sggenvecs ds)"
    by (simp add: k(3) putDbSyncState_def getDbSyncState_def)
  moreover have "at_least (kn_at (updLocal i') p d) x" if "d \<noteq> sync_id (w_sync s)" "at_least (kn_at (own_gvs i ds) p d) x" for p d x
    using that spec by (simp add: at)
  moreover have "at_least (kn_at (updLocal i') p d) x"
    if "d \<noteq> sync_id (w_sync s)" "(r, gv) \<in> set (is_remote i)" "map_of gv d = Some x" "p = r \<or> prefix r p \<and> map_of (own_gvs i ds) p \<noteq> None" for r gv d x p
    using that(1) adopted[OF that(2-4)] by (simp add: at)
  moreover have "d \<noteq> sync_id (w_sync s) \<and> (kn_at (own_gvs i ds) p d = Some y \<or> (\<exists>r gv. (r, gv) \<in> set (is_remote i) \<and> prefix r p \<and> map_of gv d = Some y))"
    if "kn_at (updLocal i') p d = Some y" for p d y
    using that merged by (auto simp: at split: if_splits)
  ultimately show ?thesis by blast
qed

definition sample_config :: initiationConfig where
  "sample_config = \<lparr>ic_peer = \<lparr>relName = ''p'', mtTbls = [''m''], addrs = None\<rparr>, ic_sgIds = [''g''], sharedSgPfxs = [(''a'', [''g''])], allSgPfxs = [],
     ic_dbId = \<lparr>Blessing = ''u'', Name = ''d''\<rparr>, ic_auth = []\<rparr>"

definition sample_round :: "bool \<Rightarrow> Knowledge \<Rightarrow> initiationState" where
  "sample_round sg rem = \<lparr>config = sample_config, is_local = [], is_remote = rem, updLocal = [], updObjects = [], dagGraft = newGraft None, is_sg = sg,
     is_tx = wtx_newTransaction [''r''] Map.empty\<rparr>"

definition sample_mem :: "Knowledge \<Rightarrow> sync_mem" where
  "sample_mem k = \<lparr>w_sync = \<lparr>sync_id = 9, syncState = [\<lparr>Blessing = ''u'', Name = ''d''\<rparr> \<mapsto> new_dbSync\<lparr>genvecs := k\<rparr>], sgPublishQueue = []\<rparr>,
     w_batches = Map.empty, w_rands = []\<rparr>"

lemma updateSyncSt_merges_witness:
  "\<exists>i' tx'. updateSyncSt (sample_mem [(''a'', [(1, 5)])]) (sample_round False [(''a'', [(1, 7), (2, 3)])]) Map.empty = Inr (i', tx') \<and>
     at_least (kn_at (updLocal i') ''a'' 1) 7 \<and> at_least (kn_at (updLocal i') ''a'' 2) 3"
proof -
  let ?s = "sample_mem [(''a'', [(1, 5)])]" and ?i = "sample_round False [(''a'', [(1, 7), (2, 3)])]"
  obtain ds where ds: "copyDbSyncStateInMem (w_sync ?s) (ic_dbId (config ?i)) = Inr ds"
    by (simp add: copyDbSyncStateInMem_def sample_mem_def sample_round_def sample_config_def)
  obtain i' tx' where u: "updateSyncSt ?s ?i Map.empty = Inr (i', tx')"
    using ds by (simp add: updateSyncSt_def sample_round_def Let_def getDbSyncState_def not_exist_def)
  show ?thesis using updateSyncSt_merges[OF u ds] u by (auto simp: sample_round_def sample_mem_def)
qed

subsection \<open>Pending syncgroups\<close>

text \<open>
  C36: the pending state of a syncgroup ends whenever its vector is not strictly below the pending one. So it also ends for a vector that is not
  comparable with the pending one, when the history up to the pending vector has not been received.
\<close>

theorem pending_ends_unless_below:
  assumes "distinct (map fst cur)" "distinct (map fst (PendingGenVec state))" "sgID rpfx = Some gid" "getSGIdEntry tx gid = Inr state" "SyncPending state"
  shows "\<exists>tx' state'. flip_pending tx rpfx cur = Inr tx' \<and> getSGIdEntry tx' gid = Inr state' \<and>
    (SyncPending state' \<longleftrightarrow> gv_le cur (PendingGenVec state) \<and> map_of cur \<noteq> map_of (PendingGenVec state)) \<and>
    (\<not> gv_le cur (PendingGenVec state) \<and> \<not> gv_le (PendingGenVec state) cur \<longrightarrow> \<not> SyncPending state')"
  using GenVector_Compare_order[OF assms(1,2)] assms(3-5)
  by (auto simp: flip_pending_def setSGIdEntry_def getSGIdEntry_def)

definition sample_pending :: SgLocalState where
  "sample_pending = \<lparr>NumLocalJoiners = 1, Watched = True, RemotePublisher = [], SyncPending = True, PendingGenVec = [(1, 5), (2, 3)]\<rparr>"

lemma pending_ends_unless_below_witness:
  "\<exists>tx' state'. flip_pending [sgIdKey ''g'' \<mapsto> SgStateVal sample_pending] (sgOID ''g'') [(1, 6), (3, 1)] = Inr tx' \<and>
     getSGIdEntry tx' ''g'' = Inr state' \<and> \<not> SyncPending state' \<and> \<not> gv_le (PendingGenVec sample_pending) [(1, 6), (3, 1)]"
proof -
  have g: "getSGIdEntry [sgIdKey ''g'' \<mapsto> SgStateVal sample_pending] ''g'' = Inr sample_pending" by (simp add: getSGIdEntry_def)
  have s: "sgID (sgOID ''g'') = Some ''g''"
    by (simp add: sgID_def sgOID_def SplitNKeyParts_def JoinKeyParts_def sgDataPrefix_def SyncPrefix_def KeyPartSep_def split_n.simps numeral_3_eq_3 numeral_2_eq_2)
  have c: "\<not> gv_le [(1, 6), (3, 1)] (PendingGenVec sample_pending)" "\<not> gv_le (PendingGenVec sample_pending) [(1, 6), (3, 1)]"
    by (auto simp: gv_le_def sample_pending_def)
  show ?thesis using pending_ends_unless_below[OF _ _ s g, of "[(1, 6), (3, 1)]"] c by (auto simp: sample_pending_def)
qed

end
