(* ===== verification/Initiator_Heads.thy ===== *)
theory Initiator_Heads
  imports Initiator Sync_Watcher_Props
begin

text \<open>
  After a round the database shows the heads of the history: every object that the round updated has the version that its head names, or none if
  the head is a deletion.
\<close>

subsection \<open>Keys of an object\<close>

definition data_oid :: "string \<Rightarrow> bool" where
  "data_oid oid \<longleftrightarrow> oid \<noteq> [] \<and> hd oid \<in> {CHR ''r'', CHR ''c''}"

definition sepfree :: "string \<Rightarrow> bool" where
  "sepfree v \<longleftrightarrow> KeyPartSep \<notin> set v"

lemma hd_sync_keys:
  "hd (nodeKey a v) = CHR ''y''" "hd (headKey a) = CHR ''y''" "hd (logRecKey p d g) = CHR ''y''" "hd (batchKey b) = CHR ''y''" "hd dbssKey = CHR ''y''"
  "hd (makeVersionKey a) = CHR ''v''" "data_oid a \<Longrightarrow> hd (makeAtVersionKey a v) \<in> {CHR ''r'', CHR ''c''}"
  by (auto simp: nodeKey_def headKey_def logRecKey_def batchKey_def dbssKey_def makeVersionKey_def makeAtVersionKey_def JoinKeyParts_def VersionPrefix_def
      SyncPrefix_def sync_prefix_defs data_oid_def)

lemma hd_neq: "hd a \<noteq> hd b \<Longrightarrow> a \<noteq> b"
  by auto

lemma data_keys_distinct [simp]:
  "makeVersionKey a \<noteq> nodeKey b v" "nodeKey b v \<noteq> makeVersionKey a" "makeVersionKey a \<noteq> headKey b" "headKey b \<noteq> makeVersionKey a"
  "makeVersionKey a \<noteq> logRecKey p d g" "logRecKey p d g \<noteq> makeVersionKey a" "makeVersionKey a \<noteq> batchKey c" "batchKey c \<noteq> makeVersionKey a"
  "makeVersionKey a \<noteq> dbssKey" "dbssKey \<noteq> makeVersionKey a"
  by (rule hd_neq, simp add: hd_sync_keys)+

lemma at_version_distinct [simp]:
  assumes "data_oid a"
  shows "makeAtVersionKey a v \<noteq> nodeKey b w" "makeAtVersionKey a v \<noteq> headKey b" "makeAtVersionKey a v \<noteq> makeVersionKey b"
    "makeAtVersionKey a v \<noteq> logRecKey p d g"
  by (rule hd_neq, use hd_sync_keys(7)[OF assms, of v] in \<open>auto simp: hd_sync_keys(1-6)\<close>)+

lemmas at_version_distinct' [simp] = at_version_distinct [symmetric]

lemma makeVersionKey_inject [simp]: "makeVersionKey a = makeVersionKey b \<longleftrightarrow> a = b"
  by (simp add: makeVersionKey_def JoinKeyParts_def)

definition obj_keys :: "string \<Rightarrow> string set" where
  "obj_keys oid = {headKey oid, makeVersionKey oid} \<union> {nodeKey oid v |v. sepfree v} \<union> range (makeAtVersionKey oid) \<union> {logRecKey p d g |p d g. True}"

definition changes_only :: "string set \<Rightarrow> dstore \<Rightarrow> dstore \<Rightarrow> bool" where
  "changes_only K d d' \<longleftrightarrow> (\<forall>k. k \<notin> K \<longrightarrow> d' k = d k)"

lemma changes_only_refl [simp]: "changes_only K d d"
  and changes_only_trans: "changes_only K d d' \<Longrightarrow> changes_only K d' d'' \<Longrightarrow> changes_only K d d''"
  and changes_only_upd: "changes_only K d d' \<Longrightarrow> k \<in> K \<Longrightarrow> changes_only K d (d'(k := x))"
  by (auto simp: changes_only_def)

text \<open>What the database must show for an object.\<close>

definition shows_head :: "dstore \<Rightarrow> string \<Rightarrow> bool" where
  "shows_head d oid \<longleftrightarrow> (\<exists>v n. sepfree v \<and> getHead d oid = Inr v \<and> getNode d oid v = Inr n \<and>
     (if Deleted n then d (makeVersionKey oid) = None else getVersion d oid = Inr v))"

lemma shows_head_frame:
  assumes "shows_head d oid" "changes_only (obj_keys q) d d'" "q \<noteq> oid" "data_oid q"
  shows "shows_head d' oid"
proof -
  have same: "d' k = d k" if "k \<in> {headKey oid, makeVersionKey oid} \<union> {nodeKey oid v |v. sepfree v}" for k
  proof -
    have "k \<notin> obj_keys q" using that assms(3,4) by (auto simp: obj_keys_def sepfree_def dest: nodeKey_eqD)
    then show ?thesis using assms(2) by (simp add: changes_only_def)
  qed
  obtain v n where v: "sepfree v" "getHead d oid = Inr v" "getNode d oid v = Inr n" "if Deleted n then d (makeVersionKey oid) = None else getVersion d oid = Inr v"
    using assms(1) by (auto simp: shows_head_def)
  have e: "d' (headKey oid) = d (headKey oid)" "d' (makeVersionKey oid) = d (makeVersionKey oid)" "d' (nodeKey oid v) = d (nodeKey oid v)"
    using same v(1) by auto
  have "getHead d' oid = getHead d oid" "getNode d' oid v = getNode d oid v" "getVersion d' oid = getVersion d oid"
    by (simp_all add: getHead_def getNode_def getVersion_def get_bytes_def e)
  then show ?thesis using v e(2) unfolding shows_head_def by auto
qed

subsection \<open>Log and history of one object\<close>

lemma addParent_frame:
  "addParent batches tx oid version parent btid None = Some (bs, Inr (tx', g)) \<Longrightarrow> \<forall>k. k \<noteq> nodeKey oid version \<longrightarrow> tx' k = tx k"
  by (auto simp: addParent_def setNode_def split: if_splits sum.splits Option.bind_splits option.splits)

lemma add_resolution_frame:
  assumes "add_resolution batches tx pfx oid m = Some (bs, Inr tx')"
  shows "\<forall>k. k \<noteq> nodeKey oid (CurVers m) \<longrightarrow> tx' k = tx k"
    and "RecType m = 0 \<Longrightarrow> \<exists>n. tx' (nodeKey oid (CurVers m)) = Some (NodeVal n) \<and> Deleted n = Delete m"
  using assms addParent_frame
  by (auto simp: add_resolution_def split: if_splits sum.splits list.splits Option.bind_splits elim!: sbindE dest!: addNode_no_batch)

lemma record_resolution_frame:
  assumes "record_resolution s tx pfx oid bm rec = Some (s', Inr (tx', bm'))"
  shows "\<forall>k. k \<noteq> nodeKey oid (CurVers (Metadata rec)) \<longrightarrow> k \<noteq> logRecKey pfx (Id (Metadata rec)) (Gen (Metadata rec)) \<longrightarrow> tx' k = tx k"
    and "RecType (Metadata rec) = 0 \<Longrightarrow> \<exists>n. tx' (nodeKey oid (CurVers (Metadata rec))) = Some (NodeVal n) \<and> Deleted n = Delete (Metadata rec)"
proof -
  from assms obtain bs b where a: "add_resolution b (putLogRec tx pfx rec) pfx oid (Metadata rec) = Some (bs, Inr tx')"
    by (auto simp: record_resolution_def Let_def split: Option.bind_splits sum.splits elim!: sbindE)
  show "\<forall>k. k \<noteq> nodeKey oid (CurVers (Metadata rec)) \<longrightarrow> k \<noteq> logRecKey pfx (Id (Metadata rec)) (Gen (Metadata rec)) \<longrightarrow> tx' k = tx k"
    using add_resolution_frame(1)[OF a] by (simp add: putLogRec_def)
  show "RecType (Metadata rec) = 0 \<Longrightarrow> \<exists>n. tx' (nodeKey oid (CurVers (Metadata rec))) = Some (NodeVal n) \<and> Deleted n = Delete (Metadata rec)"
    by (rule add_resolution_frame(2)[OF a])
qed

text \<open>The version that a resolution picks, and what is known of the versions and records of an updated object.\<close>

definition picked :: "objConflictState \<Rightarrow> string" where
  "picked c = (case res c of
     None \<Rightarrow> NoVersion
   | Some r \<Rightarrow> (case cr_ty r of pickLocal \<Rightarrow> oldHead c | pickRemote \<Rightarrow> newHead c
                | createNew \<Rightarrow> (case cr_rec r of None \<Rightarrow> NoVersion | Some rec \<Rightarrow> CurVers (Metadata rec))))"

definition well_resolved :: "string \<Rightarrow> objConflictState \<Rightarrow> bool" where
  "well_resolved oid c \<longleftrightarrow> data_oid oid \<and> sepfree (oldHead c) \<and> sepfree (newHead c) \<and>
     (\<forall>r rec. res c = Some r \<longrightarrow> cr_ty r = createNew \<longrightarrow> cr_rec r = Some rec \<longrightarrow> RecType (Metadata rec) = 0 \<and> sepfree (CurVers (Metadata rec)))"

lemma picked_sepfree: "well_resolved oid c \<Longrightarrow> sepfree (picked c)"
  by (cases "res c"; simp add: picked_def well_resolved_def sepfree_def NoVersion_def split: resolutionType.split option.split)

lemma resolution_rec_version:
  assumes "resolution_rec now s i oid c = (s', Inr (rec, v))"
  shows "v = picked c \<and> (\<forall>x. rec = Some x \<longrightarrow> CurVers (Metadata x) = v) \<and>
    (\<forall>r. res c = Some r \<longrightarrow> cr_ty r = createNew \<longrightarrow> rec = cr_rec r \<and> rec \<noteq> None)"
  using assms
  by (auto simp: resolution_rec_def picked_def createLocalLinkLogRec_def Let_def split: option.splits resolutionType.splits if_splits prod.splits)

lemma updateLogAndDag_moves:
  assumes "updateLogAndDag now s i oid c tx bm = Some (s', Inr (d, bm'))" "well_resolved oid c"
  shows "changes_only (obj_keys oid) tx d \<and> d (makeVersionKey oid) = tx (makeVersionKey oid) \<and> picked c \<noteq> NoVersion \<and> getHead d oid = Inr (picked c) \<and>
    (\<forall>r rec. res c = Some r \<longrightarrow> cr_ty r = createNew \<longrightarrow> cr_rec r = Some rec \<longrightarrow> (\<exists>n. getNode d oid (picked c) = Inr n \<and> Deleted n = Delete (Metadata rec)))"
proof -
  from assms(1) obtain s1 rec v where r: "resolution_rec now s i oid c = (s1, Inr (rec, v))"
    by (auto simp: updateLogAndDag_def split: prod.splits sum.splits)
  note v = resolution_rec_version[OF r]
  from assms(1) r obtain t where t: "(case rec of None \<Rightarrow> Some (s1, Inr (tx, bm)) | Some rec \<Rightarrow> record_resolution s1 tx (log_space i oid) oid bm rec) = Some (s', Inr (t, bm'))"
      and m: "moveHead t oid v = Inr d"
    by (auto simp: updateLogAndDag_def split: Option.bind_splits elim!: sbindE)
  have d: "v \<noteq> NoVersion" "d = t(headKey oid \<mapsto> VersionVal v)"
    using m by (auto simp: moveHead_def hasNode_def setHead_def split: if_splits elim!: sbindE)
  have sf: "sepfree v" using v picked_sepfree[OF assms(2)] by simp
  have c: "changes_only (obj_keys oid) tx t \<and> t (makeVersionKey oid) = tx (makeVersionKey oid)"
  proof (cases rec)
    case (Some x)
    then have "record_resolution s1 tx (log_space i oid) oid bm x = Some (s', Inr (t, bm'))" using t by simp
    note f = record_resolution_frame(1)[OF this]
    have "k \<noteq> nodeKey oid (CurVers (Metadata x)) \<and> k \<noteq> logRecKey (log_space i oid) (Id (Metadata x)) (Gen (Metadata x))" if "k \<notin> obj_keys oid" for k
      using that Some v sf by (auto simp: obj_keys_def)
    then show ?thesis using f by (simp add: changes_only_def)
  qed (use t in simp)
  have h: "getHead d oid = Inr v" by (simp add: d(2) getHead_def)
  have n: "\<exists>n. getNode d oid v = Inr n \<and> Deleted n = Delete (Metadata x)" if "res c = Some r" "cr_ty r = createNew" "cr_rec r = Some x" for r x
  proof -
    have "rec = Some x" "RecType (Metadata x) = 0" using that v assms(2) by (auto simp: well_resolved_def)
    then have "record_resolution s1 tx (log_space i oid) oid bm x = Some (s', Inr (t, bm'))" using t by simp
    from record_resolution_frame(2)[OF this \<open>RecType _ = 0\<close>] show ?thesis
      using v \<open>rec = Some x\<close> d by (auto simp: getNode_def)
  qed
  have "changes_only (obj_keys oid) tx d" unfolding d(2) using c by (auto simp: obj_keys_def intro: changes_only_upd)
  then show ?thesis using c h n v d(1) by (auto simp: d(2))
qed

subsection \<open>The version shown\<close>

lemma PutVersion_view: "t_err tx = None \<Longrightarrow> lift_tx (PutVersion tx oid v) = Inr tx' \<Longrightarrow>
    tview tx' = (tview tx)(makeVersionKey oid \<mapsto> BytesVal v) \<and> t_err tx' = None \<and> managed tx' = managed tx"
  by (auto simp: PutVersion_def lift_tx_def tview_def)

lemma PutAtVersion_view: "t_err tx = None \<Longrightarrow> lift_tx (PutAtVersion tx oid b v) = Inr tx' \<Longrightarrow>
    tview tx' = (tview tx)(makeAtVersionKey oid v \<mapsto> BytesVal b) \<and> t_err tx' = None \<and> managed tx' = managed tx"
  by (auto simp: PutAtVersion_def lift_tx_def tview_def)

lemma Delete_view: "t_err tx = None \<Longrightarrow> managesKey (managed tx) oid \<Longrightarrow> lift_tx (wtx_Delete tx oid) = Inr tx' \<Longrightarrow>
    tview tx' = (tview tx)(makeVersionKey oid := None) \<and> t_err tx' = None \<and> managed tx' = managed tx"
  by (auto simp: wtx_Delete_def deleteVersioned_def lift_tx_def tview_def)

text \<open>The version key afterwards, and that nothing but the object's own keys changed.\<close>

lemma show_version_view:
  assumes "show_version tx oid r v oldDel newDel = Inr tx'" "t_err tx = None" "managesKey (managed tx) oid" "data_oid oid"
    and "oldDel \<Longrightarrow> tview tx (makeVersionKey oid) = None"
  shows "tview tx' (makeVersionKey oid) = (if newDel then None else Some (BytesVal v)) \<and> t_err tx' = None \<and> managed tx' = managed tx \<and>
    (\<forall>k. k \<noteq> makeVersionKey oid \<longrightarrow> k \<notin> range (makeAtVersionKey oid) \<longrightarrow> tview tx' k = tview tx k)"
proof (cases "newDel")
  case True
  show ?thesis
  proof (cases oldDel)
    case old: True
    then have "tx' = tx" using assms(1) True by (simp add: show_version_def)
    then show ?thesis using assms(2,5) old True by simp
  next
    case False
    then have "lift_tx (wtx_Delete tx oid) = Inr tx'" using assms(1) True by (simp add: show_version_def)
    then show ?thesis using Delete_view[OF assms(2,3)] True by simp
  qed
next
  case False
  with assms(1) obtain t where t: "(if cr_ty r = createNew then lift_tx (PutAtVersion tx oid (cr_val r) v) else Inr tx) = Inr t" "lift_tx (PutVersion t oid v) = Inr tx'"
    by (auto simp: show_version_def elim!: sbindE)
  have "t_err t = None \<and> managed t = managed tx \<and> (\<forall>k. k \<notin> range (makeAtVersionKey oid) \<longrightarrow> tview t k = tview tx k)"
    using t(1) assms(2) PutAtVersion_view[OF assms(2), of oid "cr_val r" v t] by (auto split: if_splits)
  then show ?thesis using PutVersion_view[of t oid v tx'] t(2) False by auto
qed

lemma check_unchanged_view:
  assumes "check_unchanged tx oid v del = None" "t_err tx = None"
  shows "if del then tview tx (makeVersionKey oid) = None else tview tx (makeVersionKey oid) = Some (BytesVal v)"
  using assms by (auto simp: check_unchanged_def wtx_GetVersion_def getVersion_def get_bytes_def tview_def split: sum.splits if_splits derr.splits option.splits dval.splits)

lemma version_deleted_node:
  "version_deleted d oid v = Inr del \<Longrightarrow> v \<noteq> NoVersion \<Longrightarrow> \<exists>n. getNode d oid v = Inr n \<and> Deleted n = del"
  by (auto simp: version_deleted_def elim!: sbindE)

lemma getHead_version: "getHead d oid = Inr v \<Longrightarrow> d (headKey oid) = Some (VersionVal v)"
  by (auto simp: getHead_def split: option.splits dval.splits)

lemma update_db_shows:
  assumes "update_db tx oid c = Inr tx'" "t_err tx = None" "managesKey (managed tx) oid" "well_resolved oid c"
    and h: "getHead (tview tx) oid = Inr (picked c)" "picked c \<noteq> NoVersion"
    and n: "\<And>r rec. res c = Some r \<Longrightarrow> cr_ty r = createNew \<Longrightarrow> cr_rec r = Some rec \<Longrightarrow> \<exists>n. getNode (tview tx) oid (picked c) = Inr n \<and> Deleted n = Delete (Metadata rec)"
  shows "shows_head (tview tx') oid \<and> changes_only (obj_keys oid) (tview tx) (tview tx') \<and> t_err tx' = None \<and> managed tx' = managed tx"
proof -
  from assms(1) obtain del r where d: "version_deleted (tview tx) oid (oldHead c) = Inr del" "check_unchanged tx oid (oldHead c) del = None" "res c = Some r"
    by (auto simp: update_db_def split: option.splits elim!: sbindE)
  note u = check_unchanged_view[OF d(2) assms(2)]
  have do: "data_oid oid" and sf: "sepfree (picked c)" using assms(4) picked_sepfree by (auto simp: well_resolved_def)
  have via_show: ?thesis
    if "show_version tx oid r (picked c) del newDel = Inr tx'" "getNode (tview tx) oid (picked c) = Inr nd" "Deleted nd = newDel" for newDel nd
  proof -
    note sv = show_version_view[OF that(1) assms(2,3) do]
    have s: "tview tx' (makeVersionKey oid) = (if newDel then None else Some (BytesVal (picked c)))" "t_err tx' = None" "managed tx' = managed tx"
      and same: "\<And>k. k \<noteq> makeVersionKey oid \<Longrightarrow> k \<notin> range (makeAtVersionKey oid) \<Longrightarrow> tview tx' k = tview tx k"
      using sv u by auto
    have "headKey oid \<notin> range (makeAtVersionKey oid)" "nodeKey oid (picked c) \<notin> range (makeAtVersionKey oid)" using do by auto
    then have e: "tview tx' (headKey oid) = tview tx (headKey oid)" "tview tx' (nodeKey oid (picked c)) = tview tx (nodeKey oid (picked c))" using same by auto
    have "getHead (tview tx') oid = Inr (picked c)" "getNode (tview tx') oid (picked c) = Inr nd" using h that(2) by (simp_all add: getHead_def getNode_def e)
    then have "shows_head (tview tx') oid" unfolding shows_head_def
      using sf s(1) that(3) by (auto simp: getVersion_def get_bytes_def)
    moreover have "changes_only (obj_keys oid) (tview tx) (tview tx')" using same by (auto simp: changes_only_def obj_keys_def)
    ultimately show ?thesis using s by blast
  qed
  show ?thesis
  proof (cases "cr_ty r")
    case pickLocal
    then have p: "picked c = oldHead c" and t: "tx' = tx" using d assms(1) by (auto simp: picked_def update_db_def)
    obtain nd where "getNode (tview tx) oid (picked c) = Inr nd" "Deleted nd = del" using version_deleted_node[OF d(1)] h(2) p by auto
    then have "shows_head (tview tx) oid" unfolding shows_head_def using h(1) sf u p by (auto simp: getVersion_def get_bytes_def)
    then show ?thesis using t assms(2) by simp
  next
    case pickRemote
    then have p: "picked c = newHead c" using d by (simp add: picked_def)
    with pickRemote d assms(1) obtain nd where "getNode (tview tx) oid (picked c) = Inr nd" "show_version tx oid r (picked c) del (Deleted nd) = Inr tx'"
      by (auto simp: update_db_def elim!: sbindE)
    then show ?thesis using via_show by blast
  next
    case createNew
    with d assms(1) obtain x where x: "cr_rec r = Some x" by (auto simp: update_db_def split: option.splits)
    then have p: "picked c = CurVers (Metadata x)" using d createNew by (simp add: picked_def)
    obtain nd where "getNode (tview tx) oid (picked c) = Inr nd" "Deleted nd = Delete (Metadata x)" using n[OF d(3) createNew x] by blast
    moreover have "show_version tx oid r (picked c) del (Delete (Metadata x)) = Inr tx'" using d x createNew assms(1) p by (simp add: update_db_def)
    ultimately show ?thesis using via_show by blast
  qed
qed

subsection \<open>All objects\<close>

lemma update_objs_shows:
  assumes "update_objs now s i upd tx bm = Some (s', Inr (tx', bm'))" "\<not> is_sg i" "distinct (map fst upd)" "t_err tx = None"
    and "\<forall>(oid, c)\<in>set upd. well_resolved oid c \<and> managesKey (managed tx) oid"
  shows "(\<forall>oid\<in>fst ` set upd. shows_head (tview tx') oid) \<and>
    (\<forall>oid. oid \<notin> fst ` set upd \<longrightarrow> shows_head (tview tx) oid \<longrightarrow> shows_head (tview tx') oid)"
  using assms
proof (induction upd arbitrary: s tx bm)
  case (Cons e upd)
  obtain oid c where e: "e = (oid, c)" by (cases e)
  from Cons.prems(1) obtain s1 d bm1 tx1 where l: "updateLogAndDag now s i oid c (tview tx) bm = Some (s1, Inr (d, bm1))"
      and u: "update_db (tset tx d) oid c = Inr tx1" and rest: "update_objs now s1 i upd tx1 bm1 = Some (s', Inr (tx', bm'))"
    using Cons.prems(2) by (auto simp: e split: Option.bind_splits sum.splits elim!: sbindE)
  have w: "well_resolved oid c" "managesKey (managed tx) oid" "data_oid oid" using Cons.prems(5) e by (auto simp: well_resolved_def)
  note m = updateLogAndDag_moves[OF l w(1)]
  have "shows_head (tview tx1) oid \<and> changes_only (obj_keys oid) (tview (tset tx d)) (tview tx1) \<and> t_err tx1 = None \<and> managed tx1 = managed (tset tx d)"
    by (rule update_db_shows[OF u _ _ w(1)]) (use m w Cons.prems(4) in auto)
  then have t1: "shows_head (tview tx1) oid" "changes_only (obj_keys oid) d (tview tx1)" "t_err tx1 = None" "managed tx1 = managed tx" by auto
  have c: "changes_only (obj_keys oid) (tview tx) (tview tx1)" using m t1(2) changes_only_trans by blast
  have "distinct (map fst upd)" "\<forall>(oid, c)\<in>set upd. well_resolved oid c \<and> managesKey (managed tx1) oid" "oid \<notin> fst ` set upd"
    using Cons.prems(3,5) e t1(4) by auto
  then have IH: "\<forall>q\<in>fst ` set upd. shows_head (tview tx') q" "\<And>q. q \<notin> fst ` set upd \<Longrightarrow> shows_head (tview tx1) q \<Longrightarrow> shows_head (tview tx') q"
    using Cons.IH[OF rest Cons.prems(2) _ t1(3)] by auto
  have "shows_head (tview tx') q" if "q \<notin> fst ` set (e # upd)" "shows_head (tview tx) q" for q
    using that e IH(2) shows_head_frame[OF that(2) c] w(3) by auto
  moreover have "shows_head (tview tx') oid" using IH(2)[OF \<open>oid \<notin> _\<close> t1(1)] .
  ultimately show ?case using IH(1) e by auto
qed simp

lemma shows_head_sync:
  assumes "shows_head d oid" "\<And>k. k = headKey oid \<or> k = makeVersionKey oid \<or> (\<exists>v. k = nodeKey oid v) \<Longrightarrow> d' k = d k"
  shows "shows_head d' oid"
proof -
  have e: "getHead d' oid = getHead d oid" "\<And>v. getNode d' oid v = getNode d oid v" "getVersion d' oid = getVersion d oid" "d' (makeVersionKey oid) = d (makeVersionKey oid)"
    using assms(2) by (auto simp: getHead_def getNode_def getVersion_def get_bytes_def)
  show ?thesis using assms(1) unfolding shows_head_def e .
qed

lemma end_batches_frame: "end_batches bm bs tx = (bs', Inr tx') \<Longrightarrow> (\<And>b. k \<noteq> batchKey b) \<Longrightarrow> tx' k = tx k"
proof (induction bm bs tx rule: end_batches.induct)
  case (2 bid cnt bm batches tx)
  then show ?case by (auto split: sum.splits dest!: endBatch_frame)
qed simp

lemma merge_remote_data: "merge_remote False rem k tx = Inr (k', tx') \<Longrightarrow> tx' = tx"
  by (induction rem arbitrary: k) (auto simp: Let_def)

text \<open>
  C17: a round for data that ends without error leaves the database in step with the history: for every object that the round updated, whether the
  local version, the remote version or a new one was picked, the head exists in the history, and the database shows the version that the head
  names, or no version if the head is a deletion. Other objects that were in step stay so.
\<close>

theorem round_shows_heads:
  assumes "updateDbAndSyncSt now s i = Some (s', Inr i')" "\<not> is_sg i" "distinct (map fst (updObjects i))" "t_err (is_tx i) = None"
    and "\<forall>(oid, c)\<in>set (updObjects i). well_resolved oid c \<and> managesKey (managed (is_tx i)) oid"
  shows "(\<forall>oid\<in>fst ` set (updObjects i). shows_head (tview (is_tx i')) oid) \<and>
    (\<forall>oid. shows_head (tview (is_tx i)) oid \<longrightarrow> shows_head (tview (is_tx i')) oid)"
proof -
  from assms(1) obtain s1 tx bm where u: "update_objs now s i (updObjects i) (is_tx i) [] = Some (s1, Inr (tx, bm))"
    by (auto simp: updateDbAndSyncSt_def split: Option.bind_splits sum.splits)
  with assms(1) obtain bs d i2 d2 where b: "end_batches bm (w_batches s1) (tview tx) = (bs, Inr d)" "updateSyncSt (s1\<lparr>w_batches := bs\<rparr>) i d = Inr (i2, d2)"
      "i' = i2\<lparr>is_tx := tset tx d2\<rparr>"
    by (auto simp: updateDbAndSyncSt_def Let_def split: sum.splits prod.splits elim!: sbindE)
  from b(2) obtain ds where "d2 = putDbSyncState d ds" using assms(2)
    unfolding updateSyncSt_def Let_def by (elim sbindE) (auto simp: split_beta elim!: sbindE dest!: merge_remote_data)
  then have f: "d2 k = tview tx k" if "k = headKey oid \<or> k = makeVersionKey oid \<or> (\<exists>v. k = nodeKey oid v)" for k oid
    using that end_batches_frame[OF b(1), of k] by (auto simp: putDbSyncState_def)
  have keep: "shows_head (tview (is_tx i')) oid" if "shows_head (tview tx) oid" for oid
    using shows_head_sync[OF that, of d2] f b(3) by simp
  show ?thesis using update_objs_shows[OF u assms(2-5)] keep by blast
qed

definition sample_obj :: string where
  "sample_obj = ''r'' @ [KeyPartSep] @ ''x''"

definition sample_dag_node :: DagNode where
  "sample_dag_node = \<lparr>Level = 0, Parents = [], Logrec = [], BatchId = 0, Deleted = False, PermId = [], PermVers = []\<rparr>"

definition sample_db :: dstore where
  "sample_db = [headKey sample_obj \<mapsto> VersionVal ''1'', nodeKey sample_obj ''1'' \<mapsto> NodeVal sample_dag_node, nodeKey sample_obj ''2'' \<mapsto> NodeVal sample_dag_node,
     makeVersionKey sample_obj \<mapsto> BytesVal ''1'']"

definition sample_update :: objConflictState where
  "sample_update = \<lparr>isAddedByCr = False, isConflict = False, newHead = ''2'', oldHead = ''1'', ancestor = [],
     res = Some \<lparr>cr_batchId = 0, cr_batchCount = 0, cr_ty = pickRemote, cr_rec = None, cr_val = []\<rparr>\<rparr>"

definition sample_update_round :: initiationState where
  "sample_update_round = \<lparr>config = \<lparr>ic_peer = \<lparr>relName = ''p'', mtTbls = [''m''], addrs = None\<rparr>, ic_sgIds = [], sharedSgPfxs = [], allSgPfxs = [],
       ic_dbId = \<lparr>Blessing = ''u'', Name = ''d''\<rparr>, ic_auth = []\<rparr>, is_local = [], is_remote = [], updLocal = [], updObjects = [(sample_obj, sample_update)],
     dagGraft = newGraft None, is_sg = False, is_tx = wtx_newTransaction [''r''] sample_db\<rparr>"

definition sample_update_mem :: sync_mem where
  "sample_update_mem = \<lparr>w_sync = \<lparr>sync_id = 9, syncState = [\<lparr>Blessing = ''u'', Name = ''d''\<rparr> \<mapsto> new_dbSync], sgPublishQueue = []\<rparr>, w_batches = Map.empty, w_rands = []\<rparr>"

lemma round_shows_heads_witness:
  "\<exists>s' i'. updateDbAndSyncSt 0 sample_update_mem sample_update_round = Some (s', Inr i') \<and> shows_head (tview (is_tx i')) sample_obj"
proof -
  let ?tx = "wtx_newTransaction [''r''] sample_db"
  have v: "tview ?tx = sample_db" by (simp add: tview_def view_def wtx_newTransaction_def)
  have n: "nodeKey sample_obj ''1'' \<noteq> nodeKey sample_obj ''2''" by (simp add: nodeKey_def JoinKeyParts_def)
  let ?d = "sample_db(headKey sample_obj \<mapsto> VersionVal ''2'')"
  have l: "updateLogAndDag 0 sample_update_mem sample_update_round sample_obj sample_update sample_db [] = Some (sample_update_mem, Inr (?d, []))"
    by (simp add: updateLogAndDag_def resolution_rec_def sample_update_def moveHead_def hasNode_def setHead_def sample_db_def NoVersion_def n)
  define t where "t = tset ?tx ?d"
  have e: "t_err t = None" "tview t = ?d" by (simp_all add: t_def) (simp add: wtx_newTransaction_def)
  have g: "getNode ?d sample_obj ''1'' = Inr sample_dag_node" "getNode ?d sample_obj ''2'' = Inr sample_dag_node" "getVersion ?d sample_obj = Inr ''1''"
    using n by (auto simp: getNode_def sample_db_def NoVersion_def getVersion_def get_bytes_def)
  have "check_unchanged t sample_obj ''1'' False = None" using e g by (simp add: check_unchanged_def wtx_GetVersion_def flip: tview_def)
  then have ud: "update_db t sample_obj sample_update = lift_tx (PutVersion t sample_obj ''2'')"
    by (simp add: update_db_def version_deleted_def sample_update_def e g sample_dag_node_def NoVersion_def show_version_def)
  have "\<exists>tx'. lift_tx (PutVersion t sample_obj ''2'') = Inr tx'" by (simp add: lift_tx_def PutVersion_def e)
  then have "\<exists>tx'. update_db t sample_obj sample_update = Inr tx' \<and> tview tx' = (tview t)(makeVersionKey sample_obj \<mapsto> BytesVal ''2'')"
    using PutVersion_view[OF e(1)] ud by metis
  then obtain tx' where tx': "update_db (tset ?tx ?d) sample_obj sample_update = Inr tx'" "tview tx' = ?d(makeVersionKey sample_obj \<mapsto> BytesVal ''2'')"
    unfolding e t_def by auto
  then have u: "update_objs 0 sample_update_mem sample_update_round (updObjects sample_update_round) (is_tx sample_update_round) [] = Some (sample_update_mem, Inr (tx', []))"
    using l by (simp add: sample_update_round_def v)
  have "getDbSyncState (tview tx') = Inl (ErrNoExist dbssKey)" by (simp add: tx'(2) getDbSyncState_def sample_db_def)
  then have "\<exists>j d. updateSyncSt sample_update_mem sample_update_round (tview tx') = Inr (j, d)"
    by (simp add: updateSyncSt_def copyDbSyncStateInMem_def sample_update_mem_def sample_update_round_def not_exist_def Let_def)
  then obtain s' i' where r: "updateDbAndSyncSt 0 sample_update_mem sample_update_round = Some (s', Inr i')"
    unfolding updateDbAndSyncSt_def u by (auto simp: Let_def sample_update_mem_def)
  have w: "well_resolved sample_obj sample_update" "managesKey [''r''] sample_obj"
    by (simp_all add: well_resolved_def data_oid_def sample_obj_def sepfree_def sample_update_def KeyPartSep_def managesKey_def)
  show ?thesis using round_shows_heads[OF r] w r by (auto simp: sample_update_round_def wtx_newTransaction_def)
qed

end
