(* ===== verification/Exchange.thy ===== *)
theory Exchange
  imports Responder_Complete Initiator_Vectors Initiator_Heads
begin

text \<open>
  A responder and an initiator together: the vectors that the initiator adopts after an exchange claim only records that it holds. The invariant
  is about the log of the responder; own records of the initiator are not asked for.
\<close>

subsection \<open>Received records\<close>

lemma addNode_graft_frame:
  "addNode batches tx oid version logrec del parents btid g = Inr (batches', tx', g') \<Longrightarrow> k \<noteq> nodeKey oid version \<Longrightarrow> tx' k = tx k"
  by (auto simp: addNode_def setNode_def Let_def split: if_splits option.splits prod.splits elim!: sbindE)

lemma addParent_graft_frame:
  "addParent batches tx oid version parent btid g = Some (bs, Inr (tx', g')) \<Longrightarrow> k \<noteq> nodeKey oid version \<Longrightarrow> tx' k = tx k"
  by (auto simp: addParent_def setNode_def Let_def split: if_splits sum.splits Option.bind_splits option.splits prod.splits elim!: sbindE)

lemma insertRec_frame:
  assumes "insertRecInLogAndDag False batches tx graft rec b = Some (bs, Inr (d, g))" "k \<noteq> nodeKey (ObjId (Metadata rec)) (CurVers (Metadata rec))"
  shows "d k = putLogRec tx logDataPrefix rec k"
  using assms(1) addNode_graft_frame[OF _ assms(2)] addParent_graft_frame[OF _ assms(2)]
  by (auto simp: insertRecInLogAndDag_def Let_def split: if_splits sum.splits list.splits Option.bind_splits elim!: sbindE)

lemma PutAtVersion_fields:
  "PutAtVersion tx oid b v = (tx', None) \<Longrightarrow> tview tx' = (tview tx)(makeAtVersionKey oid v \<mapsto> BytesVal b) \<and> snap (itx tx') = snap (itx tx) \<and>
     ops tx' = ops tx \<and> t_err tx' = t_err tx"
  by (auto simp: PutAtVersion_def tview_def split: option.splits) (simp add: i_Put_def)

text \<open>What the transaction of the replay keeps.\<close>

definition replay_tx :: "dstore \<Rightarrow> wTransaction \<Rightarrow> bool" where
  "replay_tx d tx \<longleftrightarrow> snap (itx tx) = d \<and> ops tx = [] \<and> t_err tx = None"

definition rec_key :: "LogRecMetadata \<Rightarrow> string" where
  "rec_key m = logRecKey logDataPrefix (Id m) (Gen m)"

lemma insert_value_frame:
  assumes "insert_value env False tx m v = Inr tx'" "data_oid (ObjId m)" "replay_tx d0 tx"
  shows "replay_tx d0 tx' \<and> (\<forall>p d g. tview tx' (logRecKey p d g) = tview tx (logRecKey p d g))"
  using assms PutAtVersion_fields[of tx "ObjId m" _ "CurVers m"]
  by (auto simp: insert_value_def insertRecInDb_def replay_tx_def split: if_splits option.splits prod.splits elim!: sbindE)

lemma recv_rec_stores:
  assumes "recv_rec env (s, tx, i, bm) v = Some (s', Inr (s'', tx', i', bm'))" "\<not> is_sg i" "data_oid (ObjId (lr_Metadata v))" "replay_tx d0 tx"
  shows "replay_tx d0 tx' \<and> config i' = config i \<and> \<not> is_sg i' \<and> is_remote i' = is_remote i \<and>
    (\<exists>p. tview tx' (rec_key (lr_Metadata v)) = Some (RecVal \<lparr>Metadata = lr_Metadata v, Pos = p\<rparr>)) \<and>
    (\<forall>d g. logRecKey logDataPrefix d g \<noteq> rec_key (lr_Metadata v) \<longrightarrow> tview tx' (logRecKey logDataPrefix d g) = tview tx (logRecKey logDataPrefix d g)) \<and>
    (\<exists>n. w_sync s'' = fst (reservePosInDbLog (w_sync s) (ic_dbId (config i)) [] n))"
proof -
  let ?m = "lr_Metadata v"
  obtain sync p where r: "reservePosInDbLog (w_sync s) (ic_dbId (config i)) [] 1 = (sync, p)" by (cases "reservePosInDbLog (w_sync s) (ic_dbId (config i)) [] 1")
  let ?rec = "\<lparr>Metadata = ?m, Pos = p\<rparr>"
  have gs: "gen_space i (ObjId ?m) = []" "is_sg i = False" using assms(2) by (simp_all add: gen_space_def)
  from assms(1) obtain bs bm1 where t: "track_batch (w_batches s) (w_rands s) (tview tx) bm (rec_BatchId ?m) (BatchCount ?m) = Some (bs, Inr bm1)"
    by (auto simp: recv_rec_def Let_def gs r split: Option.bind_splits sum.splits)
  from assms(1) obtain bs2 d g where ins: "insertRecInLogAndDag False bs (tview tx) (dagGraft i) ?rec (rec_BatchId ?m) = Some (bs2, Inr (d, g))"
      and val: "insert_value env False (tset tx d) ?m (lr_Value v) = Inr tx'"
      and res: "s'' = s\<lparr>w_sync := sync, w_batches := bs2\<rparr>" "i' = i\<lparr>dagGraft := g, updObjects := AList.update (ObjId ?m) new_confSt (updObjects i)\<rparr>"
    by (auto simp: recv_rec_def Let_def gs r t split: Option.bind_splits sum.splits elim!: sbindE)
  have rt: "replay_tx d0 (tset tx d)" using assms(4) by (simp add: replay_tx_def)
  note iv = insert_value_frame[OF val assms(3) rt]
  have d: "d (logRecKey p' d' g') = putLogRec (tview tx) logDataPrefix ?rec (logRecKey p' d' g')" for p' d' g' using insertRec_frame[OF ins] by simp
  have "tview tx' (logRecKey logDataPrefix d' g') = putLogRec (tview tx) logDataPrefix ?rec (logRecKey logDataPrefix d' g')" for d' g'
    using iv d by simp
  then show ?thesis using iv res r gs by (auto simp: rec_key_def putLogRec_def intro!: exI[of _ 1])
qed

text \<open>The whole stream: a record is in the log with the last version received of it, and other records stay.\<close>

definition stored_as :: "dstore \<Rightarrow> LogRecMetadata \<Rightarrow> bool" where
  "stored_as d m \<longleftrightarrow> (\<exists>p. d (rec_key m) = Some (RecVal \<lparr>Metadata = m, Pos = p\<rparr>))"

fun resp_recs :: "DeltaResp list \<Rightarrow> LogRecMetadata list" where
  "resp_recs [] = []"
| "resp_recs (DeltaRespRec v # rs) = lr_Metadata v # resp_recs rs"
| "resp_recs (DeltaRespGvs g # rs) = resp_recs rs"

lemma resp_recs_answer [simp]: "resp_recs (map DeltaRespRec recs @ [DeltaRespGvs out]) = map lr_Metadata recs"
  by (induction recs) auto

definition keeps_vectors :: "syncService \<Rightarrow> syncService \<Rightarrow> bool" where
  "keeps_vectors s s' \<longleftrightarrow> sync_id s' = sync_id s \<and>
     (\<forall>db ds. syncState s db = Some ds \<longrightarrow> (\<exists>ds'. syncState s' db = Some ds' \<and> genvecs ds' = genvecs ds))"

lemma keeps_vectors_trans: "keeps_vectors a b \<Longrightarrow> keeps_vectors b c \<Longrightarrow> keeps_vectors a c"
  unfolding keeps_vectors_def by (metis)

lemma reservePos_keeps: "keeps_vectors s (fst (reservePosInDbLog s db sgoid n))"
  by (auto simp: keeps_vectors_def reservePosInDbLog_def reserveGenAndPosInternal_def getOrCreateSyncStateInternal_def Let_def split: option.splits prod.splits if_splits)

lemma recv_loop_stores:
  assumes "recv_loop env rs (s, tx, i, bm) = Some (s', Inr (s'', tx', i', bm'))" "\<not> is_sg i" "replay_tx d0 tx"
    and "\<forall>m\<in>set (resp_recs rs). data_oid (ObjId m)" "\<forall>m\<in>set (resp_recs rs). \<forall>m'\<in>set (resp_recs rs). rec_key m = rec_key m' \<longrightarrow> m = m'"
  shows "replay_tx d0 tx' \<and> config i' = config i \<and> \<not> is_sg i' \<and> keeps_vectors (w_sync s) (w_sync s'') \<and>
    (\<forall>m\<in>set (resp_recs rs). stored_as (tview tx') m) \<and>
    (\<forall>d g. logRecKey logDataPrefix d g \<notin> rec_key ` set (resp_recs rs) \<longrightarrow> tview tx' (logRecKey logDataPrefix d g) = tview tx (logRecKey logDataPrefix d g))"
  using assms
proof (induction rs arbitrary: s tx i bm)
  case Nil
  then show ?case by (auto simp: keeps_vectors_def)
next
  case (Cons r rs)
  show ?case
  proof (cases r)
    case (DeltaRespGvs g)
    then show ?thesis using Cons.IH[of s tx "i\<lparr>is_remote := g\<rparr>" bm] Cons.prems by simp
  next
    case (DeltaRespRec v)
    let ?m = "lr_Metadata v"
    from Cons.prems(1) obtain s0 s1 tx1 i1 bm1 where 1: "recv_rec env (s, tx, i, bm) v = Some (s0, Inr (s1, tx1, i1, bm1))"
        and 2: "recv_loop env rs (s1, tx1, i1, bm1) = Some (s', Inr (s'', tx', i', bm'))"
      by (auto simp: DeltaRespRec split: Option.bind_splits sum.splits)
    have "data_oid (ObjId ?m)" using Cons.prems(4) DeltaRespRec by simp
    note st = recv_rec_stores[OF 1 Cons.prems(2) this Cons.prems(3)]
    have IH: "replay_tx d0 tx' \<and> config i' = config i1 \<and> \<not> is_sg i' \<and> keeps_vectors (w_sync s1) (w_sync s'') \<and>
      (\<forall>m\<in>set (resp_recs rs). stored_as (tview tx') m) \<and>
      (\<forall>d g. logRecKey logDataPrefix d g \<notin> rec_key ` set (resp_recs rs) \<longrightarrow> tview tx' (logRecKey logDataPrefix d g) = tview tx1 (logRecKey logDataPrefix d g))"
      by (rule Cons.IH[OF 2]) (use st Cons.prems(4,5) DeltaRespRec in auto)
    have "keeps_vectors (w_sync s) (w_sync s1)" using st reservePos_keeps by metis
    then have k: "keeps_vectors (w_sync s) (w_sync s'')" using IH keeps_vectors_trans by blast
    have "stored_as (tview tx') ?m"
    proof (cases "rec_key ?m \<in> rec_key ` set (resp_recs rs)")
      case True
      then have "?m \<in> set (resp_recs rs)" using Cons.prems(5) DeltaRespRec by auto
      then show ?thesis using IH by blast
    next
      case False
      then have "tview tx' (rec_key ?m) = tview tx1 (rec_key ?m)" using IH by (simp add: rec_key_def)
      then show ?thesis using st by (simp add: stored_as_def)
    qed
    then show ?thesis using IH k st DeltaRespRec by auto
  qed
qed

lemma recv_loop_remote:
  "recv_loop env (map DeltaRespRec recs @ [DeltaRespGvs out]) (s, tx, i, bm) = Some (s', Inr (s'', tx', i', bm')) \<Longrightarrow> is_remote i' = out"
  by (induction recs arbitrary: s tx i bm) (auto split: Option.bind_splits sum.splits prod.splits)

subsection \<open>The commit\<close>

lemma replay_commit:
  assumes "wtx_Commit clock e st tx = (st', tx', None)" "replay_tx (ist st) tx"
  shows "ist st' = tview tx"
proof -
  have "i_apply (itx tx) (ist st) = view (itx tx)"
    using assms(2) by (intro ext) (simp add: i_apply_def view_def replay_tx_def split: option.split)
  then show ?thesis using assms by (auto simp: wtx_Commit_def replay_tx_def tview_def Let_def split: sum.splits option.splits if_splits)
qed

lemma recvAndProcessDeltas_stores:
  assumes "recvAndProcessDeltas env ce rs None s st i = Some (s', st', Inr i')" "ce_store ce = st" "\<not> is_sg i"
    and "\<forall>m\<in>set (resp_recs rs). data_oid (ObjId m)" "\<forall>m\<in>set (resp_recs rs). \<forall>m'\<in>set (resp_recs rs). rec_key m = rec_key m' \<longrightarrow> m = m'"
  shows "config i' = config i \<and> \<not> is_sg i' \<and> keeps_vectors (w_sync s) (w_sync s') \<and> (\<forall>m\<in>set (resp_recs rs). stored_as (ist st') m) \<and>
    (\<forall>d g. logRecKey logDataPrefix d g \<notin> rec_key ` set (resp_recs rs) \<longrightarrow> ist st' (logRecKey logDataPrefix d g) = ist st (logRecKey logDataPrefix d g)) \<and>
    (\<forall>recs out. rs = map DeltaRespRec recs @ [DeltaRespGvs out] \<longrightarrow> is_remote i' = out)"
proof -
  let ?tx = "wtx_newTransaction (s_managed st) (ist st)"
  have r0: "replay_tx (ist st) ?tx" "tview ?tx = ist st" by (simp_all add: replay_tx_def wtx_newTransaction_def tview_def view_def)
  from assms(1) obtain s0 s1 tx bm where l: "recv_loop env rs (s, ?tx, i, []) = Some (s0, Inr (s1, tx, i', bm))"
    by (auto simp: recvAndProcessDeltas_def split: Option.bind_splits sum.splits option.splits prod.splits)
  note st = recv_loop_stores[OF l assms(3) r0(1) assms(4,5)]
  from assms(1) l obtain bs d where e: "end_batches bm (w_batches s1) (tview tx) = (bs, Inr d)" "s' = s1\<lparr>w_batches := bs\<rparr>"
      and c: "\<exists>t. wtx_Commit (ce_clock ce) (ce_err ce) (ce_store ce) (tset tx d) = (st', t, None)"
    by (auto simp: recvAndProcessDeltas_def split: sum.splits option.splits prod.splits)
  have "replay_tx (ist (ce_store ce)) (tset tx d)" using st assms(2) by (simp add: replay_tx_def)
  with c have "ist st' = tview (tset tx d)" using replay_commit by blast
  then have v: "ist st' (logRecKey p dev g) = tview tx (logRecKey p dev g)" for p dev g using end_batches_frame[OF e(1)] by simp
  have "\<forall>recs out. rs = map DeltaRespRec recs @ [DeltaRespGvs out] \<longrightarrow> is_remote i' = out" using l recv_loop_remote by blast
  then show ?thesis using st e(2) r0(2) by (auto simp: v stored_as_def rec_key_def)
qed

subsection \<open>The request\<close>

lemma local_prefixes_from:
  assumes "local_prefixes local pfx lps (out, st0) = (out', lpStart)" "set lps \<subseteq> fst ` set local"
    and "\<forall>q v. map_of out q = Some v \<longrightarrow> P q v" "\<forall>q\<in>fst ` set local. P q (kn_get local q)" "st0 = [] \<or> st0 \<in> fst ` set local \<and> prefix st0 pfx"
  shows "(\<forall>q v. map_of out' q = Some v \<longrightarrow> P q v) \<and> (lpStart = [] \<or> lpStart \<in> fst ` set local \<and> prefix lpStart pfx)"
  using assms
proof (induction lps arbitrary: out st0)
  case (Cons lp lps)
  show ?case
  proof (cases "prefix lp pfx \<or> \<not> prefix pfx lp")
    case True
    then show ?thesis using Cons.IH[of out st0] Cons.IH[of out lp] Cons.prems by (auto split: if_splits)
  next
    case False
    then have "local_prefixes local pfx lps (AList.update lp (kn_get local lp) out, st0) = (out', lpStart)" using Cons.prems(1) by (simp split: if_splits)
    moreover have "\<forall>q v. map_of (AList.update lp (kn_get local lp) out) q = Some v \<longrightarrow> P q v" using Cons.prems(2-4) by (auto simp: update_conv')
    ultimately show ?thesis using Cons.IH Cons.prems(2,4,5) by auto
  qed
qed simp

text \<open>Every vector of a request is the one of the own prefix, that of a shorter local prefix, or that of the own device only.\<close>

definition from_local :: "64 word \<Rightarrow> 64 word \<Rightarrow> Knowledge \<Rightarrow> string \<Rightarrow> GenVector \<Rightarrow> bool" where
  "from_local self lgen local q v \<longleftrightarrow> v = [(self, lgen)] \<or> (\<exists>lp\<in>fst ` set local. prefix lp q \<and> v = kn_get local lp)"

lemma request_prefixes_from:
  assumes "\<forall>q v. map_of out q = Some v \<longrightarrow> from_local self lgen local q v"
  shows "map_of (request_prefixes self lgen local ps pfx out) q = Some v \<Longrightarrow> from_local self lgen local q v"
  using assms
proof (induction ps arbitrary: pfx out)
  case (Cons p ps)
  show ?case
  proof (cases "prefix pfx p \<and> p \<noteq> pfx")
    case True
    then show ?thesis using Cons by simp
  next
    case False
    obtain out1 lpStart where l: "local_prefixes local p (extractAndSortPrefixes local) (out, []) = (out1, lpStart)" by (cases "local_prefixes local p (extractAndSortPrefixes local) (out, [])")
    have s: "set (extractAndSortPrefixes local) \<subseteq> fst ` set local" by (simp add: extractAndSortPrefixes_def)
    have "\<forall>q\<in>fst ` set local. from_local self lgen local q (kn_get local q)" by (auto simp: from_local_def)
    from local_prefixes_from[OF l s Cons.prems(2) this] have o: "\<forall>q v. map_of out1 q = Some v \<longrightarrow> from_local self lgen local q v"
        "lpStart = [] \<or> lpStart \<in> fst ` set local \<and> prefix lpStart p" by auto
    let ?v = "if lpStart = [] then [(self, lgen)] else kn_get local lpStart"
    have "from_local self lgen local p ?v" using o(2) by (auto simp: from_local_def)
    then have "\<forall>q v. map_of (AList.update p ?v out1) q = Some v \<longrightarrow> from_local self lgen local q v" using o(1) by (auto simp: update_conv')
    then show ?thesis using Cons.IH[of p "AList.update p ?v out1"] Cons.prems(1) False l by (auto simp: Let_def)
  qed
qed simp

subsection \<open>Claims\<close>

text \<open>Keys of a Go map are distinct.\<close>

definition wf_kn :: "Knowledge \<Rightarrow> bool" where
  "wf_kn k \<longleftrightarrow> distinct (map fst k) \<and> (\<forall>(p, gv)\<in>set k. distinct (map fst gv))"

lemma fold_update_map_of:
  "distinct (map fst xs) \<Longrightarrow> map_of (fold (\<lambda>(k, v) out. AList.update k (f v) out) xs out) q =
     (case map_of xs q of None \<Rightarrow> map_of out q | Some v \<Rightarrow> Some (f v))"
  by (induction xs arbitrary: out) (auto simp: update_conv' rev_image_eqI split: option.split dest: map_of_SomeD)

lemma GenVector_DeepCopy_map_of: "distinct (map fst gv) \<Longrightarrow> map_of (GenVector_DeepCopy gv) d = map_of gv d"
  using fold_update_map_of[of gv "\<lambda>x. x" "[]" d] by (simp add: GenVector_DeepCopy_def split: option.splits)

lemma Knowledge_DeepCopy_at:
  assumes "wf_kn k"
  shows "kn_at (Knowledge_DeepCopy k) p d = kn_at k p d"
proof -
  have "map_of (Knowledge_DeepCopy k) p = map_option GenVector_DeepCopy (map_of k p)"
    using fold_update_map_of[of k GenVector_DeepCopy "[]" p] assms by (auto simp: wf_kn_def Knowledge_DeepCopy_def split: option.split)
  moreover have "distinct (map fst gv)" if "map_of k p = Some gv" for gv using assms map_of_SomeD[OF that] by (auto simp: wf_kn_def)
  ultimately show ?thesis by (auto simp: kn_at_def GenVector_DeepCopy_map_of split: option.split)
qed

lemma copyDbGenInfo_at:
  assumes "copyDbGenInfo s db [] = Inr (local, lgen)" "syncState s db = Some ds" "wf_kn (genvecs ds)" "d \<noteq> sync_id s"
  shows "kn_at local p d = kn_at (genvecs ds) p d"
  using assms Knowledge_DeepCopy_at[OF assms(3), of p d]
  by (auto simp: copyDbGenInfo_def kn_at_def map_of_map_key update_conv' split: option.splits)

text \<open>A record of the responder that the vectors of the initiator claim for some prefix of its key is in the store of the initiator.\<close>

definition in_log :: "dstore \<Rightarrow> LocalLogRec \<Rightarrow> bool" where
  "in_log rst rec \<longleftrightarrow> getLogRec rst logDataPrefix (dev_of rec) (Gen (Metadata rec)) = Inr rec \<and> Gen (Metadata rec) \<noteq> 0"

definition claimed :: "Knowledge \<Rightarrow> LocalLogRec \<Rightarrow> bool" where
  "claimed k rec \<longleftrightarrow> (\<exists>p key y. StripFirstKeyPartOrDie (ObjId (Metadata rec)) = Some key \<and> prefix p key \<and>
     kn_at k p (dev_of rec) = Some y \<and> Gen (Metadata rec) \<le> y)"

definition holds_claims :: "dstore \<Rightarrow> string \<Rightarrow> dstore \<Rightarrow> Knowledge \<Rightarrow> bool" where
  "holds_claims rst self st k \<longleftrightarrow> (\<forall>rec. in_log rst rec \<longrightarrow> syncbaseIdToName (dev_of rec) \<noteq> self \<longrightarrow> claimed k rec \<longrightarrow> stored_as st (Metadata rec))"

lemma kn_get_at: "q \<in> fst ` set k \<Longrightarrow> 0 < g \<Longrightarrow> g \<le> gv_get (kn_get k q) d \<Longrightarrow> \<exists>y. kn_at k q d = Some y \<and> g \<le> y"
  using gv_get_pos[of g "kn_get k q" d] by (auto simp: kn_at_def kn_get_def split: option.splits)

lemma kn_at_get: "kn_at k p d = Some y \<Longrightarrow> \<exists>gv. map_of k p = Some gv \<and> gv_get gv d = y"
  by (auto simp: kn_at_def gv_get_def split: option.splits)

text \<open>What a request claims, the vectors of the initiator claim.\<close>

lemma request_claims:
  assumes "prepareDataDeltaReq s i = (s', Inr (i', DeltaReqData db gids vecs))" "syncState (w_sync s) (ic_dbId (config i)) = Some ds" "wf_kn (genvecs ds)"
    and "kn_at vecs q d = Some y" "d \<noteq> sync_id (w_sync s)"
  shows "\<exists>p. prefix p q \<and> kn_at (genvecs ds) p d = Some y"
proof -
  from assms(1,2) obtain local lgen p0 ps where c: "copyDbGenInfo (w_sync s) (ic_dbId (config i)) [] = Inr (local, lgen)"
      and v: "vecs = request_prefixes (sync_id (w_sync s)) lgen local (p0 # ps) p0 []"
    by (auto simp: prepareDataDeltaReq_def Let_def isDbSyncable_def getOrCreateSyncStateInternal_def split: if_splits list.splits elim!: sbindE)
  from assms(4) obtain gv where m: "map_of vecs q = Some gv" "map_of gv d = Some y" by (auto simp: kn_at_def split: option.splits)
  have "from_local (sync_id (w_sync s)) lgen local q gv" using request_prefixes_from[OF _ m(1)[unfolded v]] by simp
  then obtain lp where l: "prefix lp q" "gv = kn_get local lp" using m(2) assms(5) by (auto simp: from_local_def)
  then have "kn_at local lp d = Some y" using m(2) by (auto simp: kn_at_def kn_get_def split: option.splits)
  then show ?thesis using l(1) copyDbGenInfo_at[OF c assms(2,3,5)] by auto
qed

lemma requested_is_claimed:
  assumes "prepareDataDeltaReq s i = (s', Inr (i', DeltaReqData db gids vecs))" "syncState (w_sync s) (ic_dbId (config i)) = Some ds" "wf_kn (genvecs ds)"
    and "syncbaseIdToName (dev_of rec) \<noteq> syncbaseIdToName (sync_id (w_sync s))" "\<forall>q gv. map_of ivs q = Some gv \<longrightarrow> map_of vecs q = Some gv"
    and "StripFirstKeyPartOrDie (ObjId (Metadata rec)) = Some key" "q \<in> fst ` set ivs" "prefix q key"
    and "Gen (Metadata rec) \<noteq> 0" "Gen (Metadata rec) \<le> gv_get (kn_get ivs q) (dev_of rec)"
  shows "claimed (genvecs ds) rec"
proof -
  have "0 < Gen (Metadata rec)" using assms(9) by (simp add: word_gt_0)
  from kn_get_at[OF assms(7) this assms(10)] obtain y where y: "kn_at ivs q (dev_of rec) = Some y" "Gen (Metadata rec) \<le> y" by blast
  have "kn_at vecs q (dev_of rec) = Some y" using y(1) assms(5) by (auto simp: kn_at_def split: option.splits)
  moreover have "dev_of rec \<noteq> sync_id (w_sync s)" using assms(4) by auto
  ultimately obtain p where "prefix p q" "kn_at (genvecs ds) p (dev_of rec) = Some y" using request_claims[OF assms(1-3)] by blast
  then show ?thesis using y(2) assms(6,8) prefix_order.trans unfolding claimed_def by blast
qed

text \<open>What the vectors claim after the merge, the old ones or those of the answer claim.\<close>

lemma merged_claims:
  assumes "updateSyncSt s i tx = Inr (i', tx')" "\<not> is_sg i" "syncState (w_sync s) (ic_dbId (config i)) = Some ds" "wf_kn (genvecs ds)" "wf_kn (is_remote i)"
    and "claimed (updLocal i') rec"
  shows "claimed (genvecs ds) rec \<or> claimed (is_remote i) rec"
proof -
  have c: "copyDbSyncStateInMem (w_sync s) (ic_dbId (config i)) = Inr (dbSync_deepCopy ds)" using assms(3) by (simp add: copyDbSyncStateInMem_def)
  obtain k t paused where k: "merge_remote (is_sg i) (is_remote i) (own_gvs i (dbSync_deepCopy ds)) tx = Inr (k, t)"
      "updLocal i' = map (\<lambda>(p, gv). (p, AList.delete (sync_id (w_sync s)) gv)) k"
    using updateSyncSt_steps[OF assms(1) c] by blast
  from assms(6) obtain p key y where p: "StripFirstKeyPartOrDie (ObjId (Metadata rec)) = Some key" "prefix p key"
      "kn_at (updLocal i') p (dev_of rec) = Some y" "Gen (Metadata rec) \<le> y" unfolding claimed_def by blast
  have "\<forall>(r, gv)\<in>set (is_remote i). distinct (map fst gv)" using assms(5) by (simp add: wf_kn_def)
  note spec = merge_remote_spec[OF this k(1)]
  have "kn_at k p (dev_of rec) = Some y" using p(3) by (simp add: k(2) kn_at_delete split: if_splits)
  then consider "kn_at (own_gvs i (dbSync_deepCopy ds)) p (dev_of rec) = Some y"
    | r gv where "(r, gv) \<in> set (is_remote i)" "prefix r p" "map_of gv (dev_of rec) = Some y" using spec by blast
  then show ?thesis
  proof cases
    case 1
    then have "kn_at (genvecs ds) p (dev_of rec) = Some y" using assms(2) Knowledge_DeepCopy_at[OF assms(4)] by (simp add: own_gvs_def dbSync_deepCopy_def)
    then show ?thesis using p unfolding claimed_def by blast
  next
    case 2
    then have "kn_at (is_remote i) r (dev_of rec) = Some y" using assms(5) by (simp add: kn_at_def wf_kn_def)
    moreover have "prefix r key" using 2(2) p(2) by (rule prefix_order.trans)
    ultimately show ?thesis using p(1,4) unfolding claimed_def by blast
  qed
qed

lemma in_log_unique: "in_log rst rec \<Longrightarrow> in_log rst rec' \<Longrightarrow> rec_key (Metadata rec) = rec_key (Metadata rec') \<Longrightarrow> rec = rec'"
  unfolding in_log_def rec_key_def logRecKey_inject by (metis sum.inject(2))

text \<open>A record of the responder stays in the store of the initiator, or is received again as it is.\<close>

lemma recvAndProcessDeltas_keeps:
  assumes "recvAndProcessDeltas env ce rs None s st i = Some (s', st', Inr i')" "ce_store ce = st" "\<not> is_sg i"
    and "set (resp_recs rs) = Metadata ` V" "\<forall>rec\<in>V. in_log rst rec \<and> data_oid (ObjId (Metadata rec))"
  shows "config i' = config i \<and> \<not> is_sg i' \<and> keeps_vectors (w_sync s) (w_sync s') \<and>
    (\<forall>recs out. rs = map DeltaRespRec recs @ [DeltaRespGvs out] \<longrightarrow> is_remote i' = out) \<and>
    (\<forall>rec. in_log rst rec \<longrightarrow> rec \<in> V \<or> stored_as (ist st) (Metadata rec) \<longrightarrow> stored_as (ist st') (Metadata rec))"
proof -
  have "\<forall>m\<in>set (resp_recs rs). data_oid (ObjId m)" "\<forall>m\<in>set (resp_recs rs). \<forall>m'\<in>set (resp_recs rs). rec_key m = rec_key m' \<longrightarrow> m = m'"
    unfolding assms(4) using assms(5) in_log_unique by fast+
  note st = recvAndProcessDeltas_stores[OF assms(1-3) this]
  have recv: "\<forall>rec\<in>V. stored_as (ist st') (Metadata rec)"
    and keep: "logRecKey logDataPrefix d g \<notin> rec_key ` set (resp_recs rs) \<Longrightarrow> ist st' (logRecKey logDataPrefix d g) = ist st (logRecKey logDataPrefix d g)" for d g
    using st assms(4) by simp_all
  have "stored_as (ist st') (Metadata rec)" if r: "in_log rst rec" "rec \<in> V \<or> stored_as (ist st) (Metadata rec)" for rec
  proof (cases "rec \<in> V")
    case True
    then show ?thesis using recv by blast
  next
    case False
    then have "rec_key (Metadata rec) \<notin> rec_key ` set (resp_recs rs)" unfolding assms(4) using r(1) assms(5) in_log_unique by fast
    then have "ist st' (rec_key (Metadata rec)) = ist st (rec_key (Metadata rec))" using keep by (simp add: rec_key_def)
    then show ?thesis using r(2) False by (simp add: stored_as_def)
  qed
  then show ?thesis using st by simp
qed

subsection \<open>The exchange\<close>

lemma request_state:
  "prepareDataDeltaReq s i = (s', Inr (i', req)) \<Longrightarrow> syncState (w_sync s) (ic_dbId (config i)) = Some ds \<Longrightarrow>
     s' = s \<and> config i' = config i \<and> is_sg i' = is_sg i"
  by (auto simp: prepareDataDeltaReq_def Let_def isDbSyncable_def getOrCreateSyncStateInternal_def split: if_splits list.splits elim!: sbindE)

lemma wanted_pos: "wanted ivs rec \<Longrightarrow> Gen (Metadata rec) \<noteq> 0"
proof -
  assume "wanted ivs rec"
  then obtain x where "x < Gen (Metadata rec)" by (auto simp: wanted_def split: option.splits)
  then show ?thesis by auto
qed

text \<open>
  C7: an exchange of data as a whole. The initiator builds its request from its vectors, the responder answers it, the initiator replays the
  answer and merges the vectors of the answer into its own. When the initiator held every record of the responder that its vectors claimed, it
  holds every record of the responder that its new vectors claim, so that the next request does not leave a record out.
\<close>

theorem exchange_keeps_claims:
  assumes "prepareDataDeltaReq s i = (s1, Inr (i1, DeltaReqData db gids vecs))" "syncState (w_sync s) (ic_dbId (config i)) = Some ds"
    and "wf_kn (genvecs ds)" "\<not> is_sg i"
    and "syncState rsync (r_dbId r) = Some rds" "checkptGen (data rds) \<noteq> - 1" "\<forall>(p, gv)\<in>set (genvecs rds). - 1 \<notin> snd ` set gv"
    and "initVecs r \<noteq> []" "\<not> r_sg r" "log_ok (r_st r) logDataPrefix" "log_ordered (r_st r) logDataPrefix" "readable r"
    and "initiator r = syncbaseIdToName (sync_id (w_sync s))" "\<forall>q gv. map_of (initVecs r) q = Some gv \<longrightarrow> map_of vecs q = Some gv"
    and "\<forall>rec. in_log (r_st r) rec \<longrightarrow> data_oid (ObjId (Metadata rec))"
    and "sendDataDeltas rsync r = Some (resps, None)" "\<forall>gvs. DeltaRespGvs gvs \<in> set resps \<longrightarrow> wf_kn gvs"
    and "recvAndProcessDeltas env ce resps None s1 st i1 = Some (s2, st2, Inr i2)" "ce_store ce = st"
    and "keeps_vectors (w_sync s2) (w_sync s3)" "config i3 = config i2" "is_remote i3 = is_remote i2" "is_sg i3 = is_sg i2"
    and "updateSyncSt s3 i3 tx = Inr (i4, tx')" "holds_claims (r_st r) (initiator r) (ist st) (genvecs ds)"
  shows "holds_claims (r_st r) (initiator r) (ist st2) (updLocal i4)"
proof -
  from sendDataDeltas_sends[OF assms(5-12)] obtain recs vs out where resps: "resps = map DeltaRespRec recs @ [DeltaRespGvs out]"
      and vs: "map lr_Metadata recs = map Metadata vs"
        "\<forall>rec\<in>set vs. getLogRec (r_st r) logDataPrefix (dev_of rec) (Gen (Metadata rec)) = Inr rec \<and> wanted (initVecs r) rec"
      and complete: "\<And>p gv rec key. map_of out p = Some gv \<Longrightarrow> getLogRec (r_st r) logDataPrefix (dev_of rec) (Gen (Metadata rec)) = Inr rec \<Longrightarrow>
         syncbaseIdToName (dev_of rec) \<noteq> initiator r \<Longrightarrow> StripFirstKeyPartOrDie (ObjId (Metadata rec)) = Some key \<Longrightarrow>
         prefix p key \<Longrightarrow> Gen (Metadata rec) \<le> gv_get gv (dev_of rec) \<Longrightarrow>
         rec \<in> set vs \<or> (\<exists>q\<in>fst ` set (initVecs r). prefix q key \<and> Gen (Metadata rec) \<le> gv_get (kn_get (initVecs r) q) (dev_of rec))"
    using assms(16) by auto
  have rr: "set (resp_recs resps) = Metadata ` set vs" using vs(1) by (metis resp_recs_answer resps list.set_map)
  have sent: "\<forall>rec\<in>set vs. in_log (r_st r) rec \<and> data_oid (ObjId (Metadata rec))"
    using vs(2) assms(15) wanted_pos unfolding in_log_def by blast
  note rq = request_state[OF assms(1,2)]
  have sg: "\<not> is_sg i1" using rq assms(4) by simp
  note keeps = recvAndProcessDeltas_keeps[OF assms(18,19) sg rr sent]
  have i3: "is_remote i3 = out" "\<not> is_sg i3" "ic_dbId (config i3) = ic_dbId (config i)" using keeps assms(21-23) rq resps by auto
  obtain ds3 where ds3: "syncState (w_sync s3) (ic_dbId (config i3)) = Some ds3" "genvecs ds3 = genvecs ds"
    using keeps assms(2,20) rq unfolding keeps_vectors_def i3(3) by metis
  have wf: "wf_kn (genvecs ds3)" "wf_kn (is_remote i3)" using assms(3,17) ds3(2) i3(1) resps by simp_all
  show ?thesis unfolding holds_claims_def
  proof (intro allI impI)
    fix rec assume r: "in_log (r_st r) rec" "syncbaseIdToName (dev_of rec) \<noteq> initiator r" "claimed (updLocal i4) rec"
    have old: "claimed (genvecs ds) rec \<Longrightarrow> stored_as (ist st) (Metadata rec)" using assms(25) r(1,2) unfolding holds_claims_def by blast
    consider "claimed (genvecs ds) rec" | "claimed out rec" using merged_claims[OF assms(24) i3(2) ds3(1) wf r(3)] ds3(2) i3(1) by auto
    then have "rec \<in> set vs \<or> stored_as (ist st) (Metadata rec)"
    proof cases
      case 2
      then obtain p key gv where k: "StripFirstKeyPartOrDie (ObjId (Metadata rec)) = Some key" "prefix p key" "map_of out p = Some gv"
          "Gen (Metadata rec) \<le> gv_get gv (dev_of rec)" unfolding claimed_def using kn_at_get by metis
      have g: "getLogRec (r_st r) logDataPrefix (dev_of rec) (Gen (Metadata rec)) = Inr rec" "Gen (Metadata rec) \<noteq> 0" using r(1) by (simp_all add: in_log_def)
      from complete[OF k(3) g(1) r(2) k(1,2,4)] show ?thesis
        using old requested_is_claimed[OF assms(1-3) r(2)[unfolded assms(13)] assms(14) k(1) _ _ g(2)] by blast
    qed (simp add: old)
    then show "stored_as (ist st2) (Metadata rec)" using keeps r(1) by blast
  qed
qed

definition sample_out :: Knowledge where
  "sample_out = [(''c'', [(5, 1), (7, 0)])]"

definition sample_resps :: "DeltaResp list" where
  "sample_resps = map DeltaRespRec [\<lparr>lr_Metadata = Metadata sample_rec, lr_Value = None\<rparr>] @ [DeltaRespGvs sample_out]"

lemma sample_next:
  "getNextLogRec (r_st sample_request) logDataPrefix 5 \<lparr>rg_min = 1, rg_max = 1, rg_cur = 1\<rparr> = Some (Inr (Some (sample_rec, \<lparr>rg_min = 1, rg_max = 1, rg_cur = 2\<rparr>)))"
  "getNextLogRec (r_st sample_request) logDataPrefix 5 \<lparr>rg_min = 1, rg_max = 1, rg_cur = 2\<rparr> = Some (Inr None)"
  by (simp add: getNextLogRec_def next_rec.simps[of _ _ _ 1] sample_log) (simp add: getNextLogRec_def next_rec.simps[of _ _ _ 2] sample_log word_le_nat_alt)

lemma sample_answer: "sendDataDeltas sample_service sample_request = Some (sample_resps, None)"
proof -
  let ?r = "sample_request\<lparr>diff := [(5, \<lparr>rg_min = 1, rg_max = 1, rg_cur = 0\<rparr>)], outVecs := sample_out\<rparr>"
  have i: "initVecs sample_request = [(''c'', [(9, 0)])]" "initiator sample_request = ''9''" "\<not> r_sg sample_request" "\<not> r_sg ?r" by (simp_all add: sample_request_def)
  have c: "computeDataDeltas sample_service sample_request = Inr ?r"
    by (simp add: computeDataDeltas_def copyDbGenInfo_def sample_request_ok(1) i extractAndSortPrefixes_def Knowledge_DeepCopy_def GenVector_DeepCopy_def)
       (simp add: sample_service_def new_dbSync_def new_genInfo_def kn_get_def diffGenVectors_def updateDevRange_def sample_out_def)
  have m: "dev_of sample_rec = 5" "Gen (Metadata sample_rec) = 1" "Delete (Metadata sample_rec)" by (simp_all add: sample_rec_def)
  have pop: "heap_Pop minHeap_Less [sample_rec] = ([], sample_rec)" by (simp add: heap_Pop_def swap_def down.simps Let_def)
  have ini: "heap_Init minHeap_Less [sample_rec] = [sample_rec]" by (simp add: heap_Init_def)
  have "send_one ?r [''c''] sample_rec = Inr [DeltaRespRec \<lparr>lr_Metadata = Metadata sample_rec, lr_Value = None\<rparr>]"
    by (simp add: send_one_def i filterLogRec_def sample_key m kn_get_def gv_get_def makeWireLogRec_def)
  then have "send_loop ?r logDataPrefix [''c''] [sample_rec] [(5, \<lparr>rg_min = 1, rg_max = 1, rg_cur = 2\<rparr>)] [] =
      send_loop ?r logDataPrefix [''c''] [] [] [DeltaRespRec \<lparr>lr_Metadata = Metadata sample_rec, lr_Value = None\<rparr>]"
    by (subst send_loop.simps) (simp add: m sample_next pop)
  then have loop: "send_loop ?r logDataPrefix [''c''] (heap_Init minHeap_Less [sample_rec]) [(5, \<lparr>rg_min = 1, rg_max = 1, rg_cur = 2\<rparr>)] [] =
      Some ([DeltaRespRec \<lparr>lr_Metadata = Metadata sample_rec, lr_Value = None\<rparr>], Inr [])"
    by (simp add: ini send_loop.simps[of _ _ _ "[]"])
  have "syncbaseIdToName 5 \<noteq> ''9''" by (simp add: syncbaseIdToName_def hex_digits.simps hex_digit_def char_of_def)
  then have "filterAndSendDeltas ?r logDataPrefix = Some ([DeltaRespRec \<lparr>lr_Metadata = Metadata sample_rec, lr_Value = None\<rparr>], Inr (?r\<lparr>diff := []\<rparr>))"
    using loop by (simp add: filterAndSendDeltas_def i sample_next extractAndSortPrefixes_def)
  then show ?thesis using c by (simp add: sendDataDeltas_def sendGenVecs_def sample_resps_def)
qed

definition sample_peer :: initiationState where
  "sample_peer = (sample_round False [])\<lparr>config := sample_config\<lparr>sharedSgPfxs := [(''c'', [''g''])]\<rparr>\<rparr>"

definition empty_wstore :: wStore where
  "empty_wstore = \<lparr>ist = Map.empty, s_managed = [''r''], s_seq = 0, watcher = \<lparr>clients = Some [], logStart = 0\<rparr>\<rparr>"

definition sample_commit :: commit_env where
  "sample_commit = \<lparr>ce_store = empty_wstore, ce_clock = Inr 0, ce_err = None\<rparr>"

definition sample_recv :: recv_env where
  "sample_recv = \<lparr>e_blobs = \<lambda>_ _. None, e_encode = \<lambda>_. Inr []\<rparr>"

lemma sample_prepared:
  "prepareDataDeltaReq (sample_mem []) sample_peer = (sample_mem [], Inr (sample_peer\<lparr>is_local := [(''c'', [(9, 0)])]\<rparr>, DeltaReqData \<lparr>Blessing = ''u'', Name = ''d''\<rparr> [''g''] [(''c'', [(9, 0)])]))"
  by (simp add: prepareDataDeltaReq_def sample_peer_def sample_round_def sample_config_def sample_mem_def isDbSyncable_def getOrCreateSyncStateInternal_def
      copyDbGenInfo_def new_dbSync_def new_genInfo_def Knowledge_DeepCopy_def extractAndSortPrefixes_def Let_def)

lemma sample_inserted: "\<exists>d g. insertRecInLogAndDag False bs tx graft \<lparr>Metadata = Metadata sample_rec, Pos = p\<rparr> 0 = Some (bs, Inr (d, g))"
  by (simp add: insertRecInLogAndDag_def sample_rec_def addNode_def NoBatchId_def setNode_def NoVersion_def Let_def split_beta)

lemma sample_received:
  "\<exists>s2 st2 i2. recvAndProcessDeltas sample_recv sample_commit sample_resps None (sample_mem []) empty_wstore (sample_peer\<lparr>is_local := [(''c'', [(9, 0)])]\<rparr>) = Some (s2, st2, Inr i2)"
proof -
  let ?i = "sample_peer\<lparr>is_local := [(''c'', [(9, 0)])]\<rparr>" and ?tx = "wtx_newTransaction [''r''] Map.empty"
  have m: "Delete (Metadata sample_rec)" "rec_BatchId (Metadata sample_rec) = 0" by (simp_all add: sample_rec_def)
  have sg: "\<not> is_sg sample_peer" by (simp add: sample_peer_def sample_round_def)
  obtain sync p where r: "reservePosInDbLog (w_sync (sample_mem [])) (ic_dbId (config sample_peer)) [] 1 = (sync, p)" by fastforce
  obtain d g where ins: "insertRecInLogAndDag False (w_batches (sample_mem [])) (tview ?tx) (dagGraft sample_peer) \<lparr>Metadata = Metadata sample_rec, Pos = p\<rparr> 0 =
      Some (w_batches (sample_mem []), Inr (d, g))" using sample_inserted by blast
  have "\<exists>s1 tx1 i1. recv_rec sample_recv (sample_mem [], ?tx, ?i, []) \<lparr>lr_Metadata = Metadata sample_rec, lr_Value = None\<rparr> = Some (s1, Inr (s1, tx1, i1, [])) \<and> ops tx1 = [] \<and> t_err tx1 = None"
    using ins by (simp add: recv_rec_def gen_space_def sg r m track_batch_def NoBatchId_def insert_value_def insertRecInDb_def sample_recv_def Let_def)
      (simp add: wtx_newTransaction_def)
  then show ?thesis by (auto simp: recvAndProcessDeltas_def sample_resps_def empty_wstore_def sample_commit_def wtx_Commit_def Let_def)
qed

lemma exchange_keeps_claims_witness:
  "\<exists>s2 st2 i2 i4 tx'. recvAndProcessDeltas sample_recv sample_commit sample_resps None (sample_mem []) empty_wstore (sample_peer\<lparr>is_local := [(''c'', [(9, 0)])]\<rparr>) =
       Some (s2, st2, Inr i2) \<and>
     updateSyncSt s2 i2 Map.empty = Inr (i4, tx') \<and> holds_claims (r_st sample_request) (initiator sample_request) (ist st2) (updLocal i4)"
proof -
  let ?i = "sample_peer\<lparr>is_local := [(''c'', [(9, 0)])]\<rparr>" and ?db = "ic_dbId (config sample_peer)" and ?ds = "new_dbSync\<lparr>genvecs := []\<rparr>"
  have ds: "syncState (w_sync (sample_mem [])) ?db = Some ?ds" by (simp add: sample_mem_def sample_peer_def sample_round_def sample_config_def)
  have sg: "\<not> is_sg sample_peer" "\<not> is_sg ?i" by (simp_all add: sample_peer_def sample_round_def)
  obtain s2 st2 i2 where r: "recvAndProcessDeltas sample_recv sample_commit sample_resps None (sample_mem []) empty_wstore ?i = Some (s2, st2, Inr i2)"
    using sample_received by blast
  have c: "ce_store sample_commit = empty_wstore" by (simp add: sample_commit_def)
  have rr: "set (resp_recs sample_resps) = Metadata ` {sample_rec}" by (simp add: sample_resps_def)
  have il: "in_log (r_st sample_request) rec \<longleftrightarrow> rec = sample_rec" for rec
    by (auto simp: in_log_def sample_log split: if_splits) (auto simp: sample_rec_def)
  have oid: "data_oid (ObjId (Metadata sample_rec))" by (simp add: data_oid_def sample_rec_def JoinKeyParts_def RowPrefix_def)
  have "\<forall>rec\<in>{sample_rec}. in_log (r_st sample_request) rec \<and> data_oid (ObjId (Metadata rec))" using il oid by simp
  note k = recvAndProcessDeltas_keeps[OF r c sg(2) rr this]
  obtain ds2 where ds2: "syncState (w_sync s2) (ic_dbId (config i2)) = Some ds2" using k ds unfolding keeps_vectors_def by simp metis
  have rem: "is_remote i2 = sample_out" using k sample_resps_def by blast
  obtain i4 tx' where u: "updateSyncSt s2 i2 Map.empty = Inr (i4, tx')"
    using k ds2 by (simp add: updateSyncSt_def copyDbSyncStateInMem_def rem sample_out_def Let_def getDbSyncState_def not_exist_def)
  have "wf_kn (genvecs ?ds)" "\<forall>gvs. DeltaRespGvs gvs \<in> set sample_resps \<longrightarrow> wf_kn gvs" by (simp_all add: wf_kn_def sample_resps_def sample_out_def)
  moreover have "initiator sample_request = syncbaseIdToName (sync_id (w_sync (sample_mem [])))"
    by (simp add: sample_request_def sample_mem_def syncbaseIdToName_def hex_digits.simps hex_digit_def char_of_def bit_0)
  moreover have "\<forall>q gv. map_of (initVecs sample_request) q = Some gv \<longrightarrow> map_of [(''c'', [(9, 0)])] q = Some gv" by (simp add: sample_request_def)
  moreover have "\<forall>rec. in_log (r_st sample_request) rec \<longrightarrow> data_oid (ObjId (Metadata rec))" using il oid by simp
  moreover have "keeps_vectors (w_sync s2) (w_sync s2)" by (simp add: keeps_vectors_def)
  moreover have "holds_claims (r_st sample_request) (initiator sample_request) (ist empty_wstore) (genvecs ?ds)"
    by (simp add: holds_claims_def claimed_def kn_at_def)
  ultimately have "holds_claims (r_st sample_request) (initiator sample_request) (ist st2) (updLocal i4)"
    using exchange_keeps_claims[OF sample_prepared ds _ sg(1) sample_request_ok _ _ _ sample_answer _ r c _ refl refl refl u] by blast
  then show ?thesis using r u by blast
qed

end
