(* ===== verification/Initiator_Conflicts.thy ===== *)
theory Initiator_Conflicts
  imports Initiator
begin

text \<open>
  Rounds of the initiator that cannot complete because of how conflicts are resolved: a schema without a connected resolver, and a conflict
  whose rule defers it.
\<close>

subsection \<open>Conflicts by type\<close>

lemma groupConflictsByType_no_conflict:
  "\<forall>(oid, c)\<in>set upd. \<not> isConflict c \<Longrightarrow> groupConflictsByType rules upd grouped = Some grouped"
  by (induction upd) auto


lemma conflicts_of_type_none: "map_of byType t = None \<Longrightarrow> conflicts_of_type byType upd t = []"
  by (simp add: conflicts_of_type_def case_prod_beta)

lemma write_back_none [simp]: "write_back upd [] = upd"
  by (induction upd) (auto simp: write_back_def)

subsection \<open>A schema without a resolver\<close>

text \<open>
  C37: a database that has a schema, and no application connected to resolve conflicts, does not take part in sync: a round fails even if no
  object is in conflict. The failure leaves the store and the vectors as they are.
\<close>

theorem schema_without_resolver_blocks_sync:
  assumes "ro_schema env = Inr rules" "detectConflicts (ist (at_begin at)) (dagGraft i) (updObjects i) = Inr upd" "\<forall>(oid, c)\<in>set upd. \<not> isConflict c"
  shows "\<exists>i'. processUpdatedObjects env (at # ats) s None i = Some (s, None, i', ce_store (at_commit at), Some ErrBrokenCrConnection)"
proof -
  have d: "detectConflicts (tview (SetTransactionFromSync (wtx_newTransaction (s_managed (at_begin at)) (ist (at_begin at))))) (dagGraft i) (updObjects i) = Inr upd"
    using assms(2) by (simp add: tview_def view_def SetTransactionFromSync_def wtx_newTransaction_def)
  have "resolveConflicts f a (Inr rules) db s None tx upd = Some (s, None, Inl ErrBrokenCrConnection)" for f a db tx
    using groupConflictsByType_no_conflict[OF assms(3)] by (simp add: resolveConflicts_def conflicts_of_type_none resolveViaApp_def)
  then show ?thesis using d assms(1) by (simp add: process_attempt_def)
qed

subsection \<open>Deferred conflicts\<close>


subsection \<open>Sample rounds\<close>

definition sample_row :: string where
  "sample_row = JoinKeyParts [RowPrefix, EncodeIdKeyPart \<lparr>Blessing = ''u'', Name = ''c''\<rparr>, ''row'']"

definition sample_wstore :: wStore where
  "sample_wstore = \<lparr>ist = [headKey sample_row \<mapsto> VersionVal ''1''], s_managed = [''r''], s_seq = 0, watcher = \<lparr>clients = None, logStart = 0\<rparr>\<rparr>"

definition sample_graft :: "string list \<Rightarrow> graftMap" where
  "sample_graft heads = \<lparr>objGraft = [sample_row \<mapsto> \<lparr>newNodes = [''2''], newHeads = heads, graftNodes = [], oldHeadSnap = ''1''\<rparr>], graft_st = None\<rparr>"

definition sample_received :: "string list \<Rightarrow> initiationState" where
  "sample_received heads = \<lparr>config = \<lparr>ic_peer = \<lparr>relName = ''p'', mtTbls = [''m''], addrs = None\<rparr>, ic_sgIds = [], sharedSgPfxs = [], allSgPfxs = [],
       ic_dbId = \<lparr>Blessing = ''u'', Name = ''d''\<rparr>, ic_auth = []\<rparr>, is_local = [], is_remote = [], updLocal = [], updObjects = [(sample_row, new_confSt)],
     dagGraft = sample_graft heads, is_sg = False, is_tx = wtx_newTransaction [''r''] Map.empty\<rparr>"

definition sample_attempt :: attempt_env where
  "sample_attempt = \<lparr>at_begin = sample_wstore, at_commit = \<lparr>ce_store = sample_wstore, ce_clock = Inr 0, ce_err = None\<rparr>, at_now = 0\<rparr>"

definition sample_env :: "CrRule list \<Rightarrow> round_env" where
  "sample_env rules = \<lparr>ro_fuel = 1, ro_app = \<lparr>a_dec = Some, a_enc = (\<lambda>_. []), a_nums = (\<lambda>_. 1), a_now = 0\<rparr>, ro_schema = Inr rules\<rparr>"

definition sample_sync :: sync_mem where
  "sample_sync = \<lparr>w_sync = \<lparr>sync_id = 9, syncState = Map.empty, sgPublishQueue = []\<rparr>, w_batches = Map.empty, w_rands = []\<rparr>"


lemma sample_detect:
  "\<exists>c. detectConflicts (ist (at_begin sample_attempt)) (dagGraft (sample_received [''2''])) (updObjects (sample_received [''2''])) = Inr [(sample_row, c)] \<and> \<not> isConflict c"
  "\<exists>c. detectConflicts (ist (at_begin sample_attempt)) (dagGraft (sample_received [''1'', ''2''])) (updObjects (sample_received [''1'', ''2''])) = Inr [(sample_row, c)] \<and>
     isConflict c \<and> res c = None"
  by (simp_all add: sample_attempt_def sample_wstore_def sample_received_def sample_graft_def detect_one_def hasConflict_def getHead_def new_confSt_def Let_def)

lemma schema_without_resolver_blocks_sync_witness:
  "\<exists>i'. processUpdatedObjects (sample_env []) [sample_attempt] sample_sync None (sample_received [''2'']) =
     Some (sample_sync, None, i', sample_wstore, Some ErrBrokenCrConnection)"
proof -
  obtain c where c: "detectConflicts (ist (at_begin sample_attempt)) (dagGraft (sample_received [''2''])) (updObjects (sample_received [''2''])) = Inr [(sample_row, c)]"
    "\<not> isConflict c" using sample_detect(1) by blast
  show ?thesis using schema_without_resolver_blocks_sync[of "sample_env []" "[]", OF _ c(1), of "[]" sample_sync] c(2)
    by (simp add: sample_env_def sample_attempt_def)
qed


end
