(* ===== verification/Cr_Closure_Props.thy ===== *)
theory Cr_Closure_Props
  imports Cr_Closure
begin

text \<open>
  The groups of \<open>Cr_Closure\<close> are closures: the recursion returns, and the group of an object holds exactly the objects that are
  linked to it through batches. Groups of different objects may overlap all the same.
\<close>

subsection \<open>Linked objects\<close>

definition batches_of :: "dstore \<Rightarrow> updMap \<Rightarrow> string \<Rightarrow> 64 word set" where
  "batches_of tx upd oid =
     (if isDirty upd oid then (case headBatches tx upd oid of Inl _ \<Rightarrow> {} | Inr (l, r) \<Rightarrow> {l, r} - {NoBatchId}) else {})"

definition elems :: "dstore \<Rightarrow> 64 word \<Rightarrow> string set" where
  "elems tx b = (case getBatchElements tx b of Inl _ \<Rightarrow> {} | Inr es \<Rightarrow> fst ` set es)"

inductive_set linked :: "dstore \<Rightarrow> updMap \<Rightarrow> string \<Rightarrow> string set" for tx upd oid where
  self: "oid \<in> linked tx upd oid"
| via: "\<lbrakk>p \<in> linked tx upd oid; b \<in> batches_of tx upd p; q \<in> elems tx b\<rbrakk> \<Longrightarrow> q \<in> linked tx upd oid"

text \<open>What the loop reads is there: nodes of the heads, batches that list their objects, heads of the other objects.\<close>

definition closure_readable :: "dstore \<Rightarrow> updMap \<Rightarrow> bool" where
  "closure_readable tx upd \<longleftrightarrow>
     (\<forall>oid. isDirty upd oid \<longrightarrow> (\<exists>lr. headBatches tx upd oid = Inr lr)) \<and>
     (\<forall>oid b. b \<in> batches_of tx upd oid \<longrightarrow> (\<exists>es. getBatchElements tx b = Inr es) \<and> oid \<in> elems tx b) \<and>
     (\<forall>oid b k. b \<in> batches_of tx upd oid \<longrightarrow> k \<in> elems tx b \<longrightarrow> \<not> isDirty upd k \<longrightarrow> (\<exists>v. getHead tx k = Inr v))"

lemma readable_batch: "closure_readable tx upd \<Longrightarrow> b \<in> batches_of tx upd oid \<Longrightarrow> (\<exists>es. getBatchElements tx b = Inr es) \<and> oid \<in> elems tx b"
  and readable_heads: "closure_readable tx upd \<Longrightarrow> isDirty upd oid \<Longrightarrow> \<exists>l r. headBatches tx upd oid = Inr (l, r)"
  and readable_other: "closure_readable tx upd \<Longrightarrow> b \<in> batches_of tx upd oid \<Longrightarrow> k \<in> elems tx b \<Longrightarrow> \<not> isDirty upd k \<Longrightarrow> \<exists>v. getHead tx k = Inr v"
  unfolding closure_readable_def by (fast, force, blast)

definition seen :: "crGroup \<Rightarrow> 64 word set" where "seen g = fst ` set (batchSource g)"
definition okeys :: "crGroup \<Rightarrow> string set" where "okeys g = fst ` set (batchesByOid g)"

lemma seen_update [simp]: "seen (g\<lparr>batchSource := AList.update b x (batchSource g), batchesByOid := m\<rparr>) = insert b (seen g)"
  "seen (g\<lparr>batchesByOid := m\<rparr>) = seen g" "seen (g\<lparr>batchesByOid := m, batchSource := AList.update b x (batchSource g)\<rparr>) = insert b (seen g)"
  by (simp_all add: seen_def dom_update flip: dom_map_of_conv_image_fst) (auto simp: update_conv')

lemma okeys_update [simp]: "okeys (g\<lparr>batchesByOid := AList.update k x (batchesByOid g)\<rparr>) = insert k (okeys g)"
  "okeys (g\<lparr>batchSource := m\<rparr>) = okeys g"
  by (auto simp: okeys_def update_conv' simp flip: dom_map_of_conv_image_fst)

lemma okeys_add_batch: "fst ` set (fold (add_batch b) ks m) = set ks \<union> fst ` set m"
  by (induction ks arbitrary: m) (auto simp: add_batch_def update_conv' simp flip: dom_map_of_conv_image_fst)

subsection \<open>The walk\<close>

definition same_dirty :: "updMap \<Rightarrow> updMap \<Rightarrow> bool" where
  "same_dirty upd upd' \<longleftrightarrow> (\<forall>oid. isDirty upd' oid = isDirty upd oid \<and> (isDirty upd oid \<longrightarrow> map_of upd' oid = map_of upd oid))"

lemma same_dirty_refl [simp]: "same_dirty upd upd"
  and same_dirty_trans: "same_dirty a b \<Longrightarrow> same_dirty b c \<Longrightarrow> same_dirty a c"
  by (auto simp: same_dirty_def)

lemma headBatches_cong: "map_of upd' oid = map_of upd oid \<Longrightarrow> headBatches tx upd' oid = headBatches tx upd oid"
  by (simp add: headBatches_def getLocalVersion_def getRemoteVersion_def)

lemma same_dirty_batches: "same_dirty upd upd' \<Longrightarrow> batches_of tx upd' = batches_of tx upd"
proof (rule ext)
  fix oid assume "same_dirty upd upd'"
  then have "isDirty upd' oid = isDirty upd oid" "isDirty upd oid \<Longrightarrow> headBatches tx upd' oid = headBatches tx upd oid"
    by (auto simp: same_dirty_def intro: headBatches_cong)
  then show "batches_of tx upd' oid = batches_of tx upd oid" by (simp add: batches_of_def)
qed

lemma same_dirty_readable: "same_dirty upd upd' \<Longrightarrow> closure_readable tx upd' = closure_readable tx upd"
proof -
  assume d: "same_dirty upd upd'"
  then have "isDirty upd' = isDirty upd" "\<And>oid. isDirty upd oid \<Longrightarrow> headBatches tx upd' oid = headBatches tx upd oid"
    by (auto simp: same_dirty_def fun_eq_iff intro: headBatches_cong)
  then show ?thesis using same_dirty_batches[OF d, of tx] by (simp add: closure_readable_def)
qed

lemma addNewConflictObj_dirty:
  assumes "addNewConflictObj tx upd oid = Inr upd'" "\<not> isDirty upd oid"
  shows "same_dirty upd upd'"
  using assms by (auto simp: addNewConflictObj_def same_dirty_def isDirty_def update_conv' elim!: sbindE split: option.splits if_splits)

text \<open>All objects of a batch are in the group, and so are the batches of these objects.\<close>

definition settled :: "dstore \<Rightarrow> updMap \<Rightarrow> string set \<Rightarrow> crGroup \<Rightarrow> 64 word \<Rightarrow> bool" where
  "settled tx upd0 A g b \<longleftrightarrow> elems tx b \<subseteq> okeys g \<and> b \<in> \<Union> (batches_of tx upd0 ` A) \<and> \<Union> (batches_of tx upd0 ` elems tx b) \<subseteq> seen g"

lemma settled_mono: "settled tx upd0 A g b \<Longrightarrow> okeys g \<subseteq> okeys g' \<Longrightarrow> seen g \<subseteq> seen g' \<Longrightarrow> settled tx upd0 A g' b"
  unfolding settled_def by (meson subset_trans)

text \<open>What a part of the walk does to the state: \<open>A\<close> is the set of objects it may add.\<close>

definition walked :: "dstore \<Rightarrow> updMap \<Rightarrow> string set \<Rightarrow> closure_st \<Rightarrow> closure_st \<Rightarrow> bool" where
  "walked tx upd0 A = (\<lambda>(upd, g) (upd', g').
     same_dirty upd upd' \<and> seen g \<subseteq> seen g' \<and> okeys g \<subseteq> okeys g' \<and> okeys g' \<subseteq> okeys g \<union> A \<and>
     (\<forall>b \<in> seen g' - seen g. settled tx upd0 A g' b))"

lemma walked_refl [simp]: "walked tx upd0 A s s"
  by (cases s) (simp add: walked_def)

lemma walked_trans:
  assumes "walked tx upd0 A s s'" "walked tx upd0 A s' s''"
  shows "walked tx upd0 A s s''"
proof -
  obtain u g where s: "s = (u, g)" by (cases s)
  obtain u' g' where s': "s' = (u', g')" by (cases s')
  obtain u'' g'' where s'': "s'' = (u'', g'')" by (cases s'')
  have 1: "same_dirty u u'" "seen g \<subseteq> seen g'" "okeys g \<subseteq> okeys g'" "okeys g' \<subseteq> okeys g \<union> A"
      "\<forall>b \<in> seen g' - seen g. settled tx upd0 A g' b"
    using assms(1) by (simp_all add: walked_def s s')
  have 2: "same_dirty u' u''" "seen g' \<subseteq> seen g''" "okeys g' \<subseteq> okeys g''" "okeys g'' \<subseteq> okeys g' \<union> A"
      "\<forall>b \<in> seen g'' - seen g'. settled tx upd0 A g'' b"
    using assms(2) by (simp_all add: walked_def s' s'')
  have "settled tx upd0 A g'' b" if "b \<in> seen g'' - seen g" for b
    using that 1(5) 2(2,3,5) settled_mono[of tx upd0 A g' b g''] by (cases "b \<in> seen g'") auto
  moreover have "same_dirty u u''" by (rule same_dirty_trans[OF 1(1) 2(1)])
  moreover have "seen g \<subseteq> seen g''" "okeys g \<subseteq> okeys g''" "okeys g'' \<subseteq> okeys g \<union> A" using 1(2-4) 2(2-4) by blast+
  ultimately show ?thesis by (simp add: walked_def s s'')
qed

text \<open>Before a part of the walk: the dirty objects are those of the start, and fuel is left for every unseen batch.\<close>

definition fuelled :: "nat \<Rightarrow> updMap \<Rightarrow> closure_st \<Rightarrow> bool" where
  "fuelled n upd0 = (\<lambda>(upd, g). same_dirty upd0 upd \<and> card (- seen g) < n)"

lemma fuelled_walked: "fuelled n upd0 s \<Longrightarrow> walked tx upd0 A s s' \<Longrightarrow> fuelled n upd0 s'"
proof -
  assume f: "fuelled n upd0 s" and w: "walked tx upd0 A s s'"
  then have "same_dirty upd0 (fst s)" "same_dirty (fst s) (fst s')" by (auto simp: fuelled_def walked_def split_beta)
  then have "same_dirty upd0 (fst s')" by (rule same_dirty_trans)
  moreover have "card (- seen (snd s')) \<le> card (- seen (snd s))" using w by (intro card_mono) (auto simp: walked_def split_beta)
  ultimately show ?thesis using f by (auto simp: fuelled_def split_beta)
qed

lemma walked_seen: "walked tx upd0 A s s' \<Longrightarrow> seen (snd s) \<subseteq> seen (snd s')"
  by (auto simp: walked_def split_beta)

lemma each_oid_walked:
  assumes "\<And>oid s. oid \<in> set oids \<Longrightarrow> fuelled n upd0 s \<Longrightarrow>
      \<exists>s'. f oid s = Some (Inr s') \<and> walked tx upd0 A s s' \<and> batches_of tx upd0 oid \<subseteq> seen (snd s')"
    and "fuelled n upd0 s"
  shows "\<exists>s'. each_oid f oids s = Some (Inr s') \<and> walked tx upd0 A s s' \<and> (\<forall>oid\<in>set oids. batches_of tx upd0 oid \<subseteq> seen (snd s'))"
  using assms
proof (induction oids arbitrary: s)
  case (Cons oid oids)
  obtain s1 where 1: "f oid s = Some (Inr s1)" "walked tx upd0 A s s1" "batches_of tx upd0 oid \<subseteq> seen (snd s1)"
    using Cons.prems by (metis list.set_intros(1))
  obtain s2 where 2: "each_oid f oids s1 = Some (Inr s2)" "walked tx upd0 A s1 s2" "\<forall>oid\<in>set oids. batches_of tx upd0 oid \<subseteq> seen (snd s2)"
    using Cons.IH[of s1] Cons.prems(1) fuelled_walked[OF Cons.prems(2) 1(2)] by (metis list.set_intros(2))
  have "batches_of tx upd0 oid \<subseteq> seen (snd s2)" using 1(3) walked_seen[OF 2(2)] by blast
  then show ?case using 1(1) 2 walked_trans[OF 1(2) 2(2)] by auto
qed simp

lemma processBatchId_walked:
  assumes rec: "\<And>oid s. oid \<in> elems tx b \<Longrightarrow> fuelled n upd0 s \<Longrightarrow>
      \<exists>s'. rec_for oid s = Some (Inr s') \<and> walked tx upd0 A s s' \<and> batches_of tx upd0 oid \<subseteq> seen (snd s')"
    and f: "fuelled (Suc n) upd0 s" and b: "b \<noteq> NoBatchId \<Longrightarrow> \<exists>p\<in>A. b \<in> batches_of tx upd0 p"
    and r: "closure_readable tx upd0" and A: "b \<noteq> NoBatchId \<Longrightarrow> elems tx b \<subseteq> A"
  shows "\<exists>s'. processBatchId rec_for tx b src s = Some (Inr s') \<and> walked tx upd0 A s s' \<and> (b \<noteq> NoBatchId \<longrightarrow> b \<in> seen (snd s'))"
proof -
  obtain upd g where s: "s = (upd, g)" by (cases s)
  show ?thesis
  proof (cases "b = NoBatchId \<or> b \<in> seen g")
    case True
    then have "b = NoBatchId \<or> map_of (batchSource g) b \<noteq> None" by (simp add: seen_def map_of_eq_None_iff)
    then show ?thesis using True by (auto simp: processBatchId_def s)
  next
    case False
    then have nb: "b \<noteq> NoBatchId" and m: "map_of (batchSource g) b = None" by (auto simp: seen_def map_of_eq_None_iff)
    from b[OF nb] obtain es where es: "getBatchElements tx b = Inr es" using readable_batch[OF r] by blast
    then have el: "elems tx b = fst ` set es" by (simp add: elems_def)
    let ?g = "g\<lparr>batchesByOid := fold (add_batch b) (map fst es) (batchesByOid g), batchSource := AList.update b src (batchSource g)\<rparr>"
    have sg: "seen ?g = insert b (seen g)" by simp
    have kg: "okeys ?g = elems tx b \<union> okeys g" by (simp add: okeys_def okeys_add_batch el)
    have "- seen ?g \<subset> - seen g" using False sg by auto
    then have "card (- seen ?g) < card (- seen g)" by (intro psubset_card_mono) auto
    then have f1: "fuelled n upd0 (upd, ?g)" using f by (simp add: fuelled_def s)
    from each_oid_walked[of "map fst es" n upd0 rec_for tx A, OF _ f1] rec el
    obtain s' where w: "each_oid rec_for (map fst es) (upd, ?g) = Some (Inr s')" "walked tx upd0 A (upd, ?g) s'"
        "\<forall>oid\<in>elems tx b. batches_of tx upd0 oid \<subseteq> seen (snd s')" by auto
    obtain u' g' where s': "s' = (u', g')" by (cases s')
    have w': "same_dirty upd u'" "insert b (seen g) \<subseteq> seen g'" "elems tx b \<union> okeys g \<subseteq> okeys g'" "okeys g' \<subseteq> elems tx b \<union> okeys g \<union> A"
        "\<forall>c \<in> seen g' - insert b (seen g). settled tx upd0 A g' c"
      using w(2) unfolding walked_def sg kg s' prod.case by blast+
    have "settled tx upd0 A g' b"
      using w'(3) b[OF nb] w(3) s' by (auto simp: settled_def)
    then have "\<forall>c \<in> seen g' - seen g. settled tx upd0 A g' c"
      using w'(5) by blast
    then have "walked tx upd0 A s s'" using w'(1-4) A[OF nb] unfolding walked_def s s' prod.case by blast
    moreover have "b \<in> seen (snd s')" using walked_seen[OF w(2)] sg by auto
    moreover have "processBatchId rec_for tx b src s = Some (Inr s')" using nb m es w(1) by (simp add: processBatchId_def s)
    ultimately show ?thesis by blast
  qed
qed

lemma groupFor_walked:
  assumes r: "closure_readable tx upd0" and A: "\<And>q b. q \<in> A \<Longrightarrow> b \<in> batches_of tx upd0 q \<Longrightarrow> elems tx b \<subseteq> A"
  shows "fuelled n upd0 s \<Longrightarrow> oid \<in> A \<Longrightarrow> isDirty upd0 oid \<or> (\<exists>v. getHead tx oid = Inr v) \<Longrightarrow>
    \<exists>s'. groupFor n tx oid s = Some (Inr s') \<and> walked tx upd0 A s s' \<and> batches_of tx upd0 oid \<subseteq> seen (snd s') \<and>
      (isDirty upd0 oid \<longrightarrow> batches_of tx upd0 oid = {} \<longrightarrow> oid \<in> okeys (snd s'))"
proof (induction n arbitrary: oid s)
  case 0
  then show ?case by (simp add: fuelled_def split_beta)
next
  case (Suc n)
  obtain upd g where s: "s = (upd, g)" by (cases s)
  have d: "same_dirty upd0 upd" using Suc.prems(1) by (simp add: fuelled_def s)
  then have dirty: "isDirty upd oid = isDirty upd0 oid" by (simp add: same_dirty_def)
  show ?case
  proof (cases "isDirty upd0 oid")
    case False
    then obtain v where v: "getHead tx oid = Inr v" using Suc.prems(3) by blast
    then obtain upd' where a: "addNewConflictObj tx upd oid = Inr upd'" by (simp add: addNewConflictObj_def or_die_def)
    have "walked tx upd0 A s (upd', g)" using addNewConflictObj_dirty[OF a] False dirty by (simp add: walked_def s)
    then show ?thesis using False dirty a by (auto simp: groupFor.simps s batches_of_def)
  next
    case True
    obtain l q where h0: "headBatches tx upd0 oid = Inr (l, q)" using readable_heads[OF r True] by blast
    have "map_of upd oid = map_of upd0 oid" using d True by (simp add: same_dirty_def)
    from headBatches_cong[OF this] have h: "headBatches tx upd oid = Inr (l, q)" using h0 by simp
    have bo: "batches_of tx upd0 oid = {l, q} - {NoBatchId}" using True h0 by (simp add: batches_of_def)
    show ?thesis
    proof (cases "l = NoBatchId \<and> q = NoBatchId")
      case t: True
      let ?g = "g\<lparr>batchesByOid := AList.update oid [] (batchesByOid g)\<rparr>"
      have "walked tx upd0 A s (upd, ?g)" using Suc.prems(2) by (auto simp: walked_def s)
      then show ?thesis using True dirty h t bo by (auto simp: groupFor.simps s)
    next
      case False
      have rec: "\<exists>s'. groupFor n tx k t = Some (Inr s') \<and> walked tx upd0 A t s' \<and> batches_of tx upd0 k \<subseteq> seen (snd s')"
        if "b \<in> batches_of tx upd0 oid" "k \<in> elems tx b" "fuelled n upd0 t" for b k t
        using Suc.IH[of t k] that A[OF Suc.prems(2) that(1)] readable_other[OF r that(1,2)] by blast
      have pb: "\<exists>s'. processBatchId (groupFor n tx) tx b src t = Some (Inr s') \<and> walked tx upd0 A t s' \<and> (b \<noteq> NoBatchId \<longrightarrow> b \<in> seen (snd s'))"
        if "b \<in> {l, q}" "fuelled (Suc n) upd0 t" for b src t
      proof (cases "b = NoBatchId")
        case True
        then show ?thesis by (auto simp: processBatchId_def split_beta)
      next
        case nb: False
        then have "b \<in> batches_of tx upd0 oid" using that(1) bo by simp
        with rec processBatchId_walked[of tx b n upd0 "groupFor n tx" A t src, OF _ that(2) _ r] A[OF Suc.prems(2)] Suc.prems(2) show ?thesis by blast
      qed
      obtain s1 where 1: "processBatchId (groupFor n tx) tx l BatchSourceLocal s = Some (Inr s1)" "walked tx upd0 A s s1"
          "l \<noteq> NoBatchId \<longrightarrow> l \<in> seen (snd s1)" using pb[of l s] Suc.prems(1) by blast
      obtain s2 where 2: "processBatchId (groupFor n tx) tx q BatchSourceRemote s1 = Some (Inr s2)" "walked tx upd0 A s1 s2"
          "q \<noteq> NoBatchId \<longrightarrow> q \<in> seen (snd s2)" using pb[of q s1] fuelled_walked[OF Suc.prems(1) 1(2)] by blast
      have "groupFor (Suc n) tx oid s = Some (Inr s2)" using True dirty h False 1(1) 2(1) by (auto simp: groupFor.simps s)
      moreover have "batches_of tx upd0 oid \<subseteq> seen (snd s2)" using bo 1(3) 2(3) walked_seen[OF 2(2)] by auto
      moreover have "batches_of tx upd0 oid \<noteq> {}" using bo False by auto
      ultimately show ?thesis using walked_trans[OF 1(2) 2(2)] by blast
    qed
  qed
qed

lemma groupFor_closure:
  assumes "closure_readable tx upd" "isDirty upd oid" "2 ^ 64 < fuel"
  shows "\<exists>upd' g. groupFor fuel tx oid (upd, initCrGroup) = Some (Inr (upd', g)) \<and>
    okeys g = linked tx upd oid \<and> seen g = \<Union> (batches_of tx upd ` linked tx upd oid) \<and> same_dirty upd upd'"
proof -
  have card: "card (- seen initCrGroup) = 2 ^ 64" by (simp add: seen_def initCrGroup_def card_word)
  have f: "fuelled fuel upd (upd, initCrGroup)" using assms(3) card by (simp add: fuelled_def)
  have A: "elems tx b \<subseteq> linked tx upd oid" if "q \<in> linked tx upd oid" "b \<in> batches_of tx upd q" for q b
    using that linked.via by blast
  obtain upd' g where w: "groupFor fuel tx oid (upd, initCrGroup) = Some (Inr (upd', g))" "walked tx upd (linked tx upd oid) (upd, initCrGroup) (upd', g)"
      "batches_of tx upd oid \<subseteq> seen g" "batches_of tx upd oid = {} \<longrightarrow> oid \<in> okeys g"
    using groupFor_walked[where tx = tx and ?upd0.0 = upd and A = "linked tx upd oid" and n = fuel and s = "(upd, initCrGroup)" and oid = oid]
      assms(1,2) A f linked.self by fastforce
  have e: "seen initCrGroup = {}" "okeys initCrGroup = {}" by (simp_all add: seen_def okeys_def initCrGroup_def)
  have k: "okeys g \<subseteq> linked tx upd oid" "\<And>b. b \<in> seen g \<Longrightarrow> elems tx b \<subseteq> okeys g"
      "\<And>b. b \<in> seen g \<Longrightarrow> b \<in> \<Union> (batches_of tx upd ` linked tx upd oid)" "\<And>b. b \<in> seen g \<Longrightarrow> \<Union> (batches_of tx upd ` elems tx b) \<subseteq> seen g"
    using w(2) unfolding walked_def e settled_def prod.case by blast+
  have o: "oid \<in> okeys g"
  proof (cases "batches_of tx upd oid = {}")
    case False
    then obtain b where b: "b \<in> batches_of tx upd oid" by blast
    then show ?thesis using k(2)[of b] w(3) readable_batch[OF assms(1) b] by blast
  qed (use w(4) in simp)
  have all: "p \<in> okeys g \<and> batches_of tx upd p \<subseteq> seen g" if "p \<in> linked tx upd oid" for p
    using that
  proof induction
    case (via p b q)
    then have "b \<in> seen g" by blast
    then show ?case using k(2,4)[of b] via.hyps(3) by blast
  qed (use o w(3) in simp)
  have "okeys g = linked tx upd oid" using k(1) all by blast
  moreover have "seen g = \<Union> (batches_of tx upd ` linked tx upd oid)" using k(3) all by blast
  moreover have "same_dirty upd upd'" using w(2) by (simp add: walked_def)
  ultimately show ?thesis using w(1) by blast
qed

text \<open>
  C19: the group of an updated object is its closure. The recursion returns as soon as it has fuel for every batch id, and
  the group then lists exactly the objects that are linked to the object through batches of local or remote heads, and
  exactly those batches.
\<close>

theorem groupFor_computes_closure:
  assumes "closure_readable tx upd" "isDirty upd oid" "2 ^ 64 < fuel"
  shows "\<exists>upd' g. groupFor fuel tx oid (upd, initCrGroup) = Some (Inr (upd', g)) \<and>
    fst ` set (batchesByOid g) = linked tx upd oid \<and> fst ` set (batchSource g) = \<Union> (batches_of tx upd ` linked tx upd oid)"
  using groupFor_closure[OF assms] by (auto simp: okeys_def seen_def)

text \<open>Two conflicts whose local versions were written together with an object that is not in conflict.\<close>

definition sample_batch_node :: "64 word \<Rightarrow> DagNode" where
  "sample_batch_node b = \<lparr>Level = 0, Parents = [], Logrec = [], BatchId = b, Deleted = False, PermId = [], PermVers = []\<rparr>"

definition sample_cr_store :: dstore where
  "sample_cr_store = Map.empty(nodeKey ''a'' ''1'' \<mapsto> NodeVal (sample_batch_node 1), nodeKey ''a'' ''2'' \<mapsto> NodeVal (sample_batch_node 0),
     nodeKey ''c'' ''1'' \<mapsto> NodeVal (sample_batch_node 2), nodeKey ''c'' ''2'' \<mapsto> NodeVal (sample_batch_node 0), headKey ''b'' \<mapsto> VersionVal ''1'',
     batchKey 1 \<mapsto> BatchVal \<lparr>Objects = [(''a'', ''1''), (''b'', ''1'')], LinkedObjects = [], Count = 2\<rparr>,
     batchKey 2 \<mapsto> BatchVal \<lparr>Objects = [(''c'', ''1''), (''b'', ''1'')], LinkedObjects = [], Count = 2\<rparr>)"

definition sample_conflict :: objConflictState where
  "sample_conflict = new_confSt\<lparr>isConflict := True, oldHead := ''1'', newHead := ''2''\<rparr>"

definition sample_cr_upd :: updMap where
  "sample_cr_upd = [(''a'', sample_conflict), (''c'', sample_conflict)]"

lemmas closure_sample_keys = nodeKey_def headKey_def batchKey_def JoinKeyParts_def dagNodePrefix_def dagHeadPrefix_def dagBatchPrefix_def SyncPrefix_def

lemma sample_cr_batches:
  "headBatches sample_cr_store sample_cr_upd ''a'' = Inr (1, 0)" "headBatches sample_cr_store sample_cr_upd ''c'' = Inr (2, 0)"
  "getBatchElements sample_cr_store 1 = Inr [(''a'', ''1''), (''b'', ''1'')]" "getBatchElements sample_cr_store 2 = Inr [(''c'', ''1''), (''b'', ''1'')]"
  "getHead sample_cr_store ''b'' = Inr ''1''"
  by (simp_all add: headBatches_def getLocalVersion_def getRemoteVersion_def getBatchId_def getBatchElements_def or_die_def getNode_def getBatch_def getHead_def
      sample_cr_upd_def sample_conflict_def new_confSt_def sample_cr_store_def sample_batch_node_def NoVersion_def NoBatchId_def hex_digit_def closure_sample_keys)

lemma sample_cr_dirty: "isDirty sample_cr_upd oid \<longleftrightarrow> oid = ''a'' \<or> oid = ''c''"
  by (auto simp: isDirty_def sample_cr_upd_def sample_conflict_def new_confSt_def)

lemma sample_cr_links: "batches_of sample_cr_store sample_cr_upd oid = (if oid = ''a'' then {1} else if oid = ''c'' then {2} else {})"
  "elems sample_cr_store 1 = {''a'', ''b''}" "elems sample_cr_store 2 = {''c'', ''b''}"
  using sample_cr_batches by (auto simp: batches_of_def sample_cr_dirty elems_def NoBatchId_def)

lemma sample_cr_readable: "closure_readable sample_cr_store sample_cr_upd"
  using sample_cr_batches by (auto simp: closure_readable_def sample_cr_links sample_cr_dirty split: if_splits)

lemma sample_cr_linked: "linked sample_cr_store sample_cr_upd ''a'' = {''a'', ''b''}"
proof
  show "linked sample_cr_store sample_cr_upd ''a'' \<subseteq> {''a'', ''b''}"
  proof
    fix x assume "x \<in> linked sample_cr_store sample_cr_upd ''a''"
    then show "x \<in> {''a'', ''b''}" by induction (auto simp: sample_cr_links split: if_splits)
  qed
  have "''b'' \<in> linked sample_cr_store sample_cr_upd ''a''" by (rule linked.via[OF linked.self, of 1]) (simp_all add: sample_cr_links)
  then show "{''a'', ''b''} \<subseteq> linked sample_cr_store sample_cr_upd ''a''" by (auto intro: linked.self)
qed

lemma groupFor_computes_closure_witness:
  "\<exists>upd' g. groupFor (2 ^ 64 + 1) sample_cr_store ''a'' (sample_cr_upd, initCrGroup) = Some (Inr (upd', g)) \<and> fst ` set (batchesByOid g) = {''a'', ''b''}"
  using groupFor_computes_closure[OF sample_cr_readable, of "''a''" "2 ^ 64 + 1"] by (auto simp: sample_cr_dirty sample_cr_linked)

subsection \<open>Groups that overlap\<close>

lemma set_fold_insert: "set (fold List.insert xs ys) = set xs \<union> set ys"
  by (induction xs arbitrary: ys) auto

lemma linked_same_dirty: "same_dirty upd upd' \<Longrightarrow> linked tx upd' oid = linked tx upd oid"
proof -
  assume "same_dirty upd upd'"
  then have b: "batches_of tx upd' = batches_of tx upd" by (rule same_dirty_batches)
  have "x \<in> linked tx upd oid" if "x \<in> linked tx upd' oid" for x using that by induction (auto simp: b intro: linked.intros)
  moreover have "x \<in> linked tx upd' oid" if "x \<in> linked tx upd oid" for x using that by induction (auto simp flip: b intro: linked.intros)
  ultimately show ?thesis by blast
qed

text \<open>
  the groups that are sent to the application need not be disjoint. Two conflicts that are not linked, and a third object
  that both are linked to (it is not updated itself, so that the walk ends there), give two groups that both contain
  the third object: the application is asked about it twice, and its second answer replaces the first.
\<close>

theorem closures_may_overlap:
  assumes "closure_readable tx upd" "isDirty upd p" "isDirty upd q" "2 ^ 64 < fuel"
    and "q \<notin> linked tx upd p" "x \<in> linked tx upd p" "x \<in> linked tx upd q"
  shows "\<exists>upd' g h oids. groupConflicts fuel tx [p, q] (upd, \<lparr>cr_groups = [], cr_oids = []\<rparr>) = Some (Inr (upd', \<lparr>cr_groups = [g, h], cr_oids = oids\<rparr>)) \<and>
    x \<in> fst ` set (batchesByOid g) \<and> x \<in> fst ` set (batchesByOid h)"
proof -
  obtain u g where 1: "groupFor fuel tx p (upd, initCrGroup) = Some (Inr (u, g))" "okeys g = linked tx upd p" "same_dirty upd u"
    using groupFor_closure[OF assms(1,2,4)] by blast
  have "closure_readable tx u" "isDirty u q" using assms(1,3) same_dirty_readable[OF 1(3)] 1(3) by (auto simp: same_dirty_def)
  then obtain v h where 2: "groupFor fuel tx q (u, initCrGroup) = Some (Inr (v, h))" "okeys h = linked tx u q"
    using groupFor_closure[OF _ _ assms(4)] by blast
  have "set (fold List.insert (map fst (batchesByOid g)) []) = okeys g"
    by (simp add: set_fold_insert okeys_def)
  then have "q \<notin> set (fold List.insert (map fst (batchesByOid g)) [])" using 1(2) assms(5) by simp
  then show ?thesis using 1 2 assms(6,7) linked_same_dirty[OF 1(3)] by (auto simp: okeys_def)
qed

lemma closures_may_overlap_witness:
  "\<exists>upd' g h oids. groupConflicts (2 ^ 64 + 1) sample_cr_store [''a'', ''c''] (sample_cr_upd, \<lparr>cr_groups = [], cr_oids = []\<rparr>) =
     Some (Inr (upd', \<lparr>cr_groups = [g, h], cr_oids = oids\<rparr>)) \<and> ''b'' \<in> fst ` set (batchesByOid g) \<and> ''b'' \<in> fst ` set (batchesByOid h)"
proof -
  have "''b'' \<in> linked sample_cr_store sample_cr_upd ''c''" by (rule linked.via[OF linked.self, of 2]) (simp_all add: sample_cr_links)
  then show ?thesis
    using closures_may_overlap[OF sample_cr_readable, of "''a''" "''c''" "2 ^ 64 + 1" "''b''"] by (simp add: sample_cr_dirty sample_cr_linked)
qed

end
