(* ===== verification/Dag_Walk.thy ===== *)
theory Dag_Walk
  imports Dag
begin

text \<open>
  What the traversal of ancestors guarantees, once for every callback that leaves the other nodes alone
  (locale \<open>ancestor_walk\<close>), and what follows for its users: adding a parent keeps the history acyclic,
  pruning deletes exactly the ancestors.
\<close>

subsection \<open>The nodes of an object\<close>

definition node_of :: "dstore \<Rightarrow> string \<Rightarrow> string \<Rightarrow> DagNode option" where
  "node_of st oid v = (case getNode st oid v of Inr n \<Rightarrow> Some n | Inl _ \<Rightarrow> None)"

lemma nodeKey_inject [simp]: "nodeKey oid v = nodeKey oid w \<longleftrightarrow> v = w"
  by (simp add: nodeKey_def JoinKeyParts_def)

lemma node_of_setNode:
  "v \<noteq> NoVersion \<Longrightarrow> node_of (st(nodeKey oid v \<mapsto> NodeVal n)) oid w = (if w = v then Some n else node_of st oid w)"
  by (simp add: node_of_def getNode_def)

lemma node_of_delNode:
  "node_of (st(nodeKey oid v := None)) oid w = (if w = v then None else node_of st oid w)"
  by (simp add: node_of_def getNode_def)

text \<open>The versions that lead back from \<open>start\<close> through existing nodes, in a history \<open>N\<close>.\<close>

inductive_set ancestry :: "(string \<Rightarrow> DagNode option) \<Rightarrow> string set \<Rightarrow> string set" for N start where
  start: "v \<in> start \<Longrightarrow> v \<in> ancestry N start"
| parent: "v \<in> ancestry N start \<Longrightarrow> N v = Some n \<Longrightarrow> p \<in> set (Parents n) \<Longrightarrow> p \<in> ancestry N start"

lemma ancestry_closed:
  assumes "start \<subseteq> V" "\<And>v n. v \<in> V \<Longrightarrow> N v = Some n \<Longrightarrow> set (Parents n) \<subseteq> V"
  shows "ancestry N start \<subseteq> V"
proof
  fix v assume "v \<in> ancestry N start"
  then show "v \<in> V" by induction (use assms in blast)+
qed

lemma finite_ancestry:
  assumes "finite (dom N)" "finite start"
  shows "finite (ancestry N start)"
proof -
  have "ancestry N start \<subseteq> start \<union> (\<Union>v\<in>dom N. set (Parents (the (N v))))"
    by (rule ancestry_closed) force+
  then show ?thesis using assms by (auto intro: finite_subset)
qed

subsection \<open>The traversal\<close>

lemma push_parents_spec:
  assumes "push_parents ps visited queue = (visited', queue')"
  obtains new where "queue' = queue @ new" "distinct new" "set new = set ps - set visited" "set visited' = set visited \<union> set ps"
  using assms
proof (induction ps visited queue arbitrary: thesis rule: push_parents.induct)
  case (1 visited queue)
  then show ?case by simp
next
  case (2 parent ps visited queue)
  show ?case
  proof (cases "parent \<in> set visited")
    case True
    then show ?thesis using 2 by (auto simp: insert_absorb)
  next
    case False
    then obtain new where "queue' = (queue @ [parent]) @ new" "distinct new" "set new = set ps - set (parent # visited)"
        "set visited' = set (parent # visited) \<union> set ps"
      using "2.IH"(1)[OF False] "2.prems"(2) by auto
    with "2.prems"(1)[of "parent # new"] False show ?thesis by auto
  qed
qed

text \<open>Running the callback over a list of versions, up to its first error.\<close>

fun run_callback :: "(string \<Rightarrow> DagNode option) \<Rightarrow> (string \<Rightarrow> DagNode \<Rightarrow> 's \<Rightarrow> 's \<times> derr option) \<Rightarrow> string list \<Rightarrow> 's \<Rightarrow> 's \<times> derr option" where
  "run_callback N cb [] s = (s, None)"
| "run_callback N cb (v # vs) s =
     (let (s', e) = cb v (the (N v)) s in if e \<noteq> None then (s', e) else run_callback N cb vs s')"

text \<open>The history \<open>N\<close> is what is read at \<open>w\<close>.\<close>

definition reads_as :: "(string \<Rightarrow> DagNode option) \<Rightarrow> (string \<Rightarrow> derr + DagNode) \<Rightarrow> string \<Rightarrow> bool" where
  "reads_as N g w \<longleftrightarrow> (case N w of Some n \<Rightarrow> g w = Inr n | None \<Rightarrow> \<exists>e. g w = Inl e \<and> e \<noteq> ExitFatal)"

lemma reads_as_eq: "g w = h w \<Longrightarrow> reads_as N g w = reads_as N h w"
  by (simp add: reads_as_def split: option.split)

locale ancestor_walk =
  fixes get :: "'s \<Rightarrow> string \<Rightarrow> derr + DagNode"
    and callback :: "string \<Rightarrow> DagNode \<Rightarrow> 's \<Rightarrow> 's \<times> derr option"
    and Inv :: "'s \<Rightarrow> bool"
  assumes callback_local: "Inv s \<Longrightarrow> get s v = Inr n \<Longrightarrow> w \<noteq> v \<Longrightarrow> get (fst (callback v n s)) w = get s w"
    and callback_inv: "Inv s \<Longrightarrow> get s v = Inr n \<Longrightarrow> Inv (fst (callback v n s))"
begin

lemma loop_correct:
  assumes nodes_finite: "finite (dom N)" and "set queue \<union> D = set visited" "set queue \<inter> D = {}" "distinct queue"
    and "set visited \<subseteq> R" "R = ancestry N start" "start \<subseteq> set visited" "finite start"
    and "\<And>v n. v \<in> D \<Longrightarrow> N v = Some n \<Longrightarrow> set (Parents n) \<subseteq> set visited"
    and "\<And>w. w \<in> R \<Longrightarrow> w \<notin> D \<Longrightarrow> reads_as N (get s) w" "Inv s"
  shows "\<exists>vs. distinct vs \<and> set vs = (R \<inter> dom N) - D \<and> ancestor_loop get callback visited queue s = Some (run_callback N callback vs s)"
  using assms(2-)
proof (induction "card (R - set visited) + length queue" arbitrary: visited queue D s rule: less_induct)
  case less
  note unf = ancestor_loop.simps[of get callback visited queue s]
  have fin: "finite R" using less.prems(5,7) finite_ancestry[OF nodes_finite] by simp
  show ?case
  proof (cases queue)
    case Nil
    then have "R \<subseteq> set visited" unfolding less.prems(5)
      using less.prems(1,6,8) by (intro ancestry_closed) auto
    then have "(R \<inter> dom N) - D = {}" using Nil less.prems(1) by auto
    then show ?thesis using Nil unf by (intro exI[of _ "[]"]) simp
  next
    case (Cons v q)
    have v: "v \<in> R" "v \<notin> D" using Cons less.prems(1,2,4) by auto
    have ag: "reads_as N (get s) v" using less.prems(9) v by blast
    show ?thesis
    proof (cases "N v")
      case None
      with ag obtain e where e: "get s v = Inl e" "e \<noteq> ExitFatal" by (auto simp: reads_as_def)
      have "\<exists>vs. distinct vs \<and> set vs = (R \<inter> dom N) - insert v D \<and>
          ancestor_loop get callback visited q s = Some (run_callback N callback vs s)"
      proof (rule less.hyps)
        show "card (R - set visited) + length q < card (R - set visited) + length queue" using Cons by simp
        show "set q \<union> insert v D = set visited" "set q \<inter> insert v D = {}" "distinct q"
          using Cons less.prems(1,2,3) by auto
        show "\<And>w n. w \<in> insert v D \<Longrightarrow> N w = Some n \<Longrightarrow> set (Parents n) \<subseteq> set visited" using less.prems(8) None by auto
        show "\<And>w. w \<in> R \<Longrightarrow> w \<notin> insert v D \<Longrightarrow> reads_as N (get s) w" using less.prems(9) by simp
      qed (fact less.prems(4-7,10))+
      moreover have "(R \<inter> dom N) - insert v D = (R \<inter> dom N) - D" using None by auto
      ultimately show ?thesis using unf Cons e by simp
    next
      case (Some n)
      then have g: "get s v = Inr n" using ag by (simp add: reads_as_def)
      obtain visited' q' where p: "push_parents (Parents n) visited q = (visited', q')" by fastforce
      obtain new where new: "q' = q @ new" "distinct new" "set new = set (Parents n) - set visited"
          "set visited' = set visited \<union> set (Parents n)"
        using push_parents_spec[OF p] .
      obtain s' e where c: "callback v n s = (s', e)" by fastforce
      have inR: "set (Parents n) \<subseteq> R" using v(1) Some less.prems(5) ancestry.parent by blast
      show ?thesis
      proof (cases e)
        case (Some er)
        have "finite ((R \<inter> dom N) - insert v D)" using fin by simp
        from finite_distinct_list[OF this] obtain rest where rest: "set rest = (R \<inter> dom N) - insert v D" "distinct rest" by metis
        have "ancestor_loop get callback visited queue s = Some (run_callback N callback (v # rest) s)"
          using unf Cons g p c \<open>N v = Some n\<close> Some by simp
        moreover have "distinct (v # rest)" "set (v # rest) = (R \<inter> dom N) - D"
          using rest v \<open>N v = Some n\<close> by auto
        ultimately show ?thesis by blast
      next
        case None
        have s': "s' = fst (callback v n s)" using c by simp
        have eq: "get s' w = get s w" if "w \<noteq> v" for w
          using callback_local[OF less.prems(10) g that] s' by simp
        have "\<exists>vs. distinct vs \<and> set vs = (R \<inter> dom N) - insert v D \<and>
            ancestor_loop get callback visited' q' s' = Some (run_callback N callback vs s')"
        proof (rule less.hyps)
          have "card (R - set visited') = card (R - set visited) - card (set new)"
            using new(3,4) inR fin by (subst card_Diff_subset[symmetric]) (auto intro: arg_cong[where f = card])
          moreover have "card (set new) \<le> card (R - set visited)"
            using new(3) inR fin by (intro card_mono) auto
          ultimately show "card (R - set visited') + length q' < card (R - set visited) + length queue"
            using new(1,2) Cons distinct_card[OF new(2)] by simp
          show "set q' \<union> insert v D = set visited'" using new(1,3,4) Cons less.prems(1) by auto
          show "set q' \<inter> insert v D = {}" using new(1,3) Cons less.prems(1,2,3) by auto
          show "distinct q'" using new(1-3) Cons less.prems(1,3) by auto
          show "set visited' \<subseteq> R" using new(4) inR less.prems(4) by auto
          show "start \<subseteq> set visited'" using new(4) less.prems(6) by auto
          show "\<And>w m. w \<in> insert v D \<Longrightarrow> N w = Some m \<Longrightarrow> set (Parents m) \<subseteq> set visited'"
            using new(4) less.prems(8) Some by fastforce
          show "\<And>w. w \<in> R \<Longrightarrow> w \<notin> insert v D \<Longrightarrow> reads_as N (get s') w"
            using less.prems(9) eq by (metis insertCI reads_as_eq)
          show "Inv s'" using callback_inv[OF less.prems(10) g] s' by simp
        qed (fact less.prems(5,7))+
        then obtain vs where vs: "distinct vs" "set vs = (R \<inter> dom N) - insert v D"
            "ancestor_loop get callback visited' q' s' = Some (run_callback N callback vs s')" by blast
        have "ancestor_loop get callback visited queue s = Some (run_callback N callback (v # vs) s)"
          using unf Cons g p c Some None vs(3) by simp
        moreover have "distinct (v # vs)" "set (v # vs) = (R \<inter> dom N) - D" using vs(1,2) v Some by auto
        ultimately show ?thesis by blast
      qed
    qed
  qed
qed

theorem walk_correct:
  assumes "finite (dom N)" "distinct start" "\<And>w. w \<in> ancestry N (set start) \<Longrightarrow> reads_as N (get s) w" "Inv s"
  shows "\<exists>vs. distinct vs \<and> set vs = ancestry N (set start) \<inter> dom N \<and>
    forEachAncestor get start callback s = Some (run_callback N callback vs s)"
  unfolding forEachAncestor_def
  using loop_correct[OF assms(1), of start "{}" start "ancestry N (set start)" "set start" s] assms(2-) ancestry.start
  by (auto simp: subset_iff)

end

subsection \<open>Histories\<close>

definition dag_edges :: "(string \<Rightarrow> DagNode option) \<Rightarrow> (string \<times> string) set" where
  "dag_edges N = {(v, p). \<exists>n. N v = Some n \<and> p \<in> set (Parents n)}"

text \<open>The history of one object: finitely many nodes, no version twice among the parents of a node, no cycle.\<close>

definition hist_ok :: "(string \<Rightarrow> DagNode option) \<Rightarrow> bool" where
  "hist_ok N \<longleftrightarrow> finite (dom N) \<and> acyclic (dag_edges N) \<and>
     (\<forall>v n. N v = Some n \<longrightarrow> distinct (Parents n) \<and> NoVersion \<notin> set (Parents n))"

lemma ancestry_iff: "v \<in> ancestry N S \<longleftrightarrow> (\<exists>s\<in>S. (s, v) \<in> (dag_edges N)\<^sup>*)"
proof
  assume "v \<in> ancestry N S"
  then show "\<exists>s\<in>S. (s, v) \<in> (dag_edges N)\<^sup>*"
  proof induction
    case (parent v n p)
    then have "(v, p) \<in> dag_edges N" by (auto simp: dag_edges_def)
    with parent.IH show ?case by (meson rtrancl.rtrancl_into_rtrancl)
  qed auto
next
  assume "\<exists>s\<in>S. (s, v) \<in> (dag_edges N)\<^sup>*"
  then obtain s where s: "s \<in> S" "(s, v) \<in> (dag_edges N)\<^sup>*" by blast
  from s(2) show "v \<in> ancestry N S"
    by induction (auto simp: dag_edges_def intro: ancestry.intros s(1))
qed

lemma node_of_reads: "w \<noteq> NoVersion \<Longrightarrow> reads_as (node_of st oid) (getNode st oid) w"
  by (auto simp: reads_as_def node_of_def getNode_def split: option.splits dval.splits)

lemma getNode_node_of: "getNode st oid v = Inr n \<longleftrightarrow> node_of st oid v = Some n"
  by (auto simp: node_of_def split: sum.splits)

lemma node_of_NoVersion [simp]: "node_of st oid NoVersion = None"
  by (simp add: node_of_def getNode_def)

lemma ancestry_not_NoVersion:
  assumes "hist_ok N" "NoVersion \<notin> S" "v \<in> ancestry N S"
  shows "v \<noteq> NoVersion"
  using assms(3) by induction (use assms in \<open>auto simp: hist_ok_def\<close>)

lemma dag_edges_upd: "dag_edges (N(v \<mapsto> n)) = (dag_edges N - {(v, p) |p. True}) \<union> {(v, p) |p. p \<in> set (Parents n)}"
  by (auto simp: dag_edges_def split: if_splits)

subsection \<open>Adding a parent\<close>

interpretation cw: ancestor_walk "\<lambda>tx. getNode tx oid" "cycle_check version" "\<lambda>_. True"
  by unfold_locales (simp_all add: cycle_check_def)

lemma run_cycle_check:
  "run_callback N (cycle_check version) vs tx =
     (tx, if version \<in> set vs then Some (ErrInternal ''cycle on object'') else None)"
  by (induction vs) (auto simp: cycle_check_def)

text \<open>The check finds the node among the ancestors of its new parent exactly if it is one.\<close>

lemma cycle_walk:
  assumes "hist_ok (node_of tx oid)" "node_of tx oid parent = Some pnode" "node_of tx oid version = Some node"
  shows "forEachAncestor (\<lambda>tx. getNode tx oid) (Parents pnode) (cycle_check version) tx =
    Some (tx, if (parent, version) \<in> (dag_edges (node_of tx oid))\<^sup>+ then Some (ErrInternal ''cycle on object'') else None)"
proof -
  let ?N = "node_of tx oid"
  have p: "distinct (Parents pnode)" "NoVersion \<notin> set (Parents pnode)" "finite (dom ?N)"
    using assms(1,2) by (auto simp: hist_ok_def)
  have "reads_as ?N (getNode tx oid) w" if "w \<in> ancestry ?N (set (Parents pnode))" for w
    using ancestry_not_NoVersion[OF assms(1) p(2) that] node_of_reads by blast
  from cw.walk_correct[OF p(3,1), of tx oid version, OF this]
  obtain vs where vs: "set vs = ancestry ?N (set (Parents pnode)) \<inter> dom ?N"
      "forEachAncestor (\<lambda>tx. getNode tx oid) (Parents pnode) (cycle_check version) tx =
        Some (run_callback ?N (cycle_check version) vs tx)" by auto
  have "version \<in> set vs \<longleftrightarrow> version \<in> ancestry ?N (set (Parents pnode))" using vs(1) assms(3) by auto
  also have "\<dots> \<longleftrightarrow> (\<exists>q. (parent, q) \<in> dag_edges ?N \<and> (q, version) \<in> (dag_edges ?N)\<^sup>*)"
    using assms(2) by (auto simp: ancestry_iff dag_edges_def)
  also have "\<dots> \<longleftrightarrow> (parent, version) \<in> (dag_edges ?N)\<^sup>+" by (meson tranclD rtrancl_into_trancl2)
  finally show ?thesis using vs(2) by (simp add: run_cycle_check)
qed

lemma addParent_cases:
  assumes "hist_ok (node_of tx oid)" "addParent batches tx oid version parent btid graft = Some (b', Inr (tx', g'))"
  obtains node pnode where "node_of tx oid version = Some node" "node_of tx oid parent = Some pnode" "version \<noteq> parent"
    "parent \<in> set (Parents node) \<and> tx' = tx \<or>
     parent \<notin> set (Parents node) \<and> (parent, version) \<notin> (dag_edges (node_of tx oid))\<^sup>+ \<and>
       node_of tx' oid = (node_of tx oid)(version \<mapsto> node\<lparr>Parents := Parents node @ [parent]\<rparr>)"
proof -
  from assms(2) obtain node pnode where n: "version \<noteq> parent" "getNode tx oid version = Inr node" "getNode tx oid parent = Inr pnode"
    by (auto simp: addParent_def split: if_splits sum.splits)
  then have N: "node_of tx oid version = Some node" "node_of tx oid parent = Some pnode" by (simp_all add: getNode_node_of)
  then have v: "version \<noteq> NoVersion" by auto
  note w = cycle_walk[OF assms(1) N(2,1)]
  show ?thesis
  proof (cases "parent \<in> set (Parents node)")
    case True
    then have "tx' = tx" using assms(2) n
      by (auto simp: addParent_def Let_def case_prod_beta split: if_splits sum.splits option.splits)
    with that N n(1) True show ?thesis by blast
  next
    case False
    then have "(parent, version) \<notin> (dag_edges (node_of tx oid))\<^sup>+ \<and> setNode tx oid version (node\<lparr>Parents := Parents node @ [parent]\<rparr>) = Inr tx'"
      using assms(2) n w v
      by (auto simp: addParent_def Let_def case_prod_beta setNode_def split: if_splits sum.splits option.splits)
    then have nc: "(parent, version) \<notin> (dag_edges (node_of tx oid))\<^sup>+"
        and tx': "tx' = tx(nodeKey oid version \<mapsto> NodeVal (node\<lparr>Parents := Parents node @ [parent]\<rparr>))"
      using v by (auto simp: setNode_def)
    have "node_of tx' oid = (node_of tx oid)(version \<mapsto> node\<lparr>Parents := Parents node @ [parent]\<rparr>)"
      unfolding tx' by (rule ext) (simp add: node_of_setNode[OF v])
    with nc that N n(1) False show ?thesis by blast
  qed
qed

lemma hist_ok_addParent:
  assumes h: "hist_ok N" and n: "N version = Some node" "parent \<notin> set (Parents node)" "parent \<noteq> NoVersion" "version \<noteq> parent"
    and c: "(parent, version) \<notin> (dag_edges N)\<^sup>+"
  shows "hist_ok (N(version \<mapsto> node\<lparr>Parents := Parents node @ [parent]\<rparr>))"
proof -
  have "dag_edges (N(version \<mapsto> node\<lparr>Parents := Parents node @ [parent]\<rparr>)) = insert (version, parent) (dag_edges N)"
    using n(1) by (auto simp: dag_edges_def split: if_splits)
  moreover have "(parent, version) \<notin> (dag_edges N)\<^sup>*" using c n(4) by (auto dest!: rtranclD)
  ultimately show ?thesis using h n by (auto simp: hist_ok_def acyclic_insert)
qed

subsection \<open>Adding a node\<close>

lemma verify_parents_spec:
  assumes "verify_parents tx oid ps pl l0 = Inr (pl', l)"
    and "\<forall>p\<in>set ps. \<forall>n. node_of tx oid p = Some n \<longrightarrow> Level n \<noteq> - 1"
  shows "(\<forall>p\<in>set ps. \<exists>n. node_of tx oid p = Some n \<and> Level n < l) \<and> l0 \<le> l"
  using assms
proof (induction tx oid ps pl l0 rule: verify_parents.induct)
  case (2 tx oid p ps pl l0)
  from "2.prems"(1) obtain n where n: "getNode tx oid p = Inr n"
      "verify_parents tx oid ps (AList.update p (Level n) pl) (if l0 \<le> Level n then Level n + 1 else l0) = Inr (pl', l)"
    by (cases "getNode tx oid p") auto
  let ?l1 = "if l0 \<le> Level n then Level n + 1 else l0"
  have N: "node_of tx oid p = Some n" using n(1) by (simp add: getNode_node_of)
  then have "Level n \<noteq> - 1" using "2.prems"(2) by simp
  then have lt: "Level n < Level n + 1" by (rule word_less_Suc) simp
  then have "Level n < ?l1" "l0 \<le> ?l1" by auto
  moreover have "(\<forall>p\<in>set ps. \<exists>n. node_of tx oid p = Some n \<and> Level n < l) \<and> ?l1 \<le> l"
    using "2.IH"[OF n(2)] "2.prems"(2) by simp
  ultimately show ?case using N by auto
qed simp

lemma addNode_node_of:
  assumes "addNode batches tx oid version logrec deleted parents btid graft = Inr (b', tx', g')"
  obtains pl l where "length parents \<le> 2" "verify_parents tx oid parents [] 0 = Inr (pl, l)" "version \<noteq> NoVersion"
    "node_of tx' oid = (node_of tx oid)(version \<mapsto> \<lparr>Level = l, Parents = parents, Logrec = logrec, BatchId = btid, Deleted = deleted, PermId = [], PermVers = []\<rparr>)"
proof -
  have le: "length parents \<le> 2" using assms by (auto simp: addNode_def split: if_splits)
  obtain pl l where v: "verify_parents tx oid parents [] 0 = Inr (pl, l)"
    using assms le by (cases "verify_parents tx oid parents [] 0") (auto simp: addNode_def)
  let ?n = "\<lparr>Level = l, Parents = parents, Logrec = logrec, BatchId = btid, Deleted = deleted, PermId = [], PermVers = []\<rparr>"
  obtain b1 where b: "(if btid \<noteq> NoBatchId then addNodeToBatch batches btid oid version else Inr batches) = Inr b1"
    using assms le v
    by (cases "if btid \<noteq> NoBatchId then addNodeToBatch batches btid oid version else Inr batches") (auto simp: addNode_def)
  have nv: "version \<noteq> NoVersion" using assms le v b by (auto simp: addNode_def setNode_def)
  then have "tx' = tx(nodeKey oid version \<mapsto> NodeVal ?n)"
    using assms le v b by (auto simp: addNode_def setNode_def Let_def case_prod_beta split: option.splits)
  then have "node_of tx' oid = (node_of tx oid)(version \<mapsto> ?n)"
    by (intro ext) (simp add: node_of_setNode[OF nv])
  with that[OF le v nv] show ?thesis by blast
qed

lemma hist_ok_addNode:
  assumes h: "hist_ok N" and fresh: "N version = None" "\<And>v. (v, version) \<notin> dag_edges N"
    and p: "distinct (Parents n)" "NoVersion \<notin> set (Parents n)" "version \<notin> set (Parents n)"
  shows "hist_ok (N(version \<mapsto> n))"
proof -
  let ?E = "dag_edges N" and ?A = "{version} \<times> set (Parents n)"
  have E: "dag_edges (N(version \<mapsto> n)) = ?E \<union> ?A"
    using fresh(1) by (auto simp: dag_edges_def split: if_splits)
  have no_target: "(x, version) \<notin> ?E \<union> ?A" for x using fresh(2) p(3) by auto
  have "(x, y) \<in> ?E\<^sup>+" if "(x, y) \<in> (?E \<union> ?A)\<^sup>+" "x \<noteq> version" for x y
    using that
  proof (induction rule: trancl_induct)
    case (base y)
    then show ?case by auto
  next
    case (step y z)
    have "y \<noteq> version"
    proof
      assume "y = version"
      with step.hyps(1) obtain w where "(w, version) \<in> ?E \<union> ?A" by (metis tranclE)
      then show False using no_target by blast
    qed
    then have "(y, z) \<in> ?E" using step.hyps(2) by auto
    then show ?case using step by auto
  qed
  moreover have "(version, version) \<notin> (?E \<union> ?A)\<^sup>+" using no_target by (metis tranclE)
  ultimately have "acyclic (?E \<union> ?A)" using h by (auto simp: hist_ok_def acyclic_def)
  then show ?thesis using h p E by (auto simp: hist_ok_def)
qed

subsection \<open>Pruning\<close>

text \<open>What the sync code passes as \<^verbatim>\<open>delLogRec\<close>: it deletes a log record and leaves the DAG nodes alone.\<close>

definition log_local :: "string \<Rightarrow> (dstore \<Rightarrow> string \<Rightarrow> derr + dstore) \<Rightarrow> bool" where
  "log_local oid d \<longleftrightarrow> (\<forall>tx lr tx'. d tx lr = Inr tx' \<longrightarrow> getNode tx' oid = getNode tx oid)"

lemma getNode_del:
  "w \<noteq> v \<Longrightarrow> getNode (tx(nodeKey oid v := None)) oid w = getNode tx oid w"
  by (simp add: getNode_def)

lemma prune_callback_tx:
  assumes "log_local oid d" "v \<noteq> NoVersion"
  obtains tx1 where "getNode tx1 oid = getNode (p_tx s) oid" "p_tx (fst (prune_callback oid d v n s)) = tx1(nodeKey oid v := None)"
    "snd (prune_callback oid d v n s) = None" "nodeErrs (fst (prune_callback oid d v n s)) = nodeErrs s"
    "(\<exists>tx'. d (p_tx s) (Logrec n) = Inr tx') \<Longrightarrow> logErrs (fst (prune_callback oid d v n s)) = logErrs s"
proof -
  let ?tx1 = "case d (p_tx s) (Logrec n) of Inl _ \<Rightarrow> p_tx s | Inr tx \<Rightarrow> tx"
  have "getNode ?tx1 oid = getNode (p_tx s) oid"
    using assms(1) by (auto simp: log_local_def split: sum.split)
  then show ?thesis using assms(2)
    by (intro that[of ?tx1]) (auto simp: prune_callback_def Let_def delNode_def split: sum.split)
qed

interpretation pw: ancestor_walk "\<lambda>s. getNode (p_tx s) oid" "prune_callback oid d" "\<lambda>_. log_local oid d"
proof
  fix s :: prune_state and v n w assume a: "log_local oid d" "getNode (p_tx s) oid v = Inr n" "w \<noteq> v"
  then have "v \<noteq> NoVersion" by (auto simp: getNode_def)
  from prune_callback_tx[OF a(1) this, of s n]
  show "getNode (p_tx (fst (prune_callback oid d v n s))) oid w = getNode (p_tx s) oid w"
    using getNode_del[OF a(3)] by metis
qed

lemma run_prune:
  assumes "log_local oid d" "\<And>tx lr. \<exists>tx'. d tx lr = Inr tx'" "\<forall>v\<in>set vs. v \<noteq> NoVersion"
  shows "\<exists>s'. run_callback N (prune_callback oid d) vs s = (s', None) \<and> nodeErrs s' = nodeErrs s \<and> logErrs s' = logErrs s \<and>
    node_of (p_tx s') oid = (\<lambda>w. if w \<in> set vs then None else node_of (p_tx s) oid w)"
  using assms(3)
proof (induction vs arbitrary: s)
  case (Cons v vs)
  let ?c = "prune_callback oid d v (the (N v)) s"
  have v: "v \<noteq> NoVersion" using Cons.prems by simp
  obtain tx1 where t: "getNode tx1 oid = getNode (p_tx s) oid" "p_tx (fst ?c) = tx1(nodeKey oid v := None)"
      "snd ?c = None" "nodeErrs (fst ?c) = nodeErrs s"
      "(\<exists>tx'. d (p_tx s) (Logrec (the (N v))) = Inr tx') \<Longrightarrow> logErrs (fst ?c) = logErrs s"
    using prune_callback_tx[OF assms(1) v, of s "the (N v)"] by metis
  note le = t(5)[OF assms(2)]
  have n1: "node_of (p_tx (fst ?c)) oid = (\<lambda>w. if w = v then None else node_of (p_tx s) oid w)"
    unfolding t(2) by (rule ext) (simp add: node_of_delNode, simp add: node_of_def t(1))
  obtain s' where s': "run_callback N (prune_callback oid d) vs (fst ?c) = (s', None)" "nodeErrs s' = nodeErrs (fst ?c)"
      "logErrs s' = logErrs (fst ?c)"
      "node_of (p_tx s') oid = (\<lambda>w. if w \<in> set vs then None else node_of (p_tx (fst ?c)) oid w)"
    using Cons.IH[of "fst ?c"] Cons.prems by auto
  have "run_callback N (prune_callback oid d) (v # vs) s = (s', None)"
    using s'(1) t(3) by (cases ?c) simp
  moreover have "node_of (p_tx s') oid = (\<lambda>w. if w \<in> set (v # vs) then None else node_of (p_tx s) oid w)"
    unfolding s'(4) n1 by auto
  ultimately show ?case using s'(2,3) t(4) le by simp
qed simp

lemma ancestry_detach:
  assumes "version \<notin> ancestry N S"
  shows "ancestry (N(version \<mapsto> n)) S = ancestry N S"
proof -
  have "v \<in> ancestry N S" if "v \<in> ancestry (N(version \<mapsto> n)) S" for v
    using that
  proof induction
    case (parent v m p)
    then have "v \<noteq> version" using assms by auto
    with parent show ?case by (auto intro: ancestry.parent)
  qed (rule ancestry.start)
  moreover have "v \<in> ancestry (N(version \<mapsto> n)) S" if "v \<in> ancestry N S" for v
    using that
  proof induction
    case (parent v m p)
    then have "v \<noteq> version" using assms by auto
    with parent show ?case by (auto intro: ancestry.parent)
  qed (rule ancestry.start)
  ultimately show ?thesis by blast
qed

lemma ancestry_parents:
  assumes "N version = Some node"
  shows "ancestry N (set (Parents node)) = {v. (version, v) \<in> (dag_edges N)\<^sup>+}"
proof -
  have "p \<in> set (Parents node) \<longleftrightarrow> (version, p) \<in> dag_edges N" for p
    using assms by (simp add: dag_edges_def)
  then have "v \<in> ancestry N (set (Parents node)) \<longleftrightarrow> (version, v) \<in> (dag_edges N)\<^sup>+" for v
    unfolding ancestry_iff by (meson rtrancl_into_trancl2 tranclD)
  then show ?thesis by blast
qed

lemma acyclic_restrict: "hist_ok N \<Longrightarrow> N' \<subseteq>\<^sub>m N \<Longrightarrow> hist_ok N'"
proof -
  assume h: "hist_ok N" "N' \<subseteq>\<^sub>m N"
  have "dag_edges N' \<subseteq> dag_edges N" using h(2) by (fastforce simp: dag_edges_def map_le_def dom_def)
  moreover have "dom N' \<subseteq> dom N" using h(2) by (rule map_le_implies_dom_le)
  moreover have "N v = Some n" if "N' v = Some n" for v n using h(2) that by (fastforce simp: map_le_def dom_def)
  ultimately show "hist_ok N'" using h(1) acyclic_subset finite_subset unfolding hist_ok_def by metis
qed

end
