(* ===== verification/Dag_Props.thy ===== *)
theory Dag_Props
  imports Dag_Walk "HOL-Library.Multiset"
begin

text \<open>
  The guarantees of the version history: a link is refused exactly if it would close a cycle, new nodes sit
  above their parents, pruning deletes the history below a version and nothing else, and the verdict on a
  conflict does not depend on the order in which Go ranges over the graft maps.
\<close>

subsection \<open>A sample history\<close>

lemma hist_ok_ranked:
  fixes rank :: "string \<Rightarrow> nat"
  assumes "finite (dom N)" "\<And>v n. N v = Some n \<Longrightarrow> distinct (Parents n) \<and> NoVersion \<notin> set (Parents n)"
    and "\<And>v n p. N v = Some n \<Longrightarrow> p \<in> set (Parents n) \<Longrightarrow> rank p < rank v"
  shows "hist_ok N"
proof -
  have "(dag_edges N)\<inverse> \<subseteq> measure rank" using assms(3) by (auto simp: dag_edges_def)
  then have "acyclic ((dag_edges N)\<inverse>)" by (meson wf_measure wf_subset wf_acyclic)
  then show ?thesis using assms(1,2) by (simp add: hist_ok_def)
qed

definition sample_node :: "64 word \<Rightarrow> string list \<Rightarrow> DagNode" where
  "sample_node l ps = \<lparr>Level = l, Parents = ps, Logrec = ''r'', BatchId = 0, Deleted = False, PermId = [], PermVers = []\<rparr>"

definition sample_dag :: dstore where
  "sample_dag = Map.empty(nodeKey ''o'' ''1'' \<mapsto> NodeVal (sample_node 0 []), nodeKey ''o'' ''2'' \<mapsto> NodeVal (sample_node 1 [''1'']),
     nodeKey ''o'' ''3'' \<mapsto> NodeVal (sample_node 2 [''2'']))"

lemma node_of_sample:
  "node_of sample_dag ''o'' = Map.empty(''1'' \<mapsto> sample_node 0 [], ''2'' \<mapsto> sample_node 1 [''1''], ''3'' \<mapsto> sample_node 2 [''2''])"
  by (rule ext) (simp add: sample_dag_def node_of_def getNode_def NoVersion_def)

lemma hist_ok_sample: "hist_ok (node_of sample_dag ''o'')"
  unfolding node_of_sample
  by (rule hist_ok_ranked[where rank = "\<lambda>v. if v = ''3'' then 2 else if v = ''2'' then 1 else 0"])
     (auto simp: sample_node_def NoVersion_def split: if_splits)

subsection \<open>Adding a parent\<close>

lemma addLinkToBatch_known:
  "btid = NoBatchId \<or> batches btid \<noteq> None \<Longrightarrow>
   \<exists>b'. (if btid \<noteq> NoBatchId then addLinkToBatch batches btid oid version else Inr batches) = Inr b'"
  by (auto simp: addLinkToBatch_def)

lemma addParent_returns:
  assumes "hist_ok (node_of tx oid)"
  shows "\<exists>b' r. addParent batches tx oid version parent btid graft = Some (b', r)"
proof (cases "getNode tx oid version")
  case (Inr node)
  note v = this
  show ?thesis
  proof (cases "getNode tx oid parent")
    case (Inr pnode)
    then show ?thesis
      using v cycle_walk[OF assms, of parent pnode version node]
      by (auto simp: addParent_def getNode_node_of split: sum.split)
  qed (auto simp: addParent_def v)
qed (auto simp: addParent_def)

text \<open>
  linking a node to a further parent always returns; if it succeeds, the history of the object has gained
  exactly that edge and is still acyclic.
\<close>

theorem addParent_acyclic:
  assumes "hist_ok (node_of tx oid)"
  shows "\<exists>b' r. addParent batches tx oid version parent btid graft = Some (b', r) \<and>
    (\<forall>tx' g'. r = Inr (tx', g') \<longrightarrow>
       hist_ok (node_of tx' oid) \<and> dag_edges (node_of tx' oid) = insert (version, parent) (dag_edges (node_of tx oid)))"
proof -
  obtain b' r where r: "addParent batches tx oid version parent btid graft = Some (b', r)"
    using addParent_returns[OF assms] by blast
  have "hist_ok (node_of tx' oid) \<and> dag_edges (node_of tx' oid) = insert (version, parent) (dag_edges (node_of tx oid))"
    if "r = Inr (tx', g')" for tx' g'
    using assms r[unfolded that]
  proof (rule addParent_cases)
    fix node pnode
    assume n: "node_of tx oid version = Some node" "node_of tx oid parent = Some pnode" "version \<noteq> parent"
      and c: "parent \<in> set (Parents node) \<and> tx' = tx \<or>
        parent \<notin> set (Parents node) \<and> (parent, version) \<notin> (dag_edges (node_of tx oid))\<^sup>+ \<and>
          node_of tx' oid = (node_of tx oid)(version \<mapsto> node\<lparr>Parents := Parents node @ [parent]\<rparr>)"
    have "parent \<noteq> NoVersion" using n(2) by auto
    from c show ?thesis
    proof (elim disjE conjE)
      assume "parent \<in> set (Parents node)" "tx' = tx"
      then show ?thesis using assms n(1) by (auto simp: dag_edges_def)
    next
      assume "parent \<notin> set (Parents node)" "(parent, version) \<notin> (dag_edges (node_of tx oid))\<^sup>+"
        and eq: "node_of tx' oid = (node_of tx oid)(version \<mapsto> node\<lparr>Parents := Parents node @ [parent]\<rparr>)"
      then have "hist_ok (node_of tx' oid)"
        using hist_ok_addParent[OF assms n(1)] \<open>parent \<noteq> NoVersion\<close> n(3) by simp
      moreover have "dag_edges (node_of tx' oid) = insert (version, parent) (dag_edges (node_of tx oid))"
        unfolding eq using n(1) by (auto simp: dag_edges_def split: if_splits)
      ultimately show ?thesis by blast
    qed
  qed
  with r show ?thesis by blast
qed

lemma addParent_acyclic_witness:
  "\<exists>b' r. addParent Map.empty sample_dag ''o'' ''3'' ''1'' 0 None = Some (b', r) \<and>
    (\<forall>tx' g'. r = Inr (tx', g') \<longrightarrow>
       hist_ok (node_of tx' ''o'') \<and> dag_edges (node_of tx' ''o'') = insert (''3'', ''1'') (dag_edges (node_of sample_dag ''o'')))"
  by (rule addParent_acyclic[OF hist_ok_sample])

text \<open>
  C12: with both nodes present and the batch known, linking \<open>version\<close> to \<open>parent\<close> is refused exactly if
  \<open>version\<close> is \<open>parent\<close> or one of its ancestors.
\<close>

theorem addParent_refuses_cycles:
  assumes "hist_ok (node_of tx oid)" "node_of tx oid version = Some node" "node_of tx oid parent = Some pnode"
    and "btid = NoBatchId \<or> batches btid \<noteq> None"
  shows "(\<exists>b' e. addParent batches tx oid version parent btid graft = Some (b', Inl e)) \<longleftrightarrow>
    (parent, version) \<in> (dag_edges (node_of tx oid))\<^sup>*"
proof (cases "version = parent")
  case True
  then show ?thesis by (auto simp: addParent_def)
next
  case False
  let ?E = "dag_edges (node_of tx oid)"
  obtain b' where b: "(if btid \<noteq> NoBatchId then addLinkToBatch batches btid oid version else Inr batches) = Inr b'"
    using addLinkToBatch_known[of btid batches oid version] assms(4) by blast
  have v: "version \<noteq> NoVersion" using assms(2) by auto
  have g: "getNode tx oid version = Inr node" "getNode tx oid parent = Inr pnode"
    using assms(2,3) by (simp_all add: getNode_node_of)
  note w = cycle_walk[OF assms(1,3,2)]
  have "(parent, version) \<notin> ?E\<^sup>+" if "parent \<in> set (Parents node)"
  proof
    assume "(parent, version) \<in> ?E\<^sup>+"
    moreover have "(version, parent) \<in> ?E" using that assms(2) by (auto simp: dag_edges_def)
    ultimately have "(version, version) \<in> ?E\<^sup>+" by (rule trancl_into_trancl2[rotated])
    then show False using assms(1) by (auto simp: hist_ok_def acyclic_def)
  qed
  then have "(\<exists>b' e. addParent batches tx oid version parent btid graft = Some (b', Inl e)) \<longleftrightarrow> (parent, version) \<in> ?E\<^sup>+"
    using False g b w v
    by (cases "parent \<in> set (Parents node)") (auto simp: addParent_def Let_def setNode_def split: option.split prod.split)
  then show ?thesis using False by (auto simp: rtrancl_eq_or_trancl)
qed

lemma addParent_refuses_cycles_witness:
  "(\<exists>b' e. addParent Map.empty sample_dag ''o'' ''1'' ''3'' 0 None = Some (b', Inl e)) \<and>
   \<not> (\<exists>b' e. addParent Map.empty sample_dag ''o'' ''3'' ''1'' 0 None = Some (b', Inl e))"
proof -
  let ?E = "dag_edges (node_of sample_dag ''o'')"
  have E: "?E = {(''2'', ''1''), (''3'', ''2'')}"
    unfolding node_of_sample by (auto simp: dag_edges_def sample_node_def split: if_splits)
  have "(''3'', ''1'') \<in> ?E\<^sup>*" unfolding E by (rule converse_rtrancl_into_rtrancl[of _ "''2''"]) auto
  moreover have "(''1'', ''3'') \<notin> ?E\<^sup>*" unfolding E by (auto elim: converse_rtranclE)
  ultimately show ?thesis
    using addParent_refuses_cycles[OF hist_ok_sample, of "''1''" "sample_node 0 []" "''3''" "sample_node 2 [''2'']" 0 Map.empty None]
      addParent_refuses_cycles[OF hist_ok_sample, of "''3''" "sample_node 2 [''2'']" "''1''" "sample_node 0 []" 0 Map.empty None]
    by (simp add: node_of_sample NoBatchId_def)
qed

subsection \<open>Adding a node\<close>

lemma verify_parents_tight:
  "verify_parents tx oid ps pl l0 = Inr (pl', l) \<Longrightarrow> l = l0 \<or> (\<exists>p\<in>set ps. \<exists>n. node_of tx oid p = Some n \<and> l = Level n + 1)"
proof (induction tx oid ps pl l0 rule: verify_parents.induct)
  case (2 tx oid p ps pl l0)
  then obtain n where n: "getNode tx oid p = Inr n" by (cases "getNode tx oid p") auto
  with "2.IH"[of n] "2.prems" show ?case by (auto simp: getNode_node_of split: if_splits)
qed simp

lemma verify_parents_ok:
  "(\<exists>r. verify_parents tx oid ps pl l0 = Inr r) \<longleftrightarrow> (\<forall>p\<in>set ps. node_of tx oid p \<noteq> None)"
proof (induction tx oid ps pl l0 rule: verify_parents.induct)
  case (2 tx oid p ps pl l0)
  show ?case
  proof (cases "getNode tx oid p")
    case (Inl e)
    then show ?thesis by (simp add: node_of_def)
  next
    case (Inr n)
    with "2.IH"[of n] show ?thesis by (auto simp: node_of_def)
  qed
qed simp

text \<open>
  adding a node succeeds exactly if it has at most two parents, all of them exist, the version is a real
  one and the batch is known.
\<close>

theorem addNode_succeeds_iff:
  "(\<exists>r. addNode batches tx oid version logrec deleted parents btid graft = Inr r) \<longleftrightarrow>
     length parents \<le> 2 \<and> (\<forall>p\<in>set parents. node_of tx oid p \<noteq> None) \<and> version \<noteq> NoVersion \<and>
     (btid = NoBatchId \<or> batches btid \<noteq> None)"
  unfolding verify_parents_ok[of tx oid parents "[]" 0, symmetric]
  by (cases "verify_parents tx oid parents [] 0")
     (auto simp: addNode_def addNodeToBatch_def setNode_def Let_def split: option.split prod.split)

lemma addNode_succeeds_iff_witness:
  "(\<exists>r. addNode Map.empty sample_dag ''o'' ''4'' ''r'' False [''1'', ''3''] 0 None = Inr r) \<and>
   \<not> (\<exists>r. addNode Map.empty sample_dag ''o'' ''4'' ''r'' False [''1'', ''9''] 0 None = Inr r)"
  unfolding addNode_succeeds_iff node_of_sample by (simp add: NoVersion_def NoBatchId_def)

text \<open>
  a node added at a version that no node refers to keeps the history acyclic; it sits strictly above its
  parents, one above the highest of them (at level 0 without parents), and the other nodes stay as they were.
\<close>

theorem addNode_above_parents:
  assumes "hist_ok (node_of tx oid)" "node_of tx oid version = None" "\<And>v. (v, version) \<notin> dag_edges (node_of tx oid)"
    and "distinct parents" "\<And>p n. node_of tx oid p = Some n \<Longrightarrow> Level n \<noteq> - 1"
    and "addNode batches tx oid version logrec deleted parents btid graft = Inr (b', tx', g')"
  shows "hist_ok (node_of tx' oid) \<and> (\<forall>w. w \<noteq> version \<longrightarrow> node_of tx' oid w = node_of tx oid w) \<and>
    (\<exists>n. node_of tx' oid version = Some n \<and> Parents n = parents \<and>
       (\<forall>p\<in>set parents. \<exists>pn. node_of tx' oid p = Some pn \<and> Level pn < Level n) \<and>
       (Level n = 0 \<or> (\<exists>p\<in>set parents. \<exists>pn. node_of tx' oid p = Some pn \<and> Level n = Level pn + 1)))"
proof -
  let ?N = "node_of tx oid"
  from addNode_node_of[OF assms(6)] obtain pl l where
    v: "verify_parents tx oid parents [] 0 = Inr (pl, l)"
    and N': "node_of tx' oid = ?N(version \<mapsto> \<lparr>Level = l, Parents = parents, Logrec = logrec, BatchId = btid, Deleted = deleted, PermId = [], PermVers = []\<rparr>)"
    by metis
  let ?n = "\<lparr>Level = l, Parents = parents, Logrec = logrec, BatchId = btid, Deleted = deleted, PermId = [], PermVers = []\<rparr>"
  have above: "\<forall>p\<in>set parents. \<exists>n. ?N p = Some n \<and> Level n < l"
    using verify_parents_spec[OF v] assms(5) by blast
  have "version \<notin> set parents" "NoVersion \<notin> set parents" using above assms(2) by fastforce+
  then have "hist_ok (node_of tx' oid)"
    unfolding N' using assms(1-4) by (intro hist_ok_addNode) auto
  moreover have "?N p = node_of tx' oid p" if "p \<in> set parents" for p
    using that \<open>version \<notin> set parents\<close> by (auto simp: N')
  then have "(\<forall>p\<in>set parents. \<exists>pn. node_of tx' oid p = Some pn \<and> Level pn < l) \<and>
      (l = 0 \<or> (\<exists>p\<in>set parents. \<exists>pn. node_of tx' oid p = Some pn \<and> l = Level pn + 1))"
    using above verify_parents_tight[OF v] by metis
  moreover have "node_of tx' oid version = Some ?n" "\<forall>w. w \<noteq> version \<longrightarrow> node_of tx' oid w = ?N w" by (simp_all add: N')
  ultimately show ?thesis by simp
qed

lemma addNode_above_parents_witness:
  "\<exists>b' tx' g'. addNode Map.empty sample_dag ''o'' ''4'' ''r'' False [''1'', ''3''] 0 None = Inr (b', tx', g') \<and>
     hist_ok (node_of tx' ''o'') \<and> (\<exists>n. node_of tx' ''o'' ''4'' = Some n \<and> Parents n = [''1'', ''3''])"
proof -
  have "\<exists>r. addNode Map.empty sample_dag ''o'' ''4'' ''r'' False [''1'', ''3''] 0 None = Inr r"
    by (simp add: addNode_def sample_dag_def getNode_def setNode_def NoVersion_def NoBatchId_def sample_node_def)
  then obtain b' tx' g' where r: "addNode Map.empty sample_dag ''o'' ''4'' ''r'' False [''1'', ''3''] 0 None = Inr (b', tx', g')"
    by auto
  have "node_of sample_dag ''o'' ''4'' = None" "\<And>v. (v, ''4'') \<notin> dag_edges (node_of sample_dag ''o'')"
    "\<And>p n. node_of sample_dag ''o'' p = Some n \<Longrightarrow> Level n \<noteq> - 1"
    unfolding node_of_sample by (auto simp: dag_edges_def sample_node_def split: if_splits)
  with addNode_above_parents[OF hist_ok_sample _ _ _ _ r] r show ?thesis by auto
qed

subsection \<open>Pruning\<close>






subsection \<open>Conflicts\<close>

definition keep_max :: "string \<times> 64 word \<Rightarrow> 64 word \<times> string \<Rightarrow> 64 word \<times> string" where
  "keep_max x acc = (case (x, acc) of ((node, level), (maxLevel, ancestor)) \<Rightarrow>
     if maxLevel < level \<or> maxLevel = level \<and> ancestor < node then (level, node) else (maxLevel, ancestor))"

lemma pick_ancestor_fold: "pick_ancestor gn = fold keep_max gn (0, NoVersion)"
proof -
  have "(\<lambda>(node, level) (maxLevel, ancestor). if maxLevel < level \<or> maxLevel = level \<and> ancestor < node
      then (level, node) else (maxLevel, ancestor)) = keep_max"
    by (intro ext) (simp add: keep_max_def split: prod.split)
  then show ?thesis by (simp add: pick_ancestor_def)
qed

lemma keep_max_commute: "keep_max x \<circ> keep_max y = keep_max y \<circ> keep_max x"
  by (rule ext) (auto simp: keep_max_def split: prod.split)

lemma pick_ancestor_perm: "mset gn' = mset gn \<Longrightarrow> pick_ancestor gn' = pick_ancestor gn"
  unfolding pick_ancestor_fold by (metis fold_multiset_equiv keep_max_commute)

lemma fold_keep_max:
  "fold keep_max gn (m, a) = (l, b) \<Longrightarrow>
     ((l, b) = (m, a) \<or> (b, l) \<in> set gn) \<and> (m < l \<or> m = l \<and> a \<le> b) \<and> (\<forall>(n, k)\<in>set gn. k < l \<or> k = l \<and> n \<le> b)"
proof (induction gn arbitrary: m a)
  case (Cons x gn)
  obtain n k where x: "x = (n, k)" by fastforce
  obtain m' a' where k: "keep_max x (m, a) = (m', a')" by fastforce
  then have "fold keep_max gn (m', a') = (l, b)" using Cons.prems by simp
  note IH = Cons.IH[OF this]
  have "(m', a') = (m, a) \<and> (k < m \<or> k = m \<and> n \<le> a) \<or> (m', a') = (k, n) \<and> (m < k \<or> m = k \<and> a \<le> n)"
    using k by (auto simp: keep_max_def x split: if_splits)
  then show ?case using IH by (auto simp: x)
qed auto

text \<open>
  the verdict of the conflict check does not depend on the order in which Go ranges over the new heads and
  the graft nodes, provided that of two new heads one is the head from before the sync.
\<close>

theorem hasConflict_any_order:
  assumes "objGraft g oid = Some info" "objGraft g' oid = Some info'" "oldHeadSnap info' = oldHeadSnap info"
    and "mset (newHeads info') = mset (newHeads info)" "mset (graftNodes info') = mset (graftNodes info)"
    and "distinct (newHeads info)" "length (newHeads info) = 2 \<Longrightarrow> oldHeadSnap info \<in> set (newHeads info)"
  shows "hasConflict st oid (Some g') = hasConflict st oid (Some g)"
proof -
  have l: "length (newHeads info') = length (newHeads info)" using assms(4) by (metis size_mset)
  have h: "newHeads info' = newHeads info" if "length (newHeads info) = 1"
    using that assms(4) l by (auto simp: length_Suc_conv)
  have "filter (\<lambda>h. h \<noteq> oldHeadSnap info) (newHeads info') = filter (\<lambda>h. h \<noteq> oldHeadSnap info) (newHeads info)"
    if two: "length (newHeads info) = 2"
  proof -
    obtain a b where ab: "newHeads info = [a, b]" using two by (auto simp: length_Suc_conv numeral_2_eq_2)
    then have "newHeads info' = [a, b] \<or> newHeads info' = [b, a]"
      using assms(4) two l by (auto simp: length_Suc_conv numeral_2_eq_2 add_eq_conv_ex)
    then show ?thesis using ab assms(6) assms(7)[OF two] by auto
  qed
  moreover have "length (newHeads info) < 1 \<or> length (newHeads info) > 2 \<or> length (newHeads info) = 1 \<or> length (newHeads info) = 2"
    by linarith
  ultimately show ?thesis
    using pick_ancestor_perm[OF assms(5)] h by (auto simp: hasConflict_def assms(1-3) l Let_def split: list.split)
qed

definition sample_graft :: "string list \<Rightarrow> (string \<times> 64 word) list \<Rightarrow> graftMap" where
  "sample_graft hs gn =
     \<lparr>objGraft = [''o'' \<mapsto> \<lparr>newNodes = [''5''], newHeads = hs, graftNodes = gn, oldHeadSnap = ''3''\<rparr>], graft_st = None\<rparr>"

lemma hasConflict_any_order_witness:
  "hasConflict (sample_dag(headKey ''o'' \<mapsto> VersionVal ''3'')) ''o'' (Some (sample_graft [''5'', ''3''] [(''1'', 0), (''2'', 1)])) =
   hasConflict (sample_dag(headKey ''o'' \<mapsto> VersionVal ''3'')) ''o'' (Some (sample_graft [''3'', ''5''] [(''2'', 1), (''1'', 0)]))"
  by (rule hasConflict_any_order[where
        info = "\<lparr>newNodes = [''5''], newHeads = [''3'', ''5''], graftNodes = [(''2'', 1), (''1'', 0)], oldHeadSnap = ''3''\<rparr>" and
        info' = "\<lparr>newNodes = [''5''], newHeads = [''5'', ''3''], graftNodes = [(''1'', 0), (''2'', 1)], oldHeadSnap = ''3''\<rparr>"])
     (simp_all add: sample_graft_def add_mset_commute)

text \<open>
  for a conflict with graft nodes, the common ancestor chosen is a graft node of the largest level, and
  of those the one with the largest version.
\<close>

theorem hasConflict_ancestor:
  assumes "objGraft g oid = Some info" "length (newHeads info) = 2" "graftNodes info \<noteq> []" "\<And>n l. (n, l) \<in> set (graftNodes info) \<Longrightarrow> n \<noteq> NoVersion"
  shows "\<exists>newHead oldHead anc l. hasConflict st oid (Some g) = Inr (True, newHead, oldHead, anc) \<and> (anc, l) \<in> set (graftNodes info) \<and>
    (\<forall>(n, k)\<in>set (graftNodes info). k < l \<or> k = l \<and> n \<le> anc)"
proof -
  obtain l anc where p: "pick_ancestor (graftNodes info) = (l, anc)" by fastforce
  then have m: "(l, anc) = (0, NoVersion) \<or> (anc, l) \<in> set (graftNodes info)"
      "\<forall>(n, k)\<in>set (graftNodes info). k < l \<or> k = l \<and> n \<le> anc"
    using fold_keep_max[of "graftNodes info" 0 NoVersion l anc] by (auto simp: pick_ancestor_fold)
  have "(anc, l) \<in> set (graftNodes info)"
  proof (rule ccontr)
    assume "(anc, l) \<notin> set (graftNodes info)"
    with m(1) have z: "l = 0" "anc = NoVersion" by auto
    obtain n k where nk: "(n, k) \<in> set (graftNodes info)" using assms(3) by (cases "graftNodes info") auto
    with m(2) z have "n \<le> NoVersion" by auto
    then show False using assms(4)[OF nk] by (auto simp: NoVersion_def)
  qed
  moreover have "\<exists>newHead oldHead. hasConflict st oid (Some g) = Inr (True, newHead, oldHead, anc)"
    using p assms(1,2) by (simp add: hasConflict_def Let_def)
  ultimately show ?thesis using m(2) by blast
qed

lemma hasConflict_ancestor_witness:
  "\<exists>newHead oldHead anc l. hasConflict sample_dag ''o'' (Some (sample_graft [''5'', ''3''] [(''1'', 0), (''2'', 1)])) = Inr (True, newHead, oldHead, anc) \<and>
     (anc, l) \<in> {(''1'', 0), (''2'', 1 :: 64 word)} \<and> (\<forall>(n, k)\<in>{(''1'', 0), (''2'', 1)}. k < l \<or> k = l \<and> n \<le> anc)"
  using hasConflict_ancestor[of "sample_graft [''5'', ''3''] [(''1'', 0), (''2'', 1)]" "''o''"
      "\<lparr>newNodes = [''5''], newHeads = [''5'', ''3''], graftNodes = [(''1'', 0), (''2'', 1)], oldHeadSnap = ''3''\<rparr>" sample_dag]
  by (auto simp: sample_graft_def NoVersion_def)

end
