(* ===== verification/Responder_Auth.thy ===== *)
theory Responder_Auth
  imports Responder
begin

text \<open>
  Phase 1 of the responder for an initiator that no requested syncgroup admits: a request for data is answered
  like one for a database that is offline; a request for syncgroups is not, although the code means it to be.
\<close>

definition denied :: "acl_includes \<Rightarrow> string list \<Rightarrow> dstore \<Rightarrow> string \<Rightarrow> bool" where
  "denied incl bs st gid \<longleftrightarrow> (case getSyncgroupByGid st gid of
     Inl _ \<Rightarrow> True
   | Inr sg \<Rightarrow> \<not> (case map_of (Perms (Spec sg)) ''Read'' of Some acl \<Rightarrow> incl acl bs | None \<Rightarrow> False))"

lemma authorize_sg_denied:
  assumes "denied incl (blessings r) (r_st r) gid"
  shows "authorize_sg incl gid (r, a) =
    (r\<lparr>sgIds := removeAll gid (sgIds r), initVecs := (if r_sg r then AList.delete gid (initVecs r) else initVecs r)\<rparr>, a)"
  using assms
  by (auto simp: authorize_sg_def denied_def Authorize_def TagAuthorizer_def split: sum.splits option.splits)

lemma fold_authorize_denied:
  assumes "\<forall>gid\<in>set gids. denied incl (blessings r) (r_st r) gid"
    and "r_sg r \<Longrightarrow> \<forall>gid\<in>set gids. gid \<notin> fst ` set (initVecs r)"
  shows "fold (authorize_sg incl) gids (r, a) = (r\<lparr>sgIds := filter (\<lambda>g. g \<notin> set gids) (sgIds r)\<rparr>, a)"
  using assms
proof (induction gids arbitrary: r)
  case Nil
  then show ?case by simp
next
  case (Cons gid gids)
  let ?r = "r\<lparr>sgIds := removeAll gid (sgIds r)\<rparr>"
  have "AList.delete gid (initVecs r) = initVecs r" if "r_sg r"
    using Cons.prems(2)[OF that] by (force simp: AList.delete_eq filter_id_conv)
  then have "authorize_sg incl gid (r, a) = (?r, a)" using authorize_sg_denied[of incl r gid a] Cons.prems(1) by auto
  moreover have "fold (authorize_sg incl) gids (?r, a) = (?r\<lparr>sgIds := filter (\<lambda>g. g \<notin> set gids) (sgIds ?r)\<rparr>, a)"
    using Cons.prems by (intro Cons.IH) auto
  moreover have "filter (\<lambda>g. g \<notin> set gids) (removeAll gid (sgIds r)) = filter (\<lambda>g. g \<notin> set (gid # gids)) (sgIds r)"
    by (auto simp: removeAll_filter_not_eq intro: filter_cong)
  ultimately show ?case by simp
qed

text \<open>
  a request for data of an initiator that none of the syncgroups it names admits is refused as if the
  database were offline, and nothing is sent.
\<close>

theorem denied_data_request:
  assumes "newResponderState (DeltaReqData db gids gvs) bs init = Inr r" "\<forall>gid\<in>set gids. denied incl bs st gid"
  shows "snd (sendDeltasPerDatabase incl (Inr st) s r) = Some ([], Some ErrDbOffline)"
proof -
  have r: "r = \<lparr>r_dbId = db, sgIds = gids, initVecs = gvs, r_sg = False, blessings = bs, initiator = init, r_st = Map.empty, diff = [], outVecs = []\<rparr>"
    using assms(1) by (simp add: newResponderState_def)
  have "fold (authorize_sg incl) gids (r\<lparr>r_st := st\<rparr>, []) = (r\<lparr>r_st := st, sgIds := filter (\<lambda>g. g \<notin> set gids) (sgIds r)\<rparr>, [])"
    using fold_authorize_denied[of gids incl "r\<lparr>r_st := st\<rparr>" "[]"] assms(2) by (simp add: r)
  then have "authorizeAndFilterSyncgroups incl (Inr st) r = Inr (r\<lparr>r_st := st, sgIds := filter (\<lambda>g. g \<notin> set gids) (sgIds r), initVecs := []\<rparr>)"
    by (simp add: authorizeAndFilterSyncgroups_def r)
  then show ?thesis by (simp add: sendDeltasPerDatabase_def case_prod_beta)
qed

lemma denied_data_request_witness:
  "\<exists>r. newResponderState (DeltaReqData \<lparr>Blessing = [], Name = ''d''\<rparr> [''g''] [(''c'', [])]) [''u''] ''9'' = Inr r \<and>
     snd (sendDeltasPerDatabase (\<lambda>acl bs. False) (Inr Map.empty) \<lparr>sync_id = 7, syncState = Map.empty, sgPublishQueue = []\<rparr> r) =
       Some ([], Some ErrDbOffline)"
proof -
  obtain r where r: "newResponderState (DeltaReqData \<lparr>Blessing = [], Name = ''d''\<rparr> [''g''] [(''c'', [])]) [''u''] ''9'' = Inr r"
    by (simp add: newResponderState_def)
  have "\<forall>gid\<in>set [''g'']. denied (\<lambda>acl bs. False) [''u''] Map.empty gid"
    by (simp add: denied_def getSyncgroupByGid_def getSyncgroupVersion_def getHead_def)
  with r denied_data_request[OF r] show ?thesis by blast
qed

subsection \<open>Requests for syncgroups\<close>

lemma sgID_sgOID: "sgID (sgOID gid) = Some gid"
  by (simp add: sgID_def sgOID_def sgDataPrefix_def SyncPrefix_def JoinKeyParts_def SplitNKeyParts_def KeyPartSep_def
      numeral_3_eq_3 split_n.simps(3))

lemma sg_deltas_none: "\<forall>sg\<in>fst ` set ivs. map_of respVecs sg = None \<Longrightarrow> sg_deltas respVecs ivs r out = Some (out, Inr r)"
  by (induction ivs) auto

lemma Knowledge_DeepCopy_dom: "map_of (Knowledge_DeepCopy k) p = None \<longleftrightarrow> map_of k p = None"
proof -
  have "map_of (fold (\<lambda>(p, gv) out. AList.update p (GenVector_DeepCopy gv) out) k out) p = None \<longleftrightarrow> map_of k p = None \<and> map_of out p = None" for out
  proof (induction k arbitrary: out)
    case (Cons x k)
    obtain q gv where x: "x = (q, gv)" by fastforce
    show ?case using Cons[of "AList.update q (GenVector_DeepCopy gv) out"] by (cases "p = q") (simp_all add: x AList.update_conv')
  qed simp
  then show ?thesis by (simp add: Knowledge_DeepCopy_def)
qed

text \<open>
  the same initiator asking for syncgroups gets an answer without error, with no records and no vectors:
  the filter removes the vectors of denied syncgroups under the group id, while they are kept under the
  object id, so that the check for a request without vectors left does not fire.
\<close>

theorem denied_sg_request:
  assumes "syncState s db = Some ds" "\<not> isPaused ds" "ggs \<noteq> []" "\<forall>gid\<in>fst ` set ggs. KeyPartSep \<notin> set gid \<and> denied incl bs st gid"
    and "\<forall>gid\<in>fst ` set ggs. map_of (genvecs ds) (sgOID gid) = None"
    and "newResponderState (DeltaReqSgs db (map (\<lambda>(gid, gv). (sgOID gid, gv)) ggs)) bs init = Inr r"
  shows "snd (sendDeltasPerDatabase incl (Inr st) s r) = Some ([DeltaRespGvs []], None)"
proof -
  let ?gvs = "map (\<lambda>(gid, gv). (sgOID gid, gv)) ggs" and ?ids = "remdups (map fst ggs)"
  have ids: "map (\<lambda>(oid, _). the (sgID oid)) ?gvs = map fst ggs" by (auto simp: sgID_sgOID)
  have keys: "fst ` set ?gvs = sgOID ` fst ` set ggs" by force
  have r: "r = \<lparr>r_dbId = db, sgIds = ?ids, initVecs = ?gvs, r_sg = True, blessings = bs, initiator = init, r_st = Map.empty, diff = [], outVecs = []\<rparr>"
    using assms(6) by (simp add: newResponderState_def ids del: map_map split: if_splits)
  have "KeyPartSep \<in> set (sgOID gid)" for gid by (simp add: sgOID_def JoinKeyParts_def)
  then have nk: "\<forall>gid\<in>set ?ids. gid \<notin> fst ` set ?gvs" using assms(4) unfolding keys by fastforce
  have "fold (authorize_sg incl) ?ids (r\<lparr>r_st := st\<rparr>, []) = (r\<lparr>r_st := st, sgIds := []\<rparr>, [])"
    using fold_authorize_denied[of ?ids incl "r\<lparr>r_st := st\<rparr>" "[]"] assms(4) nk by (simp add: r filter_empty_conv)
  then have a: "authorizeAndFilterSyncgroups incl (Inr st) r = Inr (r\<lparr>r_st := st, sgIds := []\<rparr>)"
    by (simp add: authorizeAndFilterSyncgroups_def r)
  obtain rv rg where c: "copyDbGenInfo s db [] = Inr (rv, rg)" using assms(1) by (simp add: copyDbGenInfo_def)
  have "map_of rv p = None" if "map_of (genvecs ds) p = None" for p
  proof -
    have "map_of (Knowledge_DeepCopy (genvecs ds)) p = None" using that by (simp add: Knowledge_DeepCopy_dom)
    moreover have "rv = map (\<lambda>(p, gv). (p, AList.update (sync_id s) (checkptGen (data ds)) gv)) (Knowledge_DeepCopy (genvecs ds))"
      using c assms(1) by (auto simp: copyDbGenInfo_def)
    ultimately show ?thesis by (simp add: map_of_map)
  qed
  then have "\<forall>sg\<in>fst ` set ?gvs. map_of rv sg = None" using assms(5) unfolding keys by auto
  from sg_deltas_none[OF this] have "sendSgDeltas s (r\<lparr>r_st := st, sgIds := []\<rparr>) = Some ([DeltaRespGvs []], None)"
    using c by (simp add: sendSgDeltas_def r sendGenVecs_def)
  moreover have "isDbSyncable s db = (s, True)"
    using assms(1,2) by (simp add: isDbSyncable_def getOrCreateSyncStateInternal_def)
  ultimately show ?thesis using a assms(3) by (simp add: sendDeltasPerDatabase_def r)
qed

lemma denied_sg_request_witness:
  "\<exists>r. newResponderState (DeltaReqSgs \<lparr>Blessing = [], Name = ''d''\<rparr> (map (\<lambda>(gid, gv). (sgOID gid, gv)) [(''g'', [])])) [''u''] ''9'' = Inr r \<and>
     snd (sendDeltasPerDatabase (\<lambda>acl bs. False) (Inr Map.empty)
       \<lparr>sync_id = 7, syncState = [\<lparr>Blessing = [], Name = ''d''\<rparr> \<mapsto> new_dbSync], sgPublishQueue = []\<rparr> r) = Some ([DeltaRespGvs []], None)"
proof -
  obtain r where r: "newResponderState (DeltaReqSgs \<lparr>Blessing = [], Name = ''d''\<rparr> (map (\<lambda>(gid, gv). (sgOID gid, gv)) [(''g'', [])])) [''u''] ''9'' = Inr r"
    by (simp add: newResponderState_def sgID_sgOID)
  have "\<forall>gid\<in>fst ` set [(''g'', [] :: GenVector)]. KeyPartSep \<notin> set gid \<and> denied (\<lambda>acl bs. False) [''u''] Map.empty gid"
    by (simp add: denied_def getSyncgroupByGid_def getSyncgroupVersion_def getHead_def KeyPartSep_def)
  from denied_sg_request[OF _ _ _ this _ r] r show ?thesis by (auto simp: new_dbSync_def)
qed

end
