(* ===== verification/Cr_Merge.thy ===== *)
theory Cr_Merge
  imports Sync_Types
begin

text \<open>
  Three-way merges, \<^verbatim>\<open>src/services/syncbase/vsync/cr_permissions.go\<close>, \<^verbatim>\<open>cr_syncgroup.go\<close> and \<^verbatim>\<open>sameCollections\<close> of
  \<^verbatim>\<open>syncgroup.go\<close>. Two devices that resolve the same conflict see each other's version as the remote one; the
  theorems say that they come to the same result.

  Sets of strings are lists without repetition. Parameters: \<open>to_slice\<close> is \<^verbatim>\<open>set.String.ToSlice\<close> of the x/lib
  repository, \<open>norm_perms\<close> is \<^verbatim>\<open>Permissions.Normalize\<close> of the v23 API, which makes equivalent permissions equal.
\<close>

subsection \<open>Permissions\<close>

definition resolveSlice :: "(string list \<Rightarrow> string list) \<Rightarrow> string list \<Rightarrow> string list \<Rightarrow> string list \<Rightarrow> string list" where
  "resolveSlice to_slice local remote ancestor =
     (let ls = remdups local;
          ls = fold (\<lambda>el ls. if el \<notin> set ancestor then List.insert el ls else ls) remote ls;
          ls = fold (\<lambda>el ls. if el \<notin> set remote then removeAll el ls else ls) ancestor ls
      in to_slice ls)"

definition acl_at :: "Permissions \<Rightarrow> string \<Rightarrow> AccessList" where
  "acl_at perms tag = (case map_of perms tag of Some acl \<Rightarrow> acl | None \<Rightarrow> \<lparr>In = [], NotIn = []\<rparr>)"

definition resolve_tag :: "(string list \<Rightarrow> string list) \<Rightarrow> Permissions \<Rightarrow> Permissions \<Rightarrow> Permissions \<Rightarrow> string \<Rightarrow> Permissions \<Rightarrow> Permissions" where
  "resolve_tag to_slice local remote ancestor tag result =
     (let inn = resolveSlice to_slice (In (acl_at local tag)) (In (acl_at remote tag)) (In (acl_at ancestor tag));
          notIn = resolveSlice to_slice (NotIn (acl_at local tag)) (NotIn (acl_at remote tag)) (NotIn (acl_at ancestor tag))
      in if length inn \<noteq> 0 \<or> length notIn \<noteq> 0 then AList.update tag \<lparr>In = inn, NotIn = notIn\<rparr> result else result)"

definition resolvePermissions :: "(string list \<Rightarrow> string list) \<Rightarrow> (Permissions \<Rightarrow> Permissions) \<Rightarrow>
    Permissions \<Rightarrow> Permissions \<Rightarrow> Permissions \<Rightarrow> Permissions" where
  "resolvePermissions to_slice norm_perms local remote ancestor =
     (let tagsSet = remdups (map fst local @ map fst remote)
      in norm_perms (fold (resolve_tag to_slice local remote ancestor) tagsSet []))"

subsection \<open>Syncgroups\<close>

unbundle bit_operations_syntax

definition or_mask :: "8 word \<Rightarrow> wire_Id \<Rightarrow> (wire_Id \<times> 8 word) list \<Rightarrow> (wire_Id \<times> 8 word) list" where
  "or_mask b c collMap = AList.update c ((case map_of collMap c of Some m \<Rightarrow> m | None \<Rightarrow> 0) OR b) collMap"

definition sameCollections :: "wire_Id list \<Rightarrow> wire_Id list \<Rightarrow> bool" where
  "sameCollections coll1 coll2 = list_all (\<lambda>(_, mask). mask = 3) (fold (or_mask 2) coll2 (fold (or_mask 1) coll1 []))"

definition validateImmutableFields :: "Syncgroup \<Rightarrow> Syncgroup \<Rightarrow> derr option" where
  "validateImmutableFields a b =
     (if sg_Id a \<noteq> sg_Id b then Some (ErrBadState ''illegal change to the Id'')
      else if Creator a \<noteq> Creator b then Some (ErrBadState ''illegal change to the Creator'')
      else if sg_DbId a \<noteq> sg_DbId b then Some (ErrBadState ''illegal change to the DbId'')
      else if \<not> sameCollections (Collections (Spec a)) (Collections (Spec b)) then Some (ErrBadState ''illegal change to the Collections set'')
      else None)"

definition resolveStatus :: "SyncgroupStatus \<Rightarrow> SyncgroupStatus \<Rightarrow> SyncgroupStatus \<Rightarrow> SyncgroupStatus" where
  "resolveStatus local remote ancestor =
     (if local = Running \<or> remote = Running \<or> ancestor = Running then Running
      else if local = PublishRejected \<or> remote = PublishRejected \<or> ancestor = PublishRejected then PublishRejected
      else PublishPending)"

type_synonym joiners = "(string \<times> SyncgroupMemberState) list"

text \<open>The times of an update are signed 64-bit numbers.\<close>

definition resolve_joiner :: "bool \<Rightarrow> joiners \<Rightarrow> joiners \<Rightarrow> string \<Rightarrow> joiners \<Rightarrow> joiners" where
  "resolve_joiner preferLocal local remote key result =
     (case (map_of local key, map_of remote key) of
        (None, None) \<Rightarrow> result
      | (None, Some r) \<Rightarrow> AList.update key r result
      | (Some l, None) \<Rightarrow> AList.update key l result
      | (Some l, Some r) \<Rightarrow>
          AList.update key
            (if WhenUpdated l = WhenUpdated r then (if preferLocal then l else r)
             else if sint (WhenUpdated r) < sint (WhenUpdated l) then l else r) result)"

definition resolveJoiners :: "bool \<Rightarrow> joiners \<Rightarrow> joiners \<Rightarrow> joiners" where
  "resolveJoiners preferLocal local remote =
     (let newMembers = remdups (map fst local @ map fst remote)
      in fold (resolve_joiner preferLocal local remote) newMembers [])"

definition resolveSpec :: "(string list \<Rightarrow> string list) \<Rightarrow> (Permissions \<Rightarrow> Permissions) \<Rightarrow> bool \<Rightarrow> string \<Rightarrow> string \<Rightarrow> string \<Rightarrow>
    SyncgroupSpec \<Rightarrow> SyncgroupSpec \<Rightarrow> SyncgroupSpec \<Rightarrow> string \<times> SyncgroupSpec" where
  "resolveSpec to_slice norm_perms preferLocal vlocal vremote vancestor local remote ancestor =
     (if vlocal = vremote then (vlocal, local)
      else if vlocal = vancestor then (vremote, remote)
      else if vremote = vancestor then (vlocal, local)
      else (NoVersion,
        \<lparr>Description = Description (if preferLocal then local else remote),
         PublishSyncbaseName = PublishSyncbaseName (if preferLocal then local else remote),
         Perms = resolvePermissions to_slice norm_perms (Perms local) (Perms remote) (Perms ancestor),
         Collections = Collections local,
         MountTables = resolveSlice to_slice (MountTables local) (MountTables remote) (MountTables ancestor),
         IsPrivate = IsPrivate (if preferLocal then local else remote)\<rparr>))"

definition zero_Syncgroup :: Syncgroup where
  "zero_Syncgroup =
     \<lparr>sg_Id = \<lparr>Blessing = [], Name = []\<rparr>, SpecVersion = [],
      Spec = \<lparr>Description = [], PublishSyncbaseName = [], Perms = [], Collections = [], MountTables = [], IsPrivate = False\<rparr>,
      Creator = [], sg_DbId = \<lparr>Blessing = [], Name = []\<rparr>, Status = PublishPending, Joiners = []\<rparr>"

definition resolveSyncgroup :: "(string list \<Rightarrow> string list) \<Rightarrow> (Permissions \<Rightarrow> Permissions) \<Rightarrow> bool \<Rightarrow> Syncgroup \<Rightarrow> Syncgroup \<Rightarrow>
    Syncgroup option \<Rightarrow> derr + Syncgroup" where
  "resolveSyncgroup to_slice norm_perms preferLocal local remote ancestor =
     (case (case ancestor of None \<Rightarrow> None | Some a \<Rightarrow> validateImmutableFields a local) of
        Some e \<Rightarrow> Inl e
      | None \<Rightarrow>
          (let a = (case ancestor of None \<Rightarrow> zero_Syncgroup | Some a \<Rightarrow> a) in
           case validateImmutableFields remote local of
             Some e \<Rightarrow> Inl e
           | None \<Rightarrow>
               (let (v, sp) = resolveSpec to_slice norm_perms preferLocal (SpecVersion local) (SpecVersion remote) (SpecVersion a)
                                (Spec local) (Spec remote) (Spec a)
                in Inr \<lparr>sg_Id = sg_Id local, SpecVersion = v, Spec = sp, Creator = Creator local, sg_DbId = sg_DbId local,
                        Status = resolveStatus (Status local) (Status remote) (Status a),
                        Joiners = resolveJoiners preferLocal (Joiners local) (Joiners remote)\<rparr>)))"

subsection \<open>The merges do not depend on the side\<close>

lemma or_masks:
  assumes "map_of (fold (or_mask 2) coll2 (fold (or_mask 1) coll1 [])) c = m"
  shows "m = (if c \<notin> set coll1 \<and> c \<notin> set coll2 then None
    else Some ((if c \<in> set coll1 then 1 else 0) OR (if c \<in> set coll2 then 2 else 0)))"
proof -
  have f: "map_of (fold (or_mask b) xs cm) c =
      (if c \<in> set xs then Some ((case map_of cm c of Some m \<Rightarrow> m | None \<Rightarrow> 0) OR b) else map_of cm c)" for b xs cm
    by (induction xs arbitrary: cm) (auto simp: or_mask_def AList.update_conv' or.assoc)
  show ?thesis using assms unfolding f by auto
qed

lemma fold_or_mask_distinct: "distinct (map fst cm) \<Longrightarrow> distinct (map fst (fold (or_mask b) xs cm))"
  by (induction xs arbitrary: cm) (auto simp: or_mask_def AList.distinct_update)

lemma sameCollections_iff: "sameCollections coll1 coll2 \<longleftrightarrow> set coll1 = set coll2"
proof -
  let ?m = "fold (or_mask 2) coll2 (fold (or_mask 1) coll1 [])"
  have "distinct (map fst ?m)" by (intro fold_or_mask_distinct) simp
  then have "sameCollections coll1 coll2 \<longleftrightarrow> (\<forall>c x. map_of ?m c = Some x \<longrightarrow> x = 3)"
    by (auto simp: sameCollections_def list_all_iff)
  also have "\<dots> \<longleftrightarrow> set coll1 = set coll2"
    using or_masks[OF refl, of coll2 coll1] by (simp add: set_eq_iff) blast
  finally show ?thesis .
qed

lemma resolveSlice_set:
  assumes "\<And>xs. set (to_slice xs) = set xs"
  shows "set (resolveSlice to_slice local remote ancestor) = (set local \<union> (set remote - set ancestor)) - (set ancestor - set remote)"
proof -
  have "set (fold (\<lambda>el ls. if el \<notin> set ancestor then List.insert el ls else ls) xs ls) = set ls \<union> (set xs - set ancestor)" for xs ls
    by (induction xs arbitrary: ls) auto
  moreover have "set (fold (\<lambda>el ls. if el \<notin> set remote then removeAll el ls else ls) xs ls) = set ls - (set xs - set remote)" for xs ls
    by (induction xs arbitrary: ls) auto
  ultimately show ?thesis by (simp add: resolveSlice_def assms)
qed

lemma resolveSlice_sym:
  assumes "\<And>xs. set (to_slice xs) = set xs"
  shows "set (resolveSlice to_slice local remote ancestor) = set (resolveSlice to_slice remote local ancestor)"
  unfolding resolveSlice_set[OF assms] by blast

lemma resolveStatus_sym: "resolveStatus local remote ancestor = resolveStatus remote local ancestor"
  by (auto simp: resolveStatus_def)

lemma map_of_fold_keys:
  assumes "\<And>k res. map_of (f k res) = (case g k of None \<Rightarrow> map_of res | Some v \<Rightarrow> (map_of res)(k \<mapsto> v))"
  shows "map_of (fold f ks res) k = (if k \<in> set ks \<and> g k \<noteq> None then g k else map_of res k)"
  by (induction ks arbitrary: res) (auto simp: assms split: option.splits)

text \<open>Permissions with the same tags, and for each tag the same blessings in and not in.\<close>

definition acl_equiv :: "AccessList \<Rightarrow> AccessList \<Rightarrow> bool" where
  "acl_equiv a b \<longleftrightarrow> set (In a) = set (In b) \<and> set (NotIn a) = set (NotIn b)"

definition perms_equiv :: "Permissions \<Rightarrow> Permissions \<Rightarrow> bool" where
  "perms_equiv p q \<longleftrightarrow> (\<forall>tag. rel_option acl_equiv (map_of p tag) (map_of q tag))"

definition tag_acl :: "(string list \<Rightarrow> string list) \<Rightarrow> Permissions \<Rightarrow> Permissions \<Rightarrow> Permissions \<Rightarrow> string \<Rightarrow> AccessList option" where
  "tag_acl to_slice local remote ancestor tag =
     (let inn = resolveSlice to_slice (In (acl_at local tag)) (In (acl_at remote tag)) (In (acl_at ancestor tag));
          notIn = resolveSlice to_slice (NotIn (acl_at local tag)) (NotIn (acl_at remote tag)) (NotIn (acl_at ancestor tag))
      in if inn \<noteq> [] \<or> notIn \<noteq> [] then Some \<lparr>In = inn, NotIn = notIn\<rparr> else None)"

lemma resolve_tags:
  "map_of (fold (resolve_tag ts local remote ancestor) tags []) tag =
     (if tag \<in> set tags then tag_acl ts local remote ancestor tag else None)"
proof -
  have "map_of (resolve_tag ts local remote ancestor k res) =
      (case tag_acl ts local remote ancestor k of None \<Rightarrow> map_of res | Some v \<Rightarrow> (map_of res)(k \<mapsto> v))" for k res
    by (simp add: resolve_tag_def tag_acl_def Let_def AList.update_conv')
  from map_of_fold_keys[where f = "resolve_tag ts local remote ancestor", OF this] show ?thesis by auto
qed

lemma tag_acl_sym:
  assumes "\<And>xs. set (ts xs) = set xs"
  shows "rel_option acl_equiv (tag_acl ts l r a tag) (tag_acl ts r l a tag)"
proof -
  note sym = resolveSlice_sym[OF assms]
  have "resolveSlice ts x y z = [] \<longleftrightarrow> resolveSlice ts y x z = []" for x y z using sym[of x y z] by (metis set_empty)
  then show ?thesis using sym by (simp add: tag_acl_def Let_def acl_equiv_def)
qed

lemma resolvePermissions_sym:
  assumes "\<And>xs. set (ts xs) = set xs" "\<And>p q. perms_equiv p q \<Longrightarrow> norm_perms p = norm_perms q"
  shows "resolvePermissions ts norm_perms local remote ancestor = resolvePermissions ts norm_perms remote local ancestor"
proof -
  have "set (remdups (map fst local @ map fst remote)) = set (remdups (map fst remote @ map fst local))" by auto
  then have "perms_equiv (fold (resolve_tag ts local remote ancestor) (remdups (map fst local @ map fst remote)) [])
      (fold (resolve_tag ts remote local ancestor) (remdups (map fst remote @ map fst local)) [])"
    using tag_acl_sym[OF assms(1)] unfolding perms_equiv_def resolve_tags by simp
  from assms(2)[OF this] show ?thesis by (simp add: resolvePermissions_def)
qed

definition pick_member :: "bool \<Rightarrow> joiners \<Rightarrow> joiners \<Rightarrow> string \<Rightarrow> SyncgroupMemberState option" where
  "pick_member pl l r k = (case map_of l k of
      None \<Rightarrow> map_of r k
    | Some x \<Rightarrow> (case map_of r k of
        None \<Rightarrow> Some x
      | Some y \<Rightarrow> Some (if WhenUpdated x = WhenUpdated y then (if pl then x else y)
          else if sint (WhenUpdated y) < sint (WhenUpdated x) then x else y)))"

lemma pick_member_sym: "pick_member pl local remote key = pick_member (\<not> pl) remote local key"
  by (auto simp: pick_member_def dest: signed_word_eqI split: option.split)

lemma resolveJoiners_eq: "map_of (resolveJoiners pl local remote) = pick_member pl local remote"
proof
  fix key
  have "map_of (resolve_joiner pl local remote k res) =
      (case pick_member pl local remote k of None \<Rightarrow> map_of res | Some v \<Rightarrow> (map_of res)(k \<mapsto> v))" for k res
    by (simp add: resolve_joiner_def pick_member_def AList.update_conv' split: option.split)
  note f = map_of_fold_keys[where f = "resolve_joiner pl local remote", OF this]
  have "pick_member pl local remote key = None" if "key \<notin> set (map fst local @ map fst remote)"
  proof -
    have "map_of local key = None" "map_of remote key = None" using that by (auto simp: map_of_eq_None_iff)
    then show ?thesis by (simp add: pick_member_def)
  qed
  then show "map_of (resolveJoiners pl local remote) key = pick_member pl local remote key"
    by (auto simp: resolveJoiners_def f)
qed

subsection \<open>Convergence\<close>

text \<open>Equal syncgroups up to the order of collections, mount tables and joiners.\<close>

definition spec_equiv :: "SyncgroupSpec \<Rightarrow> SyncgroupSpec \<Rightarrow> bool" where
  "spec_equiv x y \<longleftrightarrow> Description x = Description y \<and> PublishSyncbaseName x = PublishSyncbaseName y \<and> Perms x = Perms y \<and>
     set (Collections x) = set (Collections y) \<and> set (MountTables x) = set (MountTables y) \<and> IsPrivate x = IsPrivate y"

definition sg_equiv :: "Syncgroup \<Rightarrow> Syncgroup \<Rightarrow> bool" where
  "sg_equiv x y \<longleftrightarrow> sg_Id x = sg_Id y \<and> SpecVersion x = SpecVersion y \<and> spec_equiv (Spec x) (Spec y) \<and> Creator x = Creator y \<and>
     sg_DbId x = sg_DbId y \<and> Status x = Status y \<and> map_of (Joiners x) = map_of (Joiners y)"

lemma validate_iff:
  "validateImmutableFields a b = None \<longleftrightarrow> sg_Id a = sg_Id b \<and> Creator a = Creator b \<and> sg_DbId a = sg_DbId b \<and>
     set (Collections (Spec a)) = set (Collections (Spec b))"
  by (simp add: validateImmutableFields_def sameCollections_iff)

lemma resolveSpec_sym:
  assumes "\<And>xs. set (ts xs) = set xs" "\<And>p q. perms_equiv p q \<Longrightarrow> norm_perms p = norm_perms q"
    and "vl = vr \<Longrightarrow> l = r" "set (Collections l) = set (Collections r)"
    and "resolveSpec ts norm_perms pl vl vr va l r a = (v, sp)" "resolveSpec ts norm_perms (\<not> pl) vr vl va r l a = (v', sp')"
  shows "v = v' \<and> spec_equiv sp sp'"
proof -
  have sym1: "resolvePermissions ts norm_perms (Perms l) (Perms r) (Perms a) = resolvePermissions ts norm_perms (Perms r) (Perms l) (Perms a)"
    by (rule resolvePermissions_sym) (use assms(1,2) in blast)+
  have sym2: "set (resolveSlice ts (MountTables l) (MountTables r) (MountTables a)) = set (resolveSlice ts (MountTables r) (MountTables l) (MountTables a))"
    by (rule resolveSlice_sym[OF assms(1)])
  consider "vl = vr" | "vl \<noteq> vr" "vl = va" | "vl \<noteq> vr" "vr = va" | "vl \<noteq> vr" "vl \<noteq> va" "vr \<noteq> va" by blast
  then show ?thesis
  proof cases
    case 4
    then show ?thesis using assms(4-) sym1 sym2 by (auto simp: resolveSpec_def spec_equiv_def)
  qed (use assms(3-) in \<open>auto simp: resolveSpec_def spec_equiv_def\<close>)
qed

text \<open>
  C5: two devices that resolve the same conflict of a syncgroup, each with its own version as the local one and
  with opposite preference, accept the same inputs and come to the same syncgroup, provided that equal
  versions carry equal specifications.
\<close>

theorem resolveSyncgroup_converges:
  assumes "\<And>xs. set (to_slice xs) = set xs" "\<And>p q. perms_equiv p q \<Longrightarrow> norm_perms p = norm_perms q"
    and "SpecVersion l = SpecVersion r \<Longrightarrow> Spec l = Spec r" "resolveSyncgroup to_slice norm_perms pl l r a = Inr x"
  shows "\<exists>y. resolveSyncgroup to_slice norm_perms (\<not> pl) r l a = Inr y \<and> sg_equiv x y"
proof -
  let ?a = "case a of None \<Rightarrow> zero_Syncgroup | Some a \<Rightarrow> a"
  have va: "(case a of None \<Rightarrow> None | Some a \<Rightarrow> validateImmutableFields a l) = None" and vr: "validateImmutableFields r l = None"
    using assms(4) by (auto simp: resolveSyncgroup_def split: option.splits)
  have va': "(case a of None \<Rightarrow> None | Some a \<Rightarrow> validateImmutableFields a r) = None" and vl: "validateImmutableFields l r = None"
    using va vr by (auto simp: validate_iff split: option.splits)
  obtain v sp where s1: "resolveSpec to_slice norm_perms pl (SpecVersion l) (SpecVersion r) (SpecVersion ?a) (Spec l) (Spec r) (Spec ?a) = (v, sp)"
    by fastforce
  obtain v' sp' where s2: "resolveSpec to_slice norm_perms (\<not> pl) (SpecVersion r) (SpecVersion l) (SpecVersion ?a) (Spec r) (Spec l) (Spec ?a) = (v', sp')"
    by fastforce
  have sp: "v = v' \<and> spec_equiv sp sp'"
  proof (rule resolveSpec_sym)
    show "\<And>xs. set (to_slice xs) = set xs" "\<And>p q. perms_equiv p q \<Longrightarrow> norm_perms p = norm_perms q" using assms(1,2) by blast+
    show "set (Collections (Spec l)) = set (Collections (Spec r))" using vl by (simp add: validate_iff)
  qed (use assms(3) s1 s2 in auto)
  have "x = \<lparr>sg_Id = sg_Id l, SpecVersion = v, Spec = sp, Creator = Creator l, sg_DbId = sg_DbId l,
      Status = resolveStatus (Status l) (Status r) (Status ?a), Joiners = resolveJoiners pl (Joiners l) (Joiners r)\<rparr>"
    using assms(4) va vr s1 by (simp add: resolveSyncgroup_def)
  moreover have "resolveSyncgroup to_slice norm_perms (\<not> pl) r l a =
      Inr \<lparr>sg_Id = sg_Id r, SpecVersion = v', Spec = sp', Creator = Creator r, sg_DbId = sg_DbId r,
        Status = resolveStatus (Status r) (Status l) (Status ?a), Joiners = resolveJoiners (\<not> pl) (Joiners r) (Joiners l)\<rparr>"
    using va' vl s2 by (simp add: resolveSyncgroup_def)
  moreover have "map_of (resolveJoiners pl (Joiners l) (Joiners r)) = map_of (resolveJoiners (\<not> pl) (Joiners r) (Joiners l))"
    unfolding resolveJoiners_eq using pick_member_sym by blast
  ultimately show ?thesis using sp vl resolveStatus_sym by (auto simp: sg_equiv_def validate_iff)
qed

text \<open>A normal form of permissions: tags and blessings in order, without repetition.\<close>

definition sorted_perms :: "Permissions \<Rightarrow> Permissions" where
  "sorted_perms p = map (\<lambda>t. (t, \<lparr>In = sorted_list_of_set (set (In (acl_at p t))), NotIn = sorted_list_of_set (set (NotIn (acl_at p t)))\<rparr>))
     (sorted_list_of_set (dom (map_of p)))"

lemma sorted_perms_normal: "perms_equiv p q \<Longrightarrow> sorted_perms p = sorted_perms q"
proof -
  assume e: "perms_equiv p q"
  then have "map_of p t = None \<longleftrightarrow> map_of q t = None" for t unfolding perms_equiv_def by (metis option.rel_distinct(1,2) option.exhaust)
  then have "dom (map_of p) = dom (map_of q)" by (auto simp: dom_def)
  moreover have "set (In (acl_at p t)) = set (In (acl_at q t)) \<and> set (NotIn (acl_at p t)) = set (NotIn (acl_at q t))" for t
    using e[unfolded perms_equiv_def, rule_format, of t] by (cases "map_of p t"; cases "map_of q t") (auto simp: acl_at_def acl_equiv_def)
  ultimately show ?thesis by (simp add: sorted_perms_def)
qed

definition sample_sg :: "string \<Rightarrow> string list \<Rightarrow> Syncgroup" where
  "sample_sg v mts = zero_Syncgroup\<lparr>SpecVersion := v, Spec := (Spec zero_Syncgroup)\<lparr>MountTables := mts\<rparr>\<rparr>"

lemma resolveSyncgroup_converges_witness:
  "\<exists>x y. resolveSyncgroup rev sorted_perms True (sample_sg ''1'' [''a'']) (sample_sg ''2'' [''b'']) None = Inr x \<and>
     resolveSyncgroup rev sorted_perms False (sample_sg ''2'' [''b'']) (sample_sg ''1'' [''a'']) None = Inr y \<and> sg_equiv x y"
proof -
  have "\<exists>x. resolveSyncgroup rev sorted_perms True (sample_sg ''1'' [''a'']) (sample_sg ''2'' [''b'']) None = Inr x"
  proof -
    have "validateImmutableFields (sample_sg ''2'' [''b'']) (sample_sg ''1'' [''a'']) = None" by (simp add: validate_iff sample_sg_def)
    then show ?thesis by (simp add: resolveSyncgroup_def case_prod_beta Let_def)
  qed
  then obtain x where x: "resolveSyncgroup rev sorted_perms True (sample_sg ''1'' [''a'']) (sample_sg ''2'' [''b'']) None = Inr x" by blast
  have "\<exists>y. resolveSyncgroup rev sorted_perms (\<not> True) (sample_sg ''2'' [''b'']) (sample_sg ''1'' [''a'']) None = Inr y \<and> sg_equiv x y"
    by (rule resolveSyncgroup_converges[OF _ _ _ x]) (use sorted_perms_normal in \<open>auto simp: sample_sg_def\<close>)
  then show ?thesis using x by auto
qed

end
