(* ===== verification/Crc64_Window.thy ===== *)
theory Crc64_Window
  imports Prelude "HOL-Library.Word"
begin

unbundle bit_operations_syntax

text \<open>
  The rolling checksum of the blob store (\<^verbatim>\<open>localblobstore/crc64window/crc64window.go\<close>): a window over the last bytes of a stream with a CRC
  that is updated by two table lookups per byte. It is shown equal to the CRC of the bytes in the window, computed bit by bit.
\<close>

subsection \<open>Tables\<close>

record crcData =
  conditioning :: "64 word"
  crcTableFront :: "64 word list"
  crcTableRear :: "64 word list"

text \<open>One bit: the polynomial is subtracted when the bit shifted out is set.\<close>

definition crc_bit :: "64 word \<Rightarrow> 64 word \<Rightarrow> 64 word" where
  "crc_bit poly crc = drop_bit 1 crc XOR [0, poly] ! unat (crc AND 1)"

definition crc_byte :: "64 word list \<Rightarrow> 64 word \<Rightarrow> 64 word" where
  "crc_byte front crc = front ! unat (ucast crc :: 8 word) XOR drop_bit 8 crc"

text \<open>Both tables are doubled: entry \<open>j + i\<close> is that of \<open>j\<close> plus that of the power of two \<open>i\<close>.\<close>

definition double_table :: "64 word \<Rightarrow> nat \<Rightarrow> 64 word list \<Rightarrow> 64 word list" where
  "double_table crc i t = fold (\<lambda>j t. t[j + i := crc XOR t ! j]) [0..<i] t"

definition fill_table :: "(nat \<Rightarrow> 64 word) \<Rightarrow> 64 word list" where
  "fill_table f = fold (\<lambda>i. double_table (f i) i) [1, 2, 4, 8, 16, 32, 64, 128] (replicate 256 0)"

definition front_table :: "64 word \<Rightarrow> 64 word list" where
  "front_table poly = fill_table (\<lambda>i. (crc_bit poly ^^ 8) (word_of_nat i))"

definition rear_table :: "64 word list \<Rightarrow> nat \<Rightarrow> 64 word list" where
  "rear_table front sz = fill_table (\<lambda>i. (crc_byte front ^^ (sz - 1)) (front ! i))"

definition make_crcData :: "64 word \<Rightarrow> nat \<Rightarrow> crcData" where
  "make_crcData poly sz =
     (let front = front_table poly in
      \<lparr>conditioning = (crc_byte front ^^ sz) (NOT 0), crcTableFront = front, crcTableRear = rear_table front sz\<rparr>)"

type_synonym crcTables = "64 word \<times> int \<rightharpoonup> crcData"

definition getCRCData :: "crcTables \<Rightarrow> 64 word \<Rightarrow> int \<Rightarrow> crcTables \<times> crcData" where
  "getCRCData tables poly sz =
     (case tables (poly, sz) of
        Some c \<Rightarrow> (tables, c)
      | None \<Rightarrow> (let c = make_crcData poly (nat sz) in (tables((poly, sz) \<mapsto> c), c)))"

subsection \<open>Windows\<close>

record Window =
  w_crc :: "64 word"
  w_window :: "8 word list"
  w_pos :: nat
  w_crcData :: crcData

text \<open>\<^term>\<open>None\<close> is the panic of a size that is not positive.\<close>

definition Window_New :: "crcTables \<Rightarrow> 64 word \<Rightarrow> int \<Rightarrow> (crcTables \<times> Window) option" where
  "Window_New tables poly sz =
     (if sz \<le> 0 then None
      else let (tables, c) = getCRCData tables poly sz in
        Some (tables, \<lparr>w_crc = 0, w_window = replicate (nat sz) 0, w_pos = 0, w_crcData = c\<rparr>))"

definition Window_Advance :: "Window \<Rightarrow> 8 word \<Rightarrow> Window \<times> 64 word" where
  "Window_Advance w b =
     (let c = w_crcData w; pos = w_pos w;
          crc = w_crc w XOR crcTableRear c ! unat (w_window w ! pos);
          crc' = crcTableFront c ! unat (ucast crc XOR b) XOR drop_bit 8 crc;
          window = (w_window w)[pos := b];
          pos' = (if pos + 1 = length window then 0 else pos + 1)
      in (w\<lparr>w_crc := crc', w_window := window, w_pos := pos'\<rparr>, NOT (conditioning c XOR crc')))"

subsection \<open>The checksum as a linear map\<close>

lemma crc_bit_odd: "crc_bit poly crc = drop_bit 1 crc XOR (if odd crc then poly else 0)"
  by (simp add: crc_bit_def and_one_eq odd_iff_mod_2_eq_one)

lemma crc_bit_xor: "crc_bit poly (x XOR y) = crc_bit poly x XOR crc_bit poly y"
  by (auto simp: crc_bit_odd drop_bit_xor even_xor_iff xor.assoc xor.left_commute)

lemma crc_bits_xor: "(crc_bit poly ^^ n) (x XOR y) = (crc_bit poly ^^ n) x XOR (crc_bit poly ^^ n) y"
  by (induction n) (simp_all add: crc_bit_xor)

lemma crc_bits_shift: "take_bit n x = 0 \<Longrightarrow> (crc_bit poly ^^ n) x = drop_bit n x"
proof (induction n)
  case (Suc n)
  have "take_bit n x = take_bit n (take_bit (Suc n) x)" by simp
  then have "take_bit n x = 0" using Suc.prems by simp
  then have "(crc_bit poly ^^ Suc n) x = crc_bit poly (drop_bit n x)" using Suc.IH by simp
  moreover have "\<not> bit x n" using bit_take_bit_iff[of "Suc n" x n] Suc.prems by simp
  moreover have "crc_bit poly (drop_bit n x) = drop_bit 1 (drop_bit n x)" if "\<not> bit x n" using that by (simp add: crc_bit_odd bit_iff_odd_drop_bit)
  ultimately show ?case by simp
qed simp

definition crc_step :: "64 word \<Rightarrow> 64 word \<Rightarrow> 64 word" where
  "crc_step poly = crc_bit poly ^^ 8"

lemma crc_step_xor: "crc_step poly (x XOR y) = crc_step poly x XOR crc_step poly y"
  by (simp add: crc_step_def crc_bits_xor)

lemma crc_step_split: "crc_step poly crc = crc_step poly (take_bit 8 crc) XOR drop_bit 8 crc"
proof -
  let ?hi = "crc XOR take_bit 8 crc"
  have "take_bit 8 ?hi = 0" by (simp add: take_bit_xor)
  then have "crc_step poly ?hi = drop_bit 8 ?hi" unfolding crc_step_def by (rule crc_bits_shift)
  also have "\<dots> = drop_bit 8 crc" by (simp add: drop_bit_xor drop_bit_take_bit)
  finally have "crc_step poly (take_bit 8 crc XOR ?hi) = crc_step poly (take_bit 8 crc) XOR drop_bit 8 crc" by (simp only: crc_step_xor)
  then show ?thesis by (simp add: xor.left_commute)
qed

subsection \<open>The tables\<close>

text \<open>A table is right up to \<open>n\<close> when it holds the values of a linear map.\<close>

definition table_upto :: "(64 word \<Rightarrow> 64 word) \<Rightarrow> nat \<Rightarrow> 64 word list \<Rightarrow> bool" where
  "table_upto g n t \<longleftrightarrow> length t = 256 \<and> (\<forall>k<n. t ! k = g (word_of_nat k))"

lemma word_of_nat_add_pow:
  assumes "j < 2 ^ m"
  shows "word_of_nat (j + 2 ^ m) = (word_of_nat (2 ^ m) XOR word_of_nat j :: 64 word)"
proof -
  have "take_bit m j = j" using assms by (simp add: take_bit_nat_eq_self)
  moreover have "2 ^ m AND take_bit m j = 0" by (rule bit_eqI) (auto simp: bit_simps)
  ultimately have "2 ^ m AND j = 0" by simp
  then have "j + 2 ^ m = 2 ^ m XOR j" by (metis add.commute disjunctive_add_eq_xor)
  then show ?thesis by (simp add: of_nat_xor_eq)
qed

lemma double_table_upto:
  assumes "table_upto g (2 ^ m) t" "2 ^ Suc m \<le> (256 :: nat)" "\<And>x y. g (x XOR y) = g x XOR g y" "crc = g (word_of_nat (2 ^ m))"
  shows "table_upto g (2 ^ Suc m) (double_table crc (2 ^ m) t)"
proof -
  let ?i = "2 ^ m :: nat"
  have "length (fold (\<lambda>j t. t[j + ?i := crc XOR t ! j]) [0..<n] t) = 256 \<and>
      (\<forall>k<?i + n. fold (\<lambda>j t. t[j + ?i := crc XOR t ! j]) [0..<n] t ! k = g (word_of_nat k))" if "n \<le> ?i" for n
    using that
  proof (induction n)
    case 0
    then show ?case using assms(1) by (simp add: table_upto_def)
  next
    case (Suc n)
    let ?t = "fold (\<lambda>j t. t[j + ?i := crc XOR t ! j]) [0..<n] t"
    have IH: "length ?t = 256" "\<And>k. k < ?i + n \<Longrightarrow> ?t ! k = g (word_of_nat k)" using Suc by auto
    have n: "n < ?i" "n + ?i < 256" using Suc.prems assms(2) by auto
    have "crc XOR ?t ! n = g (word_of_nat (n + ?i))" using IH(2)[of n] n(1) assms(4) by (simp only: word_of_nat_add_pow assms(3))
    then show ?case using IH n(2) by (auto simp: nth_list_update less_Suc_eq add.commute)
  qed
  from this[of ?i] show ?thesis by (simp add: table_upto_def double_table_def mult_2)
qed

lemma fill_table_upto:
  assumes "\<And>x y. g (x XOR y) = g x XOR g y" "\<And>m. m < 8 \<Longrightarrow> f (2 ^ m) = g (word_of_nat (2 ^ m))"
  shows "table_upto g 256 (fill_table f)"
proof -
  have "g 0 = 0" using assms(1)[of 0 0] by simp
  then have "table_upto g (2 ^ 0) (replicate 256 0)" by (simp add: table_upto_def)
  have pows: "[1, 2, 4, 8, 16, 32, 64, 128] = map ((^) (2 :: nat)) [0..<8]" by (simp add: upt_rec)
  have "table_upto g (2 ^ n) (fold (\<lambda>i. double_table (f i) i) (map ((^) 2) [0..<n]) (replicate 256 0))" if "n \<le> 8" for n
    using that
  proof (induction n)
    case 0
    then show ?case using \<open>g 0 = 0\<close> by (simp add: table_upto_def)
  next
    case (Suc n)
    have "2 ^ Suc n \<le> (2 ^ 8 :: nat)" using Suc.prems by (intro power_increasing) simp_all
    then show ?case using double_table_upto[OF _ _ assms(1) assms(2)] Suc by simp
  qed
  from this[of 8] show ?thesis unfolding fill_table_def pows by simp
qed

lemma ucast_byte:
  "ucast (ucast crc :: 8 word) = take_bit 8 (crc :: 64 word)"
  "ucast (ucast crc XOR b :: 8 word) = take_bit 8 (crc XOR ucast b :: 64 word)"
  "drop_bit 8 (ucast (b :: 8 word) :: 64 word) = 0"
  by (rule bit_eqI, auto simp: bit_simps dest: bit_imp_le_length)+

lemma front_table_step: "k < 256 \<Longrightarrow> front_table poly ! k = crc_step poly (word_of_nat k)"
  using fill_table_upto[of "crc_step poly" "\<lambda>i. crc_step poly (word_of_nat i)"] crc_step_xor
  by (simp add: table_upto_def front_table_def crc_step_def)

lemma byte_less: "unat (b :: 8 word) < 256"
  using unsigned_less[of b] by simp

lemma crc_byte_step: "crc_byte (front_table poly) = crc_step poly"
proof
  fix crc
  show "crc_byte (front_table poly) crc = crc_step poly crc"
    using crc_step_split[of poly crc] by (simp add: crc_byte_def front_table_step[OF byte_less] ucast_byte)
qed

lemma crc_steps_xor: "(crc_step poly ^^ n) (x XOR y) = (crc_step poly ^^ n) x XOR (crc_step poly ^^ n) y"
  by (induction n) (simp_all add: crc_step_xor)

lemma rear_table_step:
  assumes "0 < n" "k < 256"
  shows "rear_table (front_table poly) n ! k = (crc_step poly ^^ n) (word_of_nat k)"
proof -
  have "(crc_step poly ^^ (n - 1)) (front_table poly ! (2 ^ m)) = (crc_step poly ^^ n) (word_of_nat (2 ^ m))" if "m < 8" for m
  proof -
    have "(2 ^ m :: nat) < 2 ^ 8" using that by (intro power_strict_increasing) simp_all
    then show ?thesis using assms(1) by (cases n) (simp_all add: front_table_step funpow_swap1)
  qed
  then show ?thesis using fill_table_upto[of "crc_step poly ^^ n", OF crc_steps_xor] assms(2)
    by (simp add: rear_table_def crc_byte_step table_upto_def)
qed

subsection \<open>Rolling\<close>

text \<open>The remainder of a sequence of bytes, and the CRC with its conditioning as \<^verbatim>\<open>hash/crc64\<close> has it.\<close>

definition crc_rem :: "64 word \<Rightarrow> 8 word list \<Rightarrow> 64 word \<Rightarrow> 64 word" where
  "crc_rem poly bs c = fold (\<lambda>b c. crc_step poly (c XOR ucast b)) bs c"

definition crc64 :: "64 word \<Rightarrow> 8 word list \<Rightarrow> 64 word" where
  "crc64 poly bs = NOT (crc_rem poly bs (NOT 0))"

lemma crc_rem_split: "crc_rem poly bs c = (crc_step poly ^^ length bs) c XOR crc_rem poly bs 0"
proof (induction bs arbitrary: c)
  case (Cons b bs)
  have "crc_rem poly (b # bs) c = crc_rem poly bs (crc_step poly c XOR crc_step poly (ucast b))" by (simp add: crc_rem_def crc_step_xor)
  also have "\<dots> = (crc_step poly ^^ length bs) (crc_step poly c) XOR (crc_step poly ^^ length bs) (crc_step poly (ucast b)) XOR crc_rem poly bs 0"
    by (subst Cons.IH) (simp only: crc_steps_xor xor.assoc)
  also have "\<dots> = (crc_step poly ^^ length (b # bs)) c XOR crc_rem poly bs (crc_step poly (ucast b))"
    by (subst (2) Cons.IH) (simp add: funpow_swap1 xor.assoc)
  finally show ?case by (simp add: crc_rem_def)
qed (simp add: crc_rem_def)

definition contents :: "Window \<Rightarrow> 8 word list" where
  "contents w = drop (w_pos w) (w_window w) @ take (w_pos w) (w_window w)"

definition window_ok :: "64 word \<Rightarrow> nat \<Rightarrow> Window \<Rightarrow> bool" where
  "window_ok poly n w \<longleftrightarrow> length (w_window w) = n \<and> w_pos w < n \<and> w_crcData w = make_crcData poly n \<and> w_crc w = crc_rem poly (contents w) 0"

lemma Window_Advance_rolls:
  assumes "window_ok poly n w" "Window_Advance w b = (w', r)"
  shows "window_ok poly n w' \<and> contents w' = tl (contents w) @ [b] \<and> r = crc64 poly (contents w')"
proof -
  let ?c = "make_crcData poly n" and ?b0 = "w_window w ! w_pos w"
  have w: "length (w_window w) = n" "w_pos w < n" "w_crcData w = ?c" "w_crc w = crc_rem poly (contents w) 0" using assms(1) by (simp_all add: window_ok_def)
  define rest where "rest = tl (contents w)"
  have con: "contents w = ?b0 # rest" using w(1,2) by (simp add: rest_def contents_def Cons_nth_drop_Suc[symmetric])
  have "length (contents w) = n" using w(1,2) by (simp add: contents_def)
  then have len: "Suc (length rest) = n" by (simp add: con)
  have "w_crc w = (crc_step poly ^^ n) (ucast ?b0) XOR crc_rem poly rest 0"
    unfolding w(4) con using crc_rem_split[of poly rest "crc_step poly (ucast ?b0)"] by (simp add: crc_rem_def funpow_swap1 flip: len)
  then have crc: "w_crc w XOR crcTableRear ?c ! unat ?b0 = crc_rem poly rest 0"
    using len by (simp add: make_crcData_def Let_def rear_table_step[OF _ byte_less] xor.assoc xor.left_commute)
  have front: "crcTableFront ?c ! unat (ucast x XOR b) XOR drop_bit 8 x = crc_step poly (x XOR ucast b)" for x
    by (subst crc_step_split) (simp add: make_crcData_def Let_def front_table_step[OF byte_less] ucast_byte drop_bit_xor)
  define w1 where "w1 = w\<lparr>w_crc := crc_step poly (crc_rem poly rest 0 XOR ucast b), w_window := (w_window w)[w_pos w := b],
      w_pos := if w_pos w + 1 = n then 0 else w_pos w + 1\<rparr>"
  have adv: "Window_Advance w b = (w1, NOT (conditioning ?c XOR w_crc w1))"
    unfolding Window_Advance_def Let_def w(3) crc front w1_def using w(1) by simp
  have r: "rest = drop (Suc (w_pos w)) (w_window w) @ take (w_pos w) (w_window w)"
    using w(1,2) by (simp add: rest_def contents_def Cons_nth_drop_Suc[symmetric])
  have con': "contents w1 = rest @ [b]"
    using w(1,2) by (auto simp: w1_def r contents_def take_Suc_conv_app_nth list_update_append upd_conv_take_nth_drop)
  have crc': "w_crc w1 = crc_rem poly (contents w1) 0" unfolding con' by (simp add: w1_def crc_rem_def)
  have "NOT (conditioning ?c XOR w_crc w1) = crc64 poly (contents w1)"
    using crc_rem_split[of poly "contents w1" "NOT 0"] len unfolding crc' con' by (simp add: crc64_def make_crcData_def Let_def crc_byte_step)
  moreover have "window_ok poly n w1" using w crc' by (auto simp: window_ok_def w1_def)
  ultimately show ?thesis using adv assms(2) con' by (simp add: rest_def)
qed

lemma Window_New_ok:
  assumes "\<forall>p n c. tables (p, n) = Some c \<longrightarrow> c = make_crcData p (nat n)" "Window_New tables poly sz = Some (tables', w)"
  shows "window_ok poly (nat sz) w \<and> contents w = replicate (nat sz) 0 \<and> (\<forall>p n c. tables' (p, n) = Some c \<longrightarrow> c = make_crcData p (nat n))"
proof -
  have "crc_step poly 0 = 0" using crc_step_xor[of poly 0 0] by simp
  then have "crc_rem poly (replicate n 0) 0 = 0" for n by (induction n) (simp_all add: crc_rem_def)
  then show ?thesis using assms by (auto simp: Window_New_def getCRCData_def Let_def window_ok_def contents_def split: if_splits option.splits)
qed

text \<open>A run over a sequence of bytes, and the values that it returns.\<close>

fun advance_all :: "Window \<Rightarrow> 8 word list \<Rightarrow> Window \<times> 64 word list" where
  "advance_all w [] = (w, [])"
| "advance_all w (b # bs) = (let (w, r) = Window_Advance w b; (w, rs) = advance_all w bs in (w, r # rs))"

lemma advance_all_rolls:
  assumes "window_ok poly n w" "advance_all w bs = (w', rs)"
  shows "window_ok poly n w' \<and> length rs = length bs \<and> contents w' = drop (length bs) (contents w @ bs) \<and>
    (\<forall>k<length bs. rs ! k = crc64 poly (take n (drop (Suc k) (contents w @ bs))))"
  using assms
proof (induction bs arbitrary: w rs)
  case Nil
  then show ?case by simp
next
  case (Cons b bs)
  obtain w1 r rs1 where 1: "Window_Advance w b = (w1, r)" "advance_all w1 bs = (w', rs1)" "rs = r # rs1"
    using Cons.prems(2) by (auto simp: Let_def split: prod.splits)
  note roll = Window_Advance_rolls[OF Cons.prems(1) 1(1)]
  have len: "length (contents w) = n" "0 < n" using Cons.prems(1) by (auto simp: window_ok_def contents_def)
  then have c1: "contents w1 @ bs = drop 1 (contents w @ b # bs)" using roll by (cases "contents w") auto
  have IH: "window_ok poly n w'" "length rs1 = length bs" "contents w' = drop (length bs) (contents w1 @ bs)"
    "\<forall>k<length bs. rs1 ! k = crc64 poly (take n (drop (Suc k) (contents w1 @ bs)))" using Cons.IH[OF _ 1(2)] roll by blast+
  have "length (contents w1) = n" using roll len by simp
  then have "take n (drop 1 (contents w @ b # bs)) = contents w1" unfolding c1[symmetric] by simp
  then have "r = crc64 poly (take n (drop (Suc 0) (contents w @ b # bs)))" using roll by simp
  moreover have "drop (Suc k) (contents w1 @ bs) = drop (Suc (Suc k)) (contents w @ b # bs)" for k unfolding c1 by (simp only: drop_drop) simp
  ultimately have "\<forall>k<length (b # bs). rs ! k = crc64 poly (take n (drop (Suc k) (contents w @ b # bs)))"
    using IH(4) unfolding 1(3) by (simp only: length_Cons less_Suc_eq_0_disj) auto
  moreover have "contents w' = drop (length (b # bs)) (contents w @ b # bs)" unfolding IH(3) c1 by (simp only: drop_drop) simp
  ultimately show ?case using IH(1,2) 1(3) by (simp del: drop_append)
qed

text \<open>
  C9: the rolling checksum equals the CRC of the window. Whatever the polynomial and the size, and whether the tables are computed or found in the
  cache, the value returned for each byte is the CRC, computed bit by bit over the last bytes of the stream. The stream begins with zeros.
\<close>

theorem window_rolls_crc:
  assumes "\<forall>p n c. tables (p, n) = Some c \<longrightarrow> c = make_crcData p (nat n)" "Window_New tables poly sz = Some (tables', w)" "advance_all w bs = (w', rs)"
  shows "length rs = length bs \<and> (\<forall>k<length bs. rs ! k = crc64 poly (take (nat sz) (drop (Suc k) (replicate (nat sz) 0 @ bs)))) \<and>
    (\<forall>p n c. tables' (p, n) = Some c \<longrightarrow> c = make_crcData p (nat n))"
  using Window_New_ok[OF assms(1,2)] advance_all_rolls[OF _ assms(3), of poly "nat sz"] by (simp del: drop_append take_append)

definition ECMA :: "64 word" where
  "ECMA = 0xc96c5795d7870f42"

lemma window_rolls_crc_witness:
  "\<exists>tables w w' rs. Window_New Map.empty ECMA 3 = Some (tables, w) \<and> advance_all w [0x17, 0x92, 0x04, 0x28] = (w', rs) \<and> rs ! 3 = crc64 ECMA [0x92, 0x04, 0x28]"
proof -
  obtain tables w where n: "Window_New Map.empty ECMA 3 = Some (tables, w)" by (simp add: Window_New_def getCRCData_def Let_def)
  obtain w' rs where a: "advance_all w [0x17, 0x92, 0x04, 0x28] = (w', rs)" by fastforce
  show ?thesis using window_rolls_crc[OF _ n a] n a by (auto simp: numeral_3_eq_3)
qed

end
