(* ===== verification/Chunker.thy ===== *)
theory Chunker
  imports Crc64_Window "HOL-Library.Monad_Syntax"
begin

text \<open>
  Content-defined chunks (\<^verbatim>\<open>localblobstore/chunker/chunker.go\<close>): a stream of bytes is cut where the rolling checksum of a window meets a divisor.
  Sizes and offsets are natural numbers here; Go keeps them in \<^verbatim>\<open>int64\<close>. The \<^verbatim>\<open>io.Reader\<close> is a parameter of the operations.
  \<^term>\<open>None\<close> stands for a panic or a loop that does not end. Cancelling happens between operations.
\<close>

subsection \<open>Streams\<close>

datatype rerr = EOF | errStreamCancelled | errRead string

record Param =
  WindowWidth :: int
  MinChunk :: nat
  MaxChunk :: nat
  Primary :: "64 word"
  Secondary :: "64 word"

definition DefaultParam :: Param where
  "DefaultParam = \<lparr>WindowWidth = 48, MinChunk = 512, MaxChunk = 3072, Primary = 601, Secondary = 307\<rparr>"

record 'r Stream =
  s_param :: Param
  s_window :: Window
  s_buf :: "8 word list"
  s_rd :: 'r
  s_err :: "rerr option"
  s_cancelled :: bool
  bufferChunks :: bool
  bufStart :: nat
  bufEnd :: nat
  chunkStart :: nat
  chunkEnd :: nat
  windowEnd :: nat
  s_hash :: "64 word"

type_synonym 'r read = "'r \<Rightarrow> nat \<Rightarrow> 'r \<times> 8 word list \<times> rerr option"

function grow_buf :: "nat \<Rightarrow> nat \<Rightarrow> nat" where
  "grow_buf bufSize limit = (if 0 < bufSize \<and> bufSize < limit then grow_buf (2 * bufSize) limit else bufSize)"
  by pat_completeness auto
termination by (relation "measure (\<lambda>(b, l). l - b)") auto

declare grow_buf.simps [simp del]

definition chunker_newStream :: "crcTables \<Rightarrow> Param \<Rightarrow> 'r \<Rightarrow> bool \<Rightarrow> (crcTables \<times> 'r Stream) option" where
  "chunker_newStream tables param rd bc =
     map_option (\<lambda>(tables, w).
       (tables, \<lparr>s_param = param, s_window = w, s_buf = replicate (if bc then grow_buf 8192 (4 * MaxChunk param) else 8192) 0, s_rd = rd, s_err = None,
          s_cancelled = False, bufferChunks = bc, bufStart = 0, bufEnd = 0, chunkStart = 0, chunkEnd = 0, windowEnd = 0, s_hash = 0\<rparr>))
     (Window_New tables ECMA (WindowWidth param))"

definition NewStream :: "crcTables \<Rightarrow> Param \<Rightarrow> 'r \<Rightarrow> (crcTables \<times> 'r Stream) option" where
  "NewStream tables param rd = chunker_newStream tables param rd True"

definition NewPosStream :: "crcTables \<Rightarrow> Param \<Rightarrow> 'r \<Rightarrow> (crcTables \<times> 'r Stream) option" where
  "NewPosStream tables param rd = chunker_newStream tables param rd False"

subsection \<open>Advance\<close>

text \<open>\<open>write_at off bs buf\<close> is \<^verbatim>\<open>copy(buf[off:], bs)\<close>.\<close>

definition write_at :: "nat \<Rightarrow> 8 word list \<Rightarrow> 8 word list \<Rightarrow> 8 word list" where
  "write_at off bs buf = take (length buf) (take off buf @ bs @ drop (off + length bs) buf)"

partial_function (option) fill_buf :: "'r read \<Rightarrow> 'r Stream \<Rightarrow> 'r Stream option" where
  "fill_buf Read s =
     (if s_err s = None \<and> bufEnd s < bufStart s + length (s_buf s) \<and> \<not> s_cancelled s then
        (let off = bufEnd s - bufStart s; (rd, bs, e) = Read (s_rd s) (length (s_buf s) - off) in
         fill_buf Read (s\<lparr>s_rd := rd, s_buf := write_at off bs (s_buf s), s_err := e, bufEnd := bufEnd s + length bs\<rparr>))
      else Some s)"

definition compact_buf :: "'r Stream \<Rightarrow> 'r Stream" where
  "compact_buf s =
     (if bufStart s < chunkEnd s
      then s\<lparr>s_buf := write_at 0 (take (bufEnd s - chunkEnd s) (drop (chunkEnd s - bufStart s) (s_buf s))) (s_buf s), bufStart := chunkEnd s\<rparr>
      else s)"

text \<open>A divisor of zero panics.\<close>

definition mod_is_1 :: "64 word \<Rightarrow> 64 word \<Rightarrow> bool option" where
  "mod_is_1 h p = (if p = 0 then None else Some (h mod p = 1))"

definition in_chunk :: "nat \<Rightarrow> 'r Stream \<Rightarrow> bool option" where
  "in_chunk minChunk s = (if windowEnd s < minChunk then Some True else map_option Not (mod_is_1 (s_hash s) (Primary (s_param s))))"

function scan_buf :: "nat \<Rightarrow> nat \<Rightarrow> 'r Stream \<Rightarrow> nat \<Rightarrow> ('r Stream \<times> nat) option" where
  "scan_buf minChunk bufLimit s lastSecondaryBreak =
     (if windowEnd s = bufLimit then Some (s, lastSecondaryBreak)
      else case in_chunk minChunk s of
        None \<Rightarrow> None
      | Some False \<Rightarrow> Some (s, lastSecondaryBreak)
      | Some True \<Rightarrow>
          if s_cancelled s then Some (s, lastSecondaryBreak)
          else if windowEnd s < bufStart s \<or> bufStart s + length (s_buf s) \<le> windowEnd s then None
          else let (w, h) = Window_Advance (s_window s) (s_buf s ! (windowEnd s - bufStart s)); e = windowEnd s + 1 in
            (case mod_is_1 h (Secondary (s_param s)) of
               None \<Rightarrow> None
             | Some sec \<Rightarrow>
                 scan_buf minChunk bufLimit (s\<lparr>s_window := w, s_hash := h, windowEnd := e\<rparr>) (if sec then e else lastSecondaryBreak)))"
  by pat_completeness auto
termination by (relation "measure (\<lambda>(_, _, s, _). bufStart s + length (s_buf s) - windowEnd s)") auto

declare scan_buf.simps [simp del]

definition refill :: "'r read \<Rightarrow> 'r Stream \<Rightarrow> 'r Stream option" where
  "refill Read s =
     (if windowEnd s = bufEnd s \<and> s_err s = None then
        if bufferChunks s then None
        else let (rd, bs, e) = Read (s_rd s) (length (s_buf s)) in
          Some (s\<lparr>bufStart := bufEnd s, s_rd := rd, s_buf := write_at 0 bs (s_buf s), s_err := e, bufEnd := bufEnd s + length bs\<rparr>)
      else Some s)"

partial_function (option) scan_chunk :: "'r read \<Rightarrow> nat \<Rightarrow> nat \<Rightarrow> 'r Stream \<Rightarrow> nat \<Rightarrow> ('r Stream \<times> nat) option" where
  "scan_chunk Read minChunk maxChunk s lastSecondaryBreak =
     (if windowEnd s = maxChunk then Some (s, lastSecondaryBreak)
      else do {
        more \<leftarrow> in_chunk minChunk s;
        if more \<and> (windowEnd s \<noteq> bufEnd s \<or> s_err s = None) \<and> \<not> s_cancelled s then do {
          s \<leftarrow> refill Read s;
          (s, lastSecondaryBreak) \<leftarrow> scan_buf minChunk (if bufEnd s < maxChunk then bufEnd s else maxChunk) s lastSecondaryBreak;
          scan_chunk Read minChunk maxChunk s lastSecondaryBreak
        } else Some (s, lastSecondaryBreak)
      })"

definition prepare_buf :: "'r read \<Rightarrow> 'r Stream \<Rightarrow> 'r Stream option" where
  "prepare_buf Read s =
     (if bufferChunks s \<and> bufEnd s < chunkEnd s + MaxChunk (s_param s) \<and> s_err s = None then fill_buf Read (compact_buf s) else Some s)"

definition Chunks_Advance :: "'r read \<Rightarrow> 'r Stream \<Rightarrow> ('r Stream \<times> bool) option" where
  "Chunks_Advance Read s = do {
     s \<leftarrow> prepare_buf Read s;
     let s = s\<lparr>chunkStart := chunkEnd s\<rparr>;
     let minChunk = chunkStart s + MinChunk (s_param s);
     let maxChunk = chunkStart s + MaxChunk (s_param s);
     (s, lastSecondaryBreak) \<leftarrow> scan_chunk Read minChunk maxChunk s maxChunk;
     prim \<leftarrow> (if windowEnd s = maxChunk then mod_is_1 (s_hash s) (Primary (s_param s)) else Some True);
     let s = s\<lparr>chunkEnd := (if windowEnd s = maxChunk \<and> \<not> prim \<and> lastSecondaryBreak \<noteq> maxChunk then lastSecondaryBreak else windowEnd s)\<rparr>;
     Some (s, \<not> s_cancelled s \<and> chunkStart s \<noteq> chunkEnd s)
   }"

definition Chunks_Value :: "'r Stream \<Rightarrow> 8 word list option" where
  "Chunks_Value s =
     (if bufStart s \<le> chunkStart s \<and> chunkStart s \<le> chunkEnd s \<and> chunkEnd s \<le> bufStart s + length (s_buf s)
      then Some (take (chunkEnd s - chunkStart s) (drop (chunkStart s - bufStart s) (s_buf s))) else None)"

definition Chunks_Err :: "'r Stream \<Rightarrow> 'r Stream \<times> rerr option" where
  "Chunks_Err s =
     (let s = (if s_cancelled s \<and> (s_err s = None \<or> s_err s = Some EOF) then s\<lparr>s_err := Some errStreamCancelled\<rparr> else s)
      in (s, if s_err s \<noteq> Some EOF then s_err s else None))"

definition Chunks_Cancel :: "'r Stream \<Rightarrow> 'r Stream" where
  "Chunks_Cancel s = s\<lparr>s_cancelled := True\<rparr>"

text \<open>A stream of positions is a stream that does not buffer its chunks.\<close>

definition PosStream_Value :: "'r Stream \<Rightarrow> nat" where
  "PosStream_Value s = chunkEnd s"

end
