(* ===== verification/Chunker_Props.thy ===== *)
theory Chunker_Props
  imports Chunker
begin

text \<open>
  What the chunker promises: the cuts depend on the bytes and the parameters only, not on how a reader delivers the bytes nor on the buffering, and the
  chunks make up the stream. A chunk that ends at a secondary break may be shorter than the minimum.
\<close>

subsection \<open>The cuts as a function of the bytes\<close>

text \<open>The checksum after \<open>p\<close> bytes; a new stream has the value 0.\<close>

definition hash_at :: "Param \<Rightarrow> 8 word list \<Rightarrow> nat \<Rightarrow> 64 word" where
  "hash_at pm D p = (if p = 0 then 0 else crc64 ECMA (drop p (replicate (nat (WindowWidth pm)) 0 @ take p D)))"

definition prim_at :: "Param \<Rightarrow> 8 word list \<Rightarrow> nat \<Rightarrow> bool" where
  "prim_at pm D p \<longleftrightarrow> hash_at pm D p mod Primary pm = 1"

definition sec_at :: "Param \<Rightarrow> 8 word list \<Rightarrow> nat \<Rightarrow> bool" where
  "sec_at pm D p \<longleftrightarrow> hash_at pm D p mod Secondary pm = 1"

definition last_sec :: "Param \<Rightarrow> 8 word list \<Rightarrow> nat \<Rightarrow> nat \<Rightarrow> nat" where
  "last_sec pm D c w = (let ps = filter (sec_at pm D) [Suc c..<Suc w] in if ps = [] then c + MaxChunk pm else last ps)"

definition ref_end :: "Param \<Rightarrow> 8 word list \<Rightarrow> nat \<Rightarrow> nat" where
  "ref_end pm D c =
     (case filter (prim_at pm D) [c + MinChunk pm..<Suc (min (c + MaxChunk pm) (length D))] of
        p # _ \<Rightarrow> p
      | [] \<Rightarrow> if c + MaxChunk pm \<le> length D then last_sec pm D c (c + MaxChunk pm) else length D)"

definition wf_param :: "Param \<Rightarrow> bool" where
  "wf_param pm \<longleftrightarrow> 0 < WindowWidth pm \<and> 0 < MinChunk pm \<and> MinChunk pm \<le> MaxChunk pm \<and> Primary pm \<noteq> 0 \<and> Secondary pm \<noteq> 0"

lemma last_sec_Suc: "c \<le> w \<Longrightarrow> last_sec pm D c (Suc w) = (if sec_at pm D (Suc w) then Suc w else last_sec pm D c w)"
  unfolding last_sec_def Let_def by (subst upt_Suc) auto

lemma last_sec_none: "(\<forall>p. c < p \<longrightarrow> p \<le> w \<longrightarrow> \<not> sec_at pm D p) \<Longrightarrow> last_sec pm D c w = c + MaxChunk pm"
proof -
  assume "\<forall>p. c < p \<longrightarrow> p \<le> w \<longrightarrow> \<not> sec_at pm D p"
  then have "filter (sec_at pm D) [Suc c..<Suc w] = []" by (auto simp: filter_empty_conv)
  then show ?thesis by (simp add: last_sec_def)
qed

lemma last_sec_cases:
  "last_sec pm D c w = c + MaxChunk pm \<and> (\<forall>p. c < p \<longrightarrow> p \<le> w \<longrightarrow> \<not> sec_at pm D p) \<or>
   c < last_sec pm D c w \<and> last_sec pm D c w \<le> w \<and> sec_at pm D (last_sec pm D c w) \<and> (\<forall>p. last_sec pm D c w < p \<longrightarrow> p \<le> w \<longrightarrow> \<not> sec_at pm D p)"
proof (induction w)
  case 0
  then show ?case by (simp add: last_sec_def)
next
  case (Suc w)
  then show ?case
  proof (cases "c \<le> w")
    case True
    then show ?thesis using Suc by (auto simp: last_sec_Suc le_Suc_eq)
  next
    case False
    then show ?thesis by (auto simp: last_sec_def)
  qed
qed

lemma filter_upt_hd:
  assumes "filter P [a..<b] = p # ps"
  shows "P p \<and> a \<le> p \<and> p < b \<and> (\<forall>q. a \<le> q \<longrightarrow> q < p \<longrightarrow> \<not> P q)"
proof -
  have m: "p \<in> set (filter P [a..<b])" using assms by simp
  have "sorted (filter P [a..<b])" by (intro sorted_wrt_filter) simp
  then have "\<forall>q\<in>set (filter P [a..<b]). p \<le> q" using assms by simp
  then show ?thesis using m by fastforce
qed

text \<open>How the search ends decides the cut.\<close>

lemma ref_end_prim:
  assumes "c + MinChunk pm \<le> w" "w \<le> c + MaxChunk pm" "w \<le> length D" "prim_at pm D w" "\<forall>p. c + MinChunk pm \<le> p \<longrightarrow> p < w \<longrightarrow> \<not> prim_at pm D p"
  shows "ref_end pm D c = w"
proof (cases "filter (prim_at pm D) [c + MinChunk pm..<Suc (min (c + MaxChunk pm) (length D))]")
  case Nil
  moreover have "w \<in> set (filter (prim_at pm D) [c + MinChunk pm..<Suc (min (c + MaxChunk pm) (length D))])" using assms by (simp del: upt_Suc)
  ultimately show ?thesis by simp
next
  case (Cons p ps)
  note f = filter_upt_hd[OF Cons]
  have "p = w" using f assms by (metis antisym_conv3 )
  then show ?thesis using Cons by (simp add: ref_end_def)
qed

lemma ref_end_no_prim:
  assumes "\<forall>p. c + MinChunk pm \<le> p \<longrightarrow> p \<le> min (c + MaxChunk pm) (length D) \<longrightarrow> \<not> prim_at pm D p"
  shows "ref_end pm D c = (if c + MaxChunk pm \<le> length D then last_sec pm D c (c + MaxChunk pm) else length D)"
proof -
  have "filter (prim_at pm D) [c + MinChunk pm..<Suc (min (c + MaxChunk pm) (length D))] = []" using assms by (auto simp: filter_empty_conv)
  then show ?thesis by (simp add: ref_end_def)
qed

lemma ref_end_bounds:
  assumes "wf_param pm" "c < length D"
  shows "c < ref_end pm D c \<and> ref_end pm D c \<le> length D \<and> ref_end pm D c \<le> c + MaxChunk pm"
proof (cases "filter (prim_at pm D) [c + MinChunk pm..<Suc (min (c + MaxChunk pm) (length D))]")
  case Nil
  then show ?thesis using assms last_sec_cases[of pm D c "c + MaxChunk pm"] by (auto simp: ref_end_def wf_param_def)
next
  case (Cons p ps)
  then show ?thesis using filter_upt_hd[OF Cons] assms by (auto simp: ref_end_def wf_param_def)
qed

function ref_chunks :: "Param \<Rightarrow> 8 word list \<Rightarrow> nat \<Rightarrow> 8 word list list" where
  "ref_chunks pm D c =
     (let e = ref_end pm D c in if c < e \<and> e \<le> length D then take (e - c) (drop c D) # ref_chunks pm D e else [])"
  by pat_completeness auto
termination by (relation "measure (\<lambda>(_, D, c). length D - c)") auto

declare ref_chunks.simps [simp del]

lemma ref_chunks_concat:
  "wf_param pm \<Longrightarrow> c \<le> length D \<Longrightarrow> concat (ref_chunks pm D c) = drop c D \<and> (\<forall>ch\<in>set (ref_chunks pm D c). ch \<noteq> [] \<and> length ch \<le> MaxChunk pm)"
proof (induction pm D c rule: ref_chunks.induct)
  case (1 pm D c)
  let ?e = "ref_end pm D c"
  show ?case
  proof (cases "c < ?e \<and> ?e \<le> length D")
    case True
    have c: "c < length D" using True by simp
    have "take (?e - c) (drop c D) @ drop ?e D = drop c D" using True by (metis append_take_drop_id drop_drop le_add_diff_inverse2 less_imp_le)
    moreover have "length (take (?e - c) (drop c D)) = ?e - c" using True by (simp add: min_absorb2 diff_le_mono)
    ultimately show ?thesis using 1 True ref_end_bounds[OF 1(2) c] by (subst (1 2) ref_chunks.simps) (auto simp: Let_def)
  next
    case False
    then have "c = length D" using ref_end_bounds[OF 1(2), of c D] 1(3) by linarith
    then show ?thesis using False by (subst (1 2) ref_chunks.simps) (auto simp: Let_def)
  qed
qed

subsection \<open>The buffer\<close>

lemma write_at_take:
  assumes "off + length bs \<le> length buf"
  shows "take (off + length bs) (write_at off bs buf) = take off buf @ bs" "length (write_at off bs buf) = length buf"
  using assms by (simp_all add: write_at_def)

text \<open>The buffer holds the part of the bytes that its offsets name.\<close>

definition buf_ok :: "('r \<Rightarrow> bool) \<Rightarrow> ('r \<Rightarrow> 8 word list) \<Rightarrow> 8 word list \<Rightarrow> 'r Stream \<Rightarrow> bool" where
  "buf_ok good left D s \<longleftrightarrow> (s_err s = None \<longrightarrow> good (s_rd s) \<and> left (s_rd s) = drop (bufEnd s) D) \<and> bufEnd s \<le> length D \<and> bufStart s \<le> bufEnd s \<and> bufEnd s \<le> bufStart s + length (s_buf s) \<and>
     take (bufEnd s - bufStart s) (s_buf s) = drop (bufStart s) (take (bufEnd s) D) \<and> (s_err s \<noteq> None \<longrightarrow> bufEnd s = length D) \<and> s_buf s \<noteq> [] \<and> \<not> s_cancelled s"

subsection \<open>The search for a cut\<close>

definition win_ok :: "8 word list \<Rightarrow> 'r Stream \<Rightarrow> bool" where
  "win_ok D s \<longleftrightarrow> wf_param (s_param s) \<and> window_ok ECMA (nat (WindowWidth (s_param s))) (s_window s) \<and>
     contents (s_window s) = drop (windowEnd s) (replicate (nat (WindowWidth (s_param s))) 0 @ take (windowEnd s) D) \<and>
     s_hash s = hash_at (s_param s) D (windowEnd s) \<and> bufStart s \<le> windowEnd s \<and> windowEnd s \<le> bufEnd s"

lemma window_step:
  assumes "win_ok D s" "windowEnd s < bufEnd s" "bufEnd s \<le> length D" "Window_Advance (s_window s) (D ! windowEnd s) = (w, h)"
  shows "win_ok D (s\<lparr>s_window := w, s_hash := h, windowEnd := Suc (windowEnd s)\<rparr>)"
proof -
  let ?W = "nat (WindowWidth (s_param s))" and ?p = "windowEnd s"
  have ok: "window_ok ECMA ?W (s_window s)" "contents (s_window s) = drop ?p (replicate ?W 0 @ take ?p D)" "0 < ?W"
    using assms(1) by (simp_all add: win_ok_def wf_param_def)
  note roll = Window_Advance_rolls[OF ok(1) assms(4)]
  have t: "take (Suc ?p) D = take ?p D @ [D ! ?p]" using assms(2,3) by (simp add: take_Suc_conv_app_nth)
  have "Suc ?p \<le> length (replicate ?W (0 :: 8 word) @ take ?p D)" using ok(3) assms(2,3) by simp
  then have "tl (drop ?p (replicate ?W 0 @ take ?p D)) @ [D ! ?p] = drop (Suc ?p) ((replicate ?W 0 @ take ?p D) @ [D ! ?p])"
    by (simp only: drop_append[of _ _ "[D ! ?p]"] tl_drop drop_Suc) simp
  then have "tl (contents (s_window s)) @ [D ! ?p] = drop (Suc ?p) (replicate ?W 0 @ take (Suc ?p) D)" unfolding ok(2) t by simp
  then show ?thesis using roll assms(1,2) by (simp add: win_ok_def hash_at_def)
qed

lemma buf_nth:
  assumes "buf_ok good left D s" "bufStart s \<le> p" "p < bufEnd s"
  shows "s_buf s ! (p - bufStart s) = D ! p" "p - bufStart s < length (s_buf s)"
proof -
  let ?i = "p - bufStart s"
  have i: "?i < bufEnd s - bufStart s" "bufStart s + ?i = p" using assms(2,3) by auto
  have "s_buf s ! ?i = take (bufEnd s - bufStart s) (s_buf s) ! ?i" using i(1) by simp
  also have "\<dots> = drop (bufStart s) (take (bufEnd s) D) ! ?i" using assms(1) by (simp add: buf_ok_def)
  also have "\<dots> = D ! p" using assms i(2) by (simp add: buf_ok_def)
  finally show "s_buf s ! ?i = D ! p" .
  show "p - bufStart s < length (s_buf s)" using assms by (auto simp: buf_ok_def)
qed

lemma buf_slice:
  assumes "buf_ok good left D s" "bufStart s \<le> a" "a \<le> b" "b \<le> bufEnd s"
  shows "take (b - a) (drop (a - bufStart s) (s_buf s)) = take (b - a) (drop a D)"
proof (rule nth_equalityI)
  show len: "length (take (b - a) (drop (a - bufStart s) (s_buf s))) = length (take (b - a) (drop a D))" using assms by (auto simp: buf_ok_def)
  fix i assume i: "i < length (take (b - a) (drop (a - bufStart s) (s_buf s)))"
  then have j: "a + i < bufEnd s" "a - bufStart s + i = a + i - bufStart s" "a + i < length D" "a - bufStart s \<le> length (s_buf s)" using assms by (auto simp: buf_ok_def)
  have "drop (a - bufStart s) (s_buf s) ! i = D ! (a + i)" unfolding nth_drop[OF j(4)] j(2) using buf_nth(1)[OF assms(1)] assms(2) j(1) by simp
  then show "take (b - a) (drop (a - bufStart s) (s_buf s)) ! i = take (b - a) (drop a D) ! i" using i j(3) by simp
qed

definition no_prim :: "Param \<Rightarrow> 8 word list \<Rightarrow> nat \<Rightarrow> nat \<Rightarrow> bool" where
  "no_prim pm D c w \<longleftrightarrow> (\<forall>p. c + MinChunk pm \<le> p \<longrightarrow> p < w \<longrightarrow> \<not> prim_at pm D p)"

lemma in_chunk_at: "win_ok D s \<Longrightarrow> in_chunk m s = Some (windowEnd s < m \<or> \<not> prim_at (s_param s) D (windowEnd s))"
  by (simp add: win_ok_def in_chunk_def mod_is_1_def wf_param_def prim_at_def)

lemma scan_buf_ok:
  assumes "buf_ok good left D s" "win_ok D s" "windowEnd s \<le> lim" "lim \<le> bufEnd s" "c \<le> windowEnd s" "no_prim (s_param s) D c (windowEnd s)"
    and "l = last_sec (s_param s) D c (windowEnd s)" "m = c + MinChunk (s_param s)"
  shows "\<exists>w h e. scan_buf m lim s l = Some (s\<lparr>s_window := w, s_hash := h, windowEnd := e\<rparr>, last_sec (s_param s) D c e) \<and>
    win_ok D (s\<lparr>s_window := w, s_hash := h, windowEnd := e\<rparr>) \<and> windowEnd s \<le> e \<and> e \<le> lim \<and> no_prim (s_param s) D c e \<and>
    (e \<noteq> lim \<longrightarrow> m \<le> e \<and> prim_at (s_param s) D e) \<and> (windowEnd s < lim \<and> (windowEnd s < m \<or> \<not> prim_at (s_param s) D (windowEnd s)) \<longrightarrow> windowEnd s < e)"
  using assms
proof (induction "lim - windowEnd s" arbitrary: s l rule: less_induct)
  case less
  let ?p = "windowEnd s" and ?pm = "s_param s"
  have upd: "s\<lparr>s_window := s_window s, s_hash := s_hash s, windowEnd := ?p\<rparr> = s" by simp
  show ?case
  proof (cases "?p = lim \<or> \<not> (?p < m \<or> \<not> prim_at ?pm D ?p)")
    case True
    then have "scan_buf m lim s l = Some (s, l)" using in_chunk_at[OF less.prems(2), of m] by (subst scan_buf.simps) auto
    then show ?thesis using less.prems True
      by (intro exI[of _ "s_window s"] exI[of _ "s_hash s"] exI[of _ ?p]) (auto simp: upd)
  next
    case False
    obtain w h where adv: "Window_Advance (s_window s) (D ! ?p) = (w, h)" by fastforce
    let ?s = "s\<lparr>s_window := w, s_hash := h, windowEnd := Suc ?p\<rparr>"
    have b: "bufStart s \<le> ?p" "?p < bufEnd s" "bufEnd s \<le> length D" "\<not> s_cancelled s" using less.prems(1-4) False by (auto simp: win_ok_def buf_ok_def)
    have ok: "win_ok D ?s" by (rule window_step[OF less.prems(2) b(2,3) adv])
    then have sec: "mod_is_1 h (Secondary ?pm) = Some (sec_at ?pm D (Suc ?p))" by (simp add: win_ok_def mod_is_1_def wf_param_def sec_at_def)
    have "scan_buf m lim s l = scan_buf m lim ?s (if sec_at ?pm D (Suc ?p) then Suc ?p else l)"
      using False b buf_nth[OF less.prems(1) b(1,2)] in_chunk_at[OF less.prems(2), of m] sec adv by (subst scan_buf.simps) (auto simp: Let_def)
    moreover have "(if sec_at ?pm D (Suc ?p) then Suc ?p else l) = last_sec ?pm D c (Suc ?p)" using less.prems(5,7) by (simp add: last_sec_Suc)
    moreover have "no_prim ?pm D c (Suc ?p)" using less.prems(6,8) False by (auto simp: no_prim_def less_Suc_eq)
    moreover have "buf_ok good left D ?s" using less.prems(1) by (simp add: buf_ok_def)
    moreover have "lim - windowEnd ?s < lim - ?p" "Suc ?p \<le> lim" using less.prems(3) False by auto
    ultimately obtain w' h' e where "scan_buf m lim s l = Some (?s\<lparr>s_window := w', s_hash := h', windowEnd := e\<rparr>, last_sec ?pm D c e)"
        "win_ok D (?s\<lparr>s_window := w', s_hash := h', windowEnd := e\<rparr>)" "Suc ?p \<le> e" "e \<le> lim" "no_prim ?pm D c e"
        "e \<noteq> lim \<longrightarrow> m \<le> e \<and> prim_at ?pm D e"
      using less.hyps[of ?s "last_sec ?pm D c (Suc ?p)"] ok less.prems(4,5,8) by auto
    then show ?thesis by (intro exI[of _ w'] exI[of _ h'] exI[of _ e]) simp
  qed
qed

subsection \<open>Streams over a reader\<close>

definition only_filled :: "'r Stream \<Rightarrow> 'r Stream \<Rightarrow> bool" where
  "only_filled s s' \<longleftrightarrow> s_param s' = s_param s \<and> s_window s' = s_window s \<and> bufferChunks s' = bufferChunks s \<and> bufStart s' = bufStart s \<and>
     chunkStart s' = chunkStart s \<and> chunkEnd s' = chunkEnd s \<and> windowEnd s' = windowEnd s \<and> s_hash s' = s_hash s \<and>
     length (s_buf s') = length (s_buf s) \<and> bufEnd s \<le> bufEnd s'"

lemma only_filled_trans: "only_filled a b \<Longrightarrow> only_filled b c \<Longrightarrow> only_filled a c"
  by (simp add: only_filled_def)

text \<open>What the search keeps; with buffered chunks it does not read.\<close>

definition same_chunk :: "'r Stream \<Rightarrow> 'r Stream \<Rightarrow> bool" where
  "same_chunk s s' \<longleftrightarrow> s_param s' = s_param s \<and> chunkStart s' = chunkStart s \<and> chunkEnd s' = chunkEnd s \<and> bufferChunks s' = bufferChunks s \<and>
     length (s_buf s') = length (s_buf s) \<and> (bufferChunks s \<longrightarrow> bufStart s' = bufStart s \<and> bufEnd s' = bufEnd s \<and> s_err s' = s_err s)"

lemma same_chunk_trans: "same_chunk a b \<Longrightarrow> same_chunk b c \<Longrightarrow> same_chunk a c"
  by (auto simp: same_chunk_def)

text \<open>What the search leaves when it ends, as \<open>Advance\<close> takes the cut from it.\<close>

lemma cut_is_ref_end:
  assumes "wf_param pm" "w \<le> length D" "c \<le> w" "w \<le> c + MaxChunk pm" "no_prim pm D c w"
    and "w = c + MaxChunk pm \<or> c + MinChunk pm \<le> w \<and> prim_at pm D w \<or> w = length D"
  shows "(if w = c + MaxChunk pm \<and> \<not> prim_at pm D w \<and> last_sec pm D c w \<noteq> c + MaxChunk pm then last_sec pm D c w else w) = ref_end pm D c"
proof (cases "c + MinChunk pm \<le> w \<and> prim_at pm D w")
  case True
  then show ?thesis using ref_end_prim[of c pm w D] assms(2,4,5) by (auto simp: no_prim_def)
next
  case False
  then have w: "w = c + MaxChunk pm \<or> w = length D" using assms(6) by blast
  have "\<forall>p. c + MinChunk pm \<le> p \<longrightarrow> p \<le> w \<longrightarrow> \<not> prim_at pm D p" using False assms(5) by (auto simp: no_prim_def le_less)
  moreover have "min (c + MaxChunk pm) (length D) = w" using w assms(2,4) by auto
  ultimately have "ref_end pm D c = (if c + MaxChunk pm \<le> length D then last_sec pm D c (c + MaxChunk pm) else length D)"
    by (intro ref_end_no_prim) simp
  moreover have "w = c + MaxChunk pm \<Longrightarrow> \<not> prim_at pm D w" using False assms(1) by (simp add: wf_param_def)
  ultimately show ?thesis using w assms(2,4) by auto
qed

lemma cut_leaves:
  assumes "wf_param pm" "c \<le> w" "w \<le> c + MaxChunk pm" "no_prim pm D c w"
    and "e = (if w = c + MaxChunk pm \<and> \<not> prim_at pm D w \<and> last_sec pm D c w \<noteq> c + MaxChunk pm then last_sec pm D c w else w)"
  shows "c \<le> e \<and> e \<le> w \<and> w \<le> e + MaxChunk pm \<and> no_prim pm D e (Suc w) \<and> (\<forall>p. e < p \<longrightarrow> p \<le> w \<longrightarrow> \<not> sec_at pm D p)"
proof (cases "w = c + MaxChunk pm \<and> \<not> prim_at pm D w \<and> last_sec pm D c w \<noteq> c + MaxChunk pm")
  case True
  then have e: "e = last_sec pm D c w" unfolding assms(5) by (rule if_P)
  have l: "c < e" "e \<le> w" "\<forall>p. e < p \<longrightarrow> p \<le> w \<longrightarrow> \<not> sec_at pm D p" using last_sec_cases[of pm D c w] True e by auto
  moreover have "no_prim pm D e (Suc w)" using assms(4) True l(1) by (auto simp: no_prim_def less_Suc_eq)
  ultimately show ?thesis using assms(3) by simp
next
  case False
  then show ?thesis using assms by (auto simp: no_prim_def wf_param_def)
qed

text \<open>The invariant between calls. Past a secondary break the window is ahead of the chunk, over bytes without a further cut.\<close>

definition chunk_inv :: "('r \<Rightarrow> bool) \<Rightarrow> ('r \<Rightarrow> 8 word list) \<Rightarrow> 8 word list \<Rightarrow> 'r Stream \<Rightarrow> bool" where
  "chunk_inv good left D s \<longleftrightarrow> buf_ok good left D s \<and> win_ok D s \<and> chunkEnd s \<le> windowEnd s \<and> windowEnd s \<le> chunkEnd s + MaxChunk (s_param s) \<and>
     no_prim (s_param s) D (chunkEnd s) (Suc (windowEnd s)) \<and> (\<forall>p. chunkEnd s < p \<longrightarrow> p \<le> windowEnd s \<longrightarrow> \<not> sec_at (s_param s) D p) \<and>
     (bufferChunks s \<longrightarrow> bufStart s \<le> chunkEnd s \<and> MaxChunk (s_param s) \<le> length (s_buf s))"

lemma compact_ok:
  assumes "chunk_inv good left D s" "bufferChunks s"
  shows "chunk_inv good left D (compact_buf s) \<and> bufStart (compact_buf s) = chunkEnd s \<and> length (s_buf (compact_buf s)) = length (s_buf s)"
proof (cases "bufStart s < chunkEnd s")
  case False
  then show ?thesis using assms by (auto simp: compact_buf_def chunk_inv_def)
next
  case True
  have o: "chunkEnd s \<le> bufEnd s" "bufEnd s - bufStart s \<le> length (s_buf s)" "bufEnd s \<le> length D"
      "take (bufEnd s - bufStart s) (s_buf s) = drop (bufStart s) (take (bufEnd s) D)"
    using assms by (auto simp: chunk_inv_def buf_ok_def win_ok_def)
  let ?xs = "take (bufEnd s - chunkEnd s) (drop (chunkEnd s - bufStart s) (s_buf s))"
  have "?xs = drop (chunkEnd s - bufStart s) (take (bufEnd s - bufStart s) (s_buf s))" using True o(1) by (simp add: drop_take)
  also have "\<dots> = drop (chunkEnd s) (take (bufEnd s) D)" using True by (simp only: o(4) drop_drop) simp
  finally have xs: "?xs = drop (chunkEnd s) (take (bufEnd s) D)" .
  then have len: "length ?xs = bufEnd s - chunkEnd s" using o(3) by simp
  then have "take (bufEnd s - chunkEnd s) (write_at 0 ?xs (s_buf s)) = ?xs" "length (write_at 0 ?xs (s_buf s)) = length (s_buf s)"
    using write_at_take[of 0 ?xs "s_buf s"] True o(2) by (simp_all only: len) auto
  then show ?thesis using assms True o xs by (auto simp: compact_buf_def chunk_inv_def buf_ok_def win_ok_def)
qed

fun read_chunks :: "'r read \<Rightarrow> nat \<Rightarrow> 'r Stream \<Rightarrow> 8 word list list option" where
  "read_chunks Read 0 s = None"
| "read_chunks Read (Suc n) s = do {
     (s, ok) \<leftarrow> Chunks_Advance Read s;
     if ok then do { v \<leftarrow> Chunks_Value s; vs \<leftarrow> read_chunks Read n s; Some (v # vs) } else Some []
   }"

fun read_positions :: "'r read \<Rightarrow> nat \<Rightarrow> 'r Stream \<Rightarrow> nat list option" where
  "read_positions Read 0 s = None"
| "read_positions Read (Suc n) s = do {
     (s, ok) \<leftarrow> Chunks_Advance Read s;
     if ok then do { vs \<leftarrow> read_positions Read n s; Some (PosStream_Value s # vs) } else Some []
   }"

fun chunk_ends :: "nat \<Rightarrow> 8 word list list \<Rightarrow> nat list" where
  "chunk_ends c [] = []"
| "chunk_ends c (ch # chs) = (c + length ch) # chunk_ends (c + length ch) chs"

lemma grow_buf_enough: "0 < b \<Longrightarrow> l \<le> grow_buf b l \<and> 0 < grow_buf b l"
  by (induction b l rule: grow_buf.induct) (subst (1 2) grow_buf.simps, auto)

lemma chunker_newStream_inv:
  assumes "chunker_newStream tables pm rd bc = Some (tables', s)" "\<forall>p n c. tables (p, n) = Some c \<longrightarrow> c = make_crcData p (nat n)" "wf_param pm" "good rd" "left rd = D"
  shows "chunk_inv good left D s \<and> s_param s = pm \<and> chunkEnd s = 0 \<and> bufferChunks s = bc"
proof -
  from assms(1) obtain w where w: "Window_New tables ECMA (WindowWidth pm) = Some (tables', w)"
      and s: "s = \<lparr>s_param = pm, s_window = w, s_buf = replicate (if bc then grow_buf 8192 (4 * MaxChunk pm) else 8192) 0, s_rd = rd, s_err = None,
          s_cancelled = False, bufferChunks = bc, bufStart = 0, bufEnd = 0, chunkStart = 0, chunkEnd = 0, windowEnd = 0, s_hash = 0\<rparr>"
    by (auto simp: chunker_newStream_def)
  note ok = Window_New_ok[OF assms(2) w]
  have g: "MaxChunk pm \<le> grow_buf 8192 (4 * MaxChunk pm)" "0 < grow_buf 8192 (4 * MaxChunk pm)" using grow_buf_enough[of 8192 "4 * MaxChunk pm"] by linarith+
  have "buf_ok good left D s" using assms(4,5) g(2) by (simp add: s buf_ok_def)
  moreover have "win_ok D s" using ok assms(3) by (simp add: s win_ok_def hash_at_def)
  ultimately show ?thesis using assms(3) g(1) by (simp add: s chunk_inv_def no_prim_def wf_param_def)
qed

text \<open>
  What the streams rely on: a read into a buffer that is not empty returns at most as many bytes as the buffer holds, the next ones; without an error
  it returns at least one, and with an error all that was left.
\<close>

locale reader =
  fixes Read :: "'r read" and good :: "'r \<Rightarrow> bool" and left :: "'r \<Rightarrow> 8 word list"
  assumes Read_law: "Read r n = (r', bs, e) \<Longrightarrow> good r \<Longrightarrow> 0 < n \<Longrightarrow>
    length bs \<le> n \<and> (e = None \<longrightarrow> bs \<noteq> [] \<and> good r' \<and> left r = bs @ left r') \<and> (e \<noteq> None \<longrightarrow> left r = bs)"
begin

lemma read_ok:
  assumes "buf_ok good left D s" "s_err s = None" "bufEnd s < start + length (s_buf s)" "start \<le> bufEnd s" "bufStart s \<le> start"
    and "Read (s_rd s) (length (s_buf s) - (bufEnd s - start)) = (rd, bs, e)"
    and "take (bufEnd s - start) buf = drop start (take (bufEnd s) D)" "length buf = length (s_buf s)"
  shows "buf_ok good left D (s\<lparr>bufStart := start, s_rd := rd, s_buf := write_at (bufEnd s - start) bs buf, s_err := e, bufEnd := bufEnd s + length bs\<rparr>) \<and>
    (e = None \<longrightarrow> bs \<noteq> [])"
proof -
  let ?off = "bufEnd s - start"
  define rest where "rest = (if e = None then left rd else [])"
  have r: "length bs \<le> length (s_buf s) - ?off" "left (s_rd s) = bs @ rest" "e = None \<longrightarrow> bs \<noteq> [] \<and> good rd" "e \<noteq> None \<longrightarrow> rest = []"
    using Read_law[OF assms(6)] assms(1-4) by (auto simp: rest_def buf_ok_def)
  have d: "drop (bufEnd s) D = bs @ rest" using r(2) assms(1,2) by (simp add: buf_ok_def)
  have len: "bufEnd s + length bs \<le> length D" using arg_cong[OF d, of length] assms(1) by (auto simp: buf_ok_def)
  have "rest = drop (bufEnd s + length bs) D" using d by (metis append_eq_conv_conj drop_drop add.commute)
  then have "e = None \<longrightarrow> good rd \<and> left rd = drop (bufEnd s + length bs) D" using r(3) by (auto simp: rest_def)
  moreover have "take (bufEnd s + length bs) D = take (bufEnd s) D @ bs" using d by (metis append_eq_conv_conj take_add)
  moreover have "take (?off + length bs) (write_at ?off bs buf) = take ?off buf @ bs" "length (write_at ?off bs buf) = length buf"
    using write_at_take[of ?off bs buf] r(1) assms(3,4,8) by simp_all
  moreover have "e \<noteq> None \<longrightarrow> bufEnd s + length bs = length D" using r(4) arg_cong[OF d, of length] len by auto
  ultimately show ?thesis using assms(1,3-5,7,8) r(1,3) len by (auto simp: buf_ok_def)
qed

lemma fill_buf_ok:
  assumes "buf_ok good left D s"
  shows "\<exists>s'. fill_buf Read s = Some s' \<and> buf_ok good left D s' \<and> only_filled s s' \<and> (s_err s' = None \<longrightarrow> bufEnd s' = bufStart s + length (s_buf s))"
  using assms
proof (induction "length D - bufEnd s" arbitrary: s rule: less_induct)
  case less
  show ?case
  proof (cases "s_err s = None \<and> bufEnd s < bufStart s + length (s_buf s)")
    case False
    have "fill_buf Read s = Some s" using False by (subst fill_buf.simps) auto
    then show ?thesis using less.prems False by (auto simp: buf_ok_def only_filled_def)
  next
    case True
    let ?off = "bufEnd s - bufStart s"
    obtain rd bs e where r: "Read (s_rd s) (length (s_buf s) - ?off) = (rd, bs, e)" by (metis prod_cases3)
    define s1 where "s1 = s\<lparr>bufStart := bufStart s, s_rd := rd, s_buf := write_at ?off bs (s_buf s), s_err := e, bufEnd := bufEnd s + length bs\<rparr>"
    have i: "bufStart s \<le> bufEnd s" "take ?off (s_buf s) = drop (bufStart s) (take (bufEnd s) D)" "\<not> s_cancelled s" using less.prems by (auto simp: buf_ok_def)
    have ok: "buf_ok good left D s1" "e = None \<longrightarrow> bs \<noteq> []" using read_ok[OF less.prems _ _ i(1) _ r i(2)] True unfolding s1_def by auto
    have step: "fill_buf Read s = fill_buf Read s1" using True i(3) r by (subst fill_buf.simps) (simp add: Let_def s1_def)
    have "length (write_at ?off bs (s_buf s)) = length (s_buf s)"
      using write_at_take(2)[of ?off bs "s_buf s"] Read_law[OF r] True i(1) less.prems by (auto simp: buf_ok_def)
    then have of: "only_filled s s1" "bufStart s1 + length (s_buf s1) = bufStart s + length (s_buf s)" "s_err s1 = e" by (simp_all add: s1_def only_filled_def)
    show ?thesis
    proof (cases "bs = []")
      case True
      then have "fill_buf Read s1 = Some s1" using ok(2) of(3) by (subst fill_buf.simps) auto
      then show ?thesis using step ok of True by auto
    next
      case False
      have "0 < length bs" "bufEnd s + length bs \<le> length D" using False ok(1) by (simp_all add: buf_ok_def s1_def)
      then have "length D - bufEnd s1 < length D - bufEnd s" by (simp add: s1_def del: length_greater_0_conv)
      from less.hyps[OF this ok(1)] show ?thesis using step of only_filled_trans by metis
    qed
  qed
qed

lemma refill_ok:
  assumes "buf_ok good left D s" "win_ok D s" "bufferChunks s \<longrightarrow> windowEnd s \<noteq> bufEnd s" "windowEnd s \<noteq> bufEnd s \<or> s_err s = None"
  shows "\<exists>s'. refill Read s = Some s' \<and> buf_ok good left D s' \<and> win_ok D s' \<and> same_chunk s s' \<and> windowEnd s' = windowEnd s \<and>
    (windowEnd s' < bufEnd s' \<or> s_err s' \<noteq> None \<and> s_err s = None) \<and> (s_err s' = None \<longrightarrow> s_err s = None)"
proof (cases "windowEnd s = bufEnd s")
  case False
  then show ?thesis using assms by (auto simp: refill_def same_chunk_def win_ok_def)
next
  case True
  obtain rd bs e where r: "Read (s_rd s) (length (s_buf s)) = (rd, bs, e)" by (metis prod_cases3)
  let ?s = "s\<lparr>bufStart := bufEnd s, s_rd := rd, s_buf := write_at 0 bs (s_buf s), s_err := e, bufEnd := bufEnd s + length bs\<rparr>"
  have b: "s_buf s \<noteq> []" "bufStart s \<le> bufEnd s" "bufEnd s \<le> length D" using assms(1) by (auto simp: buf_ok_def)
  have ok: "buf_ok good left D ?s" "e = None \<longrightarrow> bs \<noteq> []"
    using read_ok[OF assms(1), of "bufEnd s" rd bs e "s_buf s"] r b True assms(4) by auto
  have "length bs \<le> length (s_buf s)" using Read_law[OF r] b(1) assms(1,4) True by (simp add: buf_ok_def)
  then have "length (write_at 0 bs (s_buf s)) = length (s_buf s)" using write_at_take(2)[of 0 bs] by simp
  then show ?thesis using True assms r ok by (auto simp: refill_def same_chunk_def win_ok_def)
qed

lemma scan_chunk_ok:
  assumes "buf_ok good left D s" "win_ok D s" "c \<le> windowEnd s" "windowEnd s \<le> c + MaxChunk (s_param s)" "no_prim (s_param s) D c (windowEnd s)"
    and "l = last_sec (s_param s) D c (windowEnd s)" "m = c + MinChunk (s_param s)" "mx = c + MaxChunk (s_param s)"
    and "bufferChunks s \<longrightarrow> s_err s = None \<longrightarrow> mx \<le> bufEnd s"
  shows "\<exists>s'. scan_chunk Read m mx s l = Some (s', last_sec (s_param s) D c (windowEnd s')) \<and> buf_ok good left D s' \<and> win_ok D s' \<and> same_chunk s s' \<and>
    windowEnd s \<le> windowEnd s' \<and> windowEnd s' \<le> mx \<and> no_prim (s_param s) D c (windowEnd s') \<and>
    (windowEnd s' = mx \<or> m \<le> windowEnd s' \<and> prim_at (s_param s) D (windowEnd s') \<or> windowEnd s' = length D)"
  using assms
proof (induction "2 * (length D - windowEnd s) + (if s_err s = None then 1 else 0)" arbitrary: s l rule: less_induct)
  case less
  let ?p = "windowEnd s" and ?pm = "s_param s"
  note ic = in_chunk_at[OF less.prems(2), of m]
  have nc: "\<not> s_cancelled s" using less.prems(1) by (simp add: buf_ok_def)
  show ?case
  proof (cases "?p \<noteq> mx \<and> (?p < m \<or> \<not> prim_at ?pm D ?p) \<and> (?p \<noteq> bufEnd s \<or> s_err s = None)")
    case False
    then have "scan_chunk Read m mx s l = Some (s, l)" using ic by (subst scan_chunk.simps) auto
    moreover have "?p = mx \<or> m \<le> ?p \<and> prim_at ?pm D ?p \<or> ?p = length D" using False less.prems(1) by (auto simp: buf_ok_def)
    ultimately show ?thesis using less.prems by (intro exI[of _ s]) (auto simp: same_chunk_def)
  next
    case True
    have "bufferChunks s \<longrightarrow> ?p \<noteq> bufEnd s" using less.prems(4,8,9) True by auto
    from refill_ok[OF less.prems(1,2) this] True obtain s1 where s1: "refill Read s = Some s1" "buf_ok good left D s1" "win_ok D s1" "same_chunk s s1" "windowEnd s1 = ?p"
        "?p < bufEnd s1 \<or> s_err s1 \<noteq> None \<and> s_err s = None" and e2: "s_err s1 = None \<longrightarrow> s_err s = None" by auto
    let ?lim = "if bufEnd s1 < mx then bufEnd s1 else mx"
    have pm: "s_param s1 = ?pm" using s1(4) by (simp add: same_chunk_def)
    have lim: "windowEnd s1 \<le> ?lim" "?lim \<le> bufEnd s1" using s1(3,5) less.prems(4,8) by (auto simp: win_ok_def)
    obtain w h e where sc: "scan_buf m ?lim s1 l = Some (s1\<lparr>s_window := w, s_hash := h, windowEnd := e\<rparr>, last_sec ?pm D c e)"
        "win_ok D (s1\<lparr>s_window := w, s_hash := h, windowEnd := e\<rparr>)" "?p \<le> e" "e \<le> ?lim" "no_prim ?pm D c e"
        "?p < ?lim \<longrightarrow> ?p < e"
      using scan_buf_ok[OF s1(2,3) lim, of c l m] less.prems(3,5-7) s1(5) pm True by auto
    let ?s = "s1\<lparr>s_window := w, s_hash := h, windowEnd := e\<rparr>"
    have ok: "buf_ok good left D ?s" "same_chunk s ?s" using s1(2,4) by (auto simp: buf_ok_def same_chunk_def)
    have step: "scan_chunk Read m mx s l = scan_chunk Read m mx ?s (last_sec ?pm D c e)"
      using ic True nc s1(1) sc(1) by (subst scan_chunk.simps) simp
    have eD: "e \<le> length D" using sc(4) lim(2) s1(2) by (simp add: buf_ok_def)
    have "2 * (length D - e) + (if s_err s1 = None then 1 else 0) < 2 * (length D - ?p) + (if s_err s = None then 1 else 0 :: nat)"
      using s1(6) sc(3,6) eD True less.prems(4,8) e2 by (auto split: if_splits)
    moreover have "e \<le> mx" using sc(4) by (auto split: if_splits)
    moreover have "c \<le> e" using less.prems(3) sc(3) by simp
    moreover have "bufferChunks ?s \<longrightarrow> s_err ?s = None \<longrightarrow> mx \<le> bufEnd ?s" using less.prems(9) ok(2) by (auto simp: same_chunk_def)
    ultimately obtain s' where "scan_chunk Read m mx ?s (last_sec ?pm D c e) = Some (s', last_sec ?pm D c (windowEnd s'))" "buf_ok good left D s'" "win_ok D s'" "same_chunk ?s s'"
        "e \<le> windowEnd s'" "windowEnd s' \<le> mx" "no_prim ?pm D c (windowEnd s')" "windowEnd s' = mx \<or> m \<le> windowEnd s' \<and> prim_at ?pm D (windowEnd s') \<or> windowEnd s' = length D"
      using less.hyps[of ?s "last_sec ?pm D c e"] ok(1) sc(2,5) pm less.prems(7,8) by auto
    then show ?thesis using step same_chunk_trans[OF ok(2)] sc(3) by (intro exI[of _ s']) auto
  qed
qed

lemma prepare_buf_ok:
  assumes "chunk_inv good left D s"
  shows "\<exists>s'. prepare_buf Read s = Some s' \<and> chunk_inv good left D s' \<and> s_param s' = s_param s \<and> chunkEnd s' = chunkEnd s \<and> bufferChunks s' = bufferChunks s \<and>
    (bufferChunks s \<longrightarrow> s_err s' = None \<longrightarrow> chunkEnd s + MaxChunk (s_param s) \<le> bufEnd s')"
proof (cases "bufferChunks s \<and> bufEnd s < chunkEnd s + MaxChunk (s_param s) \<and> s_err s = None")
  case False
  then show ?thesis using assms by (auto simp: prepare_buf_def)
next
  case True
  define s1 where "s1 = compact_buf s"
  have c: "chunk_inv good left D s1" "bufStart s1 = chunkEnd s" "length (s_buf s1) = length (s_buf s)" using compact_ok[OF assms] True s1_def by auto
  have f: "s_param s1 = s_param s" "chunkEnd s1 = chunkEnd s" "bufferChunks s1 = bufferChunks s" by (simp_all add: s1_def compact_buf_def)
  have "buf_ok good left D s1" using c(1) by (simp add: chunk_inv_def)
  from fill_buf_ok[OF this] obtain s' where s': "fill_buf Read s1 = Some s'" "buf_ok good left D s'" "only_filled s1 s'" "s_err s' = None \<longrightarrow> bufEnd s' = bufStart s1 + length (s_buf s1)"
    by (elim exE conjE) (rule that)
  have eqs: "s_param s' = s_param s1" "s_window s' = s_window s1" "bufferChunks s' = bufferChunks s1" "bufStart s' = bufStart s1" "chunkEnd s' = chunkEnd s1"
      "windowEnd s' = windowEnd s1" "s_hash s' = s_hash s1" "length (s_buf s') = length (s_buf s1)" and le: "bufEnd s1 \<le> bufEnd s'"
    using s'(3) by (simp_all add: only_filled_def)
  have "win_ok D s'" using c(1) le unfolding chunk_inv_def win_ok_def eqs by linarith
  then have "chunk_inv good left D s'" using c(1) s'(2) unfolding chunk_inv_def eqs by blast
  moreover have "s_err s' = None \<longrightarrow> chunkEnd s + MaxChunk (s_param s) \<le> bufEnd s'"
    using s'(4) c(2,3) assms True by (simp add: chunk_inv_def)
  moreover have "prepare_buf Read s = Some s'" using True s'(1) by (simp add: prepare_buf_def s1_def)
  ultimately show ?thesis using eqs f by simp
qed

lemma Advance_ok:
  assumes "chunk_inv good left D s"
  shows "\<exists>s'. Chunks_Advance Read s = Some (s', chunkEnd s < length D) \<and> chunk_inv good left D s' \<and> s_param s' = s_param s \<and> bufferChunks s' = bufferChunks s \<and>
    chunkStart s' = chunkEnd s \<and> chunkEnd s' = ref_end (s_param s) D (chunkEnd s) \<and>
    (bufferChunks s \<longrightarrow> Chunks_Value s' = Some (take (chunkEnd s' - chunkEnd s) (drop (chunkEnd s) D)))"
proof -
  let ?pm = "s_param s" and ?c = "chunkEnd s"
  from prepare_buf_ok[OF assms] obtain s1 where s1: "prepare_buf Read s = Some s1" "chunk_inv good left D s1" "s_param s1 = ?pm" "chunkEnd s1 = ?c" "bufferChunks s1 = bufferChunks s"
      "bufferChunks s \<longrightarrow> s_err s1 = None \<longrightarrow> ?c + MaxChunk ?pm \<le> bufEnd s1" by (elim exE conjE) (rule that)
  define s2 where "s2 = s1\<lparr>chunkStart := ?c\<rparr>"
  have f2: "s_param s2 = ?pm" "windowEnd s2 = windowEnd s1" "bufferChunks s2 = bufferChunks s" "s_err s2 = s_err s1" "bufEnd s2 = bufEnd s1" "chunkStart s2 = ?c" "bufStart s2 = bufStart s1"
      "s_buf s2 = s_buf s1" using s1 by (simp_all add: s2_def)
  have ok2: "buf_ok good left D s2" "win_ok D s2" using s1(2) by (simp_all add: s2_def chunk_inv_def buf_ok_def win_ok_def)
  have i1: "?c \<le> windowEnd s1" "windowEnd s1 \<le> ?c + MaxChunk ?pm" "no_prim ?pm D ?c (Suc (windowEnd s1))" "\<forall>p. ?c < p \<longrightarrow> p \<le> windowEnd s1 \<longrightarrow> \<not> sec_at ?pm D p"
    and wp: "wf_param ?pm" using s1 by (auto simp: chunk_inv_def win_ok_def)
  have np: "no_prim ?pm D ?c (windowEnd s1)" using i1(3) by (simp add: no_prim_def)
  have ls: "?c + MaxChunk ?pm = last_sec ?pm D ?c (windowEnd s1)" using last_sec_none[OF i1(4)] by simp
  have buffered: "bufferChunks s \<longrightarrow> s_err s1 = None \<longrightarrow> ?c + MaxChunk ?pm \<le> bufEnd s1" using s1(6) .
  from scan_chunk_ok[OF ok2, unfolded f2, OF i1(1,2) np ls refl refl buffered] obtain s3
    where s3: "scan_chunk Read (?c + MinChunk ?pm) (?c + MaxChunk ?pm) s2 (?c + MaxChunk ?pm) = Some (s3, last_sec ?pm D ?c (windowEnd s3))"
      "buf_ok good left D s3" "win_ok D s3" "same_chunk s2 s3" "windowEnd s1 \<le> windowEnd s3" "windowEnd s3 \<le> ?c + MaxChunk ?pm" "no_prim ?pm D ?c (windowEnd s3)"
      "windowEnd s3 = ?c + MaxChunk ?pm \<or> ?c + MinChunk ?pm \<le> windowEnd s3 \<and> prim_at ?pm D (windowEnd s3) \<or> windowEnd s3 = length D"
    by (elim exE conjE) (rule that)
  let ?w = "windowEnd s3" and ?l = "last_sec ?pm D ?c (windowEnd s3)" and ?mx = "?c + MaxChunk ?pm"
  define e where "e = (if ?w = ?mx \<and> \<not> prim_at ?pm D ?w \<and> ?l \<noteq> ?mx then ?l else ?w)"
  define s4 where "s4 = s3\<lparr>chunkEnd := e\<rparr>"
  have f3: "s_param s3 = ?pm" "chunkStart s3 = ?c" "bufferChunks s3 = bufferChunks s" "length (s_buf s3) = length (s_buf s1)" "bufferChunks s \<longrightarrow> bufStart s3 = bufStart s1 \<and> bufEnd s3 = bufEnd s1"
    using s3(4) f2 by (auto simp: same_chunk_def)
  have nc: "\<not> s_cancelled s3" "?w \<le> length D" using s3(2,3) by (auto simp: buf_ok_def win_ok_def)
  have "mod_is_1 (s_hash s3) (Primary ?pm) = Some (prim_at ?pm D ?w)" using s3(3) wp f3(1) by (simp add: win_ok_def mod_is_1_def wf_param_def prim_at_def)
  then have adv: "Chunks_Advance Read s = Some (s4, ?c \<noteq> e)"
    using s1(1,3,4) s3(1) f3(1,2) nc(1) by (simp add: Chunks_Advance_def Let_def e_def s4_def flip: s2_def)
  have cw: "?c \<le> ?w" using i1(1) s3(5) by simp
  have cut: "e = ref_end ?pm D ?c" using cut_is_ref_end[OF wp nc(2) cw s3(6-8)] by (simp add: e_def)
  have e: "?c \<le> e" "e \<le> ?w" "?w \<le> e + MaxChunk ?pm" "no_prim ?pm D e (Suc ?w)" "\<forall>p. e < p \<longrightarrow> p \<le> ?w \<longrightarrow> \<not> sec_at ?pm D p"
    using cut_leaves[OF wp cw s3(6,7) e_def] by auto
  have bs: "bufferChunks s \<longrightarrow> bufStart s3 \<le> ?c \<and> MaxChunk ?pm \<le> length (s_buf s3)" using s1(2-5) f3(4,5) by (simp add: chunk_inv_def)
  have "buf_ok good left D s4" "win_ok D s4" using s3(2,3) by (simp_all add: s4_def buf_ok_def win_ok_def)
  then have inv: "chunk_inv good left D s4" using bs e f3(1,3) by (auto simp: chunk_inv_def s4_def)
  have "(?c \<noteq> e) = (?c < length D)" using ref_end_bounds[OF wp, of ?c D] e(1,2) nc(2) cut by auto
  moreover have "Chunks_Value s4 = Some (take (e - ?c) (drop ?c D))" if "bufferChunks s"
  proof -
    have "e \<le> bufEnd s3" "bufEnd s3 \<le> bufStart s3 + length (s_buf s3)" using e(2) s3(2,3) by (auto simp: win_ok_def buf_ok_def)
    then show ?thesis using buf_slice[OF s3(2), of ?c e] bs that e(1) f3(2) by (simp add: Chunks_Value_def s4_def)
  qed
  ultimately show ?thesis using adv inv cut f3 by (intro exI[of _ s4]) (simp add: s4_def)
qed

text \<open>The loop of a client: advance, and take the value, until there is none.\<close>

lemma read_chunks_ok:
  assumes "chunk_inv good left D s" "bufferChunks s" "length D - chunkEnd s < n"
  shows "read_chunks Read n s = Some (ref_chunks (s_param s) D (chunkEnd s))"
  using assms
proof (induction n arbitrary: s)
  case (Suc n)
  let ?c = "chunkEnd s" and ?pm = "s_param s"
  from Advance_ok[OF Suc.prems(1)] obtain s' where s': "Chunks_Advance Read s = Some (s', ?c < length D)" "chunk_inv good left D s'" "s_param s' = ?pm" "bufferChunks s' = bufferChunks s"
      "chunkStart s' = ?c" "chunkEnd s' = ref_end ?pm D ?c" "bufferChunks s \<longrightarrow> Chunks_Value s' = Some (take (chunkEnd s' - ?c) (drop ?c D))" by (elim exE conjE) (rule that)
  have w: "wf_param ?pm" "?c \<le> length D" using Suc.prems(1) by (auto simp: chunk_inv_def win_ok_def buf_ok_def)
  show ?case
  proof (cases "?c < length D")
    case True
    note b = ref_end_bounds[OF w(1) True]
    have "length D - chunkEnd s' < n" using b s'(6) Suc.prems(3) True by linarith
    then have "read_chunks Read n s' = Some (ref_chunks ?pm D (chunkEnd s'))" using Suc.IH[OF s'(2)] s'(3,4) Suc.prems(2) by simp
    then show ?thesis using s' True b Suc.prems(2) by (subst ref_chunks.simps) (simp add: Let_def)
  next
    case False
    then have "ref_chunks ?pm D ?c = []" using w(2) by (subst ref_chunks.simps) (auto simp: Let_def)
    then show ?thesis using s'(1) False by simp
  qed
qed simp

lemma read_positions_ok:
  assumes "chunk_inv good left D s" "length D - chunkEnd s < n"
  shows "read_positions Read n s = Some (chunk_ends (chunkEnd s) (ref_chunks (s_param s) D (chunkEnd s)))"
  using assms
proof (induction n arbitrary: s)
  case (Suc n)
  let ?c = "chunkEnd s" and ?pm = "s_param s"
  from Advance_ok[OF Suc.prems(1)] obtain s' where s': "Chunks_Advance Read s = Some (s', ?c < length D)" "chunk_inv good left D s'" "s_param s' = ?pm"
      "chunkEnd s' = ref_end ?pm D ?c" by (elim exE conjE) (rule that)
  have w: "wf_param ?pm" "?c \<le> length D" using Suc.prems(1) by (auto simp: chunk_inv_def win_ok_def buf_ok_def)
  show ?case
  proof (cases "?c < length D")
    case True
    note b = ref_end_bounds[OF w(1) True]
    have "length D - chunkEnd s' < n" using b s'(4) Suc.prems(2) True by linarith
    then have "read_positions Read n s' = Some (chunk_ends (chunkEnd s') (ref_chunks ?pm D (chunkEnd s')))" using Suc.IH[OF s'(2)] s'(3) by simp
    moreover have "?c + length (take (ref_end ?pm D ?c - ?c) (drop ?c D)) = ref_end ?pm D ?c" using b by (simp add: min_absorb2 diff_le_mono)
    ultimately show ?thesis using s' True b by (subst ref_chunks.simps) (simp add: Let_def PosStream_Value_def)
  next
    case False
    then have "ref_chunks ?pm D ?c = []" using w(2) by (subst ref_chunks.simps) (auto simp: Let_def)
    then show ?thesis using s'(1) False by simp
  qed
qed simp

end

end
