(* ===== verification/Blob_Reader.thy ===== *)
theory Blob_Reader
  imports Chunker_Props
begin

text \<open>
  Reading blobs (\<^verbatim>\<open>localblobstore/fs_cablobstore/fs_cablobstore.go\<close>): a blob is a list of fragments, each a part of a file, and a reader walks over them.
  The files are a parameter, a map from names to contents; an operation that would wait for a writer is \<^term>\<open>None\<close>. Offsets are natural numbers.
\<close>

subsection \<open>Data\<close>

record blobFragment =
  f_pos :: nat
  f_size :: nat
  f_offset :: nat
  f_fileName :: string

record blobDesc =
  b_name :: string
  b_fragment :: "blobFragment list"
  b_size :: nat
  b_finalized :: bool
  b_hash :: "8 word list"
  b_openWriter :: bool

text \<open>The handle of an open fragment is the content of its file.\<close>

record BlobReader =
  br_desc :: blobDesc
  br_waitForWriter :: bool
  br_pos :: nat
  br_fragmentIndex :: "nat option"
  br_fh :: "8 word list option"

type_synonym blob_files = "string \<rightharpoonup> 8 word list"

definition blobReaderFromDesc :: "blobDesc \<Rightarrow> bool \<Rightarrow> BlobReader" where
  "blobReaderFromDesc desc wait = \<lparr>br_desc = desc, br_waitForWriter = wait, br_pos = 0, br_fragmentIndex = None, br_fh = None\<rparr>"

definition br_closeInternal :: "BlobReader \<Rightarrow> BlobReader" where
  "br_closeInternal br = br\<lparr>br_fh := None, br_fragmentIndex := None\<rparr>"

subsection \<open>Operations\<close>

function find_fragment_loop :: "blobFragment list \<Rightarrow> nat \<Rightarrow> nat \<Rightarrow> nat \<Rightarrow> nat" where
  "find_fragment_loop fragment offset lo hi =
     (if lo < hi then
        (let mid = (lo + hi) div 2 in
         if offset < f_pos (fragment ! mid) then find_fragment_loop fragment offset lo mid else find_fragment_loop fragment offset (mid + 1) hi)
      else lo)"
  by pat_completeness auto
termination by (relation "measure (\<lambda>(_, _, lo, hi). hi - lo)") auto

declare find_fragment_loop.simps [simp del]

definition findFragment :: "blobFragment list \<Rightarrow> nat \<Rightarrow> nat" where
  "findFragment fragment offset = (let lo = find_fragment_loop fragment offset 0 (length fragment) in if lo > 0 then lo - 1 else lo)"

definition waitUntilAvailable :: "BlobReader \<Rightarrow> nat option \<Rightarrow> unit option" where
  "waitUntilAvailable br pos =
     (if br_waitForWriter br \<and> b_openWriter (br_desc br) \<and> (case pos of None \<Rightarrow> True | Some p \<Rightarrow> b_size (br_desc br) < p) then None else Some ())"

text \<open>\<^verbatim>\<open>os.File.ReadAt\<close> returns fewer bytes only together with the end of the file, and an error for a negative offset. A negative length panics.\<close>

definition file_ReadAt :: "8 word list \<Rightarrow> int \<Rightarrow> int \<Rightarrow> (8 word list \<times> rerr option) option" where
  "file_ReadAt f n off =
     (if n < 0 then None
      else if off < 0 then Some ([], Some (errRead ''negative offset''))
      else let bs = take (nat n) (drop (nat off) f) in Some (bs, if length bs < nat n then Some EOF else None))"

definition open_fragment :: "blob_files \<Rightarrow> BlobReader \<Rightarrow> nat \<Rightarrow> blobFragment \<Rightarrow> BlobReader \<times> rerr option" where
  "open_fragment files br i frag =
     (let br = (if br_fragmentIndex br \<noteq> Some i then br_closeInternal br else br) in
      if br_fragmentIndex br = None then
        (case files (f_fileName frag) of
           Some c \<Rightarrow> (br\<lparr>br_fh := Some c, br_fragmentIndex := Some i\<rparr>, None)
         | None \<Rightarrow> (br_closeInternal br, Some (errRead ''open'')))
      else (br, None))"

definition br_ReadAt :: "blob_files \<Rightarrow> BlobReader \<Rightarrow> nat \<Rightarrow> nat \<Rightarrow> (BlobReader \<times> 8 word list \<times> rerr option) option" where
  "br_ReadAt files br len at = do {
     _ \<leftarrow> waitUntilAvailable br (Some (at + len));
     let desc = br_desc br;
     let i = findFragment (b_fragment desc) at;
     if i < length (b_fragment desc) \<and> at \<le> b_size desc then do {
       let frag = b_fragment desc ! i;
       let (br, err) = open_fragment files br i frag;
       let consume = min (int len) (int (f_size frag) - (int at - int (f_pos frag)));
       (bs, err) \<leftarrow> (case br_fh br of
          Some c \<Rightarrow> file_ReadAt c consume (int at - int (f_pos frag) + int (f_offset frag))
        | None \<Rightarrow> if err = None then None else Some ([], err));
       let err = (if b_size desc \<le> length bs + at \<and> \<not> (br_waitForWriter br \<and> b_openWriter desc) then (if err = None then Some EOF else err)
                  else if err = Some EOF then None else err);
       Some (br, bs, err)
     }
     else if at = b_size desc then Some (br, [], Some EOF)
     else Some (br, [], Some (errRead ''illegal position''))
   }"

definition br_Read :: "blob_files \<Rightarrow> BlobReader \<Rightarrow> nat \<Rightarrow> (BlobReader \<times> 8 word list \<times> rerr option) option" where
  "br_Read files br len = do {
     (br, bs, err) \<leftarrow> br_ReadAt files br len (br_pos br);
     Some (if err = None then br\<lparr>br_pos := br_pos br + length bs\<rparr> else br, bs, err)
   }"

definition br_Seek :: "BlobReader \<Rightarrow> int \<Rightarrow> int \<Rightarrow> (BlobReader \<times> nat \<times> rerr option) option" where
  "br_Seek br offset whence = do {
     _ \<leftarrow> (if whence = 2 then waitUntilAvailable br None else Some ());
     let (result, err) =
       (if whence = 0 then (offset, None) else if whence = 1 then (offset + int (br_pos br), None)
        else if whence = 2 then (offset + int (b_size (br_desc br)), None) else (int (br_pos br), Some (errRead ''bad whence'')));
     Some (if result < 0 then (br, br_pos br, Some (errRead ''negative position''))
           else if int (b_size (br_desc br)) < result then (br, br_pos br, Some (errRead ''illegal position''))
           else if err = None then (br\<lparr>br_pos := nat result\<rparr>, nat result, None)
           else (br, nat result, err))
   }"

definition br_Size :: "BlobReader \<Rightarrow> nat option" where
  "br_Size br = map_option (\<lambda>_. b_size (br_desc br)) (waitUntilAvailable br None)"

definition br_IsFinalized :: "BlobReader \<Rightarrow> bool option" where
  "br_IsFinalized br = map_option (\<lambda>_. b_finalized (br_desc br)) (waitUntilAvailable br None)"

definition br_Hash :: "BlobReader \<Rightarrow> 8 word list option" where
  "br_Hash br = map_option (\<lambda>_. b_hash (br_desc br)) (waitUntilAvailable br None)"

subsection \<open>Blobs\<close>

fun frags_ok :: "blob_files \<Rightarrow> nat \<Rightarrow> blobFragment list \<Rightarrow> bool" where
  "frags_ok files p [] = True"
| "frags_ok files p (f # fs) \<longleftrightarrow> f_pos f = p \<and> (\<exists>c. files (f_fileName f) = Some c \<and> f_offset f + f_size f \<le> length c) \<and> frags_ok files (p + f_size f) fs"

definition frag_bytes :: "blob_files \<Rightarrow> blobFragment \<Rightarrow> 8 word list" where
  "frag_bytes files f = (case files (f_fileName f) of Some c \<Rightarrow> take (f_size f) (drop (f_offset f) c) | None \<Rightarrow> [])"

definition blob_bytes :: "blob_files \<Rightarrow> blobDesc \<Rightarrow> 8 word list" where
  "blob_bytes files d = concat (map (frag_bytes files) (b_fragment d))"

definition desc_ok :: "blob_files \<Rightarrow> blobDesc \<Rightarrow> bool" where
  "desc_ok files d \<longleftrightarrow> frags_ok files 0 (b_fragment d) \<and> b_size d = length (blob_bytes files d)"

lemma frag_bytes_length: "frags_ok files p fs \<Longrightarrow> f \<in> set fs \<Longrightarrow> length (frag_bytes files f) = f_size f \<and> (\<exists>c. files (f_fileName f) = Some c)"
  by (induction fs arbitrary: p) (auto simp: frag_bytes_def)

lemma frags_ok_pos:
  "frags_ok files p fs \<Longrightarrow> i < length fs \<Longrightarrow> f_pos (fs ! i) = p + length (concat (map (frag_bytes files) (take i fs)))"
proof (induction fs arbitrary: p i)
  case (Cons f fs)
  have "length (frag_bytes files f) = f_size f" using frag_bytes_length[OF Cons.prems(1), of f] by simp
  then show ?case using Cons by (cases i) auto
qed simp

lemma frags_ok_end:
  assumes "frags_ok files 0 fs" "i < length fs"
  shows "f_pos (fs ! i) + f_size (fs ! i) = (if Suc i < length fs then f_pos (fs ! Suc i) else length (concat (map (frag_bytes files) fs)))"
    "f_pos (fs ! i) + f_size (fs ! i) \<le> length (concat (map (frag_bytes files) fs))"
proof -
  have "length (frag_bytes files (fs ! i)) = f_size (fs ! i)" using frag_bytes_length[OF assms(1), of "fs ! i"] assms(2) by simp
  then have e: "f_pos (fs ! i) + f_size (fs ! i) = length (concat (map (frag_bytes files) (take (Suc i) fs)))"
    using frags_ok_pos[OF assms] assms(2) by (simp add: take_Suc_conv_app_nth)
  then show "f_pos (fs ! i) + f_size (fs ! i) = (if Suc i < length fs then f_pos (fs ! Suc i) else length (concat (map (frag_bytes files) fs)))"
    using frags_ok_pos[OF assms(1), of "Suc i"] by simp
  have "concat (map (frag_bytes files) fs) = concat (map (frag_bytes files) (take (Suc i) fs)) @ concat (map (frag_bytes files) (drop (Suc i) fs))"
    by (metis append_take_drop_id concat_append map_append)
  then show "f_pos (fs ! i) + f_size (fs ! i) \<le> length (concat (map (frag_bytes files) fs))" using e by simp
qed

lemma frags_ok_mono: "frags_ok files p fs \<Longrightarrow> i \<le> j \<Longrightarrow> j < length fs \<Longrightarrow> f_pos (fs ! i) \<le> f_pos (fs ! j)"
proof -
  assume a: "frags_ok files p fs" "i \<le> j" "j < length fs"
  have "take j fs = take i fs @ take (j - i) (drop i fs)" using a(2) by (metis le_add_diff_inverse take_add)
  then show ?thesis using frags_ok_pos[OF a(1)] a(2,3) by simp
qed

lemma find_fragment_loop_spec:
  assumes "\<forall>i j. i \<le> j \<longrightarrow> j < length fs \<longrightarrow> f_pos (fs ! i) \<le> f_pos (fs ! j)" "lo \<le> hi" "hi \<le> length fs"
    and "\<forall>i<lo. f_pos (fs ! i) \<le> at" "\<forall>i. hi \<le> i \<longrightarrow> i < length fs \<longrightarrow> at < f_pos (fs ! i)" "find_fragment_loop fs at lo hi = r"
  shows "r \<le> length fs \<and> (\<forall>i<r. f_pos (fs ! i) \<le> at) \<and> (\<forall>i. r \<le> i \<longrightarrow> i < length fs \<longrightarrow> at < f_pos (fs ! i))"
  using assms
proof (induction fs at lo hi rule: find_fragment_loop.induct)
  case (1 fs at lo hi)
  let ?mid = "(lo + hi) div 2"
  note p = "1.prems"
  consider (stop) "\<not> lo < hi" | (lower) "lo < hi" "at < f_pos (fs ! ?mid)" | (upper) "lo < hi" "\<not> at < f_pos (fs ! ?mid)" by blast
  then show ?case
  proof cases
    case stop
    then have "r = lo" using p(6) by (simp add: find_fragment_loop.simps[of fs at lo hi])
    moreover have "lo = hi" using p(2) stop by simp
    ultimately have r: "r = hi" and l: "\<forall>i<hi. f_pos (fs ! i) \<le> at" using p(4) by simp_all
    show ?thesis unfolding r by (intro conjI p(3,5) l)
  next
    case lower
    have u: "\<forall>i. ?mid \<le> i \<longrightarrow> i < length fs \<longrightarrow> at < f_pos (fs ! i)" using p(1) lower(2) by (meson less_le_trans)
    have b: "lo \<le> ?mid" "?mid \<le> length fs" using lower(1) p(3) by simp_all
    have "find_fragment_loop fs at lo ?mid = r" using p(6) lower by (simp add: find_fragment_loop.simps[of fs at lo hi] Let_def)
    from "1.IH"(1)[OF lower(1) refl lower(2) p(1) b p(4) u this] show ?thesis .
  next
    case upper
    have m: "?mid < length fs" using upper(1) p(3) by auto
    have l: "\<forall>i<?mid + 1. f_pos (fs ! i) \<le> at" 
    proof (intro allI impI)
      fix i assume "i < ?mid + 1"
      then have "f_pos (fs ! i) \<le> f_pos (fs ! ?mid)" using p(1) m by simp
      then show "f_pos (fs ! i) \<le> at" using upper(2) by simp
    qed
    have b: "?mid + 1 \<le> hi" using upper(1) by simp
    have "find_fragment_loop fs at (?mid + 1) hi = r" using p(6) upper by (simp add: find_fragment_loop.simps[of fs at lo hi] Let_def)
    from "1.IH"(2)[OF upper(1) refl upper(2) p(1) b p(3) l p(5) this] show ?thesis .
  qed
qed

text \<open>The fragment found is the last one that begins at or before the position.\<close>

lemma findFragment_spec:
  assumes "frags_ok files 0 fs" "fs \<noteq> []" "findFragment fs at = i"
  shows "i < length fs \<and> f_pos (fs ! i) \<le> at \<and> (Suc i < length fs \<longrightarrow> at < f_pos (fs ! Suc i))"
proof -
  define r where "r = find_fragment_loop fs at 0 (length fs)"
  have "\<forall>i j. i \<le> j \<longrightarrow> j < length fs \<longrightarrow> f_pos (fs ! i) \<le> f_pos (fs ! j)" using frags_ok_mono[OF assms(1)] by blast
  from find_fragment_loop_spec[OF this, of 0 "length fs" at r] have sp: "r \<le> length fs" "\<forall>i<r. f_pos (fs ! i) \<le> at" "\<forall>i. r \<le> i \<longrightarrow> i < length fs \<longrightarrow> at < f_pos (fs ! i)"
    by (simp_all add: r_def)
  have "f_pos (fs ! 0) = 0" using assms(1,2) by (cases fs) auto
  then have "0 < r" using sp(3) assms(2) by (metis le0 length_greater_0_conv less_nat_zero_code not_gr_zero)
  then have "i = r - 1" using assms(3) by (simp add: findFragment_def Let_def r_def)
  then show ?thesis using sp \<open>0 < r\<close> by auto
qed

text \<open>Reading delivers the next bytes of the blob, up to the end of the fragment.\<close>

lemma frag_slice:
  assumes "frags_ok files 0 fs" "i < length fs" "f_pos (fs ! i) \<le> at" "k + at \<le> f_pos (fs ! i) + f_size (fs ! i)" "files (f_fileName (fs ! i)) = Some c"
  shows "take k (drop (at - f_pos (fs ! i) + f_offset (fs ! i)) c) = take k (drop at (concat (map (frag_bytes files) fs))) \<and>
    length (take k (drop at (concat (map (frag_bytes files) fs)))) = k"
proof -
  let ?f = "fs ! i" and ?B = "concat (map (frag_bytes files) fs)"
  define pre where "pre = concat (map (frag_bytes files) (take i fs))"
  define post where "post = concat (map (frag_bytes files) (drop (Suc i) fs))"
  have "fs = take i fs @ ?f # drop (Suc i) fs" using assms(2) by (simp add: id_take_nth_drop)
  then have B: "?B = pre @ frag_bytes files ?f @ post" unfolding pre_def post_def by (metis concat.simps(2) concat_append list.simps(9) map_append)
  have p: "f_pos ?f = length pre" using frags_ok_pos[OF assms(1,2)] by (simp add: pre_def)
  have l: "length (frag_bytes files ?f) = f_size ?f" using frag_bytes_length[OF assms(1), of ?f] assms(2) by simp
  have "drop at ?B = drop (at - f_pos ?f) (frag_bytes files ?f) @ drop (at - f_pos ?f - f_size ?f) post" unfolding B using assms(3) p l by simp
  moreover have "k \<le> length (drop (at - f_pos ?f) (frag_bytes files ?f))" using assms(3,4) l by simp
  ultimately have t: "take k (drop at ?B) = take k (drop (at - f_pos ?f) (frag_bytes files ?f))" "length (take k (drop at ?B)) = k" by simp_all
  have "frag_bytes files ?f = take (f_size ?f) (drop (f_offset ?f) c)" using assms(5) by (simp add: frag_bytes_def)
  then have "drop (at - f_pos ?f) (frag_bytes files ?f) = take (f_size ?f - (at - f_pos ?f)) (drop (at - f_pos ?f + f_offset ?f) c)" by (simp add: drop_take)
  then have "take k (drop (at - f_pos ?f) (frag_bytes files ?f)) = take k (drop (at - f_pos ?f + f_offset ?f) c)" using assms(3,4) by (simp add: min_absorb1)
  then show ?thesis using t by simp
qed

text \<open>The cached handle is that of the fragment with its index.\<close>

definition br_ok :: "blob_files \<Rightarrow> BlobReader \<Rightarrow> bool" where
  "br_ok files br \<longleftrightarrow> desc_ok files (br_desc br) \<and> br_pos br \<le> b_size (br_desc br) \<and> \<not> (br_waitForWriter br \<and> b_openWriter (br_desc br)) \<and>
     (case br_fragmentIndex br of None \<Rightarrow> br_fh br = None
      | Some i \<Rightarrow> i < length (b_fragment (br_desc br)) \<and> br_fh br = files (f_fileName (b_fragment (br_desc br) ! i)))"

lemma open_fragment_ok:
  assumes "br_ok files br" "i < length (b_fragment (br_desc br))" "open_fragment files br i (b_fragment (br_desc br) ! i) = (br', e)"
  shows "e = None \<and> br_ok files br' \<and> br_desc br' = br_desc br \<and> br_pos br' = br_pos br \<and> br_waitForWriter br' = br_waitForWriter br \<and>
    (\<exists>c. files (f_fileName (b_fragment (br_desc br) ! i)) = Some c \<and> br_fh br' = Some c)"
proof -
  obtain c where c: "files (f_fileName (b_fragment (br_desc br) ! i)) = Some c"
    using frag_bytes_length[of files 0 "b_fragment (br_desc br)"] assms(1,2) by (fastforce simp: br_ok_def desc_ok_def)
  show ?thesis using assms c by (cases "br_fragmentIndex br = Some i") (auto simp: open_fragment_def br_ok_def br_closeInternal_def Let_def)
qed

text \<open>How much one read returns: no more than the rest of the fragment.\<close>

definition read_len :: "blobFragment list \<Rightarrow> nat \<Rightarrow> nat \<Rightarrow> nat" where
  "read_len fs at n = (if fs = [] then 0 else let f = fs ! findFragment fs at in min n (f_pos f + f_size f - at))"

lemma br_ReadAt_bytes:
  assumes "br_ok files br" "at \<le> b_size (br_desc br)" "0 < n"
  shows "\<exists>br' bs e. br_ReadAt files br n at = Some (br', bs, e) \<and> br_ok files br' \<and> br_desc br' = br_desc br \<and> br_pos br' = br_pos br \<and>
    length bs \<le> n \<and> bs = take (length bs) (drop at (blob_bytes files (br_desc br))) \<and> length bs = read_len (b_fragment (br_desc br)) at n \<and>
    (at < b_size (br_desc br) \<longrightarrow> bs \<noteq> []) \<and> e = (if at + length bs = b_size (br_desc br) then Some EOF else None)"
proof (cases "b_fragment (br_desc br) = []")
  case True
  then have "b_size (br_desc br) = 0" "blob_bytes files (br_desc br) = []" using assms(1) by (simp_all add: br_ok_def desc_ok_def blob_bytes_def)
  then show ?thesis using assms True by (auto simp: br_ReadAt_def waitUntilAvailable_def br_ok_def Let_def read_len_def)
next
  case False
  let ?fs = "b_fragment (br_desc br)" and ?B = "blob_bytes files (br_desc br)"
  define i where "i = findFragment ?fs at"
  have ok: "frags_ok files 0 ?fs" "b_size (br_desc br) = length ?B" "\<not> (br_waitForWriter br \<and> b_openWriter (br_desc br))" using assms(1) by (auto simp: br_ok_def desc_ok_def)
  note ff = findFragment_spec[OF ok(1) False i_def[symmetric]]
  obtain br' e0 where op: "open_fragment files br i (?fs ! i) = (br', e0)" by fastforce
  note o = open_fragment_ok[OF assms(1) _ op]
  then obtain c where c: "files (f_fileName (?fs ! i)) = Some c" "br_fh br' = Some c" using ff by blast
  have fe: "at \<le> f_pos (?fs ! i) + f_size (?fs ! i)" "at < length ?B \<longrightarrow> at < f_pos (?fs ! i) + f_size (?fs ! i)" "f_pos (?fs ! i) + f_size (?fs ! i) \<le> length ?B"
    using frags_ok_end[OF ok(1), of i] ff assms(2) ok(2) by (auto simp: blob_bytes_def split: if_splits)
  define k where "k = min n (f_pos (?fs ! i) + f_size (?fs ! i) - at)"
  have k: "k + at \<le> f_pos (?fs ! i) + f_size (?fs ! i)" using fe(1) by (simp add: k_def)
  note sl = frag_slice[OF ok(1) _ _ k c(1)]
  have rd: "file_ReadAt c (min (int n) (int (f_size (?fs ! i)) - (int at - int (f_pos (?fs ! i))))) (int at - int (f_pos (?fs ! i)) + int (f_offset (?fs ! i))) =
      Some (take k (drop at ?B), None)"
  proof -
    have "nat (min (int n) (int (f_size (?fs ! i)) - (int at - int (f_pos (?fs ! i))))) = k" "0 \<le> int (f_size (?fs ! i)) - (int at - int (f_pos (?fs ! i)))"
        "nat (int at - int (f_pos (?fs ! i)) + int (f_offset (?fs ! i))) = at - f_pos (?fs ! i) + f_offset (?fs ! i)" using fe(1) ff by (auto simp: k_def)
    then show ?thesis using sl ff by (simp add: file_ReadAt_def Let_def blob_bytes_def)
  qed
  have "br_ReadAt files br n at = Some (br', take k (drop at ?B), if length ?B \<le> k + at then Some EOF else None)"
    using ff o c ok assms(2) op rd sl
    by (auto simp: br_ReadAt_def waitUntilAvailable_def Let_def blob_bytes_def simp flip: i_def)
  moreover have "k = read_len ?fs at n" using False by (simp add: read_len_def k_def i_def Let_def)
  moreover have "length (take k (drop at ?B)) = k" "k \<le> n" "at < length ?B \<longrightarrow> 0 < k" "k + at \<le> length ?B" using sl ff fe k assms(3) by (auto simp: blob_bytes_def k_def)
  ultimately show ?thesis using o ff ok(2) by (intro exI[of _ br'] exI[of _ "take k (drop at ?B)"] exI[of _ "if length ?B \<le> k + at then Some EOF else None"]) auto
qed

subsection \<open>The reader of a blob as a source of chunks\<close>

definition br_read :: "blob_files \<Rightarrow> BlobReader read" where
  "br_read files br n = (case br_Read files br n of Some r \<Rightarrow> r | None \<Rightarrow> (br, [], Some (errRead ''blocked'')))"

definition br_left :: "blob_files \<Rightarrow> BlobReader \<Rightarrow> 8 word list" where
  "br_left files br = drop (br_pos br) (blob_bytes files (br_desc br))"

lemma br_Read_bytes:
  assumes "br_ok files br" "0 < n"
  shows "\<exists>br' bs e. br_Read files br n = Some (br', bs, e) \<and> length bs \<le> n \<and> br_ok files br' \<and> br_desc br' = br_desc br \<and>
    bs = take (length bs) (br_left files br) \<and> length bs = read_len (b_fragment (br_desc br)) (br_pos br) n \<and> (br_pos br < b_size (br_desc br) \<longrightarrow> bs \<noteq> []) \<and>
    (if br_pos br + length bs = b_size (br_desc br) then e = Some EOF \<and> br_pos br' = br_pos br else e = None \<and> br_pos br' = br_pos br + length bs)"
proof -
  have p: "br_pos br \<le> b_size (br_desc br)" "b_size (br_desc br) = length (blob_bytes files (br_desc br))" using assms(1) by (simp_all add: br_ok_def desc_ok_def)
  from br_ReadAt_bytes[OF assms(1) p(1) assms(2)] obtain br' bs e where r: "br_ReadAt files br n (br_pos br) = Some (br', bs, e)" "br_ok files br'" "br_desc br' = br_desc br"
      "br_pos br' = br_pos br" "length bs \<le> n" "bs = take (length bs) (drop (br_pos br) (blob_bytes files (br_desc br)))"
      "length bs = read_len (b_fragment (br_desc br)) (br_pos br) n" "br_pos br < b_size (br_desc br) \<longrightarrow> bs \<noteq> []" "e = (if br_pos br + length bs = b_size (br_desc br) then Some EOF else None)" by (elim exE conjE) (rule that)
  have "length bs \<le> b_size (br_desc br) - br_pos br" using arg_cong[OF r(6), of length] p(2) by simp
  then have "br_ok files (br'\<lparr>br_pos := br_pos br + length bs\<rparr>)" using r(2-4) p(1) by (auto simp: br_ok_def split: option.splits)
  then show ?thesis using r by (auto simp: br_Read_def br_left_def)
qed

interpretation blob: reader "br_read files" "br_ok files" "br_left files" for files
proof
  fix r n r' bs e assume a: "br_read files r n = (r', bs, e)" "br_ok files r" "0 < n"
  have sz: "b_size (br_desc r) = length (blob_bytes files (br_desc r))" "br_pos r \<le> b_size (br_desc r)" using a(2) by (simp_all add: br_ok_def desc_ok_def)
  from br_Read_bytes[OF a(2,3)] obtain r1 bs1 e1 where 1: "br_Read files r n = Some (r1, bs1, e1)" "length bs1 \<le> n" "br_ok files r1" "br_desc r1 = br_desc r"
      "bs1 = take (length bs1) (br_left files r)" "length bs1 = read_len (b_fragment (br_desc r)) (br_pos r) n" "br_pos r < b_size (br_desc r) \<longrightarrow> bs1 \<noteq> []"
      "if br_pos r + length bs1 = b_size (br_desc r) then e1 = Some EOF \<and> br_pos r1 = br_pos r else e1 = None \<and> br_pos r1 = br_pos r + length bs1"
    by (elim exE conjE) (rule that)
  have eq: "r1 = r'" "bs1 = bs" "e1 = e" using a(1) 1(1) by (simp_all add: br_read_def)
  note b = 1(2-5,7,8)[unfolded eq]
  have n: "br_pos r + length bs \<noteq> b_size (br_desc r)" "br_pos r' = br_pos r + length bs" if "e = None" using b(6) that by (auto split: if_splits)
  have "br_left files r = bs @ br_left files r'" if "e = None"
  proof -
    have "br_left files r' = drop (length bs) (br_left files r)" using n[OF that] b(3) by (simp add: br_left_def add.commute)
    then show ?thesis using b(4) by (metis append_take_drop_id)
  qed
  moreover have "bs \<noteq> []" if "e = None" using n[OF that] b(5) sz(2) by auto
  moreover have "br_left files r = bs" if "e \<noteq> None"
  proof -
    have "br_pos r + length bs = b_size (br_desc r)" using b(6) that by (auto split: if_splits)
    then have "length (br_left files r) = length bs" using sz by (simp add: br_left_def)
    then show ?thesis using b(4) by simp
  qed
  ultimately show "length bs \<le> n \<and> (e = None \<longrightarrow> bs \<noteq> [] \<and> br_ok files r' \<and> br_left files r = bs @ br_left files r') \<and> (e \<noteq> None \<longrightarrow> br_left files r = bs)"
    using b(1,2) by simp
qed

subsection \<open>Properties\<close>

text \<open>
  C29: reading a blob. A read at a position of the blob returns the bytes that the blob has there, as many as fit and the fragment still holds, at least one
  before the end, and the end of the file is reported exactly when the last byte is returned or nothing is left. The handle cached for a fragment
  never leads to bytes of another one.
\<close>

theorem br_ReadAt_returns_bytes:
  assumes "br_ok files br" "at \<le> b_size (br_desc br)" "0 < n"
  shows "\<exists>br' bs e. br_ReadAt files br n at = Some (br', bs, e) \<and> br_ok files br' \<and> br_desc br' = br_desc br \<and> br_pos br' = br_pos br \<and>
    length bs \<le> n \<and> bs = take (length bs) (drop at (blob_bytes files (br_desc br))) \<and>
    (at < b_size (br_desc br) \<longrightarrow> bs \<noteq> []) \<and> e = (if at + length bs = b_size (br_desc br) then Some EOF else None)"
  using br_ReadAt_bytes[OF assms] by (elim exE conjE) (intro exI conjI)

text \<open>
  C39: a read that reaches the end of the blob does not advance the position of the reader, although it returned bytes: the same call returns them again.
\<close>

theorem read_at_end_repeats:
  assumes "br_ok files br" "br_pos br < b_size (br_desc br)" "0 < n" "br_Read files br n = Some (br', bs, Some EOF)"
  shows "bs \<noteq> [] \<and> br_pos br' = br_pos br \<and> (\<exists>br''. br_Read files br' n = Some (br'', bs, Some EOF))"
proof -
  from br_Read_bytes[OF assms(1,3)] assms(2,4) have 1: "br_ok files br'" "br_desc br' = br_desc br" "bs = take (length bs) (br_left files br)"
      "length bs = read_len (b_fragment (br_desc br)) (br_pos br) n" "bs \<noteq> []" "br_pos br + length bs = b_size (br_desc br)" "br_pos br' = br_pos br"
    by (auto split: if_splits)
  have "br_left files br' = br_left files br" using 1(2,7) by (simp add: br_left_def)
  then show ?thesis using br_Read_bytes[OF 1(1) assms(3)] 1 by (auto split: if_splits)
qed

definition tables_ok :: "crcTables \<Rightarrow> bool" where
  "tables_ok tables \<longleftrightarrow> (\<forall>p n c. tables (p, n) = Some c \<longrightarrow> c = make_crcData p (nat n))"

text \<open>
  C8: chunks are defined by the content. A stream delivers the chunks of the reference definition, which looks at the bytes and the parameters only, and
  ends; a stream of positions over another reader of the same bytes, which does not buffer chunks, delivers the ends of the same chunks. The chunks make up
  the bytes, none is empty and none is longer than the maximum. So neither the sizes of reads nor the buffering have an influence, and no call panics.
\<close>

theorem chunks_content_defined:
  assumes "reader Read good left" "reader Read' good' left'" "wf_param pm" "tables_ok tables" "tables_ok tables'"
    and "NewStream tables pm rd = Some (t, s)" "good rd" "left rd = D" "NewPosStream tables' pm rd' = Some (t', ps)" "good' rd'" "left' rd' = D" "length D < n"
  shows "read_chunks Read n s = Some (ref_chunks pm D 0) \<and> read_positions Read' n ps = Some (chunk_ends 0 (ref_chunks pm D 0)) \<and>
    concat (ref_chunks pm D 0) = D \<and> (\<forall>ch\<in>set (ref_chunks pm D 0). ch \<noteq> [] \<and> length ch \<le> MaxChunk pm)"
proof -
  have s: "chunk_inv good left D s \<and> s_param s = pm \<and> chunkEnd s = 0 \<and> bufferChunks s = True"
    using chunker_newStream_inv[where good = good and left = left, OF assms(6)[unfolded NewStream_def] _ assms(3,7,8)] assms(4) by (simp add: tables_ok_def)
  have p: "chunk_inv good' left' D ps \<and> s_param ps = pm \<and> chunkEnd ps = 0 \<and> bufferChunks ps = False"
    using chunker_newStream_inv[where good = good' and left = left', OF assms(9)[unfolded NewPosStream_def] _ assms(3,10,11)] assms(5) by (simp add: tables_ok_def)
  show ?thesis
    using reader.read_chunks_ok[OF assms(1), of D s n] reader.read_positions_ok[OF assms(2), of D ps n] s p ref_chunks_concat[OF assms(3), of 0 D] assms(12) by simp
qed

definition sample_param :: Param where
  "sample_param = \<lparr>WindowWidth = 1, MinChunk = 3, MaxChunk = 4, Primary = 11, Secondary = 12431040862937440309\<rparr>"

definition sample_files :: blob_files where
  "sample_files = [''f'' \<mapsto> [1, 0, 0, 0, 0, 0]]"

definition sample_desc :: blobDesc where
  "sample_desc = \<lparr>b_name = ''b'', b_fragment = [\<lparr>f_pos = 0, f_size = 4, f_offset = 0, f_fileName = ''f''\<rparr>, \<lparr>f_pos = 4, f_size = 2, f_offset = 4, f_fileName = ''f''\<rparr>],
     b_size = 6, b_finalized = True, b_hash = [], b_openWriter = False\<rparr>"

lemma sample_blob: "br_ok sample_files (blobReaderFromDesc sample_desc False)" "br_left sample_files (blobReaderFromDesc sample_desc False) = [1, 0, 0, 0, 0, 0]"
  by (simp_all add: br_ok_def blobReaderFromDesc_def desc_ok_def sample_desc_def sample_files_def blob_bytes_def frag_bytes_def br_left_def)

lemma sample_param_ok: "wf_param sample_param"
  by (simp add: wf_param_def sample_param_def)

lemma sample_stream: "\<exists>t s. chunker_newStream Map.empty sample_param rd bc = Some (t, s)"
  by (simp add: chunker_newStream_def Window_New_def getCRCData_def Let_def sample_param_def)

lemma br_ReadAt_returns_bytes_witness:
  "\<exists>br' bs e. br_ReadAt sample_files (blobReaderFromDesc sample_desc False) 5 3 = Some (br', bs, e) \<and> bs = take (length bs) [0, 0, 0] \<and> bs \<noteq> []"
  using br_ReadAt_returns_bytes[OF sample_blob(1), of 3 5] sample_blob(2) by (auto simp: blobReaderFromDesc_def br_left_def sample_desc_def)

lemma read_at_end_repeats_witness:
  "\<exists>br br' br'' bs. br_Read sample_files br 5 = Some (br', bs, Some EOF) \<and> br_Read sample_files br' 5 = Some (br'', bs, Some EOF) \<and> bs \<noteq> []"
proof -
  let ?br = "(blobReaderFromDesc sample_desc False)\<lparr>br_pos := 4\<rparr>"
  have ok: "br_ok sample_files ?br" "br_pos ?br < b_size (br_desc ?br)" using sample_blob(1) by (simp_all add: br_ok_def blobReaderFromDesc_def sample_desc_def)
  have f: "findFragment (b_fragment sample_desc) 4 = 1" by (simp add: findFragment_def sample_desc_def find_fragment_loop.simps Let_def)
  have "\<exists>br'. br_Read sample_files ?br 5 = Some (br', [0, 0], Some EOF)"
    by (simp add: br_Read_def br_ReadAt_def waitUntilAvailable_def blobReaderFromDesc_def f open_fragment_def br_closeInternal_def file_ReadAt_def Let_def)
       (simp add: sample_desc_def sample_files_def file_ReadAt_def)
  then show ?thesis using read_at_end_repeats[OF ok, of 5] by fastforce
qed

lemma chunks_content_defined_witness:
  "\<exists>t s t' ps. NewStream Map.empty sample_param (blobReaderFromDesc sample_desc False) = Some (t, s) \<and>
     NewPosStream Map.empty sample_param (blobReaderFromDesc sample_desc False) = Some (t', ps) \<and>
     map_option concat (read_chunks (br_read sample_files) 7 s) = Some [1, 0, 0, 0, 0, 0] \<and> read_positions (br_read sample_files) 7 ps \<noteq> None"
proof -
  let ?rd = "blobReaderFromDesc sample_desc False"
  obtain t s where s: "NewStream Map.empty sample_param ?rd = Some (t, s)" using sample_stream[of ?rd True] by (auto simp: NewStream_def)
  obtain t' ps where p: "NewPosStream Map.empty sample_param ?rd = Some (t', ps)" using sample_stream[of ?rd False] by (auto simp: NewPosStream_def)
  have e: "tables_ok Map.empty" by (simp add: tables_ok_def)
  show ?thesis
    using chunks_content_defined[OF blob.reader_axioms blob.reader_axioms sample_param_ok e e s sample_blob p sample_blob, of 7] s p by auto
qed

text \<open>
  C40: a chunk may be shorter than the minimum. When no primary break is found between the minimum and the maximum, the chunk ends at the last
  secondary break, also when that lies before the minimum, and more chunks follow.
\<close>

theorem secondary_break_below_minimum:
  assumes "reader Read good left" "wf_param pm" "tables_ok tables" "NewStream tables pm rd = Some (t, s)" "good rd" "left rd = D" "length D < n"
    and "MaxChunk pm \<le> length D" "\<forall>q. MinChunk pm \<le> q \<longrightarrow> q \<le> MaxChunk pm \<longrightarrow> \<not> prim_at pm D q"
    and "0 < p" "p < MinChunk pm" "sec_at pm D p" "\<forall>q. p < q \<longrightarrow> q \<le> MaxChunk pm \<longrightarrow> \<not> sec_at pm D q"
  shows "\<exists>chs. read_chunks Read n s = Some (take p D # chs) \<and> chs \<noteq> [] \<and> length (take p D) = p"
proof -
  have i: "chunk_inv good left D s \<and> s_param s = pm \<and> chunkEnd s = 0 \<and> bufferChunks s = True"
    using chunker_newStream_inv[where good = good and left = left, OF assms(4)[unfolded NewStream_def] _ assms(2,5,6)] assms(3) by (simp add: tables_ok_def)
  have pD: "p < length D" using assms(2,8,11) by (simp add: wf_param_def)
  have "p \<le> MaxChunk pm" using assms(2,11) by (simp add: wf_param_def)
  then have l: "last_sec pm D 0 (MaxChunk pm) = p" 
    using last_sec_cases[of pm D 0 "MaxChunk pm"] assms(10,12,13) by (cases "last_sec pm D 0 (MaxChunk pm)" p rule: linorder_cases) auto
  have "ref_end pm D 0 = last_sec pm D 0 (MaxChunk pm)" using ref_end_no_prim[of 0 pm D] assms(8,9) by simp
  then have e: "ref_end pm D 0 = p" using l by simp
  have "concat (ref_chunks pm D p) = drop p D" using ref_chunks_concat[OF assms(2), of p D] pD by simp
  then have "ref_chunks pm D p \<noteq> []" using pD by auto
  moreover have "ref_chunks pm D 0 = take p D # ref_chunks pm D p" using e assms(10) pD by (subst ref_chunks.simps) (simp add: Let_def)
  ultimately show ?thesis using reader.read_chunks_ok[OF assms(1), of D s n] i assms(7) pD by simp
qed

lemma secondary_break_below_minimum_witness:
  "\<exists>t s chs. NewStream Map.empty sample_param (blobReaderFromDesc sample_desc False) = Some (t, s) \<and>
     read_chunks (br_read sample_files) 7 s = Some ([1] # chs) \<and> 1 < MinChunk sample_param"
proof -
  let ?rd = "blobReaderFromDesc sample_desc False" and ?D = "[1, 0, 0, 0, 0, 0] :: 8 word list"
  obtain t s where s: "NewStream Map.empty sample_param ?rd = Some (t, s)" using sample_stream[of ?rd True] by (auto simp: NewStream_def)
  have e: "tables_ok Map.empty" by (simp add: tables_ok_def)
  have h: "hash_at sample_param ?D 1 = crc64 ECMA [1]" "hash_at sample_param ?D 2 = crc64 ECMA [0]" "hash_at sample_param ?D 3 = crc64 ECMA [0]" "hash_at sample_param ?D 4 = crc64 ECMA [0]"
    by (simp_all add: hash_at_def sample_param_def)
  have c: "crc64 ECMA [1] = 12431040862937440310" "crc64 ECMA [0] = 2282658103124508505" by code_simp+
  have m: "(12431040862937440310 :: 64 word) mod 12431040862937440309 = 1" "(2282658103124508505 :: 64 word) mod 12431040862937440309 \<noteq> 1"
      "(2282658103124508505 :: 64 word) mod 11 \<noteq> 1" by code_simp+
  have pm: "MinChunk sample_param = 3" "MaxChunk sample_param = 4" "Primary sample_param = 11" "Secondary sample_param = 12431040862937440309" by (simp_all add: sample_param_def)
  have q: "hash_at sample_param ?D q = crc64 ECMA [0]" if "1 < q" "q \<le> 4" for q
  proof -
    have "q = 2 \<or> q = 3 \<or> q = 4" using that by auto
    then show ?thesis using h by blast
  qed
  have "sec_at sample_param ?D 1" unfolding sec_at_def h c pm by (rule m(1))
  moreover have "\<forall>q. 1 < q \<longrightarrow> q \<le> MaxChunk sample_param \<longrightarrow> \<not> sec_at sample_param ?D q" unfolding sec_at_def pm using q m(2) c(2) by simp
  moreover have "\<forall>q. MinChunk sample_param \<le> q \<longrightarrow> q \<le> MaxChunk sample_param \<longrightarrow> \<not> prim_at sample_param ?D q" unfolding prim_at_def pm using q m(3) c(2) by simp
  ultimately show ?thesis
    using secondary_break_below_minimum[OF blob.reader_axioms sample_param_ok e s sample_blob, of 7 1] s by (auto simp: pm)
qed

end
