(* ===== verification/Blob_Map.thy ===== *)
theory Blob_Map
  imports Transactions
begin

text \<open>
  The map of chunks of the blob store (\<^verbatim>\<open>localblobstore/blobmap/blobmap.go\<close>): where a chunk is found, and which chunks a blob has. Both directions are
  tables in one store, which is the modelled engine here: the transaction manager over the memstore. \<^term>\<open>None\<close> is a panic. Offsets and sizes are
  the 64 bits of an \<^verbatim>\<open>int64\<close>. Keys are built in buffers of 64 bytes.
\<close>

subsection \<open>Numbers as bytes\<close>

text \<open>\<^verbatim>\<open>encoding/binary\<close>: variable-length numbers, where the sign is the lowest bit, and big-endian ones. The second result of a decoder is the
  number of bytes read, 0 if the input is too short, negative if it overflows.\<close>

function PutUvarint :: "64 word \<Rightarrow> bytes" where
  "PutUvarint x = (if 0x80 \<le> x then (ucast x OR 0x80) # PutUvarint (drop_bit 7 x) else [ucast x])"
  by pat_completeness auto
termination
proof (relation "measure unat")
  fix x :: "64 word" assume "0x80 \<le> x"
  then have "0x80 \<le> unat x" by (simp add: word_le_nat_alt)
  then show "(drop_bit 7 x, x) \<in> measure unat" by (simp add: drop_bit_eq_div unat_div)
qed simp

declare PutUvarint.simps [simp del]

fun uvarint_loop :: "nat \<Rightarrow> 64 word \<Rightarrow> bytes \<Rightarrow> 64 word \<times> int" where
  "uvarint_loop i x [] = (0, 0)"
| "uvarint_loop i x (b # bs) =
     (if b < 0x80
      then if 9 < i \<or> i = 9 \<and> 1 < b then (0, - int (i + 1)) else (x OR push_bit (7 * i) (ucast b), int (i + 1))
      else uvarint_loop (i + 1) (x OR push_bit (7 * i) (ucast (b AND 0x7f))) bs)"

definition Uvarint :: "bytes \<Rightarrow> 64 word \<times> int" where
  "Uvarint bs = uvarint_loop 0 0 bs"

definition PutVarint :: "64 word \<Rightarrow> bytes" where
  "PutVarint x = (let ux = push_bit 1 x in PutUvarint (if x <s 0 then NOT ux else ux))"

definition Varint :: "bytes \<Rightarrow> 64 word \<times> int" where
  "Varint bs = (let (ux, n) = Uvarint bs; x = drop_bit 1 ux in (if ux AND 1 \<noteq> 0 then NOT x else x, n))"

definition PutUint64 :: "64 word \<Rightarrow> bytes" where
  "PutUint64 x = map (\<lambda>i. ucast (drop_bit (8 * i) x)) [7, 6, 5, 4, 3, 2, 1, 0]"

definition BigEndian_Uint64 :: "bytes \<Rightarrow> 64 word" where
  "BigEndian_Uint64 bs = fold (\<lambda>b x. push_bit 8 x OR ucast b) (take 8 bs) 0"

subsection \<open>Tables\<close>

datatype bmerr = errBadBlobIDLen nat | errBadChunkHashLen nat | errNoSuchBlob bytes | errMalformedChunkEntry bytes | errNoSuchChunk bytes
  | errMalformedBlobEntry bytes | BmStore verror

definition chunkHashLen :: nat where "chunkHashLen = 16"
definition blobIDLen :: nat where "blobIDLen = 16"
definition offsetLen :: nat where "offsetLen = 8"
definition maxKeyLen :: nat where "maxKeyLen = 64"

definition chunkPrefix :: bytes where "chunkPrefix = [0]"
definition blobPrefix :: bytes where "blobPrefix = [1]"

definition offsetLimit :: bytes where "offsetLimit = replicate 9 0xff"
definition blobLimit :: bytes where "blobLimit = replicate 17 0xff"

record Location =
  l_BlobID :: bytes
  l_Offset :: "64 word"
  l_Size :: "64 word"

definition zero_Location :: Location where
  "zero_Location = \<lparr>l_BlobID = [], l_Offset = 0, l_Size = 0\<rparr>"

type_synonym BlobMap = manager

definition bm_Close :: "BlobMap \<Rightarrow> (BlobMap \<times> verror option) option" where
  "bm_Close bm = mg_Close bm"

text \<open>The manager embeds its batch store, and so reads from it.\<close>

definition mg_Scan :: "manager \<Rightarrow> bytes \<Rightarrow> bytes \<Rightarrow> strm option" where
  "mg_Scan mg start lim = memstore_Scan (bstore mg) start lim"

definition AssociateChunkWithLocation :: "BlobMap \<Rightarrow> bytes \<Rightarrow> Location \<Rightarrow> (BlobMap \<times> bmerr option) option" where
  "AssociateChunkWithLocation bm chunk loc =
     (if length (l_BlobID loc) \<noteq> blobIDLen then Some (bm, Some (errBadBlobIDLen (length (l_BlobID loc))))
      else if length chunk \<noteq> chunkHashLen then Some (bm, Some (errBadChunkHashLen (length chunk)))
      else do {
        (bm, err) \<leftarrow> mg_Put bm (blobPrefix @ l_BlobID loc @ PutUint64 (l_Offset loc)) (chunk @ PutVarint (l_Size loc));
        (case err of
           Some e \<Rightarrow> Some (bm, Some (BmStore e))
         | None \<Rightarrow> do {
             (bm, err) \<leftarrow> mg_Put bm (chunkPrefix @ chunk @ l_BlobID loc) (PutVarint (l_Offset loc) @ PutVarint (l_Size loc));
             Some (bm, map_option BmStore err)
           })
      })"

text \<open>One entry of the blob: its chunk's location first, then the entry itself.\<close>

definition delete_entry :: "bytes \<Rightarrow> BlobMap \<Rightarrow> bytes \<Rightarrow> bytes \<Rightarrow> (BlobMap \<times> verror option) option" where
  "delete_entry blob bm key val = do {
     (bm, err) \<leftarrow> (if chunkHashLen \<le> length val then mg_Delete bm (chunkPrefix @ take chunkHashLen val @ blob) else Some (bm, None));
     (if err = None then mg_Delete bm key else Some (bm, err))
   }"

partial_function (option) delete_loop :: "bytes \<Rightarrow> BlobMap \<Rightarrow> strm \<Rightarrow> bool \<Rightarrow> verror option \<Rightarrow> (BlobMap \<times> strm \<times> bool \<times> verror option) option" where
  "delete_loop blob bm s seen err = do {
     (s, ok) \<leftarrow> Stream_Advance s;
     (if ok \<and> err = None then do {
        key \<leftarrow> Stream_Key s;
        val \<leftarrow> Stream_Value s;
        (bm, err) \<leftarrow> delete_entry blob bm key val;
        delete_loop blob bm s True err
      }
      else Some (bm, s, seen, err))
   }"

definition bm_DeleteBlob :: "BlobMap \<Rightarrow> bytes \<Rightarrow> (BlobMap \<times> bmerr option) option" where
  "bm_DeleteBlob bm blob =
     (if length blob \<noteq> blobIDLen then Some (bm, Some (errBadBlobIDLen (length blob)))
      else do {
        s \<leftarrow> mg_Scan bm (blobPrefix @ blob) (blobPrefix @ blob @ offsetLimit);
        (bm, s, seen, err) \<leftarrow> delete_loop blob bm s False None;
        Some (bm,
          case err of
            Some e \<Rightarrow> Some (BmStore e)
          | None \<Rightarrow> (case Stream_Err s of Some e \<Rightarrow> Some (BmStore e) | None \<Rightarrow> if seen then None else Some (errNoSuchBlob blob)))
      })"

definition bm_LookupChunk :: "BlobMap \<Rightarrow> bytes \<Rightarrow> (Location \<times> bmerr option) option" where
  "bm_LookupChunk bm chunkHash = do {
     let start = take maxKeyLen (chunkPrefix @ chunkHash);
     let lim = take maxKeyLen (start @ blobLimit);
     s \<leftarrow> mg_Scan bm start lim;
     (s, ok) \<leftarrow> Stream_Advance s;
     (if ok then do {
        key \<leftarrow> Stream_Key s;
        val \<leftarrow> Stream_Value s;
        blobID \<leftarrow> slice_from key (length chunkPrefix + chunkHashLen);
        let (off, n) = Varint val;
        let (sz, n) = (if 0 < n then Varint (drop (nat n) val) else (0, n));
        Some (\<lparr>l_BlobID = blobID, l_Offset = off, l_Size = sz\<rparr>, if n \<le> 0 then Some (errMalformedChunkEntry chunkHash) else None)
      }
      else Some (zero_Location, Some (case Stream_Err s of Some e \<Rightarrow> BmStore e | None \<Rightarrow> errNoSuchChunk chunkHash)))
   }"

subsection \<open>The chunks of a blob\<close>

record ChunkStream =
  cs_stream :: strm
  cs_key :: bytes
  cs_value :: bytes
  cs_loc :: Location
  cs_err :: "bmerr option"
  cs_more :: bool

definition NewChunkStream :: "BlobMap \<Rightarrow> bytes \<Rightarrow> ChunkStream option" where
  "NewChunkStream bm blob = do {
     let start = take maxKeyLen (blobPrefix @ blob);
     let lim = take maxKeyLen (start @ offsetLimit);
     s \<leftarrow> mg_Scan bm start lim;
     Some \<lparr>cs_stream = s, cs_key = [], cs_value = [], cs_loc = zero_Location, cs_err = None, cs_more = True\<rparr>
   }"

definition ChunkStream_Advance :: "ChunkStream \<Rightarrow> (ChunkStream \<times> bool) option" where
  "ChunkStream_Advance cs =
     (if cs_more cs \<and> cs_err cs = None then do {
        (s, adv) \<leftarrow> Stream_Advance (cs_stream cs);
        (if \<not> adv then Some (cs\<lparr>cs_stream := s, cs_err := map_option BmStore (Stream_Err s), cs_more := False\<rparr>, False)
         else do {
           key \<leftarrow> Stream_Key s;
           val \<leftarrow> Stream_Value s;
           let cs = cs\<lparr>cs_stream := s, cs_key := key, cs_value := val\<rparr>;
           let ok = (chunkHashLen \<le> length val \<and> length key = length blobPrefix + blobIDLen + offsetLen);
           let (sz, n) = Varint (drop chunkHashLen val);
           let cs = (if ok then cs\<lparr>cs_loc := \<lparr>l_BlobID = take blobIDLen (drop (length blobPrefix) key),
                                             l_Offset = BigEndian_Uint64 (drop (length blobPrefix + blobIDLen) key), l_Size = sz\<rparr>\<rparr> else cs);
           let ok = (ok \<and> 0 < n);
           Some (if ok then cs else cs\<lparr>cs_err := Some (errMalformedBlobEntry key), cs_stream := Stream_Cancel s\<rparr>, ok)
         })
      }
      else Some (cs, False))"

text \<open>\<^verbatim>\<open>Value\<close> is for a chunk that \<^verbatim>\<open>Advance\<close> has staged, whose value is long enough; \<^term>\<open>None\<close> otherwise.\<close>

definition ChunkStream_Value :: "ChunkStream \<Rightarrow> bytes option" where
  "ChunkStream_Value cs = slice_to (cs_value cs) chunkHashLen"

definition ChunkStream_Location :: "ChunkStream \<Rightarrow> Location" where
  "ChunkStream_Location cs = cs_loc cs"

definition ChunkStream_Err :: "ChunkStream \<Rightarrow> bmerr option" where
  "ChunkStream_Err cs = cs_err cs"

definition ChunkStream_Cancel :: "ChunkStream \<Rightarrow> ChunkStream" where
  "ChunkStream_Cancel cs = cs\<lparr>cs_stream := Stream_Cancel (cs_stream cs)\<rparr>"

subsection \<open>The blobs\<close>

text \<open>The current key is kept in a buffer of 64 bytes, where the blob id is incremented; a longer key gets an array of its own.\<close>

record BlobStream =
  bs_bm :: BlobMap
  bs_key :: bytes
  bs_keyBuf :: bytes
  bs_err :: "bmerr option"
  bs_more :: bool

definition blobStreamKeyLimit :: bytes where
  "blobStreamKeyLimit = blobPrefix @ replicate (maxKeyLen - length blobPrefix) 0xff"

definition NewBlobStream :: "BlobMap \<Rightarrow> BlobStream" where
  "NewBlobStream bm = \<lparr>bs_bm = bm, bs_key = [], bs_keyBuf = replicate maxKeyLen 0, bs_err = None, bs_more = True\<rparr>"

text \<open>The loop from the last byte of the id: bytes \<open>0xff\<close> become 0 until one is incremented. \<open>i\<close> is one above the index of the code.\<close>

fun increment_id :: "nat \<Rightarrow> bytes \<Rightarrow> bytes \<times> bool" where
  "increment_id 0 buf = (buf, False)"
| "increment_id (Suc i) buf =
     (if i = length blobPrefix - 1 then (buf, False)
      else if buf ! i = 0xff then increment_id i (buf[i := 0])
      else (buf[i := buf ! i + 1], True))"

definition next_key :: "BlobStream \<Rightarrow> BlobStream \<times> bool" where
  "next_key bs =
     (if bs_key bs = [] then
        (let buf = blobPrefix @ drop (length blobPrefix) (bs_keyBuf bs) in (bs\<lparr>bs_keyBuf := buf, bs_key := take (length blobPrefix) buf\<rparr>, True))
      else
        (let (buf, ok) = increment_id (length blobPrefix + blobIDLen) (bs_keyBuf bs) in
         (bs\<lparr>bs_keyBuf := buf, bs_key := take (length blobPrefix + blobIDLen) buf\<rparr>, ok)))"

definition stage_key :: "BlobStream \<Rightarrow> bytes \<Rightarrow> BlobStream" where
  "stage_key bs key =
     bs\<lparr>bs_key := key, bs_keyBuf := if length key \<le> maxKeyLen then key @ drop (length key) (bs_keyBuf bs) else bs_keyBuf bs\<rparr>"

definition BlobStream_Advance :: "BlobStream \<Rightarrow> (BlobStream \<times> bool) option" where
  "BlobStream_Advance bs =
     (if bs_more bs then do {
        let (bs, ok) = next_key bs;
        (bs, ok) \<leftarrow> (if ok then do {
          s \<leftarrow> mg_Scan (bs_bm bs) (bs_key bs) blobStreamKeyLimit;
          (s, adv) \<leftarrow> Stream_Advance s;
          (if \<not> adv then Some (bs\<lparr>bs_err := map_option BmStore (Stream_Err s)\<rparr>, False)
           else do {
             key \<leftarrow> Stream_Key s;
             let bs = stage_key bs key;
             Some (if length key < length blobPrefix + blobIDLen then (bs\<lparr>bs_err := Some (errMalformedBlobEntry key)\<rparr>, False) else (bs, True))
           })
        } else Some (bs, False));
        Some (if ok then bs else bs\<lparr>bs_more := False\<rparr>, ok)
      }
      else Some (bs, False))"

definition BlobStream_Value :: "BlobStream \<Rightarrow> bytes option" where
  "BlobStream_Value bs =
     (if length blobPrefix + blobIDLen \<le> length (bs_key bs) then Some (take blobIDLen (drop (length blobPrefix) (bs_key bs))) else None)"

definition BlobStream_Err :: "BlobStream \<Rightarrow> bmerr option" where
  "BlobStream_Err bs = bs_err bs"

definition BlobStream_Cancel :: "BlobStream \<Rightarrow> BlobStream" where
  "BlobStream_Cancel bs = bs\<lparr>bs_more := False\<rparr>"

end
