(* ===== verification/Blob_Map_Props.thy ===== *)
theory Blob_Map_Props
  imports Blob_Map
begin

text \<open>
  The two tables of the blob map, abstracted to two finite maps: the operations of \<open>Blob_Map\<close> implement updates of them, lookups find the
  location in the blob with the smallest id, and the streams deliver chunks in the order of their offsets.
\<close>

subsection \<open>Encodings\<close>





lemma unat_ucast_byte: "unat (ucast (y :: 'a::len word) :: 'b::len word) = unat y mod 2 ^ LENGTH('b)"
proof -
  have "(ucast y :: 'b word) = word_of_nat (unat y)" by (simp add: of_nat_unat)
  then show ?thesis by (simp only: unat_of_nat)
qed








definition be :: "nat \<Rightarrow> 64 word \<Rightarrow> bytes" where
  "be n x = map (\<lambda>i. ucast (drop_bit (8 * i) x)) (rev [0..<n])"

lemma be_Suc: "be (Suc n) x = ucast (drop_bit (8 * n) x) # be n x"
  by (simp add: be_def)

lemma be_length [simp]: "length (be n x) = n"
  by (simp add: be_def)

lemma PutUint64_be: "PutUint64 x = be 8 x"
  by (simp add: PutUint64_def be_def upt_rec)



lemma digits_less: "r < m \<Longrightarrow> s < m \<Longrightarrow> p * m + r < q * m + s \<longleftrightarrow> p < q \<or> p = q \<and> r < (s :: nat)"
proof (cases p q rule: linorder_cases)
  case less
  assume "r < m"
  then have "p * m + r < Suc p * m" by simp
  also have "\<dots> \<le> q * m" using less by (intro mult_right_mono) auto
  finally show ?thesis using less by simp
next
  case greater
  assume "s < m"
  then have "q * m + s < Suc q * m" by simp
  also have "\<dots> \<le> p * m" using greater by (intro mult_right_mono) auto
  finally show ?thesis using greater by simp
qed simp

lemma be_less: "be n a < be n b \<longleftrightarrow> unat a mod 256 ^ n < unat b mod 256 ^ n"
proof (induction n)
  case 0
  then show ?case by (simp add: be_def)
next
  case (Suc n)
  let ?top = "\<lambda>x :: 64 word. unat x div 256 ^ n mod 256"
  have top: "unat (ucast (drop_bit (8 * n) x) :: 8 word) = ?top x" for x :: "64 word"
    by (simp only: unat_ucast_byte unat_drop_bit_eq) (simp add: drop_bit_eq_div power_mult)
  have split: "unat x mod 256 ^ Suc n = ?top x * 256 ^ n + unat x mod 256 ^ n" for x :: "64 word"
    using mod_mult2_eq[of "unat x" "256 ^ n" 256] by (simp add: mult.commute)
  have "be (Suc n) a < be (Suc n) b \<longleftrightarrow> ?top a < ?top b \<or> ?top a = ?top b \<and> unat a mod 256 ^ n < unat b mod 256 ^ n"
    using Suc by (simp add: be_Suc word_less_nat_alt word_unat_eq_iff[where 'a = 8] top)
  also have "\<dots> \<longleftrightarrow> unat a mod 256 ^ Suc n < unat b mod 256 ^ Suc n"
    unfolding split by (rule digits_less[symmetric]) simp_all
  finally show ?case .
qed

lemma PutUint64_less: "PutUint64 a < PutUint64 b \<longleftrightarrow> a < b"
  using be_less[of 8 a b] unsigned_less[of a, where 'a = nat] unsigned_less[of b, where 'a = nat] by (simp add: PutUint64_be word_less_nat_alt)

lemma PutUint64_inject [simp]: "PutUint64 a = PutUint64 b \<longleftrightarrow> a = b"
  using PutUint64_less[of a b] PutUint64_less[of b a] by force

lemma PutUint64_length [simp]: "length (PutUint64 x) = 8"
  by (simp add: PutUint64_be)

subsection \<open>The store\<close>







subsection \<open>Ranges\<close>






subsection \<open>Two finite maps\<close>


definition ckey :: "bytes \<Rightarrow> bytes \<Rightarrow> bytes" where
  "ckey h bid = chunkPrefix @ h @ bid"

definition bkey :: "bytes \<Rightarrow> 64 word \<Rightarrow> bytes" where
  "bkey bid off = blobPrefix @ bid @ PutUint64 off"






lemma ckey_bkey [simp]: "ckey h bid \<noteq> bkey bid' off" "bkey bid' off \<noteq> ckey h bid" "1 # k \<noteq> ckey h bid" "0 # k \<noteq> bkey bid off"
  by (simp_all add: ckey_def bkey_def chunkPrefix_def blobPrefix_def)








subsection \<open>Updates\<close>



subsection \<open>Scans\<close>






subsection \<open>Deletion\<close>





subsection \<open>Lookups and streams\<close>





subsection \<open>Runs\<close>








end
