(* ===== verification/VClock.thy ===== *)
theory VClock
  imports Initiator_State "HOL-Library.Word"
begin

unbundle bit_operations_syntax

text \<open>
  The virtual clock (\<^verbatim>\<open>vclock/*.go\<close>) and its exchange between peers (\<^verbatim>\<open>vsync/clock.go\<close>). Times are numbers of nanoseconds since the zero value of
  \<^verbatim>\<open>time.Time\<close>, durations are integers that wrap at 64 bits. A reading of the system clock, an answer of an NTP server and the outcome of a commit are
  arguments of the operations that use them.
\<close>

subsection \<open>Time\<close>

type_synonym go_time = int
type_synonym duration = int

definition dur :: "int \<Rightarrow> duration" where
  "dur x = (x + 2 ^ 63) mod 2 ^ 64 - 2 ^ 63"

text \<open>\<^verbatim>\<open>Time.Sub\<close> saturates; division truncates.\<close>

definition time_Sub :: "go_time \<Rightarrow> go_time \<Rightarrow> duration" where
  "time_Sub t u = max (- (2 ^ 63)) (min (2 ^ 63 - 1) (t - u))"

definition quot2 :: "int \<Rightarrow> int" where
  "quot2 x = sgn x * (\<bar>x\<bar> div 2)"

definition dabs :: "duration \<Rightarrow> duration" where
  "dabs d = (if d < 0 then dur (- d) else d)"

definition Second :: duration where
  "Second = 1000000000"

definition NtpSampleCount :: nat where
  "NtpSampleCount = 15"

definition NtpSkewDeltaThreshold :: duration where
  "NtpSkewDeltaThreshold = 2 * Second"

definition SystemClockDriftThreshold :: duration where
  "SystemClockDriftThreshold = Second"

definition PeerSyncSkewThreshold :: duration where
  "PeerSyncSkewThreshold = NtpSkewDeltaThreshold"

definition RebootSkewThreshold :: duration where
  "RebootSkewThreshold = 60 * Second"

definition MaxNumHops :: "16 word" where
  "MaxNumHops = 2"

definition errorThreshold :: duration where
  "errorThreshold = 2 * Second"

definition hasSysClockChanged :: "go_time \<Rightarrow> go_time \<Rightarrow> duration \<Rightarrow> duration \<Rightarrow> bool" where
  "hasSysClockChanged t1 t2 e1 e2 = (if t2 < t1 then True else errorThreshold < dabs (dur (dur (e2 - e1) - time_Sub t2 t1)))"

subsection \<open>The clock\<close>

record VClockData =
  SystemTimeAtBoot :: go_time
  Skew :: duration
  ElapsedTimeSinceBoot :: duration
  LastNtpTs :: go_time
  NumReboots :: "16 word"
  NumHops :: "16 word"

text \<open>A reading: the time and the time since boot, which may fail. The store holds the data under one key.\<close>

type_synonym reading = "go_time \<times> (derr + duration)"

datatype verr = NoUpdateErr string | VErr derr

definition vclockDataKey :: string where
  "vclockDataKey = ''q''"

definition ApplySkew :: "go_time \<Rightarrow> VClockData \<Rightarrow> go_time" where
  "ApplySkew sysTime vd = sysTime + Skew vd"

definition GetVClockData :: "VClockData option \<Rightarrow> verr + VClockData" where
  "GetVClockData st = (case st of None \<Rightarrow> Inl (VErr (ErrNoExist vclockDataKey)) | Some d \<Rightarrow> Inr d)"

definition VClock_Now :: "VClockData option \<Rightarrow> go_time \<Rightarrow> verr + go_time" where
  "VClock_Now st now = sbind (GetVClockData st) (\<lambda>vd. Inr (ApplySkew now vd))"

definition SysClockVals :: "reading \<Rightarrow> verr + go_time \<times> duration" where
  "SysClockVals r = (case r of (now, Inl e) \<Rightarrow> Inl (VErr e) | (now, Inr elapsed) \<Rightarrow> Inr (now, elapsed))"

text \<open>For a changed clock the error returned is that of the reading, which is nil, with the zero time.\<close>

definition SysClockValsIfNotChanged :: "go_time \<Rightarrow> duration \<Rightarrow> reading \<Rightarrow> verr + go_time \<times> duration" where
  "SysClockValsIfNotChanged origNow origElapsedTime r =
     (case r of
        (now, Inl e) \<Rightarrow> Inl (VErr e)
      | (now, Inr elapsed) \<Rightarrow> if hasSysClockChanged origNow now origElapsedTime elapsed then Inr (0, 0) else Inr (now, elapsed))"

definition InitVClockData :: "VClockData option \<Rightarrow> reading \<Rightarrow> derr option \<Rightarrow> VClockData option \<times> verr option" where
  "InitVClockData st r commitErr =
     (case st of
        Some d \<Rightarrow> (st, map_option VErr commitErr)
      | None \<Rightarrow>
          (case SysClockVals r of
             Inl e \<Rightarrow> (st, Some e)
           | Inr (now, elapsed) \<Rightarrow>
               (case commitErr of
                  Some e \<Rightarrow> (st, Some (VErr e))
                | None \<Rightarrow> (Some \<lparr>SystemTimeAtBoot = now + dur (- elapsed), Skew = 0, ElapsedTimeSinceBoot = elapsed, LastNtpTs = 0, NumReboots = 0, NumHops = 0\<rparr>, None))))"

definition UpdateVClockData :: "(VClockData \<Rightarrow> verr + VClockData) \<Rightarrow> VClockData option \<Rightarrow> derr option \<Rightarrow> VClockData option \<times> verr option" where
  "UpdateVClockData fn st commitErr =
     (case GetVClockData st of
        Inl e \<Rightarrow> (st, Some e)
      | Inr vd \<Rightarrow>
          (case fn vd of
             Inl e \<Rightarrow> (st, Some e)
           | Inr vd \<Rightarrow> (case commitErr of Some e \<Rightarrow> (st, Some (VErr e)) | None \<Rightarrow> (Some vd, None))))"

subsection \<open>Updates from a peer\<close>

record PeerSyncData =
  MySendTs :: go_time
  p_RecvTs :: go_time
  p_SendTs :: go_time
  MyRecvTs :: go_time
  p_LastNtpTs :: go_time
  p_NumReboots :: "16 word"
  p_NumHops :: "16 word"

definition peer_skew :: "PeerSyncData \<Rightarrow> duration" where
  "peer_skew psd = quot2 (dur (time_Sub (p_RecvTs psd) (MySendTs psd) + time_Sub (p_SendTs psd) (MyRecvTs psd)))"

definition MaybeUpdateFromPeerData :: "reading \<Rightarrow> VClockData \<Rightarrow> PeerSyncData \<Rightarrow> verr + VClockData" where
  "MaybeUpdateFromPeerData r vd psd =
     (let skew = peer_skew psd in
      if dabs skew < PeerSyncSkewThreshold then Inl (NoUpdateErr ''abs(skew) is less than PeerSyncSkewThreshold'')
      else if p_LastNtpTs psd = 0 then Inl (NoUpdateErr ''peer clock has not synced to NTP'')
      else if p_LastNtpTs psd < LastNtpTs vd then Inl (NoUpdateErr ''peer NTP is less recent than local'')
      else if 0 < p_NumReboots psd \<and> RebootSkewThreshold < dabs skew then Inl (NoUpdateErr ''peer vclock exceeds reboot tolerance'')
      else if MaxNumHops < p_NumHops psd + 1 then Inl (NoUpdateErr ''peer NTP is from too many hops away'')
      else sbind (SysClockVals r) (\<lambda>(now, elapsed).
        Inr \<lparr>SystemTimeAtBoot = now + dur (- elapsed), Skew = dur (Skew vd + skew), ElapsedTimeSinceBoot = elapsed,
             LastNtpTs = p_LastNtpTs psd, NumReboots = p_NumReboots psd, NumHops = p_NumHops psd + 1\<rparr>))"

record TimeResp =
  t_OrigTs :: go_time
  t_RecvTs :: go_time
  t_SendTs :: go_time
  t_LastNtpTs :: go_time
  t_NumReboots :: "16 word"
  t_NumHops :: "16 word"

text \<open>All errors of the responder are the same to the caller.\<close>

definition GetTime :: "VClockData option \<Rightarrow> reading \<Rightarrow> reading \<Rightarrow> go_time \<Rightarrow> derr + TimeResp" where
  "GetTime st r1 r2 sendTs =
     (case SysClockVals r1 of
        Inl _ \<Rightarrow> Inl ErrGetTimeFailed
      | Inr (recvNow, recvElapsed) \<Rightarrow>
          (case GetVClockData st of
             Inl _ \<Rightarrow> Inl ErrGetTimeFailed
           | Inr vd \<Rightarrow>
               (case SysClockValsIfNotChanged recvNow recvElapsed r2 of
                  Inl _ \<Rightarrow> Inl ErrGetTimeFailed
                | Inr (sendNow, _) \<Rightarrow>
                    Inr \<lparr>t_OrigTs = sendTs, t_RecvTs = ApplySkew recvNow vd, t_SendTs = ApplySkew sendNow vd, t_LastNtpTs = LastNtpTs vd,
                         t_NumReboots = NumReboots vd, t_NumHops = NumHops vd\<rparr>)))"

text \<open>Readings: before the call, after it, for the update and after the update. The call of the peer maps a name to its answer.\<close>

definition syncVClock :: "(string list \<Rightarrow> string) \<Rightarrow> string \<Rightarrow> connInfo \<Rightarrow> (go_time \<Rightarrow> string \<Rightarrow> derr + TimeResp) \<Rightarrow>
    reading \<times> reading \<times> reading \<times> reading \<Rightarrow> derr option \<Rightarrow> VClockData option \<Rightarrow> VClockData option \<times> verr option" where
  "syncVClock join sfx peer rpc = (\<lambda>(r1, r2, r3, r4) commitErr st.
     (case SysClockVals r1 of
        Inl e \<Rightarrow> (st, Some e)
      | Inr (origNow, origElapsed) \<Rightarrow>
          (case snd (runAtPeer join sfx peer (rpc origNow)) of
             Inl e \<Rightarrow> (st, Some (VErr e))
           | Inr resp \<Rightarrow>
               (case SysClockValsIfNotChanged origNow origElapsed r2 of
                  Inl e \<Rightarrow> (st, Some e)
                | Inr (recvNow, _) \<Rightarrow>
                    UpdateVClockData (\<lambda>vd.
                      let psd = \<lparr>MySendTs = ApplySkew origNow vd, p_RecvTs = t_RecvTs resp, p_SendTs = t_SendTs resp,
                                 MyRecvTs = ApplySkew recvNow vd, p_LastNtpTs = t_LastNtpTs resp, p_NumReboots = t_NumReboots resp, p_NumHops = t_NumHops resp\<rparr> in
                      sbind (MaybeUpdateFromPeerData r3 vd psd) (\<lambda>newData.
                        sbind (SysClockValsIfNotChanged origNow origElapsed r4) (\<lambda>_. Inr newData))) st commitErr))))"

subsection \<open>The daemon\<close>

definition local_update :: "reading \<Rightarrow> VClockData \<Rightarrow> verr + VClockData" where
  "local_update r vd = sbind (SysClockVals r) (\<lambda>(now, elapsed).
     let vd =
       (if elapsed < ElapsedTimeSinceBoot vd then vd\<lparr>NumReboots := NumReboots vd + 1\<rparr>
        else let delta = time_Sub (SystemTimeAtBoot vd + elapsed) now in
          if SystemClockDriftThreshold < dabs delta then vd\<lparr>Skew := dur (Skew vd + delta)\<rparr> else vd)
     in Inr (vd\<lparr>SystemTimeAtBoot := now + dur (- elapsed), ElapsedTimeSinceBoot := elapsed\<rparr>))"

definition DoLocalUpdate :: "reading \<Rightarrow> derr option \<Rightarrow> VClockData option \<Rightarrow> VClockData option \<times> verr option" where
  "DoLocalUpdate r commitErr st = UpdateVClockData (local_update r) st commitErr"

record NtpData =
  n_skew :: duration
  n_delay :: duration
  n_ntpTs :: go_time

definition ntp_update :: "NtpData \<Rightarrow> reading \<Rightarrow> VClockData \<Rightarrow> verr + VClockData" where
  "ntp_update ntpData r vd = sbind (SysClockVals r) (\<lambda>(now, elapsed).
     let delta = dur (n_skew ntpData - Skew vd);
         vd = (if NtpSkewDeltaThreshold < dabs delta then vd\<lparr>Skew := n_skew ntpData\<rparr> else vd)
     in Inr (vd\<lparr>SystemTimeAtBoot := now + dur (- elapsed), ElapsedTimeSinceBoot := elapsed, LastNtpTs := n_ntpTs ntpData, NumReboots := 0, NumHops := 0\<rparr>))"

text \<open>The best of the samples that succeed, the first one of equal delay; \<open>sample i\<close> is the outcome of the \<open>i\<close>-th call of \<open>sample\<close>. That the channel is closed does not end the loop.\<close>

fun best_sample :: "(verr + NtpData) list \<Rightarrow> NtpData option \<Rightarrow> NtpData option" where
  "best_sample [] best = best"
| "best_sample (Inl e # ss) best = best_sample ss best"
| "best_sample (Inr s # ss) best = best_sample ss (case best of None \<Rightarrow> Some s | Some b \<Rightarrow> if n_delay s < n_delay b then Some s else Some b)"

definition NtpSync :: "string \<Rightarrow> (nat \<Rightarrow> verr + NtpData) \<Rightarrow> nat \<Rightarrow> verr + NtpData" where
  "NtpSync ntpHost sample sampleCount =
     (if ntpHost = [] then Inl (VErr (ErrInternal ''no NTP server''))
      else case best_sample (map sample [0..<sampleCount]) None of
        None \<Rightarrow> Inl (VErr (ErrInternal ''failed to get sample from NTP server''))
      | Some s \<Rightarrow> Inr s)"

text \<open>The source of NTP data is an interface: it maps a number of samples to its answer, as \<^term>\<open>NtpSync ntpHost sample\<close> does.\<close>

definition DoNtpUpdate :: "(nat \<Rightarrow> verr + NtpData) \<Rightarrow> reading \<Rightarrow> derr option \<Rightarrow> VClockData option \<Rightarrow> VClockData option \<times> verr option" where
  "DoNtpUpdate ntpSource r commitErr st =
     (case ntpSource NtpSampleCount of Inl e \<Rightarrow> (st, Some e) | Inr ntpData \<Rightarrow> UpdateVClockData (ntp_update ntpData r) st commitErr)"

definition ntpMod :: nat where
  "ntpMod = 3600"

text \<open>One tick of the loop.\<close>

definition runLoop_tick :: "reading \<Rightarrow> derr option \<Rightarrow> (nat \<Rightarrow> verr + NtpData) \<Rightarrow> reading \<Rightarrow> derr option \<Rightarrow> nat \<times> VClockData option \<Rightarrow> nat \<times> VClockData option" where
  "runLoop_tick r ce ntpSource r' ce' = (\<lambda>(n, st).
     let st = fst (DoLocalUpdate r ce st); st = (if n = 0 then fst (DoNtpUpdate ntpSource r' ce' st) else st) in ((n + 1) mod ntpMod, st))"

subsection \<open>NTP packets\<close>

definition t1900 :: go_time where
  "t1900 = 693595 * 86400 * Second"

definition be4 :: "int \<Rightarrow> 8 word list" where
  "be4 x = map (\<lambda>i. word_of_int (drop_bit (8 * i) x)) [3, 2, 1, 0]"

definition createRequest :: "go_time \<Rightarrow> 8 word list" where
  "createRequest now =
     (let nsec = time_Sub now t1900;
          sec = sgn nsec * (\<bar>nsec\<bar> div 1000000000);
          rest = nsec - sec * 1000000000;
          frac = (let x = dur (rest * 2 ^ 32) in sgn x * (\<bar>x\<bar> div 1000000000))
      in 0x23 # replicate 39 0 @ be4 sec @ be4 frac)"

definition be4_val :: "8 word list \<Rightarrow> 64 word" where
  "be4_val bs = ucast (bs ! 3) OR push_bit 8 (ucast (bs ! 2)) OR push_bit 16 (ucast (bs ! 1)) OR push_bit 24 (ucast (bs ! 0))"

definition extractTime :: "8 word list \<Rightarrow> go_time" where
  "extractTime bs =
     (let sec = be4_val bs; frac = be4_val (drop 4 bs); nsec = sec * 1000000000 + drop_bit 32 (frac * 1000000000)
      in t1900 + sint nsec)"

text \<open>A sample: the request, the 48 bytes of the answer, the reading after it. Errors of the network are errors of the answer.\<close>

definition ntp_sample :: "reading \<Rightarrow> (8 word list \<Rightarrow> derr + 8 word list) \<Rightarrow> reading \<Rightarrow> verr + NtpData" where
  "ntp_sample r1 network r2 =
     sbind (SysClockVals r1) (\<lambda>(origNow, origElapsed).
       case network (createRequest origNow) of
         Inl e \<Rightarrow> Inl (VErr e)
       | Inr msg \<Rightarrow> sbind (SysClockValsIfNotChanged origNow origElapsed r2) (\<lambda>(clientReceiveTs, _).
           let clientTransmitTs = extractTime (take 8 (drop 24 msg)); serverReceiveTs = extractTime (take 8 (drop 32 msg)); serverTransmitTs = extractTime (drop 40 msg) in
           Inr \<lparr>n_skew = quot2 (dur (time_Sub serverReceiveTs clientTransmitTs + time_Sub serverTransmitTs clientReceiveTs)),
                n_delay = dur (time_Sub clientReceiveTs clientTransmitTs - time_Sub serverTransmitTs serverReceiveTs), n_ntpTs = serverTransmitTs\<rparr>))"

end
