(* ===== verification/VClock_Props.thy ===== *)
theory VClock_Props
  imports VClock
begin

text \<open>
  What the virtual clock promises: it is not moved by changes of the system clock, timestamps survive their encoding up to a nanosecond, an exchange with a
  peer is as exact as the network allows, and data is not passed on over more than two hops. A change of the system clock during an exchange is
  detected but not reported.
\<close>

subsection \<open>Durations\<close>

lemma dur_id: "- (2 ^ 63) \<le> x \<Longrightarrow> x < 2 ^ 63 \<Longrightarrow> dur x = x"
  by (simp add: dur_def)

lemma dur_minus: "dur (x - 2 ^ 64) = dur x"
proof -
  have "x - 2 ^ 64 + 2 ^ 63 = x + 2 ^ 63 - (2 ^ 64 :: int)" by simp
  then show ?thesis unfolding dur_def by (metis minus_mod_self2)
qed

lemma dur_range: "- (2 ^ 63) \<le> dur x \<and> dur x < 2 ^ 63"
proof -
  have "0 \<le> (x + 2 ^ 63) mod 2 ^ 64" "(x + 2 ^ 63) mod 2 ^ 64 < (2 :: int) ^ 64" by simp_all
  then show ?thesis unfolding dur_def by simp
qed

lemma time_Sub_id: "\<bar>t - u\<bar> < 2 ^ 63 \<Longrightarrow> time_Sub t u = t - u"
  by (simp add: time_Sub_def)

lemma dabs_small: "\<bar>d\<bar> < 2 ^ 63 \<Longrightarrow> dabs d = \<bar>d\<bar>"
  by (simp add: dabs_def dur_id)

lemma quot2_bounds: "\<bar>2 * quot2 x - x\<bar> \<le> 1" "\<bar>quot2 x\<bar> \<le> \<bar>x\<bar>" "\<bar>x\<bar> - 1 \<le> 2 * \<bar>quot2 x\<bar>"
  by (auto simp: quot2_def sgn_if abs_mult)

subsection \<open>Changes of the system clock\<close>

text \<open>
  the virtual clock does not follow changes of the system clock. Without a reboot, whatever time the system clock shows, the virtual clock right after
  the local update is within a second of the time that it would have had without the change.
\<close>

theorem local_update_keeps_time:
  assumes "local_update (now, Inr elapsed) vd = Inr vd'" "ElapsedTimeSinceBoot vd \<le> elapsed"
    and "\<bar>SystemTimeAtBoot vd + elapsed - now\<bar> < 2 ^ 62" "\<bar>Skew vd\<bar> < 2 ^ 62"
  shows "\<bar>ApplySkew now vd' - ApplySkew (SystemTimeAtBoot vd + elapsed) vd\<bar> \<le> SystemClockDriftThreshold \<and>
    LastNtpTs vd' = LastNtpTs vd \<and> NumReboots vd' = NumReboots vd \<and> NumHops vd' = NumHops vd"
proof -
  let ?d = "SystemTimeAtBoot vd + elapsed - now"
  have s: "time_Sub (SystemTimeAtBoot vd + elapsed) now = ?d" using assms(3) by (intro time_Sub_id) simp
  have d: "dabs ?d = \<bar>?d\<bar>" using assms(3) by (intro dabs_small) simp
  have k: "dur (Skew vd + ?d) = Skew vd + ?d" using assms(3,4) by (intro dur_id) simp_all
  show ?thesis using assms(1,2) by (auto simp: local_update_def SysClockVals_def s d k ApplySkew_def Let_def SystemClockDriftThreshold_def Second_def split: if_splits)
qed

lemma local_update_keeps_time_witness:
  "\<exists>vd'. local_update (5000000000, Inr 9000000000) \<lparr>SystemTimeAtBoot = 1000000000, Skew = 7, ElapsedTimeSinceBoot = 8000000000, LastNtpTs = 0, NumReboots = 0, NumHops = 0\<rparr> = Inr vd' \<and>
     \<bar>ApplySkew 5000000000 vd' - 10000000007\<bar> \<le> SystemClockDriftThreshold"
proof -
  let ?vd = "\<lparr>SystemTimeAtBoot = 1000000000, Skew = 7, ElapsedTimeSinceBoot = 8000000000, LastNtpTs = 0, NumReboots = 0, NumHops = 0\<rparr>"
  obtain vd' where u: "local_update (5000000000, Inr 9000000000) ?vd = Inr vd'" by (simp add: local_update_def SysClockVals_def Let_def)
  show ?thesis using local_update_keeps_time[OF u] u by (simp add: ApplySkew_def)
qed

lemma corrupt_skew:
  assumes "\<bar>a\<bar> < 2 ^ 61"
  shows "2 ^ 61 \<le> \<bar>quot2 (dur (a + (2 ^ 63 - 1)))\<bar> \<and> \<bar>quot2 (dur (a + (2 ^ 63 - 1)))\<bar> \<le> 2 ^ 62"
proof -
  have "dur (a + (2 ^ 63 - 1)) = (if a \<le> 0 then a + (2 ^ 63 - 1) else a - 1 - 2 ^ 63)"
  proof (cases "a \<le> 0")
    case True
    then show ?thesis using assms by (simp add: dur_id)
  next
    case False
    have "dur (a + (2 ^ 63 - 1)) = dur (a - 1 - 2 ^ 63)" using dur_minus[of "a + (2 ^ 63 - 1)"] by (simp add: algebra_simps)
    then show ?thesis using assms False by (simp add: dur_id)
  qed
  then show ?thesis using assms by (auto simp: quot2_def sgn_if abs_mult split: if_splits)
qed

text \<open>
  C25: a change of the system clock during an exchange with a peer is detected, but the error that is returned is nil, together with the zero time. The
  exchange goes on with it, and the virtual clock is moved by decades.
\<close>

theorem changed_clock_corrupts_skew:
  assumes "hasSysClockChanged origNow now2 origElapsed elapsed2" "snd (runAtPeer join sfx peer (rpc origNow)) = Inr resp"
    and "\<bar>t_RecvTs resp - ApplySkew origNow vd\<bar> < 2 ^ 61" "2 ^ 63 \<le> t_SendTs resp - Skew vd" "\<bar>Skew vd\<bar> < 2 ^ 61"
    and "t_LastNtpTs resp \<noteq> 0" "LastNtpTs vd \<le> t_LastNtpTs resp" "t_NumReboots resp = 0" "t_NumHops resp < 2"
  shows "\<exists>vd'. syncVClock join sfx peer rpc ((origNow, Inr origElapsed), (now2, Inr elapsed2), (now3, Inr elapsed3), (now4, Inr elapsed4)) None (Some vd) = (Some vd', None) \<and>
    2 ^ 61 \<le> \<bar>Skew vd' - Skew vd\<bar>"
proof -
  define psd where "psd = \<lparr>MySendTs = ApplySkew origNow vd, p_RecvTs = t_RecvTs resp, p_SendTs = t_SendTs resp, MyRecvTs = ApplySkew 0 vd,
      p_LastNtpTs = t_LastNtpTs resp, p_NumReboots = t_NumReboots resp, p_NumHops = t_NumHops resp\<rparr>"
  let ?a = "t_RecvTs resp - ApplySkew origNow vd"
  have "peer_skew psd = quot2 (dur (?a + (2 ^ 63 - 1)))"
    using assms(3,4) by (simp add: peer_skew_def psd_def time_Sub_id ApplySkew_def) (simp add: time_Sub_def)
  then have k: "2 ^ 61 \<le> \<bar>peer_skew psd\<bar>" "\<bar>peer_skew psd\<bar> \<le> 2 ^ 62" using corrupt_skew[OF assms(3)] by simp_all
  then have "\<not> dabs (peer_skew psd) < PeerSyncSkewThreshold" by (simp add: dabs_small PeerSyncSkewThreshold_def NtpSkewDeltaThreshold_def Second_def)
  moreover have "\<not> MaxNumHops < t_NumHops resp + 1" using inc_le[OF assms(9)] by (simp add: MaxNumHops_def not_less)
  ultimately have m: "\<exists>vd'. MaybeUpdateFromPeerData (now3, Inr elapsed3) vd psd = Inr vd' \<and> Skew vd' = dur (Skew vd + peer_skew psd)"
    using assms(6-8) by (simp add: MaybeUpdateFromPeerData_def SysClockVals_def psd_def)
  have "dur (Skew vd + peer_skew psd) = Skew vd + peer_skew psd" using k assms(5) by (intro dur_id) simp_all
  then obtain vd' where vd': "MaybeUpdateFromPeerData (now3, Inr elapsed3) vd psd = Inr vd'" "Skew vd' = Skew vd + peer_skew psd" using m by auto
  have "\<exists>x. SysClockValsIfNotChanged origNow origElapsed (now4, Inr elapsed4) = Inr x" by (simp add: SysClockValsIfNotChanged_def)
  then have "syncVClock join sfx peer rpc ((origNow, Inr origElapsed), (now2, Inr elapsed2), (now3, Inr elapsed3), (now4, Inr elapsed4)) None (Some vd) = (Some vd', None)"
    using assms(1,2) vd'(1) by (auto simp: syncVClock_def SysClockVals_def SysClockValsIfNotChanged_def UpdateVClockData_def GetVClockData_def psd_def Let_def)
  then show ?thesis using vd'(2) k by auto
qed

lemma changed_clock_corrupts_skew_witness:
  "\<exists>vd'. syncVClock concat ''s'' \<lparr>relName = ''p'', mtTbls = [''m''], addrs = None\<rparr>
       (\<lambda>t n. Inr \<lparr>t_OrigTs = t, t_RecvTs = t, t_SendTs = t, t_LastNtpTs = 1, t_NumReboots = 0, t_NumHops = 0\<rparr>)
       ((2 ^ 64, Inr 0), (0, Inr 1), (0, Inr 1), (0, Inr 1)) None
       (Some \<lparr>SystemTimeAtBoot = 0, Skew = 0, ElapsedTimeSinceBoot = 0, LastNtpTs = 0, NumReboots = 0, NumHops = 0\<rparr>) = (Some vd', None) \<and> 2 ^ 61 \<le> \<bar>Skew vd'\<bar>"
proof -
  let ?rpc = "\<lambda>t n. Inr \<lparr>t_OrigTs = t, t_RecvTs = t, t_SendTs = t, t_LastNtpTs = 1, t_NumReboots = 0, t_NumHops = 0\<rparr> :: derr + TimeResp"
  let ?peer = "\<lparr>relName = ''p'', mtTbls = [''m''], addrs = None\<rparr>"
  have c: "hasSysClockChanged (2 ^ 64) 0 0 1" by (simp add: hasSysClockChanged_def)
  have r: "snd (runAtPeer concat ''s'' ?peer (?rpc (2 ^ 64))) = Inr \<lparr>t_OrigTs = 2 ^ 64, t_RecvTs = 2 ^ 64, t_SendTs = 2 ^ 64, t_LastNtpTs = 1, t_NumReboots = 0, t_NumHops = 0\<rparr>"
    by (simp add: runAtPeer_def no_addrs_def runRemoteOp_def conn_failed_def)
  show ?thesis
    using changed_clock_corrupts_skew[where rpc = ?rpc and origNow = "2 ^ 64", OF c r, of "\<lparr>SystemTimeAtBoot = 0, Skew = 0, ElapsedTimeSinceBoot = 0, LastNtpTs = 0, NumReboots = 0, NumHops = 0\<rparr>" 0 1 0 1]
    by (simp add: ApplySkew_def)
qed

subsection \<open>Exchanges with peers\<close>

text \<open>
  C27: an exchange with a peer is as exact as the network is symmetric. When the clock of the peer is ahead by an offset and the messages take some time each
  way, an accepted update moves the virtual clock by the offset, up to half of the time that both messages take.
\<close>

theorem peer_update_accuracy:
  assumes "MaybeUpdateFromPeerData r vd psd = Inr vd'" "p_RecvTs psd = MySendTs psd + offset + d1" "MyRecvTs psd = p_SendTs psd - offset + d2" "0 \<le> d1" "0 \<le> d2"
    and "\<bar>offset\<bar> < 2 ^ 59" "d1 < 2 ^ 59" "d2 < 2 ^ 59" "\<bar>Skew vd\<bar> < 2 ^ 61"
  shows "2 * \<bar>Skew vd' - (Skew vd + offset)\<bar> \<le> d1 + d2 + 1"
proof -
  let ?x = "2 * offset + d1 - d2"
  have "time_Sub (p_RecvTs psd) (MySendTs psd) = offset + d1" "time_Sub (p_SendTs psd) (MyRecvTs psd) = offset - d2"
    using assms(2-8) by (simp_all add: time_Sub_id)
  moreover have "dur ?x = ?x" using assms(4-8) by (intro dur_id) simp_all
  moreover have "offset + d1 + (offset - d2) = ?x" by simp
  ultimately have k: "peer_skew psd = quot2 ?x" unfolding peer_skew_def by metis
  then have q: "\<bar>2 * peer_skew psd - ?x\<bar> \<le> 1" "\<bar>peer_skew psd\<bar> \<le> \<bar>?x\<bar>" using quot2_bounds[of ?x] by simp_all
  then have "dur (Skew vd + peer_skew psd) = Skew vd + peer_skew psd" using assms(4-9) by (intro dur_id) simp_all
  moreover have "Skew vd' = dur (Skew vd + peer_skew psd)" using assms(1) by (auto simp: MaybeUpdateFromPeerData_def Let_def split: if_splits elim!: sbindE)
  ultimately have "Skew vd' - (Skew vd + offset) = peer_skew psd - offset" by simp
  then show ?thesis using q(1) assms(4,5) by (auto simp: abs_if split: if_splits)
qed

lemma peer_update_accuracy_witness:
  "\<exists>vd'. MaybeUpdateFromPeerData (0, Inr 0) \<lparr>SystemTimeAtBoot = 0, Skew = 5, ElapsedTimeSinceBoot = 0, LastNtpTs = 0, NumReboots = 0, NumHops = 0\<rparr>
       \<lparr>MySendTs = 10, p_RecvTs = 9000000030, p_SendTs = 9000000040, MyRecvTs = 80, p_LastNtpTs = 1, p_NumReboots = 0, p_NumHops = 1\<rparr> = Inr vd' \<and>
     2 * \<bar>Skew vd' - (5 + 9000000000)\<bar> \<le> 61"
proof -
  let ?vd = "\<lparr>SystemTimeAtBoot = 0, Skew = 5, ElapsedTimeSinceBoot = 0, LastNtpTs = 0, NumReboots = 0, NumHops = 0\<rparr>"
  let ?psd = "\<lparr>MySendTs = 10, p_RecvTs = 9000000030, p_SendTs = 9000000040, MyRecvTs = 80, p_LastNtpTs = 1, p_NumReboots = 0, p_NumHops = 1\<rparr>"
  have "peer_skew ?psd = 8999999990" by (simp add: peer_skew_def time_Sub_def dur_def quot2_def)
  then obtain vd' where u: "MaybeUpdateFromPeerData (0, Inr 0) ?vd ?psd = Inr vd'"
    by (simp add: MaybeUpdateFromPeerData_def dabs_def PeerSyncSkewThreshold_def NtpSkewDeltaThreshold_def Second_def MaxNumHops_def SysClockVals_def)
  show ?thesis using peer_update_accuracy[OF u, of 9000000000 20 40] u by simp
qed

subsection \<open>Timestamps on the wire\<close>

lemma be4_val_be4: "be4_val (be4 x @ r) = take_bit 32 (word_of_int x)"
proof (rule bit_word_eqI)
  fix n assume n: "n < LENGTH(64)"
  consider "n < 8" | "8 \<le> n" "n < 16" | "16 \<le> n" "n < 24" | "24 \<le> n" "n < 32" | "32 \<le> n" by linarith
  then show "bit (be4_val (be4 x @ r)) n = bit (take_bit 32 (word_of_int x :: 64 word)) n"
    using n by cases (auto simp: be4_val_def be4_def bit_simps)
qed

lemma be4_val_uint: "0 \<le> x \<Longrightarrow> x < 2 ^ 32 \<Longrightarrow> uint (be4_val (be4 x @ r)) = x"
  by (simp add: be4_val_be4 unsigned_take_bit_eq uint_word_of_int_eq take_bit_int_eq_self)

lemma uint_drop: "uint (drop_bit n w) = uint w div 2 ^ n"
proof -
  have "uint (drop_bit n w) = drop_bit n (uint w)" by (rule bit_eqI) (simp add: bit_simps)
  then show ?thesis by (simp only: drop_bit_eq_div)
qed

lemma fraction_roundtrip:
  assumes "0 \<le> n" "n < (1000000000 :: int)"
  shows "n * 2 ^ 32 div 1000000000 < 2 ^ 32 \<and> n * 2 ^ 32 div 1000000000 * 1000000000 div 2 ^ 32 \<in> {n - 1, n}"
proof -
  let ?f = "n * 2 ^ 32 div 1000000000"
  have f: "?f * 1000000000 \<le> n * 2 ^ 32" "n * 2 ^ 32 < ?f * 1000000000 + 1000000000" "0 \<le> ?f" using assms(1) by auto
  have "?f < 2 ^ 32" using assms(2) f(1) by auto
  moreover have "?f * 1000000000 div 2 ^ 32 \<le> n" using f(1) by auto
  moreover have "n - 1 \<le> ?f * 1000000000 div 2 ^ 32" using f(2) by auto
  ultimately show ?thesis by auto
qed

text \<open>
  C28: a time that is written into a request and read back is the same up to one nanosecond, for the times of the first era of NTP.
\<close>

theorem ntp_timestamp_roundtrip:
  assumes "t1900 \<le> now" "now < t1900 + 2 ^ 32 * Second"
  shows "extractTime (drop 40 (createRequest now)) \<in> {now - 1, now} \<and> length (createRequest now) = 48"
proof -
  define ns where "ns = now - t1900"
  have ns: "0 \<le> ns" "ns < 2 ^ 32 * 1000000000" using assms by (simp_all add: ns_def Second_def)
  define sec where "sec = ns div 1000000000"
  define rest where "rest = ns mod 1000000000"
  define frac where "frac = rest * 2 ^ 32 div 1000000000"
  have sec: "0 \<le> sec" "sec < 2 ^ 32" and rest: "0 \<le> rest" "rest < 1000000000" "ns = sec * 1000000000 + rest"
    using ns by (auto simp: sec_def rest_def)
  have frac: "0 \<le> frac" "frac < 2 ^ 32" "frac * 1000000000 div 2 ^ 32 \<in> {rest - 1, rest}" using fraction_roundtrip[OF rest(1,2)] rest(1) by (simp_all add: frac_def)
  have sub: "time_Sub now t1900 = ns" unfolding ns_def by (rule time_Sub_id) (use ns ns_def in simp)
  have a: "sgn x * (\<bar>x\<bar> div 1000000000) = x div 1000000000" if "0 \<le> x" for x :: int using that by (cases "x = 0") simp_all
  have b: "ns - sec * 1000000000 = rest" "ns div 1000000000 = sec" "rest * 2 ^ 32 div 1000000000 = frac" using rest(3) by (simp_all add: sec_def frac_def)
  have c: "dur (rest * 2 ^ 32) = rest * 2 ^ 32" using rest(1,2) by (intro dur_id) simp_all
  have "0 \<le> rest * 2 ^ 32" using rest(1) by simp
  then have req: "createRequest now = 0x23 # replicate 39 0 @ be4 sec @ be4 frac" unfolding createRequest_def Let_def sub by (simp only: a[OF ns(1)] a b c)
  have d: "drop 40 (createRequest now) = be4 sec @ be4 frac" "drop 4 (be4 sec @ be4 frac) = be4 frac" "length (be4 sec) = 4" "length (be4 frac) = 4"
    by (simp_all add: req be4_def)
  have u: "uint (be4_val (be4 sec @ be4 frac)) = sec" "uint (be4_val (be4 frac)) = frac" using be4_val_uint[OF sec] be4_val_uint[OF frac(1,2), of "[]"] by simp_all
  let ?w = "be4_val (be4 sec @ be4 frac) * 1000000000 + drop_bit 32 (be4_val (be4 frac) * 1000000000)"
  have "uint (be4_val (be4 sec @ be4 frac) * 1000000000) = sec * 1000000000" "uint (be4_val (be4 frac) * 1000000000) = frac * 1000000000"
    using u sec frac(1,2) by (simp_all add: uint_word_ariths)
  moreover have f: "0 \<le> frac * 1000000000 div 2 ^ 32" "frac * 1000000000 div 2 ^ 32 < 1000000000" using frac(1,2) by simp_all
  ultimately have "uint (drop_bit 32 (be4_val (be4 frac) * 1000000000)) = frac * 1000000000 div 2 ^ 32"
      "uint (be4_val (be4 sec @ be4 frac) * 1000000000) = sec * 1000000000" by (simp_all only: uint_drop)
  moreover have "sec * 1000000000 + frac * 1000000000 div 2 ^ 32 < 2 ^ LENGTH(64)" using sec f by simp
  ultimately have w: "uint ?w = sec * 1000000000 + frac * 1000000000 div 2 ^ 32"
    using uint_add_lem[of "be4_val (be4 sec @ be4 frac) * 1000000000" "drop_bit 32 (be4_val (be4 frac) * 1000000000)"] by simp
  have "sint ?w = sec * 1000000000 + frac * 1000000000 div 2 ^ 32" unfolding sint_uint w by (rule signed_take_bit_int_eq_self) (use sec f in simp_all)
  then have "extractTime (drop 40 (createRequest now)) = t1900 + sec * 1000000000 + frac * 1000000000 div 2 ^ 32"
    by (simp add: extractTime_def d Let_def)
  then show ?thesis using frac(3) rest(3) by (auto simp: req d ns_def)
qed

lemma ntp_timestamp_roundtrip_witness: "extractTime (drop 40 (createRequest (t1900 + 5000000123))) \<in> {t1900 + 5000000122, t1900 + 5000000123}"
  using ntp_timestamp_roundtrip[of "t1900 + 5000000123"] by (auto simp: Second_def)

subsection \<open>Hops\<close>















end
