(* ===== verification/Spec2Isabelle.thy ===== *)
theory Spec2Isabelle
  imports Tx_Steps Watch_Log_Props Sync_Watcher_Props Exchange Initiator_Conflicts Cr_Closure_Props Dag_Props Responder_Complete Responder_Auth Cr_Merge Cr_Policy Blob_Reader Blob_Map_Props VClock_Props
begin

text \<open>
  A verification of the core of Syncbase, the synchronised storage service of the Vanadium reference
  implementation (\<^verbatim>\<open>src/services/syncbase\<close>): the storage engine with its optimistic transactions, the
  peer-to-peer synchronisation of databases on top of it, the chunking of blobs and the virtual clock.

  \<^bold>\<open>Parts of the program and how they meet.\<close> A client reads and writes rows inside transactions
  (\<^verbatim>\<open>store/transactions\<close>) over a batch store (\<^verbatim>\<open>store/memstore\<close>), which keeps its pairs in a bit trie
  (\<^verbatim>\<open>store/ptrie\<close>). The watchable store (\<^verbatim>\<open>store/watchable\<close>) wraps such transactions: it keeps a version per row and
  appends what a transaction did to a log that clients follow. The watcher of the sync module (\<^verbatim>\<open>vsync/watcher.go\<close>)
  is such a client: it records every local update as a node of a version history per object
  (\<^verbatim>\<open>dag.go\<close>) and as a log record with a generation and a position (\<^verbatim>\<open>sync_state.go\<close>). In an exchange the
  initiator (\<^verbatim>\<open>initiator.go\<close>) sends the generation vectors it has; the responder (\<^verbatim>\<open>responder.go\<close>) authorizes it, computes the
  records it lacks and sends them with new vectors; the initiator replays the records into its history, resolves concurrent
  updates by policy (\<^verbatim>\<open>cr_*.go\<close>), writes the outcome to the database and merges the vectors. Blobs are cut into chunks where a
  rolling checksum says so (\<^verbatim>\<open>localblobstore\<close>), so that devices find the chunks they share. The virtual clock
  (\<^verbatim>\<open>vclock\<close>, \<^verbatim>\<open>vsync/clock.go\<close>) gives the times that resolution by last write compares; it follows an NTP server or a peer.

  \<^bold>\<open>Theories, bottom up.\<close>

  \<^item> \<open>Prelude\<close>: bytes, Go panics as \<^term>\<open>None\<close>, lists, fuel for drained streams. \<open>Interfaces\<close>: the locales
    \<open>kv_map\<close> (lookup after update) and \<open>kv_stream\<close> (a stream that delivers a list), with the lemmas that every
    client shares. They are interpreted on the ptrie, its stream, the memstore's stream and the merged stream.
  \<^item> \<open>Bits\<close> (\<^verbatim>\<open>ptrie/util.go\<close>), \<open>Patricia\<close> (an abstract path-compressed trie over bit strings), \<open>Ptrie\<close>
    (\<^verbatim>\<open>ptrie.go\<close>: byte-aligned edges, refinement of \<open>Patricia\<close>), \<open>Ptrie_Stream\<close> (\<^verbatim>\<open>stream.go\<close>: the walk with an explicit
    stack delivers the sorted pairs of a range). Keys are shorter than \<open>2 ^ 29\<close> bytes, so that bit lengths fit
    Go's \<^verbatim>\<open>uint32\<close>.
  \<^item> \<open>Memstore\<close> (\<^verbatim>\<open>memstore/*.go\<close>), \<open>Merged_Stream\<close> (\<^verbatim>\<open>merged_stream.go\<close>: writes of a transaction over the stream of
    its snapshot equal a reference merge), \<open>Conflict_Table\<close> (\<^verbatim>\<open>trie.go\<close>, locale \<open>conflict_table\<close>).
  \<^item> \<open>Transactions\<close> (\<^verbatim>\<open>manager.go\<close>, \<^verbatim>\<open>transaction.go\<close>), \<open>Tx_Invariant\<close>, \<open>Tx_Steps\<close>: the operations under the
    mutex of the manager as an inductive step relation; the invariant, that no step panics, serializability of
    commits, and that the collector changes nothing a client sees. Fewer than \<open>2 ^ 64\<close> steps keep the commit numbers below
    the wrap-around.
  \<^item> \<open>Key_Util\<close> (\<^verbatim>\<open>common/key_util.go\<close>), \<open>Access_Util\<close> (\<^verbatim>\<open>common/access_util.go\<close>), \<open>Sync_Types\<close> (stored records;
    the store of the sync module is a map of typed values, since the encoding of values is in another repository).
  \<^item> \<open>Dag\<close> (\<^verbatim>\<open>dag.go\<close>), \<open>Dag_Walk\<close> (locale \<open>ancestor_walk\<close>: the breadth-first traversal of ancestors returns and
    visits exactly the ancestors, for every callback that leaves the rest alone), \<open>Dag_Props\<close>.
  \<^item> \<open>Sync_State\<close> (\<^verbatim>\<open>sync_state.go\<close> and the vectors of \<^verbatim>\<open>server/interfaces/sync_types.go\<close>): reservations of
    generations and positions never overlap in any run; the order of vectors.
  \<^item> \<open>Watchable\<close> (\<^verbatim>\<open>store/watchable/transaction.go\<close>, \<^verbatim>\<open>util.go\<close>, \<^verbatim>\<open>stream.go\<close>), \<open>Watchable_Props\<close>: versions of rows
    and what a transaction notes for the log. \<open>Watch_Log\<close> (\<^verbatim>\<open>watcher.go\<close>, \<^verbatim>\<open>store.go\<close>, \<^verbatim>\<open>Commit\<close>), \<open>Watch_Log_Props\<close>: the
    log between its start and its end, the search for its end (at most \<open>2 ^ 63\<close> entries, so that doubling does not
    wrap around), the start that stays behind the clients, and that clients receive the committed batches.
  \<^item> \<open>Syncgroups\<close> (\<^verbatim>\<open>syncgroup.go\<close>: entries, versions, deletion, the view of members), \<open>Syncgroups_Props\<close>.
    \<open>Sync_Watcher\<close> (\<^verbatim>\<open>vsync/watcher.go\<close>), \<open>Sync_Watcher_Props\<close>: what a batch of the log becomes in the history, and two
    kinds of batches that it does not handle.
  \<^item> \<open>Go_Heap\<close> (the algorithms of Go's \<^verbatim>\<open>container/heap\<close>, locale \<open>heap_interface\<close>), \<open>Responder\<close> (\<^verbatim>\<open>responder.go\<close>),
    \<open>Responder_Props\<close>, \<open>Responder_Complete\<close>, \<open>Responder_Auth\<close>: what the responder sends, in which order, and what it
    answers an initiator that is not admitted.
  \<^item> \<open>Cr_Merge\<close> (\<^verbatim>\<open>cr_permissions.go\<close>, \<^verbatim>\<open>cr_syncgroup.go\<close>) and \<open>Cr_Policy\<close> (\<^verbatim>\<open>cr_last_wins.go\<close>,
    \<^verbatim>\<open>cr_policy_filter.go\<close>): merges and the choice of the policy; two devices that resolve the same conflict agree.
    \<open>Cr_Closure\<close> (\<^verbatim>\<open>cr_closure.go\<close>), \<open>Cr_Closure_Props\<close>: the groups of objects that batches link. \<open>Cr_App\<close>
    (\<^verbatim>\<open>cr_app_resolves.go\<close>): the dialogue with the application, as the messages sent and received.
  \<^item> \<open>Initiator_State\<close> and \<open>Initiator\<close> (\<^verbatim>\<open>initiator.go\<close>): a round of the initiator from the request to the vectors.
    \<open>Initiator_Vectors\<close>: what the vectors are after a round. \<open>Initiator_Heads\<close>: the database shows the heads.
    \<open>Initiator_Conflicts\<close>: what happens to conflicts that nobody resolves. \<open>Exchange\<close> composes the initiator with the
    responder: after an exchange the initiator holds what its vectors claim.
  \<^item> \<open>Crc64_Window\<close> (\<^verbatim>\<open>crc64window.go\<close>): the table-driven rolling checksum equals the CRC of its window. \<open>Chunker\<close>
    (\<^verbatim>\<open>chunker.go\<close>), \<open>Chunker_Props\<close>: over any reader that meets the locale \<open>reader\<close>, the chunks are cuts that the content alone
    defines. \<open>Blob_Reader\<close> (\<^verbatim>\<open>fs_cablobstore.go\<close>): fragments and readers of blobs, which meet that locale.
    \<open>Blob_Map\<close> (\<^verbatim>\<open>blobmap.go\<close>), \<open>Blob_Map_Props\<close>: where chunks are found, two tables over the storage engine of \<open>Transactions\<close> that
    implement two finite maps.
  \<^item> \<open>VClock\<close> (\<^verbatim>\<open>vclock/*.go\<close>, \<^verbatim>\<open>vsync/clock.go\<close>), \<open>VClock_Props\<close>: updates of the virtual clock from the system clock, from
    NTP and from peers, with the packets of NTP.

  \<^bold>\<open>Conventions.\<close> Errors are values (\<open>Inl\<close>); a panic or fatal exit is a branch of its own. Operations that run
  under one mutex are one step. A Go map that is ranged over is an association list, whose order stands for the order
  the loop takes; theorems hold for every order. Loops that might not end are partial functions into \<open>option\<close>, and
  their results are shown to exist. Where a stream is drained by a function with fuel, any fuel above the number of remaining
  bytes or pairs is enough, and the theorems say so; the closure of a conflict takes fuel for each of the \<open>2 ^ 64\<close> batch ids. Generations, positions and sequence numbers are 64-bit words; where a theorem needs
  it, a hypothesis bounds them below the wrap-around.

  \<^bold>\<open>Parameters.\<close> Code of other repositories is an argument of the definitions: the pattern match of access
  lists, the normal form of permissions and the set helpers of \<^verbatim>\<open>x/lib\<close>, the prefix ranges of the v23 API, the
  random numbers of batch ids and versions, the clock, the hash behind syncgroup ids, the check of identifiers, the
  walk over a stored value for blob references, the deletion of log records that callers pass to pruning, the encoding of
  values that travel, the answers of peers, of the application and of NTP servers, the outcomes of commits, the files
  under a blob, the \<^verbatim>\<open>io.Reader\<close> of the chunker and the readings of the system clock.

  \<^bold>\<open>Not modelled.\<close> The encoding of values, the transport of RPC, timers, channels and goroutines, LevelDB, the files, writers and garbage
  collection of the blob store with its metadata, the transfer of blobs, peer selection, the RPC handlers that create, join and
  publish syncgroups, the server's RPC handlers, and the other programs of the repository (runtime, VDL compiler, device manager, mount table, commands).
  Sharing of ptrie nodes between copies is invisible in the model, where tries are values.
\<close>

end
